(* ===== verification/Prelude.thy ===== *)
theory Prelude
  imports Main "HOL-Library.Word" "HOL-Library.Char_ord" "HOL-Library.List_Lexorder"
begin

section \<open>Shared types, automation and lemmas\<close>

text \<open>
  The types every component names (bytes, buffers, keys, status codes), the
  standard-library operations the source calls everywhere (\<^verbatim>\<open>memcpy\<close>,
  \<^verbatim>\<open>std::to_string\<close>, stream extraction of a number, \<^verbatim>\<open>std::getline\<close> with a
  delimiter) and the generic lemmas about them.  A buffer is a list of bytes; a
  list of \<open>(offset, length)\<close> pairs is what the source calls a data boundary.
\<close>

unbundle bit_operations_syntax

type_synonym byte = "8 word"
type_synonym bytes = "byte list"
type_synonym key = string
type_synonym boundary = "(nat \<times> nat) list"

named_theorems code_defs \<open>definitions of small operations, unfolded together\<close>
named_theorems wf_intros \<open>introduction rules of well-formedness predicates\<close>

subsection \<open>Copying into a buffer\<close>

text \<open>\<open>blit dst off src\<close> is \<^verbatim>\<open>memcpy(dst + off, src, length src)\<close>.\<close>

definition blit :: "'a list \<Rightarrow> nat \<Rightarrow> 'a list \<Rightarrow> 'a list" where
  "blit dst off src = take off dst @ src @ drop (off + length src) dst"

definition slice :: "nat \<Rightarrow> nat \<Rightarrow> 'a list \<Rightarrow> 'a list" where
  "slice off len xs = take len (drop off xs)"

lemma length_slice [simp]: "off + len \<le> length xs \<Longrightarrow> length (slice off len xs) = len"
  by (simp add: slice_def)

lemma nth_slice [simp]:
  "off + len \<le> length xs \<Longrightarrow> i < len \<Longrightarrow> slice off len xs ! i = xs ! (off + i)"
  by (simp add: slice_def)

lemma length_blit [simp]:
  "off + length src \<le> length dst \<Longrightarrow> length (blit dst off src) = length dst"
  by (simp add: blit_def)

lemma nth_blit:
  assumes "off + length src \<le> length dst" and "i < length dst"
  shows "blit dst off src ! i =
    (if off \<le> i \<and> i < off + length src then src ! (i - off) else dst ! i)"
  using assms by (auto simp: blit_def nth_append min_def)

lemma nth_blit_in [simp]:
  "off + length src \<le> length dst \<Longrightarrow> off \<le> i \<Longrightarrow> i < off + length src
     \<Longrightarrow> blit dst off src ! i = src ! (i - off)"
  by (subst nth_blit) auto

lemma nth_blit_out [simp]:
  "off + length src \<le> length dst \<Longrightarrow> i < length dst \<Longrightarrow> i < off \<or> off + length src \<le> i
     \<Longrightarrow> blit dst off src ! i = dst ! i"
  by (subst nth_blit) auto

lemma blit_Nil [simp]: "blit dst off [] = dst"
  by (simp add: blit_def)

lemma take_blit_before [simp]: "n \<le> off \<Longrightarrow> off \<le> length dst \<Longrightarrow> take n (blit dst off src) = take n dst"
  by (simp add: blit_def min_def)

subsection \<open>Data boundaries as sets of positions\<close>

definition segs_set :: "boundary \<Rightarrow> nat set" where
  "segs_set bs = (\<Union>(o', l) \<in> set bs. {o'..<o' + l})"

lemma segs_set_Nil [simp]: "segs_set [] = {}"
  by (simp add: segs_set_def)

lemma segs_set_Cons [simp]: "segs_set ((a, l) # bs) = {a..<a + l} \<union> segs_set bs"
  by (simp add: segs_set_def)

lemma segs_set_append [simp]: "segs_set (xs @ ys) = segs_set xs \<union> segs_set ys"
  by (auto simp: segs_set_def)

lemma segs_set_shift:
  "segs_set (map (\<lambda>(a, l). (a + d, l)) bs) = (\<lambda>i. i + d) ` segs_set bs"
proof (induction bs)
  case (Cons b bs)
  have "{a + d..<a + d + l} = (\<lambda>i. i + d) ` {a..<a + l}" for a l
    by (simp add: ac_simps)
  with Cons show ?case by (cases b) (simp add: image_Un)
qed simp

text \<open>
  A boundary is \<open>ordered\<close> when its segments are non-empty, increasing and lie in
  \<open>[lo, hi)\<close>: this is what the gap-filling loops of the callers rely on.
\<close>

fun ordered_segs :: "nat \<Rightarrow> nat \<Rightarrow> boundary \<Rightarrow> bool" where
  "ordered_segs lo hi [] = (lo \<le> hi)"
| "ordered_segs lo hi ((a, l) # bs) = (lo \<le> a \<and> 0 < l \<and> ordered_segs (a + l) hi bs)"

definition segs_total :: "boundary \<Rightarrow> nat" where
  "segs_total bs = sum_list (map snd bs)"

lemma segs_total_simps [simp]:
  "segs_total [] = 0" "segs_total ((a, l) # bs) = l + segs_total bs"
  "segs_total (xs @ ys) = segs_total xs + segs_total ys"
  by (simp_all add: segs_total_def)

lemma ordered_segs_le: "ordered_segs lo hi bs \<Longrightarrow> lo \<le> hi"
  by (induction lo hi bs rule: ordered_segs.induct) auto

lemma ordered_segs_weaken: "ordered_segs lo hi bs \<Longrightarrow> lo' \<le> lo \<Longrightarrow> ordered_segs lo' hi bs"
  by (cases bs) (auto dest: ordered_segs_le)

lemma ordered_segs_hi: "ordered_segs lo hi bs \<Longrightarrow> hi \<le> hi' \<Longrightarrow> ordered_segs lo hi' bs"
  by (induction lo hi bs rule: ordered_segs.induct) auto

lemma segs_set_bounds: "ordered_segs lo hi bs \<Longrightarrow> segs_set bs \<subseteq> {lo..<hi}"
  by (induction lo hi bs rule: ordered_segs.induct) (auto dest: ordered_segs_le)

lemma ordered_segs_append:
  "ordered_segs lo mid xs \<Longrightarrow> ordered_segs mid hi ys \<Longrightarrow> ordered_segs lo hi (xs @ ys)"
  by (induction lo mid xs rule: ordered_segs.induct) (auto intro: ordered_segs_weaken)

lemma ordered_segs_shift:
  "ordered_segs lo hi bs \<Longrightarrow> ordered_segs (lo + d) (hi + d) (map (\<lambda>(a, l). (a + d, l)) bs)"
proof (induction lo hi bs rule: ordered_segs.induct)
  case (2 lo hi a l bs)
  then have "ordered_segs (a + l + d) (hi + d) (map (\<lambda>(a, l). (a + d, l)) bs)" by simp
  with 2 show ?case by (simp add: ac_simps)
qed simp

lemma segs_set_finite [simp]: "finite (segs_set bs)"
  by (auto simp: segs_set_def)

lemma segs_total_card: "ordered_segs lo hi bs \<Longrightarrow> segs_total bs = card (segs_set bs)"
proof (induction lo hi bs rule: ordered_segs.induct)
  case (2 lo hi a l bs)
  then have "segs_set bs \<subseteq> {a + l..<hi}" by (simp add: segs_set_bounds)
  then have "{a..<a + l} \<inter> segs_set bs = {}" by auto
  with 2 show ?case by (simp add: card_Un_disjoint)
qed simp

lemma segs_total_shift [simp]: "segs_total (map (\<lambda>(a, l). (a + d, l)) bs) = segs_total bs"
  by (induction bs) auto

subsection \<open>Cutting a length into chunks\<close>

text \<open>The chunks of \<^verbatim>\<open>for (offset = 0; offset < len; offset += chunkSize)\<close>.\<close>

function chunks :: "nat \<Rightarrow> nat \<Rightarrow> nat \<Rightarrow> (nat \<times> nat) list" where
  "chunks chunkSize len offset =
     (if offset < len \<and> 0 < chunkSize
      then (offset, min chunkSize (len - offset)) # chunks chunkSize len (offset + chunkSize)
      else [])"
  by pat_completeness auto
termination by (relation "measure (\<lambda>(c, r, off). r - off)") auto

declare chunks.simps [simp del]

lemma chunks_step: "off < len \<Longrightarrow> 0 < c \<Longrightarrow>
    chunks c len off = (off, min c (len - off)) # chunks c len (off + c)"
  by (subst chunks.simps) simp

lemma chunks_done: "\<not> off < len \<Longrightarrow> chunks c len off = []"
  by (subst chunks.simps) simp

lemma chunks_within: "(o', n) \<in> set (chunks c len off) \<Longrightarrow> off \<le> o' \<and> 0 < n \<and> o' + n \<le> len \<and> n \<le> c"
proof (induction c len off rule: chunks.induct)
  case (1 c len off)
  show ?case
  proof (cases "off < len \<and> 0 < c")
    case True
    then have "(o', n) = (off, min c (len - off)) \<or> (o', n) \<in> set (chunks c len (off + c))"
      using "1.prems" by (auto simp: chunks.simps [of c len off])
    then show ?thesis using "1.IH" [OF True] True by auto
  next
    case False
    then show ?thesis using "1.prems" by (auto simp: chunks.simps [of c len off])
  qed
qed

subsection \<open>Numbers as text\<close>

definition digit :: "nat \<Rightarrow> char" where
  "digit d = char_of (48 + d)"

text \<open>\<^verbatim>\<open>std::to_string\<close> of an unsigned number.\<close>

fun to_string :: "nat \<Rightarrow> string" where
  "to_string n = (if n < 10 then [digit n] else to_string (n div 10) @ [digit (n mod 10)])"

declare to_string.simps [simp del]

definition is_digit :: "char \<Rightarrow> bool" where
  "is_digit c = (48 \<le> (of_char c :: nat) \<and> (of_char c :: nat) \<le> 57)"

definition digit_val :: "char \<Rightarrow> nat" where
  "digit_val c = of_char c - 48"

text \<open>\<^verbatim>\<open>stream >> n\<close> on text without leading blanks: the longest run of digits.\<close>

fun read_digits :: "nat \<Rightarrow> string \<Rightarrow> nat" where
  "read_digits acc [] = acc"
| "read_digits acc (c # cs) = (if is_digit c then read_digits (acc * 10 + digit_val c) cs else acc)"

definition read_nat :: "string \<Rightarrow> nat" where
  "read_nat s = read_digits 0 s"

lemma of_char_digit: "d < 10 \<Longrightarrow> (of_char (digit d) :: nat) = 48 + d"
  by (simp add: digit_def)

lemma is_digit_digit [simp]: "d < 10 \<Longrightarrow> is_digit (digit d)"
  by (simp add: is_digit_def of_char_digit)

lemma digit_val_digit [simp]: "d < 10 \<Longrightarrow> digit_val (digit d) = d"
  by (simp add: digit_val_def of_char_digit)

lemma to_string_digits: "c \<in> set (to_string n) \<Longrightarrow> is_digit c"
proof (induction n rule: to_string.induct)
  case (1 n)
  show ?case
  proof (cases "n < 10")
    case True
    with "1.prems" show ?thesis by (simp add: to_string.simps [of n])
  next
    case False
    with "1.prems" have "c \<in> set (to_string (n div 10)) \<or> c = digit (n mod 10)"
      by (auto simp: to_string.simps [of n])
    with "1.IH" [OF False] show ?thesis by auto
  qed
qed

lemma to_string_neq_Nil [simp]: "to_string n \<noteq> []"
  by (subst to_string.simps) simp

lemma read_digits_append:
  "\<forall>c \<in> set xs. is_digit c \<Longrightarrow> read_digits acc (xs @ ys) = read_digits (read_digits acc xs) ys"
  by (induction xs arbitrary: acc) auto

lemma read_to_string [simp]: "read_nat (to_string n) = n"
proof -
  have "read_digits 0 (to_string n) = n"
  proof (induction n rule: to_string.induct)
    case (1 n)
    show ?case
    proof (cases "n < 10")
      case True
      then show ?thesis by (simp add: to_string.simps [of n])
    next
      case False
      with "1.IH" have "read_digits 0 (to_string (n div 10)) = n div 10" by simp
      with False show ?thesis
        by (simp add: to_string.simps [of n] read_digits_append to_string_digits)
    qed
  qed
  then show ?thesis by (simp add: read_nat_def)
qed

lemma to_string_inj [simp]: "to_string m = to_string n \<longleftrightarrow> m = n"
  by (metis read_to_string)

text \<open>Cutting a list at its last separator.\<close>

lemma last_sep_unique:
  assumes "xs @ s # ys = xs' @ s # ys'" and "s \<notin> set ys" and "s \<notin> set ys'"
  shows "xs = xs' \<and> ys = ys'"
proof -
  have "rev ys @ s # rev xs = rev ys' @ s # rev xs'" using arg_cong [OF assms(1), of rev] by simp
  moreover have "takeWhile (\<lambda>x. x \<noteq> s) (rev ys @ s # rev xs) = rev ys"
    using assms(2) by (subst takeWhile_append2) auto
  moreover have "takeWhile (\<lambda>x. x \<noteq> s) (rev ys' @ s # rev xs') = rev ys'"
    using assms(3) by (subst takeWhile_append2) auto
  ultimately have "ys = ys'" by (metis rev_rev_ident)
  with assms(1) show ?thesis by simp
qed

subsection \<open>Reading pieces of text up to a delimiter\<close>

text \<open>
  \<^verbatim>\<open>while (std::getline(stream, item, delim))\<close>: the pieces between delimiters; text that
  ends in a delimiter gives no empty last piece.
\<close>

fun getlines_acc :: "char \<Rightarrow> string \<Rightarrow> string \<Rightarrow> string list" where
  "getlines_acc d acc [] = (if acc = [] then [] else [rev acc])"
| "getlines_acc d acc (c # cs) =
     (if c = d then rev acc # getlines_acc d [] cs else getlines_acc d (c # acc) cs)"

definition getlines :: "char \<Rightarrow> string \<Rightarrow> string list" where
  "getlines d s = getlines_acc d [] s"

lemma getlines_acc_append:
  "d \<notin> set xs \<Longrightarrow> getlines_acc d acc (xs @ d # ys) = (rev acc @ xs) # getlines d ys"
  by (induction xs arbitrary: acc) (auto simp: getlines_def)

lemma getlines_split: "d \<notin> set xs \<Longrightarrow> getlines d (xs @ d # ys) = xs # getlines d ys"
  by (simp add: getlines_def getlines_acc_append)

lemma getlines_acc_one: "d \<notin> set xs \<Longrightarrow> acc @ xs \<noteq> [] \<Longrightarrow> getlines_acc d acc xs = [rev acc @ xs]"
  by (induction xs arbitrary: acc) auto

lemma getlines_one: "d \<notin> set xs \<Longrightarrow> xs \<noteq> [] \<Longrightarrow> getlines d xs = [xs]"
  by (simp add: getlines_def getlines_acc_one)

lemma getlines_acc_no_delim: "x \<in> set (getlines_acc d acc s) \<Longrightarrow> d \<notin> set acc \<Longrightarrow> d \<notin> set x"
  by (induction d acc s rule: getlines_acc.induct) (auto split: if_splits)

lemma getlines_no_delim: "x \<in> set (getlines d s) \<Longrightarrow> d \<notin> set x"
  by (auto simp: getlines_def dest: getlines_acc_no_delim)

subsection \<open>Bits of a byte\<close>

lemma bit_byte_high [simp]: "8 \<le> n \<Longrightarrow> \<not> bit (b :: byte) n"
  using bit_imp_le_length [of b n] by auto

lemma bit_allones [simp]: "bit (255 :: byte) n \<longleftrightarrow> n < 8"
proof -
  have "(255 :: byte) = - 1" by simp
  then have "bit (255 :: byte) n = bit (- 1 :: byte) n" by (rule arg_cong)
  also have "\<dots> \<longleftrightarrow> n < 8" by (simp only: bit_minus_1_iff possible_bit_word) simp
  finally show ?thesis .
qed

lemma bit_255_int [simp]: "bit (255 :: int) n \<longleftrightarrow> n < 8"
proof -
  have "(255 :: int) = mask 8" by (simp add: mask_eq_exp_minus_1)
  then have "bit (255 :: int) n = bit (mask 8 :: int) n" by (rule arg_cong)
  also have "\<dots> \<longleftrightarrow> n < 8" by (simp only: bit_mask_iff) simp
  finally show ?thesis .
qed

lemma bit_pow_byte [simp]: "bit (2 ^ n :: byte) k \<longleftrightarrow> k = n \<and> n < 8"
  by (auto simp: bit_exp_iff)

lemma byte_eq_iff: "(a :: byte) = b \<longleftrightarrow> (\<forall>n < 8. bit a n = bit b n)"
  by (auto intro: bit_word_eqI)

section \<open>Error numbers\<close>

abbreviation ENOENT :: int where "ENOENT \<equiv> 2"
abbreviation EIO :: int where "EIO \<equiv> 5"
abbreviation EBADF :: int where "EBADF \<equiv> 9"
abbreviation ECANCELED :: int where "ECANCELED \<equiv> 125"

end
