(* ===== verification/Local_Config.thy ===== *)
theory Local_Config
  imports Prelude
begin

section \<open>Configuration of the local cache (\<^verbatim>\<open>local_cache/config.h\<close>, \<^verbatim>\<open>errorcode.h\<close>)\<close>

text \<open>
  The configuration structures and the status codes of \<^verbatim>\<open>HybridCache\<close>.  Sizes and counts are
  natural numbers: they are bounded by the memory of the machine, and no operation modelled
  here depends on their wrap-around (where one does, words are used).
\<close>

subsection \<open>Status codes\<close>

abbreviation SUCCESS :: int where "SUCCESS \<equiv> 0"
abbreviation PAGE_NOT_FOUND :: int where "PAGE_NOT_FOUND \<equiv> -1"
abbreviation PAGE_DEL_FAIL :: int where "PAGE_DEL_FAIL \<equiv> -2"
abbreviation ADAPTOR_NOT_FOUND :: int where "ADAPTOR_NOT_FOUND \<equiv> -3"
abbreviation REMOTE_FILE_NOT_FOUND :: int where "REMOTE_FILE_NOT_FOUND \<equiv> -4"

definition BYTE_LEN :: nat where [code_defs]: "BYTE_LEN = 8"

definition PAGE_SEPARATOR :: char where "PAGE_SEPARATOR = CHR 0x1A"

subsection \<open>The structures\<close>

record CacheLibConfig =
  EnableNvmCache :: bool
  RaidPath :: string
  RaidFileNum :: nat
  RaidFileSize :: nat
  DataChecksum :: bool

record CacheConfig =
  CacheName :: string
  MaxCacheSize :: nat
  PageBodySize :: nat
  PageMetaSize :: nat
  EnableCAS :: bool
  SafeMode :: bool
  CacheLibCfg :: CacheLibConfig

record ReadCacheConfig =
  ReadCacheCfg_CacheCfg :: CacheConfig
  DownloadNormalFlowLimit :: nat
  DownloadBurstFlowLimit :: nat

record WriteCacheConfig =
  WriteCacheCfg_CacheCfg :: CacheConfig
  CacheSafeRatio :: nat
  EnableThrottle :: bool

record GlobalCacheConfig =
  EnableWriteCache :: bool
  EtcdAddress :: string
  GlobalServers :: "string list"
  GflagFile :: string

record HybridCacheConfig =
  ReadCacheCfg :: ReadCacheConfig
  WriteCacheCfg :: WriteCacheConfig
  GlobalCacheCfg :: GlobalCacheConfig
  ThreadNum :: nat
  BackFlushCacheRatio :: nat
  UploadNormalFlowLimit :: nat
  UploadBurstFlowLimit :: nat
  LogPath :: string
  LogLevel :: nat
  EnableLog :: bool
  UseGlobalCache :: bool
  FlushToRead :: bool
  CleanCacheByOpen :: bool
  EnableResize :: bool
  EnableLinUCB :: bool

text \<open>\<^verbatim>\<open>False\<close> stands for the \<^verbatim>\<open>LOG(FATAL)\<close> branches, which end the process.\<close>

definition CheckConfig :: "HybridCacheConfig \<Rightarrow> bool" where
  "CheckConfig cfg =
     (if EnableNvmCache (CacheLibCfg (WriteCacheCfg_CacheCfg (WriteCacheCfg cfg))) then False
      else if PageBodySize (ReadCacheCfg_CacheCfg (ReadCacheCfg cfg)) mod BYTE_LEN \<noteq> 0 \<or>
              PageBodySize (WriteCacheCfg_CacheCfg (WriteCacheCfg cfg)) mod BYTE_LEN \<noteq> 0 then False
      else True)"

text \<open>
  What a page needs of its configuration: a body of whole bitmap bytes (checked by
  \<^verbatim>\<open>CheckConfig\<close>) and a meta area that holds the four meta bytes of \<^verbatim>\<open>MetaPos\<close> (not checked
  anywhere: the shipped configurations use 1024).
\<close>

definition page_cfg_ok :: "CacheConfig \<Rightarrow> bool" where
  "page_cfg_ok cfg = (0 < PageBodySize cfg \<and> PageBodySize cfg mod 8 = 0 \<and> 4 \<le> PageMetaSize cfg)"

lemma CheckConfig_page_cfg_ok:
  assumes "CheckConfig cfg"
    and "0 < PageBodySize (WriteCacheCfg_CacheCfg (WriteCacheCfg cfg))"
    and "4 \<le> PageMetaSize (WriteCacheCfg_CacheCfg (WriteCacheCfg cfg))"
  shows "page_cfg_ok (WriteCacheCfg_CacheCfg (WriteCacheCfg cfg))"
  using assms by (auto simp: CheckConfig_def page_cfg_ok_def BYTE_LEN_def split: if_splits)

end
