(* ===== verification/Page_Memory.thy ===== *)
theory Page_Memory
  imports Local_Config
begin

section \<open>The memory of a page (\<^verbatim>\<open>local_cache/page_cache.cpp\<close>, class \<^verbatim>\<open>PageCache\<close>)\<close>

text \<open>
  A cached page is one block of bytes: \<^verbatim>\<open>PageMetaSize\<close> bytes of meta data (the first four are
  the lock, the last and the new version and the fast bitmap), one validity bit for each body
  byte, and the \<^verbatim>\<open>PageBodySize\<close> body bytes.  The operations below are the protected methods of
  \<^verbatim>\<open>PageCache\<close> on such a block; an atomic operation returns its result with the new block.
\<close>

datatype MetaPos = LOCK | LASTVER | NEWVER | FAST_BITMAP

primrec meta_pos :: "MetaPos \<Rightarrow> nat" where
  "meta_pos LOCK = 0"
| "meta_pos LASTVER = 1"
| "meta_pos NEWVER = 2"
| "meta_pos FAST_BITMAP = 3"

subsection \<open>Lock and version bytes\<close>

definition Page_Lock :: "CacheConfig \<Rightarrow> bytes \<Rightarrow> bool \<times> bytes" where
  "Page_Lock cfg m =
     (if \<not> EnableCAS cfg then (True, m)
      else if m ! meta_pos LOCK = 0 then (True, m[meta_pos LOCK := 1]) else (False, m))"

definition Page_UnLock :: "CacheConfig \<Rightarrow> bytes \<Rightarrow> bytes" where
  "Page_UnLock cfg m = (if \<not> EnableCAS cfg then m else m[meta_pos LOCK := 0])"

definition AddNewVer :: "CacheConfig \<Rightarrow> bytes \<Rightarrow> byte \<times> bytes" where
  "AddNewVer cfg m =
     (if \<not> EnableCAS cfg then (0, m)
      else let v = m ! meta_pos NEWVER + 1 in (v, m[meta_pos NEWVER := v]))"

definition SetLastVer :: "CacheConfig \<Rightarrow> bytes \<Rightarrow> byte \<Rightarrow> bytes" where
  "SetLastVer cfg m newVer = (if \<not> EnableCAS cfg then m else m[meta_pos LASTVER := newVer])"

definition GetLastVer :: "CacheConfig \<Rightarrow> bytes \<Rightarrow> byte" where
  "GetLastVer cfg m = (if \<not> EnableCAS cfg then 0 else m ! meta_pos LASTVER)"

definition GetNewVer :: "CacheConfig \<Rightarrow> bytes \<Rightarrow> byte" where
  "GetNewVer cfg m = (if \<not> EnableCAS cfg then 0 else m ! meta_pos NEWVER)"

subsection \<open>The bitmap\<close>

definition SetFastBitmap :: "bytes \<Rightarrow> bool \<Rightarrow> bytes" where
  "SetFastBitmap m valid = (if valid then m[meta_pos FAST_BITMAP := 1] else m[meta_pos FAST_BITMAP := 0])"

definition GetFastBitmap :: "bytes \<Rightarrow> bool" where
  "GetFastBitmap m = (m ! meta_pos FAST_BITMAP = 1)"

definition SetBit :: "byte \<Rightarrow> nat \<Rightarrow> byte" where
  "SetBit x n = x OR push_bit n 1"

definition ClearBit :: "byte \<Rightarrow> nat \<Rightarrow> byte" where
  "ClearBit x n = x AND NOT (push_bit n 1)"

definition GetBit :: "byte \<Rightarrow> nat \<Rightarrow> bool" where
  "GetBit x n = (x AND push_bit n 1 \<noteq> 0)"

text \<open>The loop \<^verbatim>\<open>while (n) SetBit(x, base + (--n))\<close>, or with \<^verbatim>\<open>ClearBit\<close>.\<close>

fun mark_bits :: "bool \<Rightarrow> nat \<Rightarrow> nat \<Rightarrow> byte \<Rightarrow> byte" where
  "mark_bits valid base 0 b = b"
| "mark_bits valid base (Suc n) b =
     mark_bits valid base n (if valid then SetBit b (base + n) else ClearBit b (base + n))"

definition SetBitMap_head ::
    "nat \<Rightarrow> bool \<Rightarrow> nat \<Rightarrow> bytes \<Rightarrow> nat \<Rightarrow> nat \<Rightarrow> bytes \<times> nat \<times> nat" where
  "SetBitMap_head x valid pos m len startByte =
     (if pos mod BYTE_LEN > 0
      then let headByteSetLen = BYTE_LEN - pos mod BYTE_LEN;
               headByteSetLen = (if headByteSetLen > len then len else headByteSetLen)
           in (m[x + startByte := mark_bits valid (pos mod BYTE_LEN) headByteSetLen (m ! (x + startByte))],
               len - headByteSetLen, startByte + 1)
      else (m, len, startByte))"

definition SetBitMap_mid ::
    "nat \<Rightarrow> bool \<Rightarrow> bytes \<Rightarrow> nat \<Rightarrow> nat \<Rightarrow> bytes \<times> nat \<times> nat" where
  "SetBitMap_mid x valid m len startByte =
     (let midLen = len div BYTE_LEN
      in if midLen > 0
         then (blit m (x + startByte) (replicate midLen (if valid then 255 else 0)),
               len - BYTE_LEN * midLen, startByte + midLen)
         else (m, len, startByte))"

definition SetBitMap_tail :: "nat \<Rightarrow> bool \<Rightarrow> bytes \<Rightarrow> nat \<Rightarrow> nat \<Rightarrow> bytes" where
  "SetBitMap_tail x valid m len startByte =
     (if len > 0 then m[x + startByte := mark_bits valid 0 len (m ! (x + startByte))] else m)"

definition SetBitMap :: "CacheConfig \<Rightarrow> bytes \<Rightarrow> nat \<Rightarrow> nat \<Rightarrow> bool \<Rightarrow> bytes" where
  "SetBitMap cfg m pos len valid =
     (let m = (if len = PageBodySize cfg \<and> valid then SetFastBitmap m valid else m);
          m = (if \<not> valid then SetFastBitmap m valid else m);
          x = PageMetaSize cfg;
          (m, len, startByte) = SetBitMap_head x valid pos m len (pos div BYTE_LEN);
          (m, len, startByte) = SetBitMap_mid x valid m len startByte
      in SetBitMap_tail x valid m len startByte)"

subsection \<open>What the bitmap says, as a predicate on body positions\<close>

definition page_bit :: "CacheConfig \<Rightarrow> bytes \<Rightarrow> nat \<Rightarrow> bool" where
  "page_bit cfg m i = GetBit (m ! (PageMetaSize cfg + i div 8)) (i mod 8)"

definition bitmap_size :: "CacheConfig \<Rightarrow> nat" where
  "bitmap_size cfg = PageBodySize cfg div BYTE_LEN"

definition body_off :: "CacheConfig \<Rightarrow> nat" where
  "body_off cfg = PageMetaSize cfg + bitmap_size cfg"

definition page_len :: "CacheConfig \<Rightarrow> nat" where
  "page_len cfg = PageMetaSize cfg + bitmap_size cfg + PageBodySize cfg"

lemma GetBit_bit: "n < 8 \<Longrightarrow> GetBit b n = bit b n"
proof -
  assume n: "n < 8"
  have "b AND push_bit n 1 = (if bit b n then push_bit n 1 else 0)"
    using n by (intro bit_word_eqI) (auto simp: bit_and_iff bit_push_bit_iff bit_1_iff)
  moreover have "push_bit n (1 :: byte) \<noteq> 0"
  proof
    assume "push_bit n (1 :: byte) = 0"
    then have "bit (push_bit n (1 :: byte)) n = bit (0 :: byte) n" by (rule arg_cong)
    with n show False by simp
  qed
  ultimately show ?thesis by (simp add: GetBit_def)
qed

lemma bit_SetBit: "n < 8 \<Longrightarrow> bit (SetBit b n) k = (k = n \<or> bit b k)"
  by (auto simp: SetBit_def bit_or_iff bit_push_bit_iff bit_1_iff)

lemma bit_ClearBit: "k < 8 \<Longrightarrow> bit (ClearBit b n) k = (k \<noteq> n \<and> bit b k)"
  by (auto simp: ClearBit_def bit_and_iff bit_not_iff bit_push_bit_iff bit_1_iff)

lemma bit_mark_bits:
  "base + n \<le> 8 \<Longrightarrow> k < 8 \<Longrightarrow>
     bit (mark_bits v base n b) k = (if base \<le> k \<and> k < base + n then v else bit b k)"
proof (induction v base n b rule: mark_bits.induct)
  case (2 v base n b)
  then show ?case by (auto simp: bit_SetBit bit_ClearBit)
qed auto

text \<open>
  \<open>marked cfg v lo hi m m'\<close>: the block \<open>m'\<close> is \<open>m\<close> with the validity of the body positions
  \<open>lo \<le> i < hi\<close> set to \<open>v\<close>; nothing outside the bitmap changed.
\<close>

definition marked :: "CacheConfig \<Rightarrow> bool \<Rightarrow> nat \<Rightarrow> nat \<Rightarrow> bytes \<Rightarrow> bytes \<Rightarrow> bool" where
  "marked cfg v lo hi m m' =
     (length m' = length m \<and>
      (\<forall>i < length m. i < PageMetaSize cfg \<or> body_off cfg \<le> i \<longrightarrow> m' ! i = m ! i) \<and>
      (\<forall>i < PageBodySize cfg. page_bit cfg m' i = (if lo \<le> i \<and> i < hi then v else page_bit cfg m i)))"

lemma marked_empty: "marked cfg v lo lo m m"
  by (auto simp: marked_def)

lemma marked_trans:
  assumes "marked cfg v lo mid m m1" and "marked cfg v mid hi m1 m2" and "lo \<le> mid" and "mid \<le> hi"
  shows "marked cfg v lo hi m m2"
  using assms by (auto simp: marked_def)

lemma div8_bitmap: "page_cfg_ok cfg \<Longrightarrow> i < PageBodySize cfg \<Longrightarrow> i div 8 < bitmap_size cfg"
  by (auto simp: page_cfg_ok_def bitmap_size_def BYTE_LEN_def)

lemma body8: "page_cfg_ok cfg \<Longrightarrow> PageBodySize cfg = 8 * bitmap_size cfg"
  by (auto simp: page_cfg_ok_def bitmap_size_def BYTE_LEN_def)

lemma marked_byte:
  assumes ok: "page_cfg_ok cfg" and len: "length m = page_len cfg"
    and s: "s < bitmap_size cfg" and bn: "base + n \<le> 8"
  shows "marked cfg v (8 * s + base) (8 * s + base + n) m
           (m[PageMetaSize cfg + s := mark_bits v base n (m ! (PageMetaSize cfg + s))])"
proof -
  let ?m = "m[PageMetaSize cfg + s := mark_bits v base n (m ! (PageMetaSize cfg + s))]"
  have "page_bit cfg ?m i = (if 8 * s + base \<le> i \<and> i < 8 * s + base + n then v else page_bit cfg m i)"
    if i: "i < PageBodySize cfg" for i
  proof (cases "i div 8 = s")
    case True
    then have "i = 8 * s + i mod 8" by auto
    then obtain k where k: "i = 8 * s + k" "k < 8" by (metis mod_less_divisor zero_less_numeral)
    with s len bn show ?thesis
      by (simp add: page_bit_def page_len_def GetBit_bit bit_mark_bits)
  next
    case False
    then have "\<not> (8 * s + base \<le> i \<and> i < 8 * s + base + n)" using bn by auto
    with False show ?thesis by (auto simp: page_bit_def)
  qed
  with s show ?thesis by (auto simp: marked_def body_off_def nth_list_update)
qed

lemma marked_fill:
  assumes ok: "page_cfg_ok cfg" and len: "length m = page_len cfg" and s: "s + n \<le> bitmap_size cfg"
  shows "marked cfg v (8 * s) (8 * (s + n)) m
           (blit m (PageMetaSize cfg + s) (replicate n (if v then 255 else 0)))"
proof -
  let ?x = "PageMetaSize cfg"
  let ?m = "blit m (?x + s) (replicate n (if v then 255 else 0))"
  have fits: "?x + s + length (replicate n (if v then 255 else 0 :: byte)) \<le> length m"
    using s len by (simp add: page_len_def)
  have "page_bit cfg ?m i = (if 8 * s \<le> i \<and> i < 8 * (s + n) then v else page_bit cfg m i)"
    if i: "i < PageBodySize cfg" for i
  proof -
    have lt: "?x + i div 8 < length m"
      using div8_bitmap [OF ok i] len by (simp add: page_len_def)
    have *: "8 * s \<le> i \<and> i < 8 * (s + n) \<longleftrightarrow> s \<le> i div 8 \<and> i div 8 < s + n" by auto
    show ?thesis
    proof (cases "s \<le> i div 8 \<and> i div 8 < s + n")
      case True
      then have "i div 8 - s < n" by linarith
      with True have "?m ! (?x + i div 8) = (if v then 255 else 0)"
        using nth_blit [OF fits lt] by simp
      then have "page_bit cfg ?m i = v" by (simp add: page_bit_def GetBit_bit)
      with True * show ?thesis by simp
    next
      case False
      then have "?m ! (?x + i div 8) = m ! (?x + i div 8)"
        using nth_blit [OF fits lt] by auto
      with False show ?thesis unfolding page_bit_def * by auto
    qed
  qed
  moreover have "?m ! i = m ! i" if "i < length m" "i < ?x \<or> body_off cfg \<le> i" for i
    using nth_blit [OF fits that(1)] that(2) s by (auto simp: body_off_def)
  ultimately show ?thesis using fits by (simp add: marked_def)
qed

lemma SetBitMap_parts_marked:
  assumes ok: "page_cfg_ok cfg" and len: "length m = page_len cfg"
    and fits: "pos + l \<le> PageBodySize cfg"
  shows "marked cfg v pos (pos + l) m
    (case SetBitMap_head (PageMetaSize cfg) v pos m l (pos div BYTE_LEN) of (m1, l1, s1) \<Rightarrow>
       case SetBitMap_mid (PageMetaSize cfg) v m1 l1 s1 of (m2, l2, s2) \<Rightarrow>
         SetBitMap_tail (PageMetaSize cfg) v m2 l2 s2)"
proof -
  let ?x = "PageMetaSize cfg"
  obtain m1 l1 s1 where hd: "SetBitMap_head ?x v pos m l (pos div BYTE_LEN) = (m1, l1, s1)"
    by (metis prod_cases3)
  obtain m2 l2 s2 where md: "SetBitMap_mid ?x v m1 l1 s1 = (m2, l2, s2)"
    by (metis prod_cases3)
  have b8: "PageBodySize cfg = 8 * bitmap_size cfg" using ok by (rule body8)
  have 1: "marked cfg v pos (pos + (l - l1)) m m1 \<and> l1 \<le> l \<and> (l1 = 0 \<or> pos + (l - l1) = 8 * s1)"
  proof (cases "pos mod 8 > 0")
    case True
    define h where "h = (if 8 - pos mod 8 > l then l else 8 - pos mod 8)"
    have eqs: "m1 = m[?x + pos div 8 := mark_bits v (pos mod 8) h (m ! (?x + pos div 8))]"
      "l1 = l - h" "s1 = pos div 8 + 1"
      using hd True by (auto simp: SetBitMap_head_def BYTE_LEN_def h_def Let_def split: if_splits)
    have h: "pos mod 8 + h \<le> 8" "h \<le> l" by (auto simp: h_def)
    have "marked cfg v pos (pos + h) m m1"
    proof (cases "h = 0")
      case True
      then show ?thesis using eqs by (simp add: marked_empty)
    next
      case False
      have "pos < PageBodySize cfg" using False h fits by simp
      then have s: "pos div 8 < bitmap_size cfg" using div8_bitmap [OF ok] by blast
      have pos: "8 * (pos div 8) + pos mod 8 = pos" by simp
      show ?thesis using marked_byte [OF ok len s h(1), of v] eqs unfolding pos by simp
    qed
    moreover have "l - l1 = h" using eqs h by simp
    moreover have "l1 = 0 \<or> pos + h = 8 * s1"
    proof (cases "8 - pos mod 8 > l")
      case True
      then show ?thesis using eqs by (simp add: h_def)
    next
      case False
      then have "pos + h = pos - pos mod 8 + 8" by (simp add: h_def)
      then have "pos + h = 8 * s1" using eqs by (simp add: minus_mod_eq_mult_div)
      then show ?thesis ..
    qed
    ultimately show ?thesis using eqs by simp
  next
    case False
    with hd have "m1 = m" "l1 = l" "s1 = pos div 8"
      by (simp_all add: SetBitMap_head_def BYTE_LEN_def)
    with False show ?thesis by (auto simp: marked_empty)
  qed
  then have len1: "length m1 = page_len cfg" using len by (simp add: marked_def)
  have 2: "marked cfg v (pos + (l - l1)) (pos + (l - l2)) m1 m2 \<and> l2 \<le> l1 \<and> l2 < 8 \<and>
      (l2 = 0 \<or> pos + (l - l2) = 8 * s2)"
  proof (cases "l1 div 8 > 0")
    case True
    have eqs: "m2 = blit m1 (?x + s1) (replicate (l1 div 8) (if v then 255 else 0))"
      "l2 = l1 - 8 * (l1 div 8)" "s2 = s1 + l1 div 8"
      using md True by (simp_all add: SetBitMap_mid_def BYTE_LEN_def Let_def)
    from 1 True have s1: "pos + (l - l1) = 8 * s1" "l1 \<le> l" by auto
    then have "8 * (s1 + l1 div 8) \<le> 8 * bitmap_size cfg" using fits b8 by auto
    then have "s1 + l1 div 8 \<le> bitmap_size cfg" by simp
    from marked_fill [OF ok len1 this, of v]
    have "marked cfg v (pos + (l - l1)) (8 * s2) m1 m2" using eqs s1 by simp
    moreover have "pos + (l - l2) = 8 * s2" using eqs s1 by auto
    ultimately show ?thesis using eqs by auto
  next
    case False
    with md have "m2 = m1" "l2 = l1" "s2 = s1" by (simp_all add: SetBitMap_mid_def BYTE_LEN_def)
    with False 1 show ?thesis by (auto simp: marked_empty)
  qed
  then have len2: "length m2 = page_len cfg" using len1 by (simp add: marked_def)
  have 3: "marked cfg v (pos + (l - l2)) (pos + l) m2 (SetBitMap_tail ?x v m2 l2 s2)"
  proof (cases "l2 > 0")
    case True
    with 1 2 have p: "pos + (l - l2) = 8 * s2" "l2 \<le> l" "l2 < 8" by auto
    then have "8 * s2 + l2 \<le> 8 * bitmap_size cfg" using fits b8 by simp
    then have s2: "s2 < bitmap_size cfg" using True by simp
    have "8 * s2 + l2 = pos + l" using p by simp
    with marked_byte [OF ok len2 s2, of 0 l2 v] True p show ?thesis
      by (simp add: SetBitMap_tail_def)
  next
    case False
    then show ?thesis by (simp add: SetBitMap_tail_def marked_empty)
  qed
  have le: "pos \<le> pos + (l - l1)" "pos + (l - l1) \<le> pos + (l - l2)" "pos \<le> pos + (l - l2)"
    "pos + (l - l2) \<le> pos + l"
    using 1 2 by linarith+
  have "marked cfg v pos (pos + (l - l2)) m m2"
    by (rule marked_trans [OF _ _ le(1,2)]) (use 1 2 in blast)+
  then have "marked cfg v pos (pos + l) m (SetBitMap_tail ?x v m2 l2 s2)"
    using 3 le(3,4) by (rule marked_trans)
  then show ?thesis by (simp add: hd md)
qed

subsection \<open>Well-formed pages and the content they stand for\<close>

text \<open>
  Between operations the lock is free, both versions agree, and a set fast bitmap means that
  every body byte is valid.  A page then stands for a partial map from body positions to bytes.
\<close>

definition page_ok :: "CacheConfig \<Rightarrow> bytes \<Rightarrow> bool" where
  "page_ok cfg m =
     (length m = page_len cfg \<and> m ! meta_pos LOCK = 0 \<and>
      m ! meta_pos LASTVER = m ! meta_pos NEWVER \<and>
      (GetFastBitmap m \<longrightarrow> (\<forall>i < PageBodySize cfg. page_bit cfg m i)))"

definition page_abs :: "CacheConfig \<Rightarrow> bytes \<Rightarrow> nat \<rightharpoonup> byte" where
  "page_abs cfg m i =
     (if i < PageBodySize cfg \<and> page_bit cfg m i then Some (m ! (body_off cfg + i)) else None)"

lemma meta_pos_lt: "page_cfg_ok cfg \<Longrightarrow> meta_pos p < PageMetaSize cfg"
  by (cases p) (auto simp: page_cfg_ok_def)

lemma page_bit_meta_update [simp]:
  "page_cfg_ok cfg \<Longrightarrow> page_bit cfg (m[meta_pos p := b]) i = page_bit cfg m i"
  using meta_pos_lt [of cfg p] by (simp add: page_bit_def)

lemma body_meta_update [simp]:
  "page_cfg_ok cfg \<Longrightarrow> m[meta_pos p := b] ! (body_off cfg + i) = m ! (body_off cfg + i)"
  using meta_pos_lt [of cfg p] by (simp add: body_off_def)

lemma meta_pos_eq [simp]: "meta_pos p = meta_pos q \<longleftrightarrow> p = q"
  by (cases p; cases q) auto

lemma meta_pos_in_page: "page_cfg_ok cfg \<Longrightarrow> meta_pos p < page_len cfg"
  using meta_pos_lt [of cfg p] by (simp add: page_len_def)

lemma marked_SetFastBitmap:
  assumes ok: "page_cfg_ok cfg" and mk: "marked cfg v lo hi (SetFastBitmap m f) m'"
  shows "length m' = length m \<and>
    (\<forall>i < length m. (i < PageMetaSize cfg \<and> i \<noteq> meta_pos FAST_BITMAP) \<or> body_off cfg \<le> i \<longrightarrow> m' ! i = m ! i) \<and>
    (\<forall>i < PageBodySize cfg. page_bit cfg m' i = (if lo \<le> i \<and> i < hi then v else page_bit cfg m i))"
proof -
  have upd: "SetFastBitmap m f = m[meta_pos FAST_BITMAP := (if f then 1 else 0)]"
    by (simp add: SetFastBitmap_def)
  have "meta_pos FAST_BITMAP < body_off cfg"
    using meta_pos_lt [OF ok, of FAST_BITMAP] by (simp add: body_off_def)
  then have keep: "SetFastBitmap m f ! i = m ! i"
    if "(i < PageMetaSize cfg \<and> i \<noteq> meta_pos FAST_BITMAP) \<or> body_off cfg \<le> i" for i
    using that by (auto simp only: upd nth_list_update_neq)
  have "page_bit cfg (SetFastBitmap m f) i = page_bit cfg m i" for i
    unfolding upd using ok by (rule page_bit_meta_update)
  with mk keep show ?thesis unfolding marked_def by (auto simp: upd)
qed

lemma SetBitMap_spec:
  assumes ok: "page_cfg_ok cfg" and len: "length m = page_len cfg"
    and fits: "pos + l \<le> PageBodySize cfg"
  shows "length (SetBitMap cfg m pos l v) = length m"
    and "i < PageBodySize cfg \<Longrightarrow>
      page_bit cfg (SetBitMap cfg m pos l v) i = (if pos \<le> i \<and> i < pos + l then v else page_bit cfg m i)"
    and "p \<noteq> FAST_BITMAP \<Longrightarrow> SetBitMap cfg m pos l v ! meta_pos p = m ! meta_pos p"
    and "i < PageBodySize cfg \<Longrightarrow>
      SetBitMap cfg m pos l v ! (body_off cfg + i) = m ! (body_off cfg + i)"
    and "GetFastBitmap (SetBitMap cfg m pos l v) =
      (if v then l = PageBodySize cfg \<or> GetFastBitmap m else False)"
proof -
  define m0 where "m0 = (if l = PageBodySize cfg \<and> v then SetFastBitmap m v else m)"
  define m1 where "m1 = (if \<not> v then SetFastBitmap m0 v else m0)"
  have len1: "length m1 = page_len cfg" using len by (simp add: m1_def m0_def SetFastBitmap_def)
  have mk: "marked cfg v pos (pos + l) m1 (SetBitMap cfg m pos l v)"
    using SetBitMap_parts_marked [OF ok len1 fits, of v]
    unfolding SetBitMap_def Let_def m0_def [symmetric] m1_def [symmetric] .
  have m1: "m1 = m \<or> (\<exists>f. m1 = SetFastBitmap m f)"
    by (cases v) (auto simp: m1_def m0_def)
  have eff: "length (SetBitMap cfg m pos l v) = length m \<and>
    (\<forall>i < length m. (i < PageMetaSize cfg \<and> i \<noteq> meta_pos FAST_BITMAP) \<or> body_off cfg \<le> i
        \<longrightarrow> SetBitMap cfg m pos l v ! i = m ! i) \<and>
    (\<forall>i < PageBodySize cfg. page_bit cfg (SetBitMap cfg m pos l v) i =
        (if pos \<le> i \<and> i < pos + l then v else page_bit cfg m i))"
    using m1
  proof
    assume "m1 = m"
    then show ?thesis using mk by (auto simp: marked_def)
  next
    assume "\<exists>f. m1 = SetFastBitmap m f"
    then show ?thesis using marked_SetFastBitmap [OF ok] mk by blast
  qed
  then show "length (SetBitMap cfg m pos l v) = length m" by blast
  show "i < PageBodySize cfg \<Longrightarrow>
      page_bit cfg (SetBitMap cfg m pos l v) i = (if pos \<le> i \<and> i < pos + l then v else page_bit cfg m i)"
    using eff by blast
  show "SetBitMap cfg m pos l v ! meta_pos p = m ! meta_pos p" if "p \<noteq> FAST_BITMAP"
    using eff meta_pos_lt [OF ok, of p] meta_pos_in_page [OF ok, of p] len that
    by (metis meta_pos_eq)
  show "SetBitMap cfg m pos l v ! (body_off cfg + i) = m ! (body_off cfg + i)"
    if "i < PageBodySize cfg"
    using eff that len by (simp add: page_len_def body_off_def)
  have "SetBitMap cfg m pos l v ! meta_pos FAST_BITMAP = m1 ! meta_pos FAST_BITMAP"
    using mk meta_pos_lt [OF ok, of FAST_BITMAP] meta_pos_in_page [OF ok, of FAST_BITMAP] len1
    unfolding marked_def by metis
  then show "GetFastBitmap (SetBitMap cfg m pos l v) =
      (if v then l = PageBodySize cfg \<or> GetFastBitmap m else False)"
    using meta_pos_in_page [OF ok, of FAST_BITMAP] len
    by (auto simp: GetFastBitmap_def m1_def m0_def SetFastBitmap_def)
qed

end
