(* ===== verification/Page_Scan.thy ===== *)
theory Page_Scan
  imports Page_Memory
begin

section \<open>Finding the valid runs of a page (the loops of \<^verbatim>\<open>Read\<close> and \<^verbatim>\<open>GetAllCache\<close>)\<close>

text \<open>
  Both methods walk the validity bits of a page and hand every maximal run of valid bytes to
  the caller, taking 64 bits at a time where a whole word of the bitmap is all ones or all
  zeros.  The loop is one definition, with what is done to a run (copy it and record it, or
  record where it lies) as the parameter \<open>emit\<close>; the loop's variables are those of the source.
\<close>

definition all_bytes :: "byte \<Rightarrow> nat \<Rightarrow> bytes \<Rightarrow> bool" where
  "all_bytes b off m = list_all (\<lambda>x. x = b) (slice off 8 m)"

function scan_loop ::
    "CacheConfig \<Rightarrow> bytes \<Rightarrow> nat \<Rightarrow> (nat \<Rightarrow> nat \<Rightarrow> 'a \<Rightarrow> 'a) \<Rightarrow>
     nat \<Rightarrow> bool \<Rightarrow> nat \<Rightarrow> 'a \<Rightarrow> nat \<times> bool \<times> nat \<times> 'a" where
  "scan_loop cfg m stop emit cur continuousDataValid continuousLen out =
     (if cur < stop
      then let byte = PageMetaSize cfg + cur div BYTE_LEN;
               isBatFull = (cur mod 64 = 0 \<and> stop - cur \<ge> 64);
               batByteValid = (isBatFull \<and> all_bytes 255 byte m);
               isBatFuncValid = (isBatFull \<and> (all_bytes 255 byte m \<or> all_bytes 0 byte m));
               curByteValid = GetBit (m ! byte) (cur mod BYTE_LEN)
           in if isBatFuncValid \<and> (continuousLen = 0 \<or> continuousDataValid = batByteValid)
              then scan_loop cfg m stop emit (cur + 64) batByteValid (continuousLen + 64) out
              else if continuousLen = 0 \<or> continuousDataValid = curByteValid
              then scan_loop cfg m stop emit (cur + 1) curByteValid (continuousLen + 1) out
              else scan_loop cfg m stop emit (cur + 1) curByteValid 1
                     (if continuousDataValid then emit (cur - continuousLen) continuousLen out else out)
      else (cur, continuousDataValid, continuousLen, out))"
  by pat_completeness auto
termination
  by (relation "measure (\<lambda>(cfg, m, stop, emit, cur, cv, cl, out). stop - cur)") (auto simp: Let_def)

declare scan_loop.simps [simp del]

definition scan :: "CacheConfig \<Rightarrow> bytes \<Rightarrow> (nat \<Rightarrow> nat \<Rightarrow> 'a \<Rightarrow> 'a) \<Rightarrow> nat \<Rightarrow> nat \<Rightarrow> 'a \<Rightarrow> 'a" where
  "scan cfg m emit start stop out =
     (case scan_loop cfg m stop emit start False 0 out of
        (cur, continuousDataValid, continuousLen, out) \<Rightarrow>
          if continuousDataValid then emit (cur - continuousLen) continuousLen out else out)"

subsection \<open>The runs as a list\<close>

definition runs :: "CacheConfig \<Rightarrow> bytes \<Rightarrow> nat \<Rightarrow> nat \<Rightarrow> boundary" where
  "runs cfg m start stop = scan cfg m (\<lambda>a l xs. xs @ [(a, l)]) start stop []"

definition emit_all :: "(nat \<Rightarrow> nat \<Rightarrow> 'a \<Rightarrow> 'a) \<Rightarrow> boundary \<Rightarrow> 'a \<Rightarrow> 'a" where
  "emit_all emit xs out = fold (\<lambda>(a, l). emit a l) xs out"

lemma emit_all_snoc: "emit_all emit (xs @ [(a, l)]) out = emit a l (emit_all emit xs out)"
  by (simp add: emit_all_def)

text \<open>
  One turn of the loop: the new variables, and whether the run that ends at \<open>cur\<close> is
  handed to \<open>emit\<close>.
\<close>

definition scan_next ::
    "CacheConfig \<Rightarrow> bytes \<Rightarrow> nat \<Rightarrow> nat \<Rightarrow> bool \<Rightarrow> nat \<Rightarrow> nat \<times> bool \<times> nat \<times> bool" where
  "scan_next cfg m stop cur cv cl =
     (let byte = PageMetaSize cfg + cur div BYTE_LEN;
          isBatFull = (cur mod 64 = 0 \<and> stop - cur \<ge> 64);
          b = GetBit (m ! byte) (cur mod BYTE_LEN)
      in if isBatFull \<and> all_bytes 255 byte m \<and> (cl = 0 \<or> cv) then (cur + 64, True, cl + 64, False)
         else if isBatFull \<and> \<not> all_bytes 255 byte m \<and> all_bytes 0 byte m \<and> (cl = 0 \<or> \<not> cv)
         then (cur + 64, False, cl + 64, False)
         else if cl = 0 \<or> cv = b then (cur + 1, b, cl + 1, False)
         else (cur + 1, b, 1, cv))"

lemma scan_loop_stop: "\<not> cur < stop \<Longrightarrow> scan_loop cfg m stop emit cur cv cl out = (cur, cv, cl, out)"
  by (simp add: scan_loop.simps [of _ _ _ _ cur])

lemma scan_loop_step:
  "cur < stop \<Longrightarrow> scan_loop cfg m stop emit cur cv cl out =
     (case scan_next cfg m stop cur cv cl of (cur', cv', cl', flush) \<Rightarrow>
        scan_loop cfg m stop emit cur' cv' cl' (if flush then emit (cur - cl) cl out else out))"
proof -
  assume lt: "cur < stop"
  define A where "A = (cur mod 64 = 0 \<and> stop - cur \<ge> 64)"
  define F where "F = all_bytes 255 (PageMetaSize cfg + cur div BYTE_LEN) m"
  define Z where "Z = all_bytes 0 (PageMetaSize cfg + cur div BYTE_LEN) m"
  define b where "b = GetBit (m ! (PageMetaSize cfg + cur div BYTE_LEN)) (cur mod BYTE_LEN)"
  let ?go = "scan_loop cfg m stop emit"
  have loop: "?go cur cv cl out =
     (if (A \<and> (F \<or> Z)) \<and> (cl = 0 \<or> cv = (A \<and> F)) then ?go (cur + 64) (A \<and> F) (cl + 64) out
      else if cl = 0 \<or> cv = b then ?go (cur + 1) b (cl + 1) out
      else ?go (cur + 1) b 1 (if cv then emit (cur - cl) cl out else out))"
    by (simp only: scan_loop.simps [of cfg m stop emit cur cv cl out] Let_def lt if_True
        A_def F_def Z_def b_def)
  have nxt: "scan_next cfg m stop cur cv cl =
     (if A \<and> F \<and> (cl = 0 \<or> cv) then (cur + 64, True, cl + 64, False)
      else if A \<and> \<not> F \<and> Z \<and> (cl = 0 \<or> \<not> cv) then (cur + 64, False, cl + 64, False)
      else if cl = 0 \<or> cv = b then (cur + 1, b, cl + 1, False)
      else (cur + 1, b, 1, cv))"
    by (simp only: scan_next_def Let_def A_def F_def Z_def b_def)
  show ?thesis
    unfolding loop nxt by (cases A; cases F; cases Z; cases "cl = 0"; cases cv; cases b; simp)
qed

lemma scan_next_progress:
  "cur < stop \<Longrightarrow> scan_next cfg m stop cur cv cl = (cur', cv', cl', flush) \<Longrightarrow>
     cur < cur' \<and> cur' \<le> stop"
  by (auto simp: scan_next_def Let_def split: if_splits)

text \<open>What the loop does to \<open>out\<close> is to \<open>emit\<close> the runs, in order.\<close>

lemma scan_loop_emit:
  "scan_loop cfg m stop emit cur cv cl (emit_all emit xs out) =
     (case scan_loop cfg m stop (\<lambda>a l xs. xs @ [(a, l)]) cur cv cl xs of
        (cur', cv', cl', xs') \<Rightarrow> (cur', cv', cl', emit_all emit xs' out))"
proof (induction "stop - cur" arbitrary: cur cv cl xs rule: less_induct)
  case less
  show ?case
  proof (cases "cur < stop")
    case False
    then show ?thesis by (simp add: scan_loop_stop)
  next
    case True
    obtain c v l f where nx: "scan_next cfg m stop cur cv cl = (c, v, l, f)"
      by (metis prod_cases4)
    have dec: "stop - c < stop - cur" using scan_next_progress [OF True nx] True by linarith
    let ?xs = "if f then xs @ [(cur - cl, cl)] else xs"
    have "(if f then emit (cur - cl) cl (emit_all emit xs out) else emit_all emit xs out) = emit_all emit ?xs out"
      by (simp add: emit_all_snoc)
    with less [OF dec, of v l ?xs] show ?thesis by (simp add: scan_loop_step [OF True] nx)
  qed
qed

lemma scan_runs: "scan cfg m emit start stop out = emit_all emit (runs cfg m start stop) out"
proof -
  have "out = emit_all emit [] out" by (simp add: emit_all_def)
  then have eq: "scan_loop cfg m stop emit start False 0 out =
    (case scan_loop cfg m stop (\<lambda>a l xs. xs @ [(a, l)]) start False 0 [] of
        (cur', cv', cl', xs') \<Rightarrow> (cur', cv', cl', emit_all emit xs' out))"
    by (metis scan_loop_emit)
  show ?thesis
    unfolding scan_def runs_def eq by (auto simp: emit_all_def split: prod.splits)
qed

subsection \<open>What the runs are\<close>

text \<open>
  \<open>maximal_runs P lo hi bs\<close>: the segments \<open>bs\<close> are the maximal runs of positions in
  \<open>[lo, hi)\<close> that satisfy \<open>P\<close>: non-empty, increasing, never adjacent, and together
  exactly those positions.
\<close>

fun separated :: "nat \<Rightarrow> nat \<Rightarrow> boundary \<Rightarrow> bool" where
  "separated lo hi [] = True"
| "separated lo hi ((a, l) # bs) = (lo \<le> a \<and> 0 < l \<and> a + l \<le> hi \<and> separated (Suc (a + l)) hi bs)"

definition maximal_runs :: "(nat \<Rightarrow> bool) \<Rightarrow> nat \<Rightarrow> nat \<Rightarrow> boundary \<Rightarrow> bool" where
  "maximal_runs P lo hi bs = (separated lo hi bs \<and> segs_set bs = {i. lo \<le> i \<and> i < hi \<and> P i})"

lemma separated_ordered: "separated lo hi bs \<Longrightarrow> lo \<le> hi \<Longrightarrow> ordered_segs lo hi bs"
proof (induction lo hi bs rule: separated.induct)
  case (2 lo hi a l bs)
  show ?case
  proof (cases bs)
    case Nil
    with 2 show ?thesis by simp
  next
    case (Cons b bs')
    with 2 have "Suc (a + l) \<le> hi" by (cases b) auto
    with 2 show ?thesis by (auto intro: ordered_segs_weaken)
  qed
qed simp

lemma separated_snoc:
  "separated lo hi bs \<Longrightarrow> (\<forall>(a, l) \<in> set bs. a + l < c) \<Longrightarrow> lo \<le> c \<Longrightarrow> 0 < n \<Longrightarrow> hi \<le> hi' \<Longrightarrow> c + n \<le> hi'
     \<Longrightarrow> separated lo hi' (bs @ [(c, n)])"
  by (induction lo hi bs rule: separated.induct) auto

lemma separated_weaken: "separated lo hi bs \<Longrightarrow> hi \<le> hi' \<Longrightarrow> separated lo hi' bs"
  by (induction lo hi bs rule: separated.induct) auto

lemma separated_lo: "separated lo hi bs \<Longrightarrow> lo' \<le> lo \<Longrightarrow> separated lo' hi bs"
  by (cases bs) auto

lemma separated_ge: "separated lo hi bs \<Longrightarrow> i \<in> segs_set bs \<Longrightarrow> lo \<le> i"
  by (induction lo hi bs rule: separated.induct) auto

text \<open>There is only one list of maximal runs.\<close>

lemma separated_unique:
  "separated lo hi xs \<Longrightarrow> separated lo hi ys \<Longrightarrow> segs_set xs = segs_set ys \<Longrightarrow> xs = ys"
proof (induction xs arbitrary: lo ys)
  case Nil
  then show ?case by (cases ys) (auto split: prod.splits)
next
  case (Cons x xs)
  obtain a l where x: "x = (a, l)" by (cases x)
  have l: "0 < l" and xs: "separated (Suc (a + l)) hi xs" using Cons.prems x by auto
  have "a \<in> segs_set ys" using Cons.prems(3) x l by auto
  then obtain y ys' where ys: "ys = y # ys'" by (cases ys) auto
  obtain b k where y: "y = (b, k)" by (cases y)
  have k: "0 < k" and ys': "separated (Suc (b + k)) hi ys'" using Cons.prems ys y by auto
  have sets: "{a..<a + l} \<union> segs_set xs = {b..<b + k} \<union> segs_set ys'"
    using Cons.prems(3) x y ys by simp
  have gex: "i \<in> segs_set xs \<Longrightarrow> Suc (a + l) \<le> i" for i using separated_ge [OF xs] .
  have gey: "i \<in> segs_set ys' \<Longrightarrow> Suc (b + k) \<le> i" for i using separated_ge [OF ys'] .
  have ab: "a = b"
  proof -
    have "b \<le> a" using sets gey [of a] l by (metis UnCI UnE atLeastLessThan_iff le_add1 le_trans less_add_same_cancel1 order_refl Suc_leD)
    moreover have "a \<le> b" using sets gex [of b] k by (metis UnCI UnE atLeastLessThan_iff le_add1 le_trans less_add_same_cancel1 order_refl Suc_leD)
    ultimately show ?thesis by simp
  qed
  have lk: "l = k"
  proof (rule ccontr)
    assume "l \<noteq> k"
    then consider "l < k" | "k < l" by linarith
    then show False
    proof cases
      case 1
      then have "a + l \<in> {a..<a + l} \<union> segs_set xs" using sets ab by auto
      then show False using gex [of "a + l"] by auto
    next
      case 2
      then have "b + k \<in> {b..<b + k} \<union> segs_set ys'" using sets ab by auto
      then show False using gey [of "b + k"] by auto
    qed
  qed
  have "segs_set xs = segs_set ys'"
  proof -
    have "segs_set xs \<inter> {a..<a + l} = {}" using gex by fastforce
    moreover have "segs_set ys' \<inter> {a..<a + l} = {}" using gey ab lk by fastforce
    ultimately show ?thesis using sets ab lk by blast
  qed
  with Cons.IH [OF xs, of ys'] ys' ab lk show ?case by (simp add: x y ys)
qed

lemma maximal_runs_unique: "maximal_runs P lo hi xs \<Longrightarrow> maximal_runs P lo hi ys \<Longrightarrow> xs = ys"
  unfolding maximal_runs_def by (metis separated_unique)

subsection \<open>The loop computes the maximal runs\<close>

lemma all_bytes_page_bit:
  assumes ab: "all_bytes (if v then 255 else 0) (PageMetaSize cfg + cur div 8) m"
    and al: "cur mod 64 = 0" and j: "j < 64"
    and fits: "PageMetaSize cfg + cur div 8 + 8 \<le> length m"
  shows "page_bit cfg m (cur + j) = v"
proof -
  have c8: "cur mod 8 = 0" using al by presburger
  then obtain k where k: "cur = 8 * k" by (metis mod_eq_0_iff_dvd dvdE)
  then have dv: "(cur + j) div 8 = cur div 8 + j div 8" and md: "(cur + j) mod 8 = j mod 8"
    by simp_all
  have "slice (PageMetaSize cfg + cur div 8) 8 m ! (j div 8) = (if v then 255 else 0)"
    using ab j fits unfolding all_bytes_def list_all_length by auto
  then have "m ! (PageMetaSize cfg + cur div 8 + j div 8) = (if v then 255 else 0)"
    using j fits by simp
  then show ?thesis by (simp add: page_bit_def dv md add.assoc GetBit_bit)
qed

lemma scan_next_run:
  assumes nx: "scan_next cfg m stop cur cv cl = (c, v, l, f)" and lt: "cur < stop"
    and fits: "PageMetaSize cfg + bitmap_size cfg \<le> length m" and b8: "stop \<le> 8 * bitmap_size cfg"
  shows "(\<forall>i. cur \<le> i \<and> i < c \<longrightarrow> page_bit cfg m i = v) \<and>
    ((l = cl + (c - cur) \<and> (cl = 0 \<or> cv = v) \<and> \<not> f) \<or> (l = c - cur \<and> 0 < cl \<and> cv = (\<not> v) \<and> f = cv))"
proof -
  let ?byte = "PageMetaSize cfg + cur div 8"
  have one: "page_bit cfg m i = GetBit (m ! ?byte) (cur mod 8)" if "cur \<le> i" "i < cur + 1" for i
  proof -
    have "i = cur" using that by simp
    then show ?thesis by (simp add: page_bit_def)
  qed
  have bat: "page_bit cfg m i = v'"
    if "cur mod 64 = 0" "64 \<le> stop - cur" "all_bytes (if v' then 255 else 0) ?byte m"
      "cur \<le> i" "i < cur + 64" for i v'
  proof -
    have "cur div 8 + 8 \<le> bitmap_size cfg" using that(2) b8 lt by linarith
    with fits have "?byte + 8 \<le> length m" by linarith
    then have "page_bit cfg m (cur + (i - cur)) = v'"
      using that by (intro all_bytes_page_bit) auto
    with that show ?thesis by simp
  qed
  define A where "A = (cur mod 64 = 0 \<and> 64 \<le> stop - cur)"
  define F1 where "F1 = all_bytes 255 ?byte m"
  define F0 where "F0 = all_bytes 0 ?byte m"
  define b where "b = GetBit (m ! ?byte) (cur mod 8)"
  have nx': "(if A \<and> F1 \<and> (cl = 0 \<or> cv) then (cur + 64, True, cl + 64, False)
      else if A \<and> \<not> F1 \<and> F0 \<and> (cl = 0 \<or> \<not> cv) then (cur + 64, False, cl + 64, False)
      else if cl = 0 \<or> cv = b then (cur + 1, b, cl + 1, False)
      else (cur + 1, b, 1, cv)) = (c, v, l, f)"
    using nx by (simp only: scan_next_def Let_def BYTE_LEN_def A_def F1_def F0_def b_def)
  consider (T) "A" "F1" "cl = 0 \<or> cv" "c = cur + 64" "v" "l = cl + 64" "\<not> f"
    | (F) "A" "F0" "cl = 0 \<or> \<not> cv" "c = cur + 64" "\<not> v" "l = cl + 64" "\<not> f"
    | (S) "cl = 0 \<or> cv = b" "c = cur + 1" "v = b" "l = cl + 1" "\<not> f"
    | (N) "0 < cl" "cv \<noteq> b" "c = cur + 1" "v = b" "l = 1" "f = cv"
    using nx' by (cases A; cases F1; cases F0; cases "cl = 0"; cases cv; cases b; simp)
  then show ?thesis
  proof cases
    case T
    then show ?thesis using bat [of True] by (auto simp: A_def F1_def)
  next
    case F
    then show ?thesis using bat [of False] by (auto simp: A_def F0_def)
  next
    case S
    then show ?thesis using one by (auto simp: b_def)
  next
    case N
    then show ?thesis using one by (auto simp: b_def)
  qed
qed

definition scan_inv :: "(nat \<Rightarrow> bool) \<Rightarrow> nat \<Rightarrow> nat \<Rightarrow> bool \<Rightarrow> nat \<Rightarrow> boundary \<Rightarrow> bool" where
  "scan_inv P start cur cv cl xs =
     (start + cl \<le> cur \<and> (cl = 0 \<longrightarrow> cur = start \<and> \<not> cv) \<and>
      (\<forall>i. cur - cl \<le> i \<and> i < cur \<longrightarrow> P i = cv) \<and>
      separated start (cur - cl) xs \<and>
      segs_set xs = {i. start \<le> i \<and> i < cur - cl \<and> P i} \<and>
      (cv \<longrightarrow> (\<forall>(a, l) \<in> set xs. a + l < cur - cl)))"

lemma scan_inv_flush:
  assumes "scan_inv P start cur True cl xs"
  shows "maximal_runs P start cur (xs @ [(cur - cl, cl)])"
proof -
  have c: "start + cl \<le> cur" "0 < cl" "\<forall>i. cur - cl \<le> i \<and> i < cur \<longrightarrow> P i"
    "separated start (cur - cl) xs" "segs_set xs = {i. start \<le> i \<and> i < cur - cl \<and> P i}"
    "\<forall>(a, l) \<in> set xs. a + l < cur - cl"
    using assms by (auto simp: scan_inv_def)
  have "separated start cur (xs @ [(cur - cl, cl)])"
    using c by (intro separated_snoc [OF c(4)]) auto
  moreover have "segs_set (xs @ [(cur - cl, cl)]) = {i. start \<le> i \<and> i < cur \<and> P i}"
    using c(1-3,5) by (auto simp: not_less)
  ultimately show ?thesis by (simp add: maximal_runs_def)
qed

lemma scan_inv_stay:
  assumes "scan_inv P start cur False cl xs"
  shows "maximal_runs P start cur xs"
proof -
  have c: "start + cl \<le> cur" "\<forall>i. cur - cl \<le> i \<and> i < cur \<longrightarrow> \<not> P i"
    "separated start (cur - cl) xs" "segs_set xs = {i. start \<le> i \<and> i < cur - cl \<and> P i}"
    using assms by (auto simp: scan_inv_def)
  have "{i. start \<le> i \<and> i < cur - cl \<and> P i} = {i. start \<le> i \<and> i < cur \<and> P i}"
    using c(2) by (auto simp: not_less)
  with c show ?thesis by (auto simp: maximal_runs_def intro: separated_weaken)
qed

lemma separated_empty: "separated lo lo bs \<Longrightarrow> bs = []"
  by (cases bs) auto

lemma segs_end_le: "separated lo hi bs \<Longrightarrow> (a, l) \<in> set bs \<Longrightarrow> a + l \<le> hi"
  by (induction lo hi bs rule: separated.induct) auto

lemma scan_inv_step:
  assumes inv: "scan_inv P start cur cv cl xs" and cc: "cur < c"
    and run: "\<forall>i. cur \<le> i \<and> i < c \<longrightarrow> P i = v"
    and step: "(l = cl + (c - cur) \<and> (cl = 0 \<or> cv = v) \<and> \<not> f) \<or> (l = c - cur \<and> 0 < cl \<and> cv = (\<not> v) \<and> f = cv)"
  shows "scan_inv P start c v l (if f then xs @ [(cur - cl, cl)] else xs)"
  using step
proof
  assume "l = cl + (c - cur) \<and> (cl = 0 \<or> cv = v) \<and> \<not> f"
  then have l: "l = cl + (c - cur)" and same: "cl = 0 \<or> cv = v" and f: "\<not> f" by auto
  have cl: "c - l = cur - cl" using l cc inv by (auto simp: scan_inv_def)
  show ?thesis
  proof (cases "cl = 0")
    case True
    then have "cur = start" "xs = []"
      using inv separated_empty by (auto simp: scan_inv_def)
    with True l f cc run show ?thesis by (auto simp: scan_inv_def)
  next
    case False
    then have "cv = v" using same by simp
    moreover have "\<forall>i. cur - cl \<le> i \<and> i < c \<longrightarrow> P i = v"
    proof (intro allI impI)
      fix i assume "cur - cl \<le> i \<and> i < c"
      then show "P i = v"
        using inv run \<open>cv = v\<close> unfolding scan_inv_def by (cases "i < cur") auto
    qed
    moreover have "start + l \<le> c" using inv l cc unfolding scan_inv_def by linarith
    ultimately show ?thesis using inv f False l unfolding scan_inv_def cl by simp
  qed
next
  assume "l = c - cur \<and> 0 < cl \<and> cv = (\<not> v) \<and> f = cv"
  then have l: "l = c - cur" and cl: "0 < cl" and cv: "cv = (\<not> v)" and f: "f = cv" by auto
  have cl': "c - l = cur" using l cc by simp
  show ?thesis
  proof (cases cv)
    case True
    then have "maximal_runs P start cur (xs @ [(cur - cl, cl)])" using inv by (auto intro: scan_inv_flush)
    with True l cv f cc run inv cl' show ?thesis
      by (auto simp: scan_inv_def maximal_runs_def)
  next
    case False
    then have mr: "maximal_runs P start cur xs" using inv by (auto intro: scan_inv_stay)
    have "\<forall>(a, l) \<in> set xs. a + l < cur"
      using inv cl segs_end_le [of start "cur - cl" xs] by (fastforce simp: scan_inv_def)
    with False l cv f cc run inv cl' mr show ?thesis
      by (auto simp: scan_inv_def maximal_runs_def)
  qed
qed

lemma scan_loop_inv:
  assumes fits: "PageMetaSize cfg + bitmap_size cfg \<le> length m" and b8: "stop \<le> 8 * bitmap_size cfg"
  shows "scan_inv (page_bit cfg m) start cur cv cl xs \<Longrightarrow> cur \<le> stop \<Longrightarrow>
    (case scan_loop cfg m stop (\<lambda>a l xs. xs @ [(a, l)]) cur cv cl xs of
       (cur', cv', cl', xs') \<Rightarrow> cur' = stop \<and> scan_inv (page_bit cfg m) start cur' cv' cl' xs')"
proof (induction "stop - cur" arbitrary: cur cv cl xs rule: less_induct)
  case less
  show ?case
  proof (cases "cur < stop")
    case False
    with less.prems show ?thesis by (simp add: scan_loop_stop)
  next
    case True
    obtain c v l f where nx: "scan_next cfg m stop cur cv cl = (c, v, l, f)"
      by (metis prod_cases4)
    have pr: "cur < c" "c \<le> stop" using scan_next_progress [OF True nx] by auto
    have "scan_inv (page_bit cfg m) start c v l (if f then xs @ [(cur - cl, cl)] else xs)"
      using scan_inv_step [OF less.prems(1) pr(1)] scan_next_run [OF nx True fits b8] by blast
    from less.hyps [OF _ this pr(2)] pr True show ?thesis
      by (simp add: scan_loop_step [OF True] nx)
  qed
qed

lemma runs_maximal:
  assumes ok: "page_cfg_ok cfg" and len: "length m = page_len cfg"
    and le: "start \<le> stop" and stop: "stop \<le> PageBodySize cfg"
  shows "maximal_runs (page_bit cfg m) start stop (runs cfg m start stop)"
proof -
  obtain cur cv cl xs where lp:
    "scan_loop cfg m stop (\<lambda>a l xs. xs @ [(a, l)]) start False 0 [] = (cur, cv, cl, xs)"
    by (metis prod_cases4)
  have init: "scan_inv (page_bit cfg m) start start False 0 []" by (auto simp: scan_inv_def)
  have "PageMetaSize cfg + bitmap_size cfg \<le> length m" using len by (simp add: page_len_def)
  moreover have "stop \<le> 8 * bitmap_size cfg" using stop body8 [OF ok] by simp
  ultimately have "cur = stop" and inv: "scan_inv (page_bit cfg m) start cur cv cl xs"
    using scan_loop_inv [OF _ _ init le] lp by auto
  then show ?thesis
    by (cases cv) (auto simp: runs_def scan_def lp intro: scan_inv_flush scan_inv_stay)
qed

end
