(* ===== verification/Page_Read.thy ===== *)
theory Page_Read
  imports Page_Scan
begin

section \<open>Reading one page (\<^verbatim>\<open>PageCacheImpl::Read\<close>, \<^verbatim>\<open>GetAllCache\<close>: the bodies)\<close>

text \<open>
  What \<^verbatim>\<open>Read\<close> and \<^verbatim>\<open>GetAllCache\<close> do with the memory of a page once the version check has
  let them in: the shortcut through the fast bitmap, then the loop of \<open>Page_Scan\<close> with the
  copy (or the segment list) as its \<open>emit\<close>.  The two result predicates say what a reader at
  any level of the cache gets: a boundary, the maximal runs of valid bytes in the window read,
  and a buffer in which exactly those bytes are filled in.
\<close>

definition copy_run ::
    "CacheConfig \<Rightarrow> bytes \<Rightarrow> nat \<Rightarrow> nat \<Rightarrow> nat \<Rightarrow> boundary \<times> bytes \<Rightarrow> boundary \<times> bytes" where
  "copy_run cfg m pagePos a l out =
     (let bufOff = a - pagePos;
          pageOff = PageMetaSize cfg + bitmap_size cfg + a
      in (fst out @ [(bufOff, l)], blit (snd out) bufOff (slice pageOff l m)))"

definition Read_page ::
    "CacheConfig \<Rightarrow> bytes \<Rightarrow> nat \<Rightarrow> nat \<Rightarrow> bytes \<Rightarrow> boundary \<times> bytes" where
  "Read_page cfg m pagePos len buf =
     (let cur = pagePos;
          out = ([], buf);
          (cur, out) =
            (if GetFastBitmap m
             then let pageOff = PageMetaSize cfg + bitmap_size cfg + pagePos
                  in (cur + len, ([(0, len)], blit buf 0 (slice pageOff len m)))
             else (cur, out))
      in scan cfg m (copy_run cfg m pagePos) cur (pagePos + len) out)"

definition AllCache_page :: "CacheConfig \<Rightarrow> bytes \<Rightarrow> (bytes \<times> nat) list" where
  "AllCache_page cfg m =
     (let pageSize = PageBodySize cfg;
          cur = 0;
          (cur, segs) =
            (if GetFastBitmap m
             then (cur + pageSize, [(slice (PageMetaSize cfg + bitmap_size cfg) pageSize m, 0)])
             else (cur, []))
      in scan cfg m
           (\<lambda>a l segs. segs @ [(slice (PageMetaSize cfg + bitmap_size cfg + a) l m, a)])
           cur pageSize segs)"

subsection \<open>What a reader gets\<close>

definition boundary_of :: "(nat \<rightharpoonup> byte) \<Rightarrow> nat \<Rightarrow> nat \<Rightarrow> boundary \<Rightarrow> bool" where
  "boundary_of c pos len bs = maximal_runs (\<lambda>i. c (pos + i) \<noteq> None) 0 len bs"

definition filled :: "(nat \<rightharpoonup> byte) \<Rightarrow> nat \<Rightarrow> nat \<Rightarrow> bytes \<Rightarrow> bytes \<Rightarrow> bool" where
  "filled c pos len buf buf' =
     (length buf' = length buf \<and>
      (\<forall>i < length buf. buf' ! i =
         (if i < len then (case c (pos + i) of Some b \<Rightarrow> b | None \<Rightarrow> buf ! i) else buf ! i)))"

lemma filled_length: "filled c pos len buf buf' \<Longrightarrow> length buf' = length buf"
  by (simp add: filled_def)

lemma filled_empty: "filled Map.empty pos len buf buf"
  by (simp add: filled_def)

lemma boundary_of_empty: "boundary_of Map.empty pos len []"
  by (simp add: boundary_of_def maximal_runs_def)

text \<open>Copying runs one after the other fills the bytes they cover.\<close>

lemma emit_all_copy_run:
  assumes "\<forall>(a, l) \<in> set xs. pos \<le> a \<and> a + l \<le> pos + length buf \<and> body_off cfg + a + l \<le> length m"
  shows "emit_all (copy_run cfg m pos) xs (bd, buf) =
    (bd @ map (\<lambda>(a, l). (a - pos, l)) xs, snd (emit_all (copy_run cfg m pos) xs (bd, buf))) \<and>
    length (snd (emit_all (copy_run cfg m pos) xs (bd, buf))) = length buf \<and>
    (\<forall>i < length buf. snd (emit_all (copy_run cfg m pos) xs (bd, buf)) ! i =
       (if pos + i \<in> segs_set xs then m ! (body_off cfg + (pos + i)) else buf ! i))"
  using assms
proof (induction xs rule: rev_induct)
  case Nil
  then show ?case by (simp add: emit_all_def)
next
  case (snoc x xs)
  obtain a l where x: "x = (a, l)" by (cases x)
  define o1 where "o1 = snd (emit_all (copy_run cfg m pos) xs (bd, buf))"
  have IH: "emit_all (copy_run cfg m pos) xs (bd, buf) = (bd @ map (\<lambda>(a, l). (a - pos, l)) xs, o1)"
    and len1: "length o1 = length buf"
    and nth1: "\<And>i. i < length buf \<Longrightarrow> o1 ! i =
       (if pos + i \<in> segs_set xs then m ! (body_off cfg + (pos + i)) else buf ! i)"
    using snoc by (auto simp: o1_def)
  have fit: "pos \<le> a" "a + l \<le> pos + length buf" "body_off cfg + a + l \<le> length m"
    using snoc.prems x by auto
  have step: "emit_all (copy_run cfg m pos) (xs @ [x]) (bd, buf) =
    (bd @ map (\<lambda>(a, l). (a - pos, l)) (xs @ [x]), blit o1 (a - pos) (slice (body_off cfg + a) l m))"
    by (simp add: x emit_all_snoc IH copy_run_def Let_def body_off_def)
  have "blit o1 (a - pos) (slice (body_off cfg + a) l m) ! i =
      (if pos + i \<in> segs_set (xs @ [x]) then m ! (body_off cfg + (pos + i)) else buf ! i)"
    if "i < length buf" for i
    using that fit len1 nth1 [OF that] by (subst nth_blit) (auto simp: x ac_simps)
  with step fit len1 show ?case by auto
qed

lemma image_minus_ivl: "d \<le> a \<Longrightarrow> (\<lambda>i. i - d) ` {a..<a + l} = {a - d..<a - d + (l :: nat)}"
proof -
  assume "d \<le> a"
  then obtain a' where a: "a = d + a'" using le_Suc_ex by blast
  have "{a..<a + l} = (\<lambda>i. d + i) ` {a'..<a' + l}" by (simp add: a ac_simps)
  then show ?thesis by (simp add: a image_image del: image_add_atLeastLessThan)
qed

lemma maximal_runs_shift:
  assumes "maximal_runs P lo hi xs" "d \<le> lo"
  shows "maximal_runs (\<lambda>i. P (d + i)) (lo - d) (hi - d) (map (\<lambda>(a, l). (a - d, l)) xs)"
proof -
  have "separated (lo - d) (hi - d) (map (\<lambda>(a, l). (a - d, l)) xs) \<and>
      segs_set (map (\<lambda>(a, l). (a - d, l)) xs) = (\<lambda>i. i - d) ` segs_set xs"
    if "separated lo hi xs" "d \<le> lo" for lo xs
    using that
  proof (induction lo hi xs rule: separated.induct)
    case (2 lo hi a l bs)
    have im: "(\<lambda>i. i - d) ` {a..<a + l} = {a - d..<a - d + l}"
      using 2 by (intro image_minus_ivl) auto
    have "d \<le> a" using 2 by auto
    then have "Suc (a + l) - d = Suc (a + l - d)" by simp
    with 2 im show ?case by (auto simp: image_Un)
  qed simp
  with assms have *: "separated (lo - d) (hi - d) (map (\<lambda>(a, l). (a - d, l)) xs)"
    "segs_set (map (\<lambda>(a, l). (a - d, l)) xs) = (\<lambda>i. i - d) ` {i. lo \<le> i \<and> i < hi \<and> P i}"
    by (auto simp: maximal_runs_def)
  have "(\<lambda>i. i - d) ` {i. lo \<le> i \<and> i < hi \<and> P i} = {i. lo - d \<le> i \<and> i < hi - d \<and> P (d + i)}"
  proof (intro equalityI subsetI)
    fix i assume "i \<in> {i. lo - d \<le> i \<and> i < hi - d \<and> P (d + i)}"
    then have "i = (d + i) - d" "d + i \<in> {i. lo \<le> i \<and> i < hi \<and> P i}" using assms(2) by auto
    then show "i \<in> (\<lambda>i. i - d) ` {i. lo \<le> i \<and> i < hi \<and> P i}" by blast
  qed (use assms(2) in auto)
  with * show ?thesis by (simp add: maximal_runs_def)
qed

lemma separated_bounds: "separated lo hi bs \<Longrightarrow> (a, l) \<in> set bs \<Longrightarrow> lo \<le> a \<and> 0 < l \<and> a + l \<le> hi"
  by (induction lo hi bs rule: separated.induct) auto

lemma maximal_runs_all: "lo < hi \<Longrightarrow> \<forall>i. lo \<le> i \<and> i < hi \<longrightarrow> P i \<Longrightarrow> maximal_runs P lo hi [(lo, hi - lo)]"
  by (auto simp: maximal_runs_def)

lemma maximal_runs_cong:
  "(\<And>i. lo \<le> i \<Longrightarrow> i < hi \<Longrightarrow> P i = Q i) \<Longrightarrow> maximal_runs P lo hi bs = maximal_runs Q lo hi bs"
  unfolding maximal_runs_def by (metis (mono_tags, lifting) Collect_cong)

lemma page_abs_bit: "i < PageBodySize cfg \<Longrightarrow> page_abs cfg m i =
    (if page_bit cfg m i then Some (m ! (body_off cfg + i)) else None)"
  by (simp add: page_abs_def)

lemma scan_stop: "scan cfg m emit stop stop out = out"
  by (simp add: scan_def scan_loop_stop)

lemma fast_all_valid:
  "page_ok cfg m \<Longrightarrow> GetFastBitmap m \<Longrightarrow> i < PageBodySize cfg \<Longrightarrow> page_bit cfg m i"
  by (simp add: page_ok_def)

lemma Read_page_spec:
  assumes ok: "page_cfg_ok cfg" and pg: "page_ok cfg m" and len: "0 < len"
    and fits: "pos + len \<le> PageBodySize cfg" and buf: "len \<le> length buf"
  shows "boundary_of (page_abs cfg m) pos len (fst (Read_page cfg m pos len buf)) \<and>
         filled (page_abs cfg m) pos len buf (snd (Read_page cfg m pos len buf))"
proof (cases "GetFastBitmap m")
  case True
  have lm: "length m = page_len cfg" using pg by (simp add: page_ok_def)
  have all: "page_abs cfg m (pos + i) = Some (m ! (body_off cfg + (pos + i)))" if "i < len" for i
    using that fits fast_all_valid [OF pg True] by (simp add: page_abs_bit)
  have fit: "body_off cfg + pos + len \<le> length m"
    using fits lm by (simp add: body_off_def page_len_def)
  have eq: "Read_page cfg m pos len buf = ([(0, len)], blit buf 0 (slice (body_off cfg + pos) len m))"
    by (simp add: Read_page_def True Let_def scan_stop body_off_def)
  have "boundary_of (page_abs cfg m) pos len [(0, len)]"
    unfolding boundary_of_def using maximal_runs_all [of 0 len "\<lambda>i. page_abs cfg m (pos + i) \<noteq> None"] len all
    by auto
  moreover have "filled (page_abs cfg m) pos len buf (blit buf 0 (slice (body_off cfg + pos) len m))"
    unfolding filled_def using fit buf all by (auto simp: nth_blit ac_simps)
  ultimately show ?thesis by (simp add: eq)
next
  case False
  have lm: "length m = page_len cfg" using pg by (simp add: page_ok_def)
  let ?xs = "runs cfg m pos (pos + len)"
  have mr: "maximal_runs (page_bit cfg m) pos (pos + len) ?xs"
    by (rule runs_maximal [OF ok lm]) (use fits in auto)
  have eq: "Read_page cfg m pos len buf = emit_all (copy_run cfg m pos) ?xs ([], buf)"
    by (simp add: Read_page_def False Let_def scan_runs)
  have bnd: "\<forall>(a, l) \<in> set ?xs. pos \<le> a \<and> a + l \<le> pos + length buf \<and> body_off cfg + a + l \<le> length m"
  proof clarify
    fix a l assume "(a, l) \<in> set ?xs"
    then have "pos \<le> a" "a + l \<le> pos + len" using mr separated_bounds by (auto simp: maximal_runs_def)
    then show "pos \<le> a \<and> a + l \<le> pos + length buf \<and> body_off cfg + a + l \<le> length m"
      using fits buf lm by (simp add: body_off_def page_len_def)
  qed
  note cp = emit_all_copy_run [OF bnd, of "[]"]
  have fstx: "fst (Read_page cfg m pos len buf) = map (\<lambda>(a, l). (a - pos, l)) ?xs"
    using cp unfolding eq by (metis append_Nil fst_conv)
  have "maximal_runs (\<lambda>i. page_bit cfg m (pos + i)) 0 len (map (\<lambda>(a, l). (a - pos, l)) ?xs)"
    using maximal_runs_shift [OF mr order_refl] by simp
  then have "boundary_of (page_abs cfg m) pos len (fst (Read_page cfg m pos len buf))"
    unfolding boundary_of_def fstx
    by (rule maximal_runs_cong [THEN iffD1, rotated]) (use fits in \<open>auto simp: page_abs_bit\<close>)
  moreover have "pos + i \<in> segs_set ?xs \<longleftrightarrow> i < len \<and> page_bit cfg m (pos + i)" for i
    using mr by (auto simp: maximal_runs_def)
  then have "filled (page_abs cfg m) pos len buf (snd (Read_page cfg m pos len buf))"
    using cp fits unfolding filled_def eq by (auto simp: page_abs_bit)
  ultimately show ?thesis by simp
qed

text \<open>
  A segment list \<^verbatim>\<open>(bytes, offset)\<close> describes contents \<open>c\<close> on \<open>[0, n)\<close>: its extents are the
  maximal runs of valid positions and its bytes are the bytes there.
\<close>

definition segments_of :: "(nat \<rightharpoonup> byte) \<Rightarrow> nat \<Rightarrow> (bytes \<times> nat) list \<Rightarrow> bool" where
  "segments_of c n segs =
     (maximal_runs (\<lambda>i. c i \<noteq> None) 0 n (map (\<lambda>(d, a). (a, length d)) segs) \<and>
      (\<forall>(d, a) \<in> set segs. \<forall>i < length d. c (a + i) = Some (d ! i)))"

lemma AllCache_page_spec:
  assumes ok: "page_cfg_ok cfg" and pg: "page_ok cfg m"
  shows "segments_of (page_abs cfg m) (PageBodySize cfg) (AllCache_page cfg m)"
proof (cases "GetFastBitmap m")
  case True
  have fit: "body_off cfg + PageBodySize cfg \<le> length m"
    using pg by (simp add: page_ok_def body_off_def page_len_def)
  have all: "page_abs cfg m i = Some (m ! (body_off cfg + i))" if "i < PageBodySize cfg" for i
    using that fast_all_valid [OF pg True] by (simp add: page_abs_bit)
  have "AllCache_page cfg m = [(slice (body_off cfg) (PageBodySize cfg) m, 0)]"
    by (simp add: AllCache_page_def True Let_def scan_stop body_off_def)
  moreover have "0 < PageBodySize cfg" using ok by (simp add: page_cfg_ok_def)
  ultimately show ?thesis
    using fit all maximal_runs_all [of 0 "PageBodySize cfg" "\<lambda>i. page_abs cfg m i \<noteq> None"]
    by (simp add: segments_of_def)
next
  case False
  have lm: "length m = page_len cfg" using pg by (simp add: page_ok_def)
  let ?xs = "runs cfg m 0 (PageBodySize cfg)"
  let ?em = "\<lambda>a l segs. segs @ [(slice (body_off cfg + a) l m, a)]"
  have mr: "maximal_runs (page_bit cfg m) 0 (PageBodySize cfg) ?xs"
    by (rule runs_maximal [OF ok lm]) auto
  have em: "emit_all ?em xs segs = segs @ map (\<lambda>(a, l). (slice (body_off cfg + a) l m, a)) xs" for xs segs
    by (induction xs rule: rev_induct) (auto simp: emit_all_def)
  have eq: "AllCache_page cfg m = map (\<lambda>(a, l). (slice (body_off cfg + a) l m, a)) ?xs"
    by (simp add: AllCache_page_def False Let_def scan_runs em flip: body_off_def)
  have bnd: "a + l \<le> PageBodySize cfg" if "(a, l) \<in> set ?xs" for a l
    using mr separated_bounds that by (auto simp: maximal_runs_def)
  have fit: "body_off cfg + a + l \<le> length m" if "(a, l) \<in> set ?xs" for a l
    using bnd [OF that] lm by (simp add: body_off_def page_len_def)
  have "map (\<lambda>(d, a). (a, length d)) (AllCache_page cfg m) = ?xs"
    unfolding eq using fit by (auto intro!: map_idI)
  moreover have "maximal_runs (\<lambda>i. page_abs cfg m i \<noteq> None) 0 (PageBodySize cfg) ?xs"
    using mr by (rule maximal_runs_cong [THEN iffD1, rotated]) (auto simp: page_abs_bit)
  moreover have "page_abs cfg m (a + i) = Some (slice (body_off cfg + a) l m ! i)"
    if "(a, l) \<in> set ?xs" "i < l" for a l i
  proof -
    have "a + i \<in> segs_set ?xs" using that by (auto simp: segs_set_def intro!: bexI [of _ "(a, l)"])
    then have "page_bit cfg m (a + i)" "a + i < PageBodySize cfg"
      using mr by (auto simp: maximal_runs_def)
    then show ?thesis using that fit [OF that(1)] by (simp add: page_abs_bit ac_simps)
  qed
  ultimately show ?thesis using fit unfolding segments_of_def eq by fastforce
qed

subsection \<open>Writing over contents\<close>

definition overlay :: "(nat \<rightharpoonup> byte) \<Rightarrow> nat \<Rightarrow> bytes \<Rightarrow> nat \<rightharpoonup> byte" where
  "overlay c pos buf = (\<lambda>i. if pos \<le> i \<and> i < pos + length buf then Some (buf ! (i - pos)) else c i)"

definition cut_out :: "(nat \<rightharpoonup> byte) \<Rightarrow> nat \<Rightarrow> nat \<Rightarrow> nat \<rightharpoonup> byte" where
  "cut_out c pos len = (\<lambda>i. if pos \<le> i \<and> i < pos + len then None else c i)"

lemma overlay_Nil [simp]: "overlay c pos [] = c"
  by (auto simp: overlay_def fun_eq_iff)

lemma overlay_in [simp]: "pos \<le> i \<Longrightarrow> i < pos + length buf \<Longrightarrow> overlay c pos buf i = Some (buf ! (i - pos))"
  by (simp add: overlay_def)

lemma overlay_out [simp]: "i < pos \<or> pos + length buf \<le> i \<Longrightarrow> overlay c pos buf i = c i"
  by (auto simp: overlay_def)

lemma blit_body:
  assumes "pos + length buf \<le> PageBodySize cfg" and "length m = page_len cfg"
  shows "i < PageBodySize cfg \<Longrightarrow> blit m (body_off cfg + pos) buf ! (body_off cfg + i) =
           (if pos \<le> i \<and> i < pos + length buf then buf ! (i - pos) else m ! (body_off cfg + i))"
    and "j < body_off cfg \<Longrightarrow> blit m (body_off cfg + pos) buf ! j = m ! j"
  using assms by (auto simp: nth_blit page_len_def body_off_def)

lemma page_bit_blit_body:
  assumes "page_cfg_ok cfg" "pos + length buf \<le> PageBodySize cfg" "length m = page_len cfg" "i < PageBodySize cfg"
  shows "page_bit cfg (blit m (body_off cfg + pos) buf) i = page_bit cfg m i"
  using blit_body(2) [OF assms(2,3), of "PageMetaSize cfg + i div 8"] div8_bitmap [OF assms(1,4)]
  by (simp add: page_bit_def body_off_def)

text \<open>Pages other than the one written are kept, or lost to an eviction.\<close>

definition others_kept :: "bool \<Rightarrow> key \<Rightarrow> (key \<Rightarrow> nat \<rightharpoonup> byte) \<Rightarrow> (key \<Rightarrow> nat \<rightharpoonup> byte) \<Rightarrow> bool" where
  "others_kept roomy k c c' = (\<forall>k'. k' \<noteq> k \<longrightarrow> c' k' = c k' \<or> (\<not> roomy \<and> c' k' = Map.empty))"

end
