(* ===== verification/Page_Cache.thy ===== *)
theory Page_Cache
  imports Page_Read Local_Config "HOL-Library.Monad_Syntax"
begin

section \<open>The page cache (\<^verbatim>\<open>local_cache/page_cache.cpp\<close>, class \<^verbatim>\<open>PageCacheImpl\<close>)\<close>

text \<open>
  The operations of \<^verbatim>\<open>PageCacheImpl\<close> over CacheLib, which is not in the repository: its
  allocator is the parameter \<open>cl\<close>, a record of the calls the code makes, and \<open>items\<close> reads
  off the state of the allocator which memory every key has.  A handle to an item is the key
  with the memory read through it; writing through it is \<open>cl_store\<close>.  \<open>None\<close> is a call that
  does not return (a spin on a lock nobody releases) or a failed \<^verbatim>\<open>assert\<close>.
\<close>

record 'c cachelib =
  cl_find :: "key \<Rightarrow> 'c \<Rightarrow> bytes option \<times> 'c"
  cl_findToWrite :: "key \<Rightarrow> 'c \<Rightarrow> bytes option \<times> 'c"
  cl_allocate :: "key \<Rightarrow> nat \<Rightarrow> 'c \<Rightarrow> bytes option \<times> 'c"
  cl_insert :: "key \<Rightarrow> bytes \<Rightarrow> 'c \<Rightarrow> bool \<times> 'c"
  cl_insertOrReplace :: "key \<Rightarrow> bytes \<Rightarrow> 'c \<Rightarrow> bytes option \<times> 'c"
  cl_remove :: "key \<Rightarrow> 'c \<Rightarrow> bool \<times> 'c"
  cl_store :: "key \<Rightarrow> bytes \<Rightarrow> 'c \<Rightarrow> 'c"

text \<open>
  The documented behaviour of CacheLib the code relies on: \<^verbatim>\<open>find\<close> does not change the items
  (it may reorder its LRU list), \<^verbatim>\<open>allocate\<close> gives memory of the size asked for, evicting any
  other items, \<^verbatim>\<open>insert\<close> refuses a key that is present, \<^verbatim>\<open>insertOrReplace\<close> returns the item
  it replaces, \<^verbatim>\<open>remove\<close> says whether the key was there.
\<close>

definition cachelib_laws :: "'c cachelib \<Rightarrow> ('c \<Rightarrow> key \<rightharpoonup> bytes) \<Rightarrow> bool" where
  "cachelib_laws cl items =
     ((\<forall>k c. fst (cl_find cl k c) = items c k \<and> items (snd (cl_find cl k c)) = items c) \<and>
      (\<forall>k c. fst (cl_findToWrite cl k c) = items c k \<and> items (snd (cl_findToWrite cl k c)) = items c) \<and>
      (\<forall>k n c. items (snd (cl_allocate cl k n c)) \<subseteq>\<^sub>m items c \<and>
         (\<forall>m. fst (cl_allocate cl k n c) = Some m \<longrightarrow> length m = n)) \<and>
      (\<forall>k m c. items c k = None \<longrightarrow>
         fst (cl_insert cl k m c) \<and> items (snd (cl_insert cl k m c)) = (items c)(k \<mapsto> m)) \<and>
      (\<forall>k m c. items c k \<noteq> None \<longrightarrow>
         \<not> fst (cl_insert cl k m c) \<and> items (snd (cl_insert cl k m c)) = items c) \<and>
      (\<forall>k m c. fst (cl_insertOrReplace cl k m c) = items c k \<and>
         items (snd (cl_insertOrReplace cl k m c)) = (items c)(k \<mapsto> m)) \<and>
      (\<forall>k c. fst (cl_remove cl k c) = (items c k \<noteq> None) \<and>
         items (snd (cl_remove cl k c)) = (items c)(k := None)) \<and>
      (\<forall>k m c. items c k \<noteq> None \<longrightarrow> items (cl_store cl k m c) = (items c)(k \<mapsto> m)))"

text \<open>An allocator with room: it never fails and never evicts.\<close>

definition cachelib_roomy :: "'c cachelib \<Rightarrow> ('c \<Rightarrow> key \<rightharpoonup> bytes) \<Rightarrow> bool" where
  "cachelib_roomy cl items =
     (\<forall>k n c. fst (cl_allocate cl k n c) \<noteq> None \<and> items (snd (cl_allocate cl k n c)) = items c)"

subsection \<open>The list of pages (\<^verbatim>\<open>folly::ConcurrentSkipList<std::string>\<close>)\<close>

definition skip_insert :: "key \<Rightarrow> key list \<Rightarrow> key list" where
  "skip_insert k ks = (if k \<in> set ks then ks else insort k ks)"

definition skip_erase :: "key \<Rightarrow> key list \<Rightarrow> key list" where
  "skip_erase k ks = filter (\<lambda>x. x \<noteq> k) ks"

definition lower_bound :: "key \<Rightarrow> key list \<Rightarrow> key list" where
  "lower_bound k ks = dropWhile (\<lambda>x. x < k) ks"

lemma set_skip [simp]:
  "set (skip_insert k ks) = insert k (set ks)" "set (skip_erase k ks) = set ks - {k}"
  by (auto simp: skip_insert_def skip_erase_def set_insort_key)

lemma sorted_skip [simp]:
  "sorted ks \<Longrightarrow> sorted (skip_insert k ks)" "sorted ks \<Longrightarrow> sorted (skip_erase k ks)"
  "distinct ks \<Longrightarrow> distinct (skip_insert k ks)" "distinct ks \<Longrightarrow> distinct (skip_erase k ks)"
  by (auto simp: skip_insert_def skip_erase_def sorted_insort distinct_insort sorted_wrt_filter)

lemma set_lower_bound: "sorted ks \<Longrightarrow> set (lower_bound k ks) = {x \<in> set ks. k \<le> x}"
proof (induction ks)
  case (Cons a ks)
  then show ?case by (cases "a < k") (auto simp: lower_bound_def not_less)
qed (simp add: lower_bound_def)

subsection \<open>State\<close>

record 'c page_cache =
  pc_cfg :: CacheConfig
  pc_cache :: 'c
  pageNum :: "64 word"
  pagesList :: "key list"
  lock :: int

definition GetRealPageSize :: "CacheConfig \<Rightarrow> nat" where
  "GetRealPageSize cfg = PageMetaSize cfg + bitmap_size cfg + PageBodySize cfg"

text \<open>The spin locks of safe mode: \<open>None\<close> is a spin that never ends.\<close>

definition lock_exclusive :: "'c page_cache \<Rightarrow> 'c page_cache option" where
  "lock_exclusive st = (if lock st = 0 then Some (st\<lparr>lock := -1\<rparr>) else None)"

definition lock_shared :: "'c page_cache \<Rightarrow> 'c page_cache option" where
  "lock_shared st = (if lock st \<ge> 0 then Some (st\<lparr>lock := lock st + 1\<rparr>) else None)"

definition count_page :: "key \<Rightarrow> 'c page_cache \<Rightarrow> 'c page_cache" where
  "count_page k st = st\<lparr>pageNum := pageNum st + 1, pagesList := skip_insert k (pagesList st)\<rparr>"

definition uncount_page :: "key \<Rightarrow> 'c page_cache \<Rightarrow> 'c page_cache" where
  "uncount_page k st = st\<lparr>pageNum := pageNum st - 1, pagesList := skip_erase k (pagesList st)\<rparr>"

subsection \<open>Operations\<close>

definition FindOrCreateWriteHandle ::
    "'c cachelib \<Rightarrow> key \<Rightarrow> 'c page_cache \<Rightarrow> (bytes \<times> 'c page_cache) option" where
  "FindOrCreateWriteHandle cl key st =
     (case cl_findToWrite cl key (pc_cache st) of
        (Some m, c) \<Rightarrow> Some (m, st\<lparr>pc_cache := c\<rparr>)
      | (None, c) \<Rightarrow> do {
          let st = st\<lparr>pc_cache := c\<rparr>;
          st \<leftarrow> (if SafeMode (pc_cfg st) then lock_shared st else Some st);
          let (handle, c) = cl_allocate cl key (GetRealPageSize (pc_cfg st)) (pc_cache st);
          let st = st\<lparr>pc_cache := c\<rparr>;
          let st = (if SafeMode (pc_cfg st) then st\<lparr>lock := lock st - 1\<rparr> else st);
          m \<leftarrow> handle;
          let m = blit m 0 (replicate (PageMetaSize (pc_cfg st) + bitmap_size (pc_cfg st)) 0);
          if EnableNvmCache (CacheLibCfg (pc_cfg st))
          then let (old, c) = cl_insertOrReplace cl key m (pc_cache st);
                   st = st\<lparr>pc_cache := c\<rparr>
               in Some (m, if old = None then count_page key st else st)
          else let (inserted, c) = cl_insert cl key m (pc_cache st);
                   st = st\<lparr>pc_cache := c\<rparr>
               in if inserted then Some (m, count_page key st)
                  else (case cl_findToWrite cl key (pc_cache st) of
                          (Some m, c) \<Rightarrow> Some (m, st\<lparr>pc_cache := c\<rparr>)
                        | (None, c) \<Rightarrow> None)
        })"

text \<open>What \<^verbatim>\<open>Write\<close> does to the memory of the page, from \<^verbatim>\<open>Lock\<close> to \<^verbatim>\<open>UnLock\<close>.\<close>

definition Write_mem :: "CacheConfig \<Rightarrow> bytes \<Rightarrow> nat \<Rightarrow> bytes \<Rightarrow> bytes option" where
  "Write_mem cfg m pagePos buf =
     (let (locked, m) = Page_Lock cfg m
      in if \<not> locked then None
         else let realOffset = PageMetaSize cfg + bitmap_size cfg + pagePos;
                  (newVer, m) = AddNewVer cfg m;
                  m = blit m realOffset buf;
                  m = SetBitMap cfg m pagePos (length buf) True;
                  m = SetLastVer cfg m newVer
              in Some (Page_UnLock cfg m))"

definition Page_Write ::
    "'c cachelib \<Rightarrow> key \<Rightarrow> nat \<Rightarrow> bytes \<Rightarrow> 'c page_cache \<Rightarrow> (int \<times> 'c page_cache) option" where
  "Page_Write cl key pagePos buf st =
     (if \<not> PageBodySize (pc_cfg st) \<ge> pagePos + length buf then None
      else do {
        (m, st) \<leftarrow> FindOrCreateWriteHandle cl key st;
        m \<leftarrow> Write_mem (pc_cfg st) m pagePos buf;
        Some (SUCCESS, st\<lparr>pc_cache := cl_store cl key m (pc_cache st)\<rparr>)
      })"

definition Page_Read ::
    "'c cachelib \<Rightarrow> key \<Rightarrow> nat \<Rightarrow> nat \<Rightarrow> bytes \<Rightarrow> boundary \<Rightarrow> 'c page_cache \<Rightarrow>
       (int \<times> boundary \<times> bytes \<times> 'c page_cache) option" where
  "Page_Read cl key pagePos len buf dataBoundary st =
     (if \<not> PageBodySize (pc_cfg st) \<ge> pagePos + len then None
      else case cl_find cl key (pc_cache st) of
        (None, c) \<Rightarrow> Some (PAGE_NOT_FOUND, dataBoundary, buf, st\<lparr>pc_cache := c\<rparr>)
      | (Some m, c) \<Rightarrow>
          let lastVer = GetLastVer (pc_cfg st) m;
              newVer = GetNewVer (pc_cfg st) m
          in if lastVer \<noteq> newVer then None
             else let (dataBoundary, buf) = Read_page (pc_cfg st) m pagePos len buf
                  in Some (SUCCESS, dataBoundary, buf, st\<lparr>pc_cache := c\<rparr>))"

definition Page_GetAllCache ::
    "'c cachelib \<Rightarrow> key \<Rightarrow> 'c page_cache \<Rightarrow> (int \<times> (bytes \<times> nat) list \<times> 'c page_cache) option" where
  "Page_GetAllCache cl key st =
     (case cl_find cl key (pc_cache st) of
        (None, c) \<Rightarrow> Some (PAGE_NOT_FOUND, [], st\<lparr>pc_cache := c\<rparr>)
      | (Some m, c) \<Rightarrow>
          if GetLastVer (pc_cfg st) m \<noteq> GetNewVer (pc_cfg st) m then None
          else Some (SUCCESS, AllCache_page (pc_cfg st) m, st\<lparr>pc_cache := c\<rparr>))"

definition Page_DeletePart ::
    "'c cachelib \<Rightarrow> key \<Rightarrow> nat \<Rightarrow> nat \<Rightarrow> 'c page_cache \<Rightarrow> (int \<times> 'c page_cache) option" where
  "Page_DeletePart cl key pagePos len st =
     (if \<not> PageBodySize (pc_cfg st) \<ge> pagePos + len then None
      else case cl_findToWrite cl key (pc_cache st) of
        (None, c) \<Rightarrow> Some (PAGE_NOT_FOUND, st\<lparr>pc_cache := c\<rparr>)
      | (Some m, c) \<Rightarrow>
          let st = st\<lparr>pc_cache := c\<rparr>;
              cfg = pc_cfg st;
              (locked, m) = Page_Lock cfg m
          in if \<not> locked then None
             else let (newVer, m) = AddNewVer cfg m;
                      m = SetBitMap cfg m pagePos len False;
                      st = st\<lparr>pc_cache := cl_store cl key m (pc_cache st)\<rparr>;
                      isEmpty = list_all (\<lambda>b. b = 0) (slice (PageMetaSize cfg) (bitmap_size cfg) m);
                      keep = (\<lambda>res st. Some (res, st\<lparr>pc_cache :=
                        cl_store cl key (Page_UnLock cfg (SetLastVer cfg m newVer)) (pc_cache st)\<rparr>))
                  in if isEmpty
                     then do {
                       st \<leftarrow> (if SafeMode cfg then lock_exclusive st else Some st);
                       let (removed, c) = cl_remove cl key (pc_cache st);
                       let st = st\<lparr>pc_cache := c\<rparr>;
                       let st = (if SafeMode cfg then st\<lparr>lock := 0\<rparr> else st);
                       if removed then Some (SUCCESS, uncount_page key st) else keep PAGE_DEL_FAIL st
                     }
                     else keep SUCCESS st)"

definition Page_Delete :: "'c cachelib \<Rightarrow> key \<Rightarrow> 'c page_cache \<Rightarrow> (int \<times> 'c page_cache) option" where
  "Page_Delete cl key st = do {
     st \<leftarrow> (if SafeMode (pc_cfg st) then lock_exclusive st else Some st);
     let (removed, c) = cl_remove cl key (pc_cache st);
     let st = st\<lparr>pc_cache := c\<rparr>;
     let res = (if removed then SUCCESS else PAGE_NOT_FOUND);
     let st = (if SafeMode (pc_cfg st) then st\<lparr>lock := 0\<rparr> else st);
     Some (res, if res = SUCCESS then uncount_page key st else st)
   }"

definition Page_GetCacheSize :: "'c page_cache \<Rightarrow> 64 word" where
  "Page_GetCacheSize st = pageNum st * of_nat (GetRealPageSize (pc_cfg st))"

definition Page_GetCacheMaxSize :: "'c page_cache \<Rightarrow> nat" where
  "Page_GetCacheMaxSize st =
     (if \<not> EnableNvmCache (CacheLibCfg (pc_cfg st)) then MaxCacheSize (pc_cfg st)
      else let nvmMaxSize = RaidFileNum (CacheLibCfg (pc_cfg st)) * RaidFileSize (CacheLibCfg (pc_cfg st))
           in MaxCacheSize (pc_cfg st) + nvmMaxSize)"

subsection \<open>What the memory operations do\<close>

declare meta_pos.simps [simp del]

lemma page_abs_meta [simp]:
  "page_cfg_ok cfg \<Longrightarrow> page_abs cfg (m[meta_pos p := b]) = page_abs cfg m"
  by (rule ext) (simp add: page_abs_def)

lemma meta_pos_in_list: "page_cfg_ok cfg \<Longrightarrow> length m = page_len cfg \<Longrightarrow> meta_pos p < length m"
  using meta_pos_in_page by simp

text \<open>The copy and the bitmap update, whatever the lock and version bytes hold.\<close>

lemma write_core:
  assumes ok: "page_cfg_ok cfg" and len: "length m = page_len cfg"
    and fits: "pos + length buf \<le> PageBodySize cfg"
    and fast: "GetFastBitmap m \<longrightarrow> (\<forall>i < PageBodySize cfg. page_bit cfg m i)"
    and m': "m' = SetBitMap cfg (blit m (body_off cfg + pos) buf) pos (length buf) True"
  shows "length m' = page_len cfg \<and> page_abs cfg m' = overlay (page_abs cfg m) pos buf \<and>
    (GetFastBitmap m' \<longrightarrow> (\<forall>i < PageBodySize cfg. page_bit cfg m' i)) \<and>
    (\<forall>p. p \<noteq> FAST_BITMAP \<longrightarrow> m' ! meta_pos p = m ! meta_pos p)"
proof -
  let ?m1 = "blit m (body_off cfg + pos) buf"
  have len1: "length ?m1 = page_len cfg" using len fits by (simp add: page_len_def body_off_def)
  have meta: "?m1 ! meta_pos p = m ! meta_pos p" for p
    using blit_body(2) [OF fits len] meta_pos_lt [OF ok, of p] by (simp add: body_off_def)
  have bits: "page_bit cfg m' i = ((pos \<le> i \<and> i < pos + length buf) \<or> page_bit cfg m i)"
    if "i < PageBodySize cfg" for i
    using SetBitMap_spec(2) [OF ok len1 fits that, of True] page_bit_blit_body [OF ok fits len that]
    by (auto simp: m')
  have body: "m' ! (body_off cfg + i) =
      (if pos \<le> i \<and> i < pos + length buf then buf ! (i - pos) else m ! (body_off cfg + i))"
    if "i < PageBodySize cfg" for i
    using SetBitMap_spec(4) [OF ok len1 fits that, of True] blit_body(1) [OF fits len that] by (simp add: m')
  have "page_abs cfg m' i = overlay (page_abs cfg m) pos buf i" for i
    using bits body fits by (cases "i < PageBodySize cfg") (auto simp: page_abs_def overlay_def)
  moreover have "GetFastBitmap ?m1 = GetFastBitmap m" using meta by (simp add: GetFastBitmap_def)
  then have "GetFastBitmap m' \<longrightarrow> (\<forall>i < PageBodySize cfg. page_bit cfg m' i)"
    using SetBitMap_spec(5) [OF ok len1 fits, of True] bits fast fits by (auto simp: m')
  ultimately show ?thesis
    using SetBitMap_spec(1,3) [OF ok len1 fits] len1 meta by (auto simp: m')
qed

lemma Write_mem_spec:
  assumes ok: "page_cfg_ok cfg" and pg: "page_ok cfg m" and fits: "pos + length buf \<le> PageBodySize cfg"
  shows "\<exists>m'. Write_mem cfg m pos buf = Some m' \<and> page_ok cfg m' \<and>
    page_abs cfg m' = overlay (page_abs cfg m) pos buf"
proof -
  let ?v = "m ! meta_pos NEWVER + 1"
  define m1 where "m1 = (if EnableCAS cfg then m[meta_pos LOCK := 1, meta_pos NEWVER := ?v] else m)"
  define m2 where "m2 = SetBitMap cfg (blit m1 (body_off cfg + pos) buf) pos (length buf) True"
  define m3 where "m3 = (if EnableCAS cfg then m2[meta_pos LASTVER := ?v, meta_pos LOCK := 0] else m2)"
  have len: "length m = page_len cfg" and lk: "m ! meta_pos LOCK = 0"
    and ver: "m ! meta_pos LASTVER = m ! meta_pos NEWVER"
    and fast: "GetFastBitmap m \<longrightarrow> (\<forall>i < PageBodySize cfg. page_bit cfg m i)"
    using pg by (auto simp: page_ok_def)
  have run: "Write_mem cfg m pos buf = Some m3"
    using lk meta_pos_in_list [OF ok len]
    by (simp add: Write_mem_def Page_Lock_def AddNewVer_def SetLastVer_def Page_UnLock_def Let_def
        m3_def m2_def m1_def body_off_def)
  have len1: "length m1 = page_len cfg" using len by (simp add: m1_def)
  have fast1: "GetFastBitmap m1 = GetFastBitmap m" by (simp add: m1_def GetFastBitmap_def)
  have bit1: "page_bit cfg m1 i = page_bit cfg m i" for i using ok by (simp add: m1_def)
  have abs1: "page_abs cfg m1 = page_abs cfg m" using ok by (simp add: m1_def)
  have core: "length m2 = page_len cfg" "page_abs cfg m2 = overlay (page_abs cfg m1) pos buf"
    "GetFastBitmap m2 \<longrightarrow> (\<forall>i < PageBodySize cfg. page_bit cfg m2 i)"
    "\<And>p. p \<noteq> FAST_BITMAP \<Longrightarrow> m2 ! meta_pos p = m1 ! meta_pos p"
    using write_core [OF ok len1 fits _ m2_def] fast fast1 bit1 by auto
  note inl = meta_pos_in_list [OF ok len] meta_pos_in_list [OF ok core(1)]
  have "page_ok cfg m3"
    using core(1,3,4) inl lk ver ok by (auto simp: page_ok_def m3_def m1_def GetFastBitmap_def)
  moreover have "page_abs cfg m3 = overlay (page_abs cfg m) pos buf"
    using core(2) ok abs1 by (simp add: m3_def)
  ultimately show ?thesis using run by blast
qed

lemma fresh_page:
  assumes ok: "page_cfg_ok cfg" and len: "length m = GetRealPageSize cfg"
  defines "z \<equiv> blit m 0 (replicate (PageMetaSize cfg + bitmap_size cfg) 0)"
  shows "page_ok cfg z" and "page_abs cfg z = Map.empty"
proof -
  have lm: "length m = page_len cfg" using len by (simp add: GetRealPageSize_def page_len_def)
  have zero: "z ! i = 0" if "i < PageMetaSize cfg + bitmap_size cfg" for i
    using that lm by (simp add: z_def page_len_def)
  have meta: "z ! meta_pos p = 0" for p
    using zero [of "meta_pos p"] meta_pos_lt [OF ok, of p] by simp
  have bits: "\<not> page_bit cfg z i" if "i < PageBodySize cfg" for i
    using zero [of "PageMetaSize cfg + i div 8"] div8_bitmap [OF ok that] by (simp add: page_bit_def GetBit_def)
  have "length z = page_len cfg" using lm by (simp add: z_def page_len_def)
  then show "page_ok cfg z" using meta by (simp add: page_ok_def GetFastBitmap_def)
  show "page_abs cfg z = Map.empty" using bits by (auto simp: page_abs_def fun_eq_iff)
qed

text \<open>\<^verbatim>\<open>isEmpty\<close>: the bitmap bytes are all zero exactly when no byte of the page is valid.\<close>

lemma bitmap_empty_iff:
  assumes ok: "page_cfg_ok cfg" and len: "length m = page_len cfg"
  shows "list_all (\<lambda>b. b = 0) (slice (PageMetaSize cfg) (bitmap_size cfg) m) \<longleftrightarrow> page_abs cfg m = Map.empty"
proof
  assume all: "list_all (\<lambda>b. b = 0) (slice (PageMetaSize cfg) (bitmap_size cfg) m)"
  have "m ! (PageMetaSize cfg + i div 8) = 0" if "i < PageBodySize cfg" for i
    using all div8_bitmap [OF ok that] len by (auto simp: list_all_length page_len_def)
  then show "page_abs cfg m = Map.empty" by (auto simp: page_abs_def page_bit_def GetBit_def fun_eq_iff)
next
  assume emp: "page_abs cfg m = Map.empty"
  have "m ! (PageMetaSize cfg + j) = 0" if j: "j < bitmap_size cfg" for j
  proof -
    have "\<not> bit (m ! (PageMetaSize cfg + j)) n" if n: "n < 8" for n
    proof -
      have "8 * j + n < PageBodySize cfg" using j n body8 [OF ok] by simp
      then have "\<not> page_bit cfg m (8 * j + n)"
        using fun_cong [OF emp, of "8 * j + n"] by (auto simp: page_abs_def split: if_splits)
      then show ?thesis using n by (simp add: page_bit_def GetBit_bit)
    qed
    then show ?thesis by (simp add: byte_eq_iff)
  qed
  then show "list_all (\<lambda>b. b = 0) (slice (PageMetaSize cfg) (bitmap_size cfg) m)"
    using len by (auto simp: list_all_length page_len_def)
qed

text \<open>What \<^verbatim>\<open>DeletePart\<close> does to the memory of the page before and after the emptiness test.\<close>

lemma DeletePart_mem:
  assumes ok: "page_cfg_ok cfg" and pg: "page_ok cfg m" and fits: "pos + n \<le> PageBodySize cfg"
    and lk: "Page_Lock cfg m = (b, m1)" and nv: "AddNewVer cfg m1 = (v, m2)"
    and m3: "m3 = SetBitMap cfg m2 pos n False"
  shows "b \<and> length m3 = page_len cfg \<and> page_abs cfg m3 = cut_out (page_abs cfg m) pos n \<and>
    page_ok cfg (Page_UnLock cfg (SetLastVer cfg m3 v)) \<and>
    page_abs cfg (Page_UnLock cfg (SetLastVer cfg m3 v)) = cut_out (page_abs cfg m) pos n"
proof -
  have len: "length m = page_len cfg" and l0: "m ! meta_pos LOCK = 0"
    and ver: "m ! meta_pos LASTVER = m ! meta_pos NEWVER"
    using pg by (auto simp: page_ok_def)
  note inl = meta_pos_in_list [OF ok len]
  have b: "b" and m2: "m2 = (if EnableCAS cfg then m[meta_pos LOCK := 1, meta_pos NEWVER := v] else m)"
    using lk nv l0 inl by (auto simp: Page_Lock_def AddNewVer_def Let_def split: if_splits)
  have len2: "length m2 = page_len cfg" using len by (simp add: m2)
  have abs2: "page_abs cfg m2 = page_abs cfg m" using ok by (simp add: m2)
  have len3: "length m3 = page_len cfg" using SetBitMap_spec(1) [OF ok len2 fits] len2 m3 by simp
  have bits: "page_bit cfg m3 i = (\<not> (pos \<le> i \<and> i < pos + n) \<and> page_bit cfg m2 i)"
    if "i < PageBodySize cfg" for i
    using SetBitMap_spec(2) [OF ok len2 fits that, of False] by (auto simp: m3)
  have body: "m3 ! (body_off cfg + i) = m2 ! (body_off cfg + i)" if "i < PageBodySize cfg" for i
    using SetBitMap_spec(4) [OF ok len2 fits that, of False] by (simp add: m3)
  have "page_abs cfg m3 i = cut_out (page_abs cfg m2) pos n i" for i
    using bits body by (cases "i < PageBodySize cfg") (auto simp: page_abs_def cut_out_def)
  then have abs3: "page_abs cfg m3 = cut_out (page_abs cfg m) pos n" using abs2 by auto
  have meta: "m3 ! meta_pos p = m2 ! meta_pos p" if "p \<noteq> FAST_BITMAP" for p
    using SetBitMap_spec(3) [OF ok len2 fits that] by (simp add: m3)
  have fast: "\<not> GetFastBitmap m3" using SetBitMap_spec(5) [OF ok len2 fits, of False] by (simp add: m3)
  note inl3 = meta_pos_in_list [OF ok len3]
  have "page_ok cfg (Page_UnLock cfg (SetLastVer cfg m3 v))"
    using len3 l0 ver fast inl inl3
    by (auto simp: page_ok_def Page_UnLock_def SetLastVer_def meta m2 GetFastBitmap_def)
  then show ?thesis
    using b len3 abs3 ok by (auto simp: Page_UnLock_def SetLastVer_def)
qed

subsection \<open>Invariant and abstraction\<close>

definition pc_inv :: "'c cachelib \<Rightarrow> ('c \<Rightarrow> key \<rightharpoonup> bytes) \<Rightarrow> 'c page_cache \<Rightarrow> bool" where
  "pc_inv cl items st =
     (cachelib_laws cl items \<and> page_cfg_ok (pc_cfg st) \<and> lock st = 0 \<and>
      sorted (pagesList st) \<and> distinct (pagesList st) \<and>
      dom (items (pc_cache st)) \<subseteq> set (pagesList st) \<and>
      (\<forall>k m. items (pc_cache st) k = Some m \<longrightarrow> page_ok (pc_cfg st) m))"

definition contents :: "('c \<Rightarrow> key \<rightharpoonup> bytes) \<Rightarrow> 'c page_cache \<Rightarrow> key \<Rightarrow> nat \<rightharpoonup> byte" where
  "contents items st k =
     (case items (pc_cache st) k of None \<Rightarrow> Map.empty | Some m \<Rightarrow> page_abs (pc_cfg st) m)"

lemma cl_find_eq:
  "cachelib_laws cl items \<Longrightarrow> cl_find cl k c = (r, c') \<Longrightarrow> r = items c k \<and> items c' = items c"
  "cachelib_laws cl items \<Longrightarrow> cl_findToWrite cl k c = (r, c') \<Longrightarrow> r = items c k \<and> items c' = items c"
  unfolding cachelib_laws_def by (metis fst_conv snd_conv)+

lemma cl_allocate_eq:
  "cachelib_laws cl items \<Longrightarrow> cl_allocate cl k n c = (r, c') \<Longrightarrow>
     items c' \<subseteq>\<^sub>m items c \<and> (\<forall>m. r = Some m \<longrightarrow> length m = n)"
  unfolding cachelib_laws_def by (metis fst_conv snd_conv)

lemma cl_insert_eq:
  "cachelib_laws cl items \<Longrightarrow> items c k = None \<Longrightarrow> cl_insert cl k m c = (r, c') \<Longrightarrow>
     r \<and> items c' = (items c)(k \<mapsto> m)"
  unfolding cachelib_laws_def by (metis fst_conv snd_conv)

lemma cl_insertOrReplace_eq:
  "cachelib_laws cl items \<Longrightarrow> cl_insertOrReplace cl k m c = (r, c') \<Longrightarrow>
     r = items c k \<and> items c' = (items c)(k \<mapsto> m)"
  unfolding cachelib_laws_def by (metis fst_conv snd_conv)

lemma cl_remove_eq:
  "cachelib_laws cl items \<Longrightarrow> cl_remove cl k c = (r, c') \<Longrightarrow>
     r = (items c k \<noteq> None) \<and> items c' = (items c)(k := None)"
  unfolding cachelib_laws_def by (metis fst_conv snd_conv)

lemma cl_store_eq:
  "cachelib_laws cl items \<Longrightarrow> items c k = Some m0 \<Longrightarrow> items (cl_store cl k m c) = (items c)(k \<mapsto> m)"
  unfolding cachelib_laws_def by (metis option.distinct(1))

lemma map_le_None: "f \<subseteq>\<^sub>m g \<Longrightarrow> f x = g x \<or> f x = None"
  by (auto simp: map_le_def dom_def)

lemma skip_insert_same: "k \<in> set ks \<Longrightarrow> skip_insert k ks = ks"
  by (simp add: skip_insert_def)

text \<open>The path taken on a miss, with the shared lock taken and released.\<close>

lemma FindOrCreate_miss:
  assumes laws: "cachelib_laws cl items" and l0: "lock st = 0"
    and fd: "cl_findToWrite cl k (pc_cache st) = (None, c)"
    and al: "cl_allocate cl k (GetRealPageSize (pc_cfg st)) c = (h, c1)"
    and no1: "items c1 k = None"
  shows "(h = None \<longrightarrow> FindOrCreateWriteHandle cl k st = None) \<and>
    (\<forall>m0. h = Some m0 \<longrightarrow> (\<exists>c' z. z = blit m0 0 (replicate (PageMetaSize (pc_cfg st) + bitmap_size (pc_cfg st)) 0) \<and>
       items c' = (items c1)(k \<mapsto> z) \<and>
       FindOrCreateWriteHandle cl k st = Some (z, count_page k (st\<lparr>pc_cache := c'\<rparr>))))"
proof (cases h)
  case None
  then show ?thesis using fd al l0 by (simp add: FindOrCreateWriteHandle_def lock_shared_def Let_def)
next
  case (Some m0)
  define z where "z = blit m0 0 (replicate (PageMetaSize (pc_cfg st) + bitmap_size (pc_cfg st)) 0)"
  obtain old c2 where ior: "cl_insertOrReplace cl k z c1 = (old, c2)" by (cases "cl_insertOrReplace cl k z c1")
  obtain ins c3 where ins: "cl_insert cl k z c1 = (ins, c3)" by (cases "cl_insert cl k z c1")
  note iorl = cl_insertOrReplace_eq [OF laws ior] and insl = cl_insert_eq [OF laws no1 ins]
  have unl: "st\<lparr>pc_cache := x, lock := 0\<rparr> = st\<lparr>pc_cache := x\<rparr>" for x using l0 by (cases st) simp
  have "FindOrCreateWriteHandle cl k st =
      Some (z, count_page k (st\<lparr>pc_cache := if EnableNvmCache (CacheLibCfg (pc_cfg st)) then c2 else c3\<rparr>))"
    using fd al l0 Some ior ins iorl insl no1
    by (simp add: FindOrCreateWriteHandle_def lock_shared_def z_def [symmetric] Let_def unl count_page_def)
  then show ?thesis using Some iorl insl z_def by auto
qed

lemma FindOrCreate_spec:
  assumes inv: "pc_inv cl items st" and run: "FindOrCreateWriteHandle cl k st = Some (m, st')"
  shows "pc_inv cl items st' \<and> pc_cfg st' = pc_cfg st \<and> items (pc_cache st') k = Some m \<and>
    page_abs (pc_cfg st) m = contents items st k \<and>
    (\<forall>k'. k' \<noteq> k \<longrightarrow> items (pc_cache st') k' = items (pc_cache st) k' \<or>
       (\<not> cachelib_roomy cl items \<and> items (pc_cache st') k' = None)) \<and>
    pagesList st' = skip_insert k (pagesList st)"
proof -
  have laws: "cachelib_laws cl items" and ok: "page_cfg_ok (pc_cfg st)"
    and dm: "dom (items (pc_cache st)) \<subseteq> set (pagesList st)"
    and pgs: "\<And>k m. items (pc_cache st) k = Some m \<Longrightarrow> page_ok (pc_cfg st) m"
    and l0: "lock st = 0" and srt: "sorted (pagesList st)" "distinct (pagesList st)"
    using inv by (auto simp: pc_inv_def)
  obtain r c where fd: "cl_findToWrite cl k (pc_cache st) = (r, c)" by (cases "cl_findToWrite cl k (pc_cache st)")
  note fdl = cl_find_eq(2) [OF laws fd]
  show ?thesis
  proof (cases r)
    case (Some m1)
    with run fd have "m1 = m" "st' = st\<lparr>pc_cache := c\<rparr>" by (auto simp: FindOrCreateWriteHandle_def)
    with Some fdl inv dm show ?thesis
      by (auto simp: pc_inv_def contents_def skip_insert_same domI split: option.splits)
  next
    case None
    then have no: "items (pc_cache st) k = None" using fdl by simp
    obtain h c1 where al: "cl_allocate cl k (GetRealPageSize (pc_cfg st)) c = (h, c1)"
      by (cases "cl_allocate cl k (GetRealPageSize (pc_cfg st)) c")
    have le: "items c1 \<subseteq>\<^sub>m items (pc_cache st)" using cl_allocate_eq [OF laws al] fdl by simp
    have no1: "items c1 k = None" using map_le_None [OF le, of k] no by auto
    note miss = FindOrCreate_miss [OF laws l0 fd [unfolded None] al no1]
    obtain m0 where h: "h = Some m0" using run miss by (cases h) auto
    have len0: "length m0 = GetRealPageSize (pc_cfg st)" using cl_allocate_eq [OF laws al] h by simp
    define z where "z = blit m0 0 (replicate (PageMetaSize (pc_cfg st) + bitmap_size (pc_cfg st)) 0)"
    have z: "page_ok (pc_cfg st) z" "page_abs (pc_cfg st) z = Map.empty"
      unfolding z_def by (rule fresh_page [OF ok len0])+
    obtain c' where m: "m = z" and c': "items c' = (items c1)(k \<mapsto> z)"
      and st': "st' = count_page k (st\<lparr>pc_cache := c'\<rparr>)" using miss run h by (auto simp: z_def)
    have "dom (items c1) \<subseteq> set (pagesList st)" using le dm by (meson map_le_implies_dom_le subset_trans)
    moreover have "page_ok (pc_cfg st) m'" if "items c1 k' = Some m'" for k' m'
      using map_le_None [OF le, of k'] that pgs [of k' m'] by auto
    ultimately have "pc_inv cl items st'"
      using laws ok l0 srt c' z by (auto simp: pc_inv_def st' count_page_def)
    moreover have "items c1 = items (pc_cache st)" if "cachelib_roomy cl items"
      using that al fdl by (metis cachelib_roomy_def snd_conv)
    ultimately show ?thesis
      using m c' z no map_le_None [OF le] by (auto simp: st' count_page_def contents_def)
  qed
qed

lemma FindOrCreate_total:
  assumes inv: "pc_inv cl items st" and room: "cachelib_roomy cl items"
  shows "\<exists>m st'. FindOrCreateWriteHandle cl k st = Some (m, st')"
proof -
  have laws: "cachelib_laws cl items" and l0: "lock st = 0" using inv by (auto simp: pc_inv_def)
  obtain r c where fd: "cl_findToWrite cl k (pc_cache st) = (r, c)" by (cases "cl_findToWrite cl k (pc_cache st)")
  note fdl = cl_find_eq(2) [OF laws fd]
  obtain h c1 where al: "cl_allocate cl k (GetRealPageSize (pc_cfg st)) c = (h, c1)"
    by (cases "cl_allocate cl k (GetRealPageSize (pc_cfg st)) c")
  have h: "h \<noteq> None" and c1: "items c1 = items c"
    using room al unfolding cachelib_roomy_def by (metis fst_conv, metis snd_conv)
  show ?thesis
  proof (cases r)
    case None
    then have no1: "items c1 k = None" using fdl c1 by simp
    then show ?thesis using FindOrCreate_miss [OF laws l0 fd [unfolded None] al no1] h by fastforce
  qed (use fd in \<open>auto simp: FindOrCreateWriteHandle_def\<close>)
qed

subsection \<open>The operations against the abstraction\<close>

lemma contents_None: "items (pc_cache st) k = None \<Longrightarrow> contents items st k = Map.empty"
  by (simp add: contents_def)

lemma contents_Some: "items (pc_cache st) k = Some m \<Longrightarrow> contents items st k = page_abs (pc_cfg st) m"
  by (simp add: contents_def)

lemma Page_Write_law:
  assumes inv: "pc_inv cl items st" and run: "Page_Write cl k pos buf st = Some (r, st')"
  shows "r = SUCCESS \<and> pc_inv cl items st' \<and> pc_cfg st' = pc_cfg st \<and>
    contents items st' k = overlay (contents items st k) pos buf \<and>
    others_kept (cachelib_roomy cl items) k (contents items st) (contents items st') \<and>
    pagesList st' = skip_insert k (pagesList st)"
proof -
  obtain m st1 where fc: "FindOrCreateWriteHandle cl k st = Some (m, st1)"
    and fits: "pos + length buf \<le> PageBodySize (pc_cfg st)"
    using run by (auto simp: Page_Write_def split: if_splits Option.bind_splits)
  note fcs = FindOrCreate_spec [OF inv fc]
  have ok: "page_cfg_ok (pc_cfg st)" and pg: "page_ok (pc_cfg st) m" and laws: "cachelib_laws cl items"
    using fcs by (auto simp: pc_inv_def)
  from Write_mem_spec [OF ok pg fits] obtain m' where wm: "Write_mem (pc_cfg st) m pos buf = Some m'"
    and m': "page_ok (pc_cfg st) m'" "page_abs (pc_cfg st) m' = overlay (page_abs (pc_cfg st) m) pos buf" by auto
  have st': "r = SUCCESS" "st' = st1\<lparr>pc_cache := cl_store cl k m' (pc_cache st1)\<rparr>"
    using run fc fcs wm fits by (auto simp: Page_Write_def)
  have it: "items (pc_cache st') = (items (pc_cache st1))(k \<mapsto> m')"
    using cl_store_eq [OF laws, of "pc_cache st1" k m] fcs by (simp add: st')
  have "k \<in> set (pagesList st1)" using fcs by simp
  then have "pc_inv cl items st'" using fcs it m' by (auto simp: pc_inv_def st')
  moreover have "contents items st' k = overlay (contents items st k) pos buf"
    using it fcs m' by (simp add: contents_def st')
  moreover have "others_kept (cachelib_roomy cl items) k (contents items st) (contents items st')"
    unfolding others_kept_def
  proof (intro allI impI)
    fix k' assume k': "k' \<noteq> k"
    then have "items (pc_cache st') k' = items (pc_cache st1) k'" using it by simp
    with fcs k' show "contents items st' k' = contents items st k' \<or>
        \<not> cachelib_roomy cl items \<and> contents items st' k' = Map.empty"
      by (metis (no_types, lifting) contents_def contents_None st'(2) page_cache.select_convs(1)
        page_cache.surjective page_cache.update_convs(2))
  qed
  ultimately show ?thesis using st' fcs by simp
qed

lemma Page_Write_cached:
  assumes inv: "pc_inv cl items st" and run: "Page_Write cl k pos buf st = Some (r, st')"
  shows "items (pc_cache st') k \<noteq> None"
proof -
  obtain m st1 m' where fc: "FindOrCreateWriteHandle cl k st = Some (m, st1)"
    and st': "st' = st1\<lparr>pc_cache := cl_store cl k m' (pc_cache st1)\<rparr>"
    using run by (auto simp: Page_Write_def split: if_splits Option.bind_splits)
  note fcs = FindOrCreate_spec [OF inv fc]
  then have "cachelib_laws cl items" by (simp add: pc_inv_def)
  from cl_store_eq [OF this, of "pc_cache st1" k m m'] fcs show ?thesis by (simp add: st')
qed

lemma Page_Write_total:
  assumes inv: "pc_inv cl items st" and room: "cachelib_roomy cl items"
    and fits: "pos + length buf \<le> PageBodySize (pc_cfg st)"
  shows "\<exists>st'. Page_Write cl k pos buf st = Some (SUCCESS, st')"
proof -
  obtain m st1 where fc: "FindOrCreateWriteHandle cl k st = Some (m, st1)"
    using FindOrCreate_total [OF inv room] by blast
  note fcs = FindOrCreate_spec [OF inv fc]
  have "page_cfg_ok (pc_cfg st)" "page_ok (pc_cfg st) m" using fcs by (auto simp: pc_inv_def)
  from Write_mem_spec [OF this fits] show ?thesis using fits fc fcs by (auto simp: Page_Write_def)
qed

lemma page_ok_versions: "page_ok cfg m \<Longrightarrow> GetLastVer cfg m = GetNewVer cfg m"
  by (simp add: page_ok_def GetLastVer_def GetNewVer_def)

lemma pc_inv_find:
  assumes "pc_inv cl items st" and "items c = items (pc_cache st)"
  shows "pc_inv cl items (st\<lparr>pc_cache := c\<rparr>) \<and> contents items (st\<lparr>pc_cache := c\<rparr>) = contents items st"
  using assms by (auto simp: pc_inv_def contents_def fun_eq_iff split: option.split)

lemma Page_Read_law:
  assumes inv: "pc_inv cl items st" and len: "0 < len"
    and fits: "pos + len \<le> PageBodySize (pc_cfg st)" and buf: "len \<le> length buf"
  shows "\<exists>r bs buf' c. Page_Read cl k pos len buf [] st = Some (r, bs, buf', st\<lparr>pc_cache := c\<rparr>) \<and>
    r = (if items (pc_cache st) k = None then PAGE_NOT_FOUND else SUCCESS) \<and>
    boundary_of (contents items st k) pos len bs \<and> filled (contents items st k) pos len buf buf' \<and>
    items c = items (pc_cache st)"
proof -
  have laws: "cachelib_laws cl items" and ok: "page_cfg_ok (pc_cfg st)" using inv by (auto simp: pc_inv_def)
  obtain r c where fd: "cl_find cl k (pc_cache st) = (r, c)" by (cases "cl_find cl k (pc_cache st)")
  note fdl = cl_find_eq(1) [OF laws fd]
  show ?thesis
  proof (cases r)
    case None
    then show ?thesis using fd fdl fits
      by (auto simp: Page_Read_def contents_None boundary_of_empty filled_empty)
  next
    case (Some m)
    then have pg: "page_ok (pc_cfg st) m" using fdl inv by (auto simp: pc_inv_def)
    obtain bs buf' where rp: "Read_page (pc_cfg st) m pos len buf = (bs, buf')"
      by (cases "Read_page (pc_cfg st) m pos len buf")
    have "Page_Read cl k pos len buf [] st = Some (SUCCESS, bs, buf', st\<lparr>pc_cache := c\<rparr>)"
      using Some fd fits rp page_ok_versions [OF pg] by (simp add: Page_Read_def)
    moreover have "contents items st k = page_abs (pc_cfg st) m" using Some fdl by (simp add: contents_def)
    ultimately show ?thesis using Some fdl rp Read_page_spec [OF ok pg len fits buf]
      by (intro exI [of _ SUCCESS] exI [of _ bs] exI [of _ buf'] exI [of _ c]) simp
  qed
qed

lemma Page_GetAllCache_law:
  assumes inv: "pc_inv cl items st" and pres: "items (pc_cache st) k \<noteq> None"
  shows "\<exists>segs c. Page_GetAllCache cl k st = Some (SUCCESS, segs, st\<lparr>pc_cache := c\<rparr>) \<and>
    segments_of (contents items st k) (PageBodySize (pc_cfg st)) segs \<and> items c = items (pc_cache st)"
proof -
  have laws: "cachelib_laws cl items" and ok: "page_cfg_ok (pc_cfg st)" using inv by (auto simp: pc_inv_def)
  obtain r c where fd: "cl_find cl k (pc_cache st) = (r, c)" by (cases "cl_find cl k (pc_cache st)")
  note fdl = cl_find_eq(1) [OF laws fd]
  obtain m where m: "r = Some m" using pres fdl by auto
  then have pg: "page_ok (pc_cfg st) m" using fdl inv by (auto simp: pc_inv_def)
  have "Page_GetAllCache cl k st = Some (SUCCESS, AllCache_page (pc_cfg st) m, st\<lparr>pc_cache := c\<rparr>)"
    using m fd page_ok_versions [OF pg] by (simp add: Page_GetAllCache_def)
  moreover have "contents items st k = page_abs (pc_cfg st) m" using m fdl by (simp add: contents_def)
  ultimately show ?thesis using fdl AllCache_page_spec [OF ok pg] by force
qed

text \<open>\<^verbatim>\<open>Delete\<close> and \<^verbatim>\<open>DeletePart\<close>; no page but \<open>k\<close> is touched, even by an eviction.\<close>

lemma removed_page:
  assumes inv: "pc_inv cl items st" and c: "items c = (items (pc_cache st))(k := None)"
  shows "pc_inv cl items (uncount_page k (st\<lparr>pc_cache := c\<rparr>)) \<and>
    contents items (uncount_page k (st\<lparr>pc_cache := c\<rparr>)) = (contents items st)(k := Map.empty)"
proof -
  have "dom (items c) \<subseteq> set (pagesList st) - {k}" using inv c by (auto simp: pc_inv_def split: if_splits)
  then have "pc_inv cl items (uncount_page k (st\<lparr>pc_cache := c\<rparr>))"
    using inv c by (auto simp: pc_inv_def uncount_page_def split: if_splits)
  moreover have "contents items (uncount_page k (st\<lparr>pc_cache := c\<rparr>)) k' = ((contents items st)(k := Map.empty)) k'" for k'
    by (simp add: contents_def uncount_page_def c split: option.split)
  ultimately show ?thesis by (simp add: fun_eq_iff)
qed

lemma Page_Delete_law:
  assumes inv: "pc_inv cl items st"
  shows "\<exists>st'. Page_Delete cl k st = Some (if items (pc_cache st) k = None then PAGE_NOT_FOUND else SUCCESS, st') \<and>
    pc_inv cl items st' \<and> pc_cfg st' = pc_cfg st \<and> contents items st' = (contents items st)(k := Map.empty) \<and>
    items (pc_cache st') = (items (pc_cache st))(k := None) \<and>
    pagesList st' = (if items (pc_cache st) k = None then pagesList st else skip_erase k (pagesList st))"
proof -
  have laws: "cachelib_laws cl items" and l0: "lock st = 0" using inv by (auto simp: pc_inv_def)
  obtain r c where rm: "cl_remove cl k (pc_cache st) = (r, c)" by (cases "cl_remove cl k (pc_cache st)")
  note rml = cl_remove_eq [OF laws rm]
  have unl: "st\<lparr>pc_cache := c, lock := 0\<rparr> = st\<lparr>pc_cache := c\<rparr>" using l0 by (cases st) simp
  have run: "Page_Delete cl k st = Some (if r then SUCCESS else PAGE_NOT_FOUND,
      if r then uncount_page k (st\<lparr>pc_cache := c\<rparr>) else st\<lparr>pc_cache := c\<rparr>)"
    using rm l0 by (simp add: Page_Delete_def lock_exclusive_def Let_def unl)
  show ?thesis
  proof (cases r)
    case True
    then show ?thesis using run rml removed_page [OF inv, of c k] by (simp add: uncount_page_def)
  next
    case False
    then have none: "items (pc_cache st) k = None" using rml by simp
    then have same: "items c = items (pc_cache st)" using rml by (auto simp: fun_eq_iff)
    have "(contents items st)(k := Map.empty) = contents items st" using none by (auto simp: contents_def)
    then show ?thesis using run False none same pc_inv_find [OF inv same] by auto
  qed
qed

lemma Page_DeletePart_law:
  assumes inv: "pc_inv cl items st" and fits: "pos + n \<le> PageBodySize (pc_cfg st)"
  shows "\<exists>st'. Page_DeletePart cl k pos n st =
      Some (if items (pc_cache st) k = None then PAGE_NOT_FOUND else SUCCESS, st') \<and>
    pc_inv cl items st' \<and> pc_cfg st' = pc_cfg st \<and>
    contents items st' = (contents items st)(k := cut_out (contents items st k) pos n) \<and>
    (contents items st' k = Map.empty \<longrightarrow> items (pc_cache st') k = None) \<and>
    set (pagesList st') \<subseteq> set (pagesList st)"
proof -
  have laws: "cachelib_laws cl items" and l0: "lock st = 0" and ok: "page_cfg_ok (pc_cfg st)"
    using inv by (auto simp: pc_inv_def)
  obtain r c where fd: "cl_findToWrite cl k (pc_cache st) = (r, c)" by (cases "cl_findToWrite cl k (pc_cache st)")
  note fdl = cl_find_eq(2) [OF laws fd]
  have inv1: "pc_inv cl items (st\<lparr>pc_cache := c\<rparr>)" using pc_inv_find [OF inv] fdl by simp
  show ?thesis
  proof (cases r)
    case None
    then have "contents items st = (contents items st)(k := cut_out (contents items st k) pos n)"
      using fdl by (auto simp: contents_def cut_out_def fun_eq_iff)
    then show ?thesis using fd fdl None fits inv1 pc_inv_find [OF inv, of c] by (auto simp: Page_DeletePart_def)
  next
    case (Some m)
    then have pg: "page_ok (pc_cfg st) m" and itk: "items (pc_cache st) k = Some m" and ick: "items c k = Some m"
      using fdl inv by (auto simp: pc_inv_def)
    obtain b m1 where lk: "Page_Lock (pc_cfg st) m = (b, m1)" by (cases "Page_Lock (pc_cfg st) m")
    obtain v m2 where nv: "AddNewVer (pc_cfg st) m1 = (v, m2)" by (cases "AddNewVer (pc_cfg st) m1")
    define m3 where "m3 = SetBitMap (pc_cfg st) m2 pos n False"
    define m4 where "m4 = Page_UnLock (pc_cfg st) (SetLastVer (pc_cfg st) m3 v)"
    define c3 where "c3 = cl_store cl k m3 c"
    note mem = DeletePart_mem [OF ok pg fits lk nv m3_def, folded m4_def]
    have c3: "items c3 = (items (pc_cache st))(k \<mapsto> m3)"
      using cl_store_eq [OF laws ick] fdl by (simp add: c3_def)
    obtain rr c4 where rm: "cl_remove cl k c3 = (rr, c4)" by (cases "cl_remove cl k c3")
    have c4: "rr" "items c4 = (items (pc_cache st))(k := None)" using cl_remove_eq [OF laws rm] c3 by auto
    define c5 where "c5 = cl_store cl k m4 c3"
    have c5: "items c5 = (items (pc_cache st))(k \<mapsto> m4)"
      using cl_store_eq [OF laws, of c3 k m3] c3 by (simp add: c5_def)
    have unl: "st\<lparr>pc_cache := x, lock := 0\<rparr> = st\<lparr>pc_cache := x\<rparr>" for x using l0 by (cases st) simp
    let ?emp = "page_abs (pc_cfg st) m3 = Map.empty"
    have run: "Page_DeletePart cl k pos n st = Some (SUCCESS,
        if ?emp then uncount_page k (st\<lparr>pc_cache := c4\<rparr>) else st\<lparr>pc_cache := c5\<rparr>)"
      using fd Some fits lk nv mem rm c4(1) l0 bitmap_empty_iff [OF ok, of m3]
      by (simp add: Page_DeletePart_def m3_def [symmetric] c3_def [symmetric] m4_def [symmetric]
          c5_def [symmetric] lock_exclusive_def unl Let_def)
    have ck: "contents items st k = page_abs (pc_cfg st) m" using itk by (simp add: contents_def)
    show ?thesis
    proof (cases ?emp)
      case True
      then show ?thesis
        using run itk removed_page [OF inv c4(2)] mem ck by (auto simp: uncount_page_def c4)
    next
      case False
      have "pc_inv cl items (st\<lparr>pc_cache := c5\<rparr>)" using inv c5 mem itk by (auto simp: pc_inv_def)
      moreover have "contents items (st\<lparr>pc_cache := c5\<rparr>) k' =
          ((contents items st)(k := cut_out (contents items st k) pos n)) k'" for k'
      proof (cases "k' = k")
        case True
        then show ?thesis using c5 mem ck by (simp add: contents_def)
      qed (use c5 in \<open>simp add: contents_def split: option.split\<close>)
      then have "contents items (st\<lparr>pc_cache := c5\<rparr>) = (contents items st)(k := cut_out (contents items st k) pos n)"
        by blast
      ultimately show ?thesis using run itk False mem ck by auto
    qed
  qed
qed

subsection \<open>An allocator to run the model on\<close>

text \<open>CacheLib with unlimited memory: a map; fresh memory holds arbitrary bytes (here 170).\<close>

definition map_cachelib :: "(key \<rightharpoonup> bytes) cachelib" where
  "map_cachelib = \<lparr>
     cl_find = (\<lambda>k c. (c k, c)), cl_findToWrite = (\<lambda>k c. (c k, c)),
     cl_allocate = (\<lambda>k n c. (Some (replicate n 170), c)),
     cl_insert = (\<lambda>k m c. if c k = None then (True, c(k \<mapsto> m)) else (False, c)),
     cl_insertOrReplace = (\<lambda>k m c. (c k, c(k \<mapsto> m))),
     cl_remove = (\<lambda>k c. (c k \<noteq> None, c(k := None))),
     cl_store = (\<lambda>k m c. c(k \<mapsto> m))\<rparr>"

lemma map_cachelib_laws: "cachelib_laws map_cachelib id" "cachelib_roomy map_cachelib id"
  by (auto simp: cachelib_laws_def cachelib_roomy_def map_cachelib_def)

definition small_cfg :: CacheConfig where
  "small_cfg = \<lparr>CacheName = ''c'', MaxCacheSize = 1000, PageBodySize = 8, PageMetaSize = 4,
     EnableCAS = True, SafeMode = True, CacheLibCfg =
     \<lparr>EnableNvmCache = False, RaidPath = [], RaidFileNum = 0, RaidFileSize = 0, DataChecksum = False\<rparr>\<rparr>"

definition empty_pc :: "(key \<rightharpoonup> bytes) page_cache" where
  "empty_pc = \<lparr>pc_cfg = small_cfg, pc_cache = Map.empty, pageNum = 0, pagesList = [], lock = 0\<rparr>"

lemma small_cfg_ok: "page_cfg_ok small_cfg"
  by (simp add: page_cfg_ok_def small_cfg_def)

lemma empty_pc_inv: "pc_inv map_cachelib id empty_pc"
  by (simp add: pc_inv_def empty_pc_def map_cachelib_laws small_cfg_ok)

lemma empty_pc_simps [simp]:
  "pc_cfg empty_pc = small_cfg" "PageBodySize small_cfg = 8" "contents id empty_pc k = Map.empty"
  by (simp_all add: empty_pc_def small_cfg_def contents_def)

subsection \<open>Properties\<close>

text \<open>
  C13: \<^verbatim>\<open>PageCacheImpl::Write\<close> refines an update of the page's contents.  Whenever it returns it
  reports success, the invariant holds again (locks free, versions equal, a set fast bitmap only on
  a fully valid page, every cached page listed), the page written holds its old bytes overlaid with
  the buffer, and every other page is as it was or was evicted, which does not happen when the
  allocator has room.
\<close>

theorem Page_Write_refines:
  assumes "pc_inv cl items st" and "Page_Write cl k pos buf st = Some (r, st')"
  shows "r = SUCCESS \<and> pc_inv cl items st' \<and> k \<in> set (pagesList st') \<and>
    contents items st' k = overlay (contents items st k) pos buf \<and>
    others_kept (cachelib_roomy cl items) k (contents items st) (contents items st')"
  using Page_Write_law [OF assms] by simp

lemma empty_pc_write:
  obtains st' where "Page_Write map_cachelib ''k'' 2 [7, 8, 9] empty_pc = Some (SUCCESS, st')"
  using Page_Write_total [OF empty_pc_inv map_cachelib_laws(2), of 2 "[7, 8, 9]" "''k''"] by auto

theorem Page_Write_refines_witness:
  "\<exists>st'. Page_Write map_cachelib ''k'' 2 [7, 8, 9] empty_pc = Some (SUCCESS, st') \<and>
     contents id st' ''k'' 3 = Some 8 \<and> contents id st' ''k'' 5 = None"
proof -
  obtain st' where w: "Page_Write map_cachelib ''k'' 2 [7, 8, 9] empty_pc = Some (SUCCESS, st')"
    by (rule empty_pc_write)
  from Page_Write_refines [OF empty_pc_inv w] w show ?thesis by (simp add: overlay_def)
qed

text \<open>
  A \<^verbatim>\<open>Read\<close> that follows a \<^verbatim>\<open>Write\<close> of the same page returns, and returns the written bytes:
  the boundary is exactly the maximal runs of valid bytes of the overlaid page in the window, and the
  buffer is filled there and untouched elsewhere, whatever window is read.
\<close>

theorem Page_Read_after_Write:
  assumes "pc_inv cl items st" and "Page_Write cl k pos buf st = Some (r, st')"
    and "0 < len" and "off + len \<le> PageBodySize (pc_cfg st')" and "len \<le> length dst"
  shows "\<exists>bs dst' st''. Page_Read cl k off len dst [] st' = Some (SUCCESS, bs, dst', st'') \<and>
    boundary_of (overlay (contents items st k) pos buf) off len bs \<and>
    filled (overlay (contents items st k) pos buf) off len dst dst' \<and>
    pc_inv cl items st'' \<and> contents items st'' = contents items st'"
proof -
  note w = Page_Write_law [OF assms(1,2)]
  have inv': "pc_inv cl items st'" using w by simp
  have pres: "items (pc_cache st') k \<noteq> None" using Page_Write_cached [OF assms(1,2)] .
  obtain bs dst' c where rd: "Page_Read cl k off len dst [] st' = Some (SUCCESS, bs, dst', st'\<lparr>pc_cache := c\<rparr>)"
    and bnd: "boundary_of (contents items st' k) off len bs" "filled (contents items st' k) off len dst dst'"
    and c: "items c = items (pc_cache st')"
    using Page_Read_law [OF inv' assms(3,4,5), of k] pres by auto
  have "contents items st' k = overlay (contents items st k) pos buf" using w by simp
  with rd bnd pc_inv_find [OF inv' c] show ?thesis by auto
qed

theorem Page_Read_after_Write_witness:
  "\<exists>st' bs dst' st''. Page_Write map_cachelib ''k'' 2 [7, 8, 9] empty_pc = Some (SUCCESS, st') \<and>
     Page_Read map_cachelib ''k'' 1 6 (replicate 6 0) [] st' = Some (SUCCESS, bs, dst', st'') \<and>
     filled (overlay Map.empty 2 [7, 8, 9]) 1 6 (replicate 6 0) dst'"
proof -
  obtain st' where w: "Page_Write map_cachelib ''k'' 2 [7, 8, 9] empty_pc = Some (SUCCESS, st')"
    by (rule empty_pc_write)
  then have "PageBodySize (pc_cfg st') = 8" using Page_Write_law [OF empty_pc_inv w] by simp
  with Page_Read_after_Write [OF empty_pc_inv w, of 6 1 "replicate 6 0"] w show ?thesis by auto
qed

text \<open>
  C21: \<^verbatim>\<open>DeletePart\<close> invalidates exactly the bytes of its range.  It returns \<^verbatim>\<open>PAGE_NOT_FOUND\<close> for
  a page that is not cached and success otherwise, keeps the invariant, cuts the range out of the
  page's contents and leaves every other page alone; a page left without valid bytes is removed
  from the cache.
\<close>

theorem Page_DeletePart_cuts:
  assumes "pc_inv cl items st" and "pos + n \<le> PageBodySize (pc_cfg st)"
  shows "\<exists>st'. Page_DeletePart cl k pos n st =
      Some (if items (pc_cache st) k = None then PAGE_NOT_FOUND else SUCCESS, st') \<and>
    pc_inv cl items st' \<and> contents items st' = (contents items st)(k := cut_out (contents items st k) pos n) \<and>
    (contents items st' k = Map.empty \<longrightarrow> items (pc_cache st') k = None)"
  using Page_DeletePart_law [OF assms] by blast

theorem Page_DeletePart_cuts_witness:
  "\<exists>st' st''. Page_Write map_cachelib ''k'' 2 [7, 8, 9] empty_pc = Some (SUCCESS, st') \<and>
     Page_DeletePart map_cachelib ''k'' 3 1 st' = Some (SUCCESS, st'') \<and>
     contents id st'' ''k'' 2 = Some 7 \<and> contents id st'' ''k'' 3 = None"
proof -
  obtain st' where w: "Page_Write map_cachelib ''k'' 2 [7, 8, 9] empty_pc = Some (SUCCESS, st')"
    by (rule empty_pc_write)
  note wl = Page_Write_law [OF empty_pc_inv w] and pres = Page_Write_cached [OF empty_pc_inv w]
  have fit: "3 + 1 \<le> PageBodySize (pc_cfg st')" using wl by simp
  from Page_DeletePart_cuts [OF _ fit, of map_cachelib id "''k''"] wl pres w
  show ?thesis by (auto simp: cut_out_def)
qed

text \<open>
  \<^verbatim>\<open>GetAllCache\<close> of a cached page returns its valid bytes, cut into the maximal runs: each
  segment has the bytes of the page at its offset, and the segments cover exactly the valid bytes.
\<close>

theorem Page_GetAllCache_segments:
  assumes "pc_inv cl items st" and "items (pc_cache st) k \<noteq> None"
  shows "\<exists>segs st'. Page_GetAllCache cl k st = Some (SUCCESS, segs, st') \<and>
    segments_of (contents items st k) (PageBodySize (pc_cfg st)) segs \<and>
    contents items st' = contents items st"
proof -
  obtain segs c where ga: "Page_GetAllCache cl k st = Some (SUCCESS, segs, st\<lparr>pc_cache := c\<rparr>)"
    "segments_of (contents items st k) (PageBodySize (pc_cfg st)) segs" and c: "items c = items (pc_cache st)"
    using Page_GetAllCache_law [OF assms] by blast
  with pc_inv_find [OF assms(1) c] show ?thesis by blast
qed

theorem Page_GetAllCache_segments_witness:
  "\<exists>st' segs st''. Page_Write map_cachelib ''k'' 2 [7, 8, 9] empty_pc = Some (SUCCESS, st') \<and>
     Page_GetAllCache map_cachelib ''k'' st' = Some (SUCCESS, segs, st'') \<and>
     segments_of (overlay Map.empty 2 [7, 8, 9]) 8 segs"
proof -
  obtain st' where w: "Page_Write map_cachelib ''k'' 2 [7, 8, 9] empty_pc = Some (SUCCESS, st')"
    by (rule empty_pc_write)
  note wl = Page_Write_law [OF empty_pc_inv w] and pres = Page_Write_cached [OF empty_pc_inv w]
  from Page_GetAllCache_segments [of map_cachelib id st' "''k''"] wl pres w show ?thesis by auto
qed

end
