(* ===== verification/Paged_IO.thy ===== *)
theory Paged_IO
  imports Page_Read Local_Config
begin

section \<open>Splitting a request over pages (the loops of \<^verbatim>\<open>WriteCache\<close> and \<^verbatim>\<open>ReadCache\<close>)\<close>

text \<open>
  \<^verbatim>\<open>WriteCache::Put\<close> and \<^verbatim>\<open>ReadCache::Put\<close> are the same loop over the pages a byte range
  touches, and the two \<^verbatim>\<open>Get\<close> loops differ only in how they record what a page returned.  The
  loops are defined once, with the page operations, the naming of the pages and the recording as
  parameters; the locale \<open>page_store\<close> states what they need of the page operations, and the
  page cache is shown to provide it in \<open>Local_Stores\<close>.
\<close>

subsection \<open>Recording what the pages returned\<close>

text \<open>\<^verbatim>\<open>WriteCache::Get\<close> joins a segment to the last one when the two touch.\<close>

definition join_segment :: "nat \<Rightarrow> nat \<times> nat \<Rightarrow> boundary \<Rightarrow> boundary" where
  "join_segment bufOffset it dataBoundary =
     (let realStart = fst it + bufOffset
      in if dataBoundary \<noteq> [] \<and> fst (last dataBoundary) + snd (last dataBoundary) = realStart
         then butlast dataBoundary @ [(fst (last dataBoundary), snd (last dataBoundary) + snd it)]
         else dataBoundary @ [(realStart, snd it)])"

text \<open>\<^verbatim>\<open>ReadCache::Get\<close> appends it and counts its length in \<^verbatim>\<open>realReadLen\<close>.\<close>

definition push_segment :: "nat \<Rightarrow> nat \<times> nat \<Rightarrow> boundary \<times> nat \<Rightarrow> boundary \<times> nat" where
  "push_segment bufOffset it acc = (fst acc @ [(fst it + bufOffset, snd it)], snd acc + snd it)"

lemma separated_extend:
  "separated lo hi (bs @ [(x, y)]) \<Longrightarrow> hi \<le> hi' \<Longrightarrow> x + y + l \<le> hi' \<Longrightarrow> separated lo hi' (bs @ [(x, y + l)])"
  by (induction bs arbitrary: lo) auto

lemma separated_ends: "separated lo hi (bs @ [(x, y)]) \<Longrightarrow> (a, l) \<in> set bs \<Longrightarrow> a + l < x"
proof (induction bs arbitrary: lo)
  case (Cons b bs)
  obtain a' l' where b: "b = (a', l')" by (cases b)
  then have tl: "separated (Suc (a' + l')) hi (bs @ [(x, y)])" using Cons.prems by simp
  then have "Suc (a' + l') \<le> x" using separated_bounds by fastforce
  with Cons.IH [OF tl] Cons.prems b show ?case by auto
qed simp

lemma join_segment_separated:
  assumes bd: "separated 0 mid bd" and le: "mid \<le> a + off" and l: "0 < l"
  shows "separated 0 (a + off + l) (join_segment off (a, l) bd) \<and>
    segs_set (join_segment off (a, l) bd) = segs_set bd \<union> {a + off..<a + off + l}"
proof (cases bd rule: rev_cases)
  case Nil
  then show ?thesis using l by (simp add: join_segment_def)
next
  case (snoc bs x)
  obtain p q where x: "x = (p, q)" by (cases x)
  have q: "0 < q" "p + q \<le> mid" using bd snoc x separated_bounds by fastforce+
  show ?thesis
  proof (cases "p + q = a + off")
    case True
    then have eq: "join_segment off (a, l) bd = bs @ [(p, q + l)]"
      by (simp add: join_segment_def snoc x)
    have "{p..<p + (q + l)} = {p..<p + q} \<union> {a + off..<a + off + l}" using True by auto
    moreover have "separated 0 (a + off + l) (bs @ [(p, q + l)])"
      using bd snoc x True q le by (intro separated_extend [of _ mid]) auto
    ultimately show ?thesis using snoc x unfolding eq by (auto simp: Un_assoc)
  next
    case False
    then have eq: "join_segment off (a, l) bd = bd @ [(a + off, l)]"
      by (simp add: join_segment_def snoc x)
    have "a' + l' < a + off" if "(a', l') \<in> set bd" for a' l'
    proof (cases "(a', l') = (p, q)")
      case True
      then show ?thesis using False q le by auto
    next
      case ne: False
      then have "(a', l') \<in> set bs" using that snoc x by auto
      then have "a' + l' < p" using separated_ends bd snoc x by blast
      then show ?thesis using q le by simp
    qed
    then have "separated 0 (a + off + l) (bd @ [(a + off, l)])"
      using bd le l by (intro separated_snoc [of _ mid]) auto
    then show ?thesis unfolding eq by simp
  qed
qed

lemma fold_join_separated:
  "separated 0 mid bd \<Longrightarrow> mid \<le> lo + off \<Longrightarrow> separated lo hi bs \<Longrightarrow> mid \<le> hi + off \<Longrightarrow>
   separated 0 (hi + off) (fold (join_segment off) bs bd) \<and>
   segs_set (fold (join_segment off) bs bd) = segs_set bd \<union> (\<lambda>i. i + off) ` segs_set bs"
proof (induction bs arbitrary: bd mid lo)
  case Nil
  then show ?case by (auto intro: separated_weaken)
next
  case (Cons b bs)
  obtain a l where b: "b = (a, l)" by (cases b)
  have a: "lo \<le> a" "0 < l" "a + l \<le> hi" and tl: "separated (Suc (a + l)) hi bs" using Cons.prems b by auto
  have j: "separated 0 (a + off + l) (join_segment off (a, l) bd)"
    "segs_set (join_segment off (a, l) bd) = segs_set bd \<union> {a + off..<a + off + l}"
    using join_segment_separated [OF Cons.prems(1), of a off l] Cons.prems(2) a by auto
  have "(\<lambda>i. i + off) ` {a..<a + l} = {a + off..<a + off + l}" by (simp add: ac_simps)
  with Cons.IH [OF j(1) _ tl] j(2) a show ?case by (auto simp: b image_Un)
qed

lemma join_maximal:
  assumes "maximal_runs P 0 off bd" and "maximal_runs (\<lambda>i. P (off + i)) 0 n bs"
  shows "maximal_runs P 0 (off + n) (fold (join_segment off) bs bd)"
proof -
  have *: "separated 0 (n + off) (fold (join_segment off) bs bd)"
    "segs_set (fold (join_segment off) bs bd) = segs_set bd \<union> (\<lambda>i. i + off) ` segs_set bs"
    using fold_join_separated [of off bd 0 off n bs] assms by (auto simp: maximal_runs_def)
  have "(\<lambda>i. i + off) ` {i. i < n \<and> P (off + i)} = {i. off \<le> i \<and> i < off + n \<and> P i}"
    by (auto simp: image_iff ac_simps) (metis add.commute add_less_cancel_left le_Suc_ex)
  then have "segs_set (fold (join_segment off) bs bd) = {i. 0 \<le> i \<and> i < off + n \<and> P i}"
    using *(2) assms by (auto simp: maximal_runs_def)
  with *(1) show ?thesis by (simp add: maximal_runs_def add.commute)
qed

subsection \<open>The loops\<close>

text \<open>
  \<open>buf\<close> is what is left to write, so \<^verbatim>\<open>remainLen\<close> is its length; the result is the status,
  \<^verbatim>\<open>writePageCnt\<close> and the state.  A piece of length 0 would make the loop spin: it does not
  arise while \<open>pagePos < pageSize\<close>.
\<close>

function put_loop ::
    "(key \<Rightarrow> nat \<Rightarrow> bytes \<Rightarrow> 's \<Rightarrow> (int \<times> 's) option) \<Rightarrow> (nat \<Rightarrow> key) \<Rightarrow> nat \<Rightarrow>
     nat \<Rightarrow> nat \<Rightarrow> bytes \<Rightarrow> nat \<Rightarrow> 's \<Rightarrow> (int \<times> nat \<times> 's) option" where
  "put_loop write GetPageKey pageSize index pagePos buf writePageCnt st =
     (if length buf > 0
      then let writeLen = (if pagePos + length buf > pageSize then pageSize - pagePos else length buf)
           in if writeLen = 0 then None
              else case write (GetPageKey index) pagePos (take writeLen buf) st of
                None \<Rightarrow> None
              | Some (res, st) \<Rightarrow>
                  if res \<noteq> SUCCESS then Some (res, writePageCnt, st)
                  else put_loop write GetPageKey pageSize (index + 1) ((pagePos + writeLen) mod pageSize)
                         (drop writeLen buf) (writePageCnt + 1) st
      else Some (SUCCESS, writePageCnt, st))"
  by pat_completeness auto
termination
  by (relation "measure (\<lambda>(write, pk, ps, index, pagePos, buf, cnt, st). length buf)") (auto split: if_splits)

declare put_loop.simps [simp del]

text \<open>\<open>add\<close> records a segment the page returned, \<open>acc\<close> is what has been recorded.\<close>

function get_loop ::
    "(key \<Rightarrow> nat \<Rightarrow> nat \<Rightarrow> bytes \<Rightarrow> boundary \<Rightarrow> 's \<Rightarrow> (int \<times> boundary \<times> bytes \<times> 's) option) \<Rightarrow>
     (nat \<Rightarrow> key) \<Rightarrow> (nat \<Rightarrow> nat \<times> nat \<Rightarrow> 'a \<Rightarrow> 'a) \<Rightarrow> nat \<Rightarrow>
     nat \<Rightarrow> nat \<Rightarrow> nat \<Rightarrow> nat \<Rightarrow> bytes \<Rightarrow> 'a \<Rightarrow> nat \<Rightarrow> 's \<Rightarrow> (int \<times> 'a \<times> bytes \<times> nat \<times> 's) option" where
  "get_loop read GetPageKey add pageSize index pagePos bufOffset remainLen buf acc readPageCnt st =
     (if remainLen > 0
      then let readLen = (if pagePos + remainLen > pageSize then pageSize - pagePos else remainLen)
           in if readLen = 0 then None
              else case read (GetPageKey index) pagePos readLen (drop bufOffset buf) [] st of
                None \<Rightarrow> None
              | Some (tmpRes, stepDataBoundary, sub, st) \<Rightarrow>
                  let buf = take bufOffset buf @ sub
                  in if tmpRes \<noteq> SUCCESS \<and> tmpRes \<noteq> PAGE_NOT_FOUND
                     then Some (tmpRes, acc, buf, readPageCnt, st)
                     else get_loop read GetPageKey add pageSize (index + 1) ((pagePos + readLen) mod pageSize)
                            (bufOffset + readLen) (remainLen - readLen) buf
                            (fold (add bufOffset) stepDataBoundary acc)
                            (if tmpRes = SUCCESS then readPageCnt + 1 else readPageCnt) st
      else Some (SUCCESS, acc, buf, readPageCnt, st))"
  by pat_completeness auto
termination
  by (relation "measure (\<lambda>(read, pk, add, ps, index, pagePos, off, remainLen, buf, acc, cnt, st). remainLen)")
     (auto split: if_splits)

declare get_loop.simps [simp del]

text \<open>One turn of the write loop.\<close>

lemma put_loop_step:
  assumes ne: "buf \<noteq> []" and run: "put_loop write pk P index pos buf cnt s = Some (r, cnt', s')"
  shows "\<exists>n r1 s1. 0 < n \<and> n \<le> length buf \<and> write (pk index) pos (take n buf) s = Some (r1, s1) \<and>
    (r1 \<noteq> SUCCESS \<longrightarrow> r = r1 \<and> s' = s1) \<and>
    (r1 = SUCCESS \<longrightarrow> put_loop write pk P (index + 1) ((pos + n) mod P) (drop n buf) (cnt + 1) s1 = Some (r, cnt', s'))"
proof -
  define n where "n = (if pos + length buf > P then P - pos else length buf)"
  have "put_loop write pk P index pos buf cnt s =
      (if n = 0 then None else case write (pk index) pos (take n buf) s of None \<Rightarrow> None
       | Some (res, s) \<Rightarrow> if res \<noteq> SUCCESS then Some (res, cnt, s)
           else put_loop write pk P (index + 1) ((pos + n) mod P) (drop n buf) (cnt + 1) s)"
    unfolding n_def put_loop.simps [of "write" pk P index pos buf] Let_def using ne by simp
  moreover have "n \<le> length buf" unfolding n_def by (split if_split) linarith
  ultimately show ?thesis using run by (intro exI [of _ n]) (auto split: if_splits option.splits)
qed

text \<open>What every page read leaves alone, the loop leaves alone.\<close>

lemma get_loop_frame:
  assumes rd: "\<And>k pos n b s r bs b' s'. read k pos n b [] s = Some (r, bs, b', s') \<Longrightarrow> f s' = f s"
  shows "get_loop read pk add P index pos off remain buf acc cnt s = Some (r, acc', buf', cnt', s') \<Longrightarrow> f s' = f s"
proof (induction remain arbitrary: index pos off buf acc cnt s rule: less_induct)
  case (less remain)
  show ?case
  proof (cases "remain = 0")
    case True
    with less.prems show ?thesis by (simp add: get_loop.simps)
  next
    case False
    define n where "n = (if pos + remain > P then P - pos else remain)"
    have step: "get_loop read pk add P index pos off remain buf acc cnt s =
      (if n = 0 then None else case read (pk index) pos n (drop off buf) [] s of None \<Rightarrow> None
       | Some (r, bs, sub, s) \<Rightarrow>
           if r \<noteq> SUCCESS \<and> r \<noteq> PAGE_NOT_FOUND then Some (r, acc, take off buf @ sub, cnt, s)
           else get_loop read pk add P (index + 1) ((pos + n) mod P) (off + n) (remain - n) (take off buf @ sub)
                  (fold (add off) bs acc) (if r = SUCCESS then cnt + 1 else cnt) s)"
      unfolding n_def get_loop.simps [of read pk add P index pos off remain] Let_def using False by simp
    with less.prems obtain r1 bs sub s1 where rr: "read (pk index) pos n (drop off buf) [] s = Some (r1, bs, sub, s1)"
      and n: "n \<noteq> 0" by (auto split: if_splits option.splits)
    have s1: "f s1 = f s" using rd [OF rr] .
    show ?thesis
    proof (cases "r1 \<noteq> SUCCESS \<and> r1 \<noteq> PAGE_NOT_FOUND")
      case True
      then show ?thesis using less.prems step rr n s1 by simp
    next
      case ok: False
      then have "get_loop read pk add P (index + 1) ((pos + n) mod P) (off + n) (remain - n) (take off buf @ sub)
                  (fold (add off) bs acc) (if r1 = SUCCESS then cnt + 1 else cnt) s1 = Some (r, acc', buf', cnt', s')"
        using less.prems step rr n by (simp split: if_splits)
      from less.IH [OF _ this] n False s1 show ?thesis by simp
    qed
  qed
qed

subsection \<open>A file over pages\<close>

definition file_of :: "(key \<Rightarrow> nat \<rightharpoonup> byte) \<Rightarrow> (nat \<Rightarrow> key) \<Rightarrow> nat \<Rightarrow> nat \<rightharpoonup> byte" where
  "file_of page pk P = (\<lambda>i. page (pk (i div P)) (i mod P))"

text \<open>\<open>agrees roomy f f'\<close>: \<open>f'\<close> is \<open>f\<close>, except for bytes an eviction dropped.\<close>

definition agrees :: "bool \<Rightarrow> (nat \<rightharpoonup> byte) \<Rightarrow> (nat \<rightharpoonup> byte) \<Rightarrow> bool" where
  "agrees roomy f f' = (\<forall>i. f' i = f i \<or> (\<not> roomy \<and> f' i = None))"

lemma agrees_refl [simp]: "agrees r f f"
  by (simp add: agrees_def)

lemma agrees_trans: "agrees r f g \<Longrightarrow> agrees r g h \<Longrightarrow> agrees r f h"
  unfolding agrees_def by metis

lemma agrees_roomy: "agrees True f f' \<Longrightarrow> f' = f"
  by (auto simp: agrees_def)

lemma agrees_overlay: "agrees r f g \<Longrightarrow> agrees r (overlay f pos buf) (overlay g pos buf)"
  by (auto simp: agrees_def overlay_def)

lemma agrees_le: "agrees r f f' \<Longrightarrow> f' i = Some b \<Longrightarrow> f i = Some b"
  unfolding agrees_def by (metis option.distinct(1))

text \<open>Writing the page that holds a byte range writes the range of the file.\<close>

lemma file_overlay:
  assumes inj: "inj pk" and P: "pagePos + length buf \<le> P" and kept: "others_kept r (pk index) page page'"
    and here: "page' (pk index) = overlay (page (pk index)) pagePos buf" and ne: "buf \<noteq> []"
  shows "agrees r (overlay (file_of page pk P) (index * P + pagePos) buf) (file_of page' pk P)"
  unfolding agrees_def
proof
  fix i
  have pos: "0 < P" using ne P by (cases buf) auto
  show "file_of page' pk P i = overlay (file_of page pk P) (index * P + pagePos) buf i \<or>
      \<not> r \<and> file_of page' pk P i = None"
  proof (cases "i div P = index")
    case True
    then have i: "i = index * P + i mod P" by (metis div_mult_mod_eq)
    then have "index * P + pagePos \<le> i \<longleftrightarrow> pagePos \<le> i mod P"
      "i < index * P + pagePos + length buf \<longleftrightarrow> i mod P < pagePos + length buf"
      "i - (index * P + pagePos) = i mod P - pagePos" by linarith+
    then show ?thesis using True by (simp add: file_of_def here overlay_def)
  next
    case False
    have "i < index * P + pagePos \<or> index * P + pagePos + length buf \<le> i"
    proof (rule ccontr)
      assume "\<not> ?thesis"
      then have "index * P \<le> i" "i < (index + 1) * P" using P by auto
      then show False using False by (metis Suc_eq_plus1 div_nat_eqI mult.commute)
    qed
    moreover have "pk (i div P) \<noteq> pk index" using inj False by (simp add: inj_eq)
    ultimately show ?thesis using kept by (auto simp: file_of_def others_kept_def)
  qed
qed

subsection \<open>The interface of a page store\<close>

locale page_store =
  fixes inv :: "'s \<Rightarrow> bool"
    and page :: "'s \<Rightarrow> key \<Rightarrow> nat \<rightharpoonup> byte"
    and psize :: "'s \<Rightarrow> nat"
    and roomy :: bool
    and pwrite :: "key \<Rightarrow> nat \<Rightarrow> bytes \<Rightarrow> 's \<Rightarrow> (int \<times> 's) option"
    and pread :: "key \<Rightarrow> nat \<Rightarrow> nat \<Rightarrow> bytes \<Rightarrow> boundary \<Rightarrow> 's \<Rightarrow> (int \<times> boundary \<times> bytes \<times> 's) option"
  assumes psize_pos: "inv s \<Longrightarrow> 0 < psize s"
    and write_law: "inv s \<Longrightarrow> pwrite k pos buf s = Some (r, s') \<Longrightarrow>
      r = SUCCESS \<and> inv s' \<and> psize s' = psize s \<and> page s' k = overlay (page s k) pos buf \<and>
      others_kept roomy k (page s) (page s')"
    and write_total: "inv s \<Longrightarrow> roomy \<Longrightarrow> pos + length buf \<le> psize s \<Longrightarrow>
      \<exists>r s'. pwrite k pos buf s = Some (r, s')"
    and read_law: "inv s \<Longrightarrow> 0 < len \<Longrightarrow> pos + len \<le> psize s \<Longrightarrow> len \<le> length buf \<Longrightarrow>
      \<exists>r bs buf' s'. pread k pos len buf [] s = Some (r, bs, buf', s') \<and>
        (r = SUCCESS \<or> r = PAGE_NOT_FOUND) \<and> boundary_of (page s k) pos len bs \<and>
        filled (page s k) pos len buf buf' \<and> inv s' \<and> psize s' = psize s \<and> page s' = page s"
begin

lemma put_loop_spec:
  assumes inj: "inj pk"
  shows "inv s \<Longrightarrow> pagePos < psize s \<Longrightarrow>
    put_loop pwrite pk (psize s) index pagePos buf cnt s = Some (r, cnt', s') \<Longrightarrow>
    r = SUCCESS \<and> inv s' \<and> psize s' = psize s \<and>
    agrees roomy (overlay (file_of (page s) pk (psize s)) (index * psize s + pagePos) buf)
      (file_of (page s') pk (psize s)) \<and>
    (\<forall>k. k \<notin> range pk \<longrightarrow> page s' k = page s k \<or> (\<not> roomy \<and> page s' k = Map.empty)) \<and>
    (buf \<noteq> [] \<longrightarrow> cnt < cnt')"
proof (induction "length buf" arbitrary: index pagePos buf cnt s rule: less_induct)
  case less
  let ?P = "psize s"
  show ?case
  proof (cases "buf = []")
    case True
    with less.prems show ?thesis by (simp add: put_loop.simps)
  next
    case False
    define n where "n = (if pagePos + length buf > ?P then ?P - pagePos else length buf)"
    have n: "0 < n" "n \<le> length buf" "pagePos + n \<le> ?P" using False less.prems by (auto simp: n_def)
    have step: "put_loop pwrite pk ?P index pagePos buf cnt s =
      (case pwrite (pk index) pagePos (take n buf) s of None \<Rightarrow> None
       | Some (res, st) \<Rightarrow> if res \<noteq> SUCCESS then Some (res, cnt, st)
           else put_loop pwrite pk ?P (index + 1) ((pagePos + n) mod ?P) (drop n buf) (cnt + 1) st)"
      using False n by (subst put_loop.simps) (auto simp: n_def Let_def split: option.splits)
    obtain r1 s1 where w: "pwrite (pk index) pagePos (take n buf) s = Some (r1, s1)"
      using less.prems(3) step by (cases "pwrite (pk index) pagePos (take n buf) s") auto
    note wl = write_law [OF less.prems(1) w]
    have rest: "put_loop pwrite pk (psize s1) (index + 1) ((pagePos + n) mod ?P) (drop n buf) (cnt + 1) s1 = Some (r, cnt', s')"
      using less.prems(3) step w wl by simp
    have lt: "(pagePos + n) mod ?P < psize s1" using wl psize_pos [OF less.prems(1)] by simp
    have dec: "length (drop n buf) < length buf" using n by simp
    have IH: "r = SUCCESS \<and> inv s' \<and> psize s' = psize s1 \<and>
      agrees roomy (overlay (file_of (page s1) pk (psize s1)) ((index + 1) * psize s1 + (pagePos + n) mod ?P) (drop n buf))
        (file_of (page s') pk (psize s1)) \<and>
      (\<forall>k. k \<notin> range pk \<longrightarrow> page s' k = page s1 k \<or> (\<not> roomy \<and> page s' k = Map.empty)) \<and>
      (drop n buf \<noteq> [] \<longrightarrow> cnt + 1 < cnt')"
      using less.hyps [OF dec _ lt rest] wl by simp
    let ?f = "file_of (page s) pk ?P" and ?f1 = "file_of (page s1) pk ?P"
    let ?off = "index * ?P + pagePos"
    have one: "agrees roomy (overlay ?f ?off (take n buf)) ?f1"
      using wl n False by (intro file_overlay [OF inj]) auto
    have two: "agrees roomy (overlay ?f1 (?off + n) (drop n buf)) (file_of (page s') pk ?P)"
    proof (cases "n = length buf")
      case True
      then have "drop n buf = []" by simp
      then show ?thesis using IH wl by simp
    next
      case False
      then have "pagePos + n = ?P" using n by (auto simp: n_def split: if_splits)
      then have next_off: "(index + 1) * ?P + (pagePos + n) mod ?P = ?off + n" by simp
      have "agrees roomy (overlay ?f1 ((index + 1) * ?P + (pagePos + n) mod ?P) (drop n buf))
          (file_of (page s') pk ?P)" using IH wl by metis
      then show ?thesis unfolding next_off .
    qed
    have "overlay (overlay ?f ?off (take n buf)) (?off + n) (drop n buf) = overlay ?f ?off buf"
      using n by (auto simp: overlay_def fun_eq_iff min_def)
    with agrees_trans [OF agrees_overlay [OF one] two]
    have "agrees roomy (overlay ?f ?off buf) (file_of (page s') pk ?P)" by simp
    moreover have "\<forall>k. k \<notin> range pk \<longrightarrow> page s' k = page s k \<or> (\<not> roomy \<and> page s' k = Map.empty)"
    proof (intro allI impI)
      fix k assume k: "k \<notin> range pk"
      then have "page s1 k = page s k \<or> (\<not> roomy \<and> page s1 k = Map.empty)"
        using wl unfolding others_kept_def by blast
      with IH k show "page s' k = page s k \<or> (\<not> roomy \<and> page s' k = Map.empty)" by metis
    qed
    moreover have "cnt < cnt'"
    proof (cases "drop n buf = []")
      case True
      then show ?thesis using rest by (simp add: put_loop.simps)
    qed (use IH in auto)
    ultimately show ?thesis using IH wl by auto
  qed
qed

lemma put_loop_total:
  "inv s \<Longrightarrow> roomy \<Longrightarrow> pagePos < psize s \<Longrightarrow>
    \<exists>cnt' s'. put_loop pwrite pk (psize s) index pagePos buf cnt s = Some (SUCCESS, cnt', s')"
proof (induction "length buf" arbitrary: index pagePos buf cnt s rule: less_induct)
  case less
  let ?P = "psize s"
  show ?case
  proof (cases "buf = []")
    case False
    define n where "n = (if pagePos + length buf > ?P then ?P - pagePos else length buf)"
    have n: "0 < n" "n \<le> length buf" "pagePos + n \<le> ?P" using False less.prems by (auto simp: n_def)
    obtain r1 s1 where w: "pwrite (pk index) pagePos (take n buf) s = Some (r1, s1)"
      using write_total [OF less.prems(1,2), of pagePos "take n buf" "pk index"] n by auto
    note wl = write_law [OF less.prems(1) w]
    have "put_loop pwrite pk ?P index pagePos buf cnt s =
      put_loop pwrite pk (psize s1) (index + 1) ((pagePos + n) mod ?P) (drop n buf) (cnt + 1) s1"
      using False n w wl by (subst put_loop.simps) (auto simp: n_def Let_def)
    then show ?thesis
      using less.hyps [of "drop n buf" s1 "(pagePos + n) mod ?P" "index + 1" "cnt + 1"] less.prems n wl
        psize_pos [OF less.prems(1)] by simp
  qed (simp add: put_loop.simps)
qed

text \<open>
  Reading: whatever is recorded, if recording one page's boundary keeps the property \<open>Q\<close> of
  the record, then \<open>Q\<close> holds of the whole request.
\<close>

lemma get_loop_spec:
  assumes rec: "\<And>off n bs acc. Q off acc \<Longrightarrow> boundary_of F (start + off) n bs \<Longrightarrow> Q (off + n) (fold (add off) bs acc)"
  shows "inv s \<Longrightarrow> F = file_of (page s) pk (psize s) \<Longrightarrow> pagePos < psize s \<Longrightarrow>
    (0 < remain \<longrightarrow> index * psize s + pagePos = start + off) \<Longrightarrow> off + remain \<le> length buf \<Longrightarrow> Q off acc \<Longrightarrow>
    \<exists>acc' buf' cnt' s'. get_loop pread pk add (psize s) index pagePos off remain buf acc cnt s =
        Some (SUCCESS, acc', buf', cnt', s') \<and>
      Q (off + remain) acc' \<and> inv s' \<and> psize s' = psize s \<and> page s' = page s \<and> length buf' = length buf \<and>
      (\<forall>i < length buf. buf' ! i = (if off \<le> i \<and> i < off + remain
         then (case F (start + i) of Some b \<Rightarrow> b | None \<Rightarrow> buf ! i) else buf ! i))"
proof (induction remain arbitrary: index pagePos off buf acc cnt s rule: less_induct)
  case (less remain)
  let ?P = "psize s"
  show ?case
  proof (cases "remain = 0")
    case True
    with less.prems show ?thesis by (auto simp: get_loop.simps)
  next
    case False
    define n where "n = (if pagePos + remain > ?P then ?P - pagePos else remain)"
    have n: "0 < n" "n \<le> remain" "pagePos + n \<le> ?P" using False less.prems by (auto simp: n_def)
    have idx: "index * ?P + pagePos = start + off" using less.prems(4) False by simp
    have fit: "n \<le> length (drop off buf)" using n less.prems(5) by simp
    obtain r bs sub s1 where rd: "pread (pk index) pagePos n (drop off buf) [] s = Some (r, bs, sub, s1)"
      and r: "r = SUCCESS \<or> r = PAGE_NOT_FOUND" and bnd: "boundary_of (page s (pk index)) pagePos n bs"
      and fl: "filled (page s (pk index)) pagePos n (drop off buf) sub"
      and s1: "inv s1" "psize s1 = ?P" "page s1 = page s"
      using read_law [OF less.prems(1) n(1,3) fit, of "pk index"] by blast
    have here: "F (start + off + i) = page s (pk index) (pagePos + i)" if "i < n" for i
    proof -
      have "start + off + i = pagePos + i + index * ?P" using idx by simp
      then have "F (start + off + i) = file_of (page s) pk ?P (pagePos + i + index * ?P)"
        using less.prems(2) by metis
      also have "pagePos + i < ?P" using that n by simp
      then have "file_of (page s) pk ?P (pagePos + i + index * ?P) = page s (pk index) (pagePos + i)"
        by (simp add: file_of_def)
      finally show ?thesis .
    qed
    have bndF: "boundary_of F (start + off) n bs"
      using bnd unfolding boundary_of_def
      by (rule maximal_runs_cong [THEN iffD1, rotated]) (use here in auto)
    define buf1 where "buf1 = take off buf @ sub"
    have lsub: "length sub = length buf - off" using fl by (simp add: filled_def)
    have len1: "length buf1 = length buf" using lsub less.prems(5) by (simp add: buf1_def)
    have nth1: "buf1 ! i = (if off \<le> i \<and> i < off + n
         then (case F (start + i) of Some b \<Rightarrow> b | None \<Rightarrow> buf ! i) else buf ! i)" if i: "i < length buf" for i
    proof (cases "i < off")
      case True
      then show ?thesis using less.prems(5) by (simp add: buf1_def nth_append)
    next
      case False
      then have "buf1 ! i = sub ! (i - off)" using less.prems(5) by (simp add: buf1_def nth_append)
      also have "\<dots> = (if i - off < n then (case page s (pk index) (pagePos + (i - off)) of
          Some b \<Rightarrow> b | None \<Rightarrow> buf ! i) else buf ! i)"
        using fl i False less.prems(5) by (auto simp: filled_def split: option.split)
      also have "\<dots> = (if i - off < n then (case F (start + i) of Some b \<Rightarrow> b | None \<Rightarrow> buf ! i) else buf ! i)"
        using here [of "i - off"] False by (auto simp: add.assoc)
      finally show ?thesis using False by auto
    qed
    let ?acc = "fold (add off) bs acc"
    let ?cnt = "if r = SUCCESS then cnt + 1 else cnt"
    have step: "get_loop pread pk add ?P index pagePos off remain buf acc cnt s =
      get_loop pread pk add (psize s1) (index + 1) ((pagePos + n) mod ?P) (off + n) (remain - n) buf1 ?acc ?cnt s1"
      using False n rd r s1 by (subst get_loop.simps) (auto simp: n_def Let_def buf1_def)
    have q: "Q (off + n) ?acc" using rec [OF less.prems(6) bndF] .
    have "(0 < remain - n \<longrightarrow> (index + 1) * psize s1 + (pagePos + n) mod ?P = start + (off + n))"
    proof
      assume "0 < remain - n"
      then have "pagePos + n = ?P" using n by (auto simp: n_def split: if_splits)
      then show "(index + 1) * psize s1 + (pagePos + n) mod ?P = start + (off + n)" using idx s1 by simp
    qed
    then obtain acc' buf' cnt' s' where rest:
      "get_loop pread pk add (psize s1) (index + 1) ((pagePos + n) mod ?P) (off + n) (remain - n) buf1 ?acc ?cnt s1 =
        Some (SUCCESS, acc', buf', cnt', s')" "Q (off + n + (remain - n)) acc'"
      "inv s'" "psize s' = psize s1" "page s' = page s1" "length buf' = length buf1"
      "\<forall>i < length buf1. buf' ! i = (if off + n \<le> i \<and> i < off + n + (remain - n)
         then (case F (start + i) of Some b \<Rightarrow> b | None \<Rightarrow> buf1 ! i) else buf1 ! i)"
      using less.IH [of "remain - n" s1 "(pagePos + n) mod ?P" "index + 1" "off + n" buf1 ?acc ?cnt]
        less.prems n s1 q len1 psize_pos [OF less.prems(1)] by auto
    have "buf' ! i = (if off \<le> i \<and> i < off + remain
         then (case F (start + i) of Some b \<Rightarrow> b | None \<Rightarrow> buf ! i) else buf ! i)" if "i < length buf" for i
      using rest(7) nth1 [OF that] that len1 n by (auto split: option.splits)
    then show ?thesis using rest step s1 len1 n by auto
  qed
qed

text \<open>The two ways of recording.\<close>

lemma join_rec:
  "maximal_runs (\<lambda>i. F (start + i) \<noteq> None) 0 off acc \<Longrightarrow> boundary_of F (start + off) n bs \<Longrightarrow>
    maximal_runs (\<lambda>i. F (start + i) \<noteq> None) 0 (off + n) (fold (join_segment off) bs acc)"
  by (rule join_maximal) (simp_all add: boundary_of_def add.assoc)

end

end
