(* ===== verification/Local_Keys.thy ===== *)
theory Local_Keys
  imports Page_Cache Paged_IO
begin

section \<open>Page names (\<^verbatim>\<open>local_cache/common.cpp\<close>, the two \<^verbatim>\<open>GetPageKey\<close>)\<close>

text \<open>
  \<^verbatim>\<open>split\<close>, \<^verbatim>\<open>base64\<close> and \<^verbatim>\<open>md5\<close> of \<^verbatim>\<open>common.cpp\<close>, and the names the two caches give to the
  pages of a file.  The digest itself is OpenSSL's: it is the parameter \<open>digest\<close>, of which only
  the length of the result (16 bytes) and, where stated, the absence of collisions is used.
\<close>

definition split :: "string \<Rightarrow> char \<Rightarrow> string list" where
  "split str delim = filter (\<lambda>tmp. tmp \<noteq> []) (getlines delim str)"

definition base64_table :: string where
  "base64_table = ''ABCDEFGHIJKLMNOPQRSTUVWXYZabcdefghijklmnopqrstuvwxyz0123456789+/=''"

definition b64 :: "byte \<Rightarrow> char" where
  "b64 w = base64_table ! unat w"

text \<open>The loop of \<^verbatim>\<open>base64\<close>: three input bytes a turn; 0x40 indexes the padding character.\<close>

fun base64 :: "bytes \<Rightarrow> string" where
  "base64 [] = []"
| "base64 [a] =
     [b64 (drop_bit 2 (a AND 0xfc)), b64 (push_bit 4 (a AND 0x03) OR drop_bit 4 (0 AND 0xf0)), b64 0x40, b64 0x40]"
| "base64 [a, b] =
     [b64 (drop_bit 2 (a AND 0xfc)), b64 (push_bit 4 (a AND 0x03) OR drop_bit 4 (b AND 0xf0)),
      b64 (push_bit 2 (b AND 0x0f) OR drop_bit 6 (0 AND 0xc0)), b64 0x40]"
| "base64 (a # b # c # cs) =
     [b64 (drop_bit 2 (a AND 0xfc)), b64 (push_bit 4 (a AND 0x03) OR drop_bit 4 (b AND 0xf0)),
      b64 (push_bit 2 (b AND 0x0f) OR drop_bit 6 (c AND 0xc0)), b64 (c AND 0x3f)] @ base64 cs"

lemma length_base64: "length (base64 bs) = 4 * ((length bs + 2) div 3)"
proof (induction bs rule: base64.induct)
  case (4 a b c cs)
  have "(length (a # b # c # cs) + 2) div 3 = Suc ((length cs + 2) div 3)" by simp
  with 4 show ?case by simp
qed simp_all

definition md5 :: "(string \<Rightarrow> bytes) \<Rightarrow> string \<Rightarrow> string" where
  "md5 digest str = base64 (digest str)"

text \<open>The name of page \<open>pageIndex\<close> of \<open>key\<close>; \<open>suffix\<close> is \<^verbatim>\<open>_W\<close> or \<^verbatim>\<open>_R\<close>.\<close>

definition page_stem :: "(string \<Rightarrow> bytes) \<Rightarrow> key \<Rightarrow> string" where
  "page_stem digest key = (if length key \<le> 200 then key else take 200 key @ md5 digest key)"

definition GetPageKey :: "(string \<Rightarrow> bytes) \<Rightarrow> string \<Rightarrow> key \<Rightarrow> nat \<Rightarrow> key" where
  "GetPageKey digest suffix key pageIndex =
     page_stem digest key @ suffix @ [PAGE_SEPARATOR] @ to_string pageIndex"

lemma GetPageKey_inj: "inj (GetPageKey digest suffix key)"
  by (rule injI) (simp add: GetPageKey_def)

lemma sep_not_digit: "\<not> is_digit PAGE_SEPARATOR"
  by (simp add: is_digit_def PAGE_SEPARATOR_def)

lemma sep_notin_to_string: "PAGE_SEPARATOR \<notin> set (to_string n)"
  using to_string_digits sep_not_digit by blast

text \<open>
  Different files never share a page name, as long as the digest separates the names longer than
  200 characters: a long name's stem is longer than any short one.
\<close>

definition digest_ok :: "(string \<Rightarrow> bytes) \<Rightarrow> key \<Rightarrow> key \<Rightarrow> bool" where
  "digest_ok digest k k' =
     (length (digest k) = 16 \<and> length (digest k') = 16 \<and>
      (200 < length k \<and> 200 < length k' \<and> k \<noteq> k' \<longrightarrow> md5 digest k \<noteq> md5 digest k'))"

lemma page_stem_inj:
  assumes "digest_ok digest k k'" and "page_stem digest k = page_stem digest k'"
  shows "k = k'"
proof (rule ccontr)
  assume ne: "k \<noteq> k'"
  have l: "length (md5 digest k) = 24" "length (md5 digest k') = 24"
    using assms(1) by (simp_all add: digest_ok_def md5_def length_base64)
  show False
  proof (cases "length k \<le> 200 \<or> length k' \<le> 200")
    case True
    with assms(2) ne l show False
      using arg_cong [OF assms(2), of length] by (auto simp: page_stem_def split: if_splits)
  next
    case False
    then have "take 200 k @ md5 digest k = take 200 k' @ md5 digest k'"
      using assms(2) by (simp add: page_stem_def)
    then have "md5 digest k = md5 digest k'" using l False by simp
    with assms(1) False ne show False by (simp add: digest_ok_def)
  qed
qed

lemma GetPageKey_disjoint:
  assumes "digest_ok digest k k'" and "GetPageKey digest suffix k i = GetPageKey digest suffix k' j"
  shows "k = k' \<and> i = j"
proof -
  have "(page_stem digest k @ suffix) @ PAGE_SEPARATOR # to_string i =
      (page_stem digest k' @ suffix) @ PAGE_SEPARATOR # to_string j"
    using assms(2) by (simp add: GetPageKey_def)
  from last_sep_unique [OF this sep_notin_to_string sep_notin_to_string]
  show ?thesis using page_stem_inj [OF assms(1)] by simp
qed

text \<open>What \<^verbatim>\<open>split\<close> makes of a page name: the first token is the stem with its suffix.\<close>

lemma split_GetPageKey:
  assumes "PAGE_SEPARATOR \<notin> set (page_stem digest key @ suffix)" and "suffix \<noteq> []"
  shows "split (GetPageKey digest suffix key i) PAGE_SEPARATOR = [page_stem digest key @ suffix, to_string i]"
proof -
  have "getlines PAGE_SEPARATOR (GetPageKey digest suffix key i) = [page_stem digest key @ suffix, to_string i]"
    using getlines_split [OF assms(1), of "to_string i"] getlines_one [OF sep_notin_to_string, of i]
    by (simp add: GetPageKey_def)
  then show ?thesis using assms(2) by (simp add: split_def)
qed

subsection \<open>The page cache as a page store\<close>

text \<open>
  The page cache provides the interface the request loops of \<open>Paged_IO\<close> are proved against,
  whatever the allocator: the laws of CacheLib are part of its invariant.
\<close>

interpretation pcs: page_store "pc_inv cl items" "contents items" "\<lambda>st. PageBodySize (pc_cfg st)"
  "cachelib_roomy cl items" "Page_Write cl" "Page_Read cl"
proof unfold_locales
  fix s :: "'a page_cache" assume "pc_inv cl items s"
  then show "0 < PageBodySize (pc_cfg s)" by (simp add: pc_inv_def page_cfg_ok_def)
next
  fix s s' :: "'a page_cache" and k pos buf r
  assume "pc_inv cl items s" "Page_Write cl k pos buf s = Some (r, s')"
  from Page_Write_law [OF this] show "r = SUCCESS \<and> pc_inv cl items s' \<and>
      PageBodySize (pc_cfg s') = PageBodySize (pc_cfg s) \<and>
      contents items s' k = overlay (contents items s k) pos buf \<and>
      others_kept (cachelib_roomy cl items) k (contents items s) (contents items s')" by simp
next
  fix s :: "'a page_cache" and pos k and buf :: bytes
  assume "pc_inv cl items s" "cachelib_roomy cl items" "pos + length buf \<le> PageBodySize (pc_cfg s)"
  from Page_Write_total [OF this, of k] show "\<exists>r s'. Page_Write cl k pos buf s = Some (r, s')" by blast
next
  fix s :: "'a page_cache" and len pos buf k
  assume a: "pc_inv cl items s" "0 < len" "pos + len \<le> PageBodySize (pc_cfg s)" "len \<le> length (buf :: bytes)"
  from Page_Read_law [OF a, of k] pc_inv_find [OF a(1)]
  show "\<exists>r bs buf' s'. Page_Read cl k pos len buf [] s = Some (r, bs, buf', s') \<and>
      (r = SUCCESS \<or> r = PAGE_NOT_FOUND) \<and> boundary_of (contents items s k) pos len bs \<and>
      filled (contents items s k) pos len buf buf' \<and> pc_inv cl items s' \<and>
      PageBodySize (pc_cfg s') = PageBodySize (pc_cfg s) \<and> contents items s' = contents items s"
    by (metis (no_types, lifting) page_cache.select_convs(1) page_cache.surjective page_cache.update_convs(2))
qed

end
