(* ===== verification/Throttle.thy ===== *)
theory Throttle
  imports Prelude Local_Config Complex_Main "HOL-Library.AList"
begin

section \<open>Write throttling (\<^verbatim>\<open>local_cache/throttle.cpp\<close>)\<close>

text \<open>
  The per-file token buckets and the exchange with the scheduler.  The concurrent hash maps are
  association lists in the order they iterate, the doubles are rationals (no rounding), folly's
  \<^verbatim>\<open>TokenBucket\<close> and the conversions \<^verbatim>\<open>operator<<(double)\<close> and \<^verbatim>\<open>std::stod\<close> are parameters;
  \<open>None\<close> is an exception of \<^verbatim>\<open>stod\<close>, which ends the thread, or a spin that never ends.
\<close>

record 'tb token_bucket =
  tb_new :: "rat \<Rightarrow> rat \<Rightarrow> 'tb"
  tb_setCapacity :: "rat \<Rightarrow> 'tb \<Rightarrow> 'tb"
  tb_available :: "'tb \<Rightarrow> rat"
  tb_consume_spin :: "nat \<Rightarrow> 'tb \<Rightarrow> ('tb \<times> rat) option"

record 'tb throttle =
  job_tokenlimit :: "(string \<times> 'tb) list"
  job_waiting :: "(string \<times> rat) list"
  job_bandwidth :: "(string \<times> rat) list"

text \<open>\<^verbatim>\<open>assign\<close> changes a key that is present, \<^verbatim>\<open>operator[]\<close> inserts a default for one that is not.\<close>

definition chm_assign :: "string \<Rightarrow> 'v \<Rightarrow> (string \<times> 'v) list \<Rightarrow> (string \<times> 'v) list" where
  "chm_assign k v m = (if map_of m k = None then m else AList.update k v m)"

definition chm_at :: "string \<Rightarrow> 'v \<Rightarrow> (string \<times> 'v) list \<Rightarrow> 'v \<times> (string \<times> 'v) list" where
  "chm_at k d m = (case map_of m k of Some v \<Rightarrow> (v, m) | None \<Rightarrow> (d, m @ [(k, d)]))"

definition CleanBlockTime :: "'tb throttle \<Rightarrow> 'tb throttle" where
  "CleanBlockTime t =
     t\<lparr>job_waiting := fold (\<lambda>cal m. chm_assign (fst cal) 0 m) (job_waiting t) (job_waiting t),
       job_bandwidth := []\<rparr>"

definition ToSplitString :: "string \<Rightarrow> string list" where
  "ToSplitString input = getlines CHR '','' input"

text \<open>The loop of \<^verbatim>\<open>SetNewLimits\<close> over the triples \<^verbatim>\<open>filename,rate,burst\<close>.\<close>

fun set_limits ::
    "'tb token_bucket \<Rightarrow> (string \<Rightarrow> rat option) \<Rightarrow> string list \<Rightarrow> (string \<times> 'tb) list \<Rightarrow> (string \<times> 'tb) list option" where
  "set_limits tb stod (file_name # r # b # rest) m =
     (case (stod r, stod b) of
        (Some rate, Some burst) \<Rightarrow>
          set_limits tb stod rest
            (case map_of m file_name of
               Some old \<Rightarrow> chm_assign file_name (tb_setCapacity tb (tb_available tb old) (tb_new tb rate burst)) m
             | None \<Rightarrow> m)
      | _ \<Rightarrow> None)"
| "set_limits tb stod _ m = Some m"

definition SetNewLimits ::
    "'tb token_bucket \<Rightarrow> (string \<Rightarrow> rat option) \<Rightarrow> string \<Rightarrow> 'tb throttle \<Rightarrow> (int \<times> 'tb throttle) option" where
  "SetNewLimits tb stod input t =
     (if input = [] then Some (0, t)
      else let result = ToSplitString input
           in if length result mod 3 \<noteq> 0 then Some (-1, t)
              else case set_limits tb stod result (job_tokenlimit t) of
                None \<Rightarrow> None
              | Some m \<Rightarrow> Some (0, t\<lparr>job_tokenlimit := m\<rparr>))"

definition TOTAL_BW :: rat where "TOTAL_BW = 649651540"

text \<open>
  The first loop of \<^verbatim>\<open>Cal_New4Test\<close>: files that waited, their number, total waiting time and the
  bandwidth to share; looking a file up in \<open>job_bandwidth\<close> inserts it.
\<close>

fun cal_collect ::
    "(string \<times> rat) list \<Rightarrow> (string \<times> rat) list \<Rightarrow> (string \<times> rat) list \<Rightarrow> rat \<Rightarrow> rat \<Rightarrow>
     (string \<times> rat) list \<times> rat \<times> rat \<times> (string \<times> rat) list" where
  "cal_collect [] bw cal sumw TotalBw = (cal, sumw, TotalBw, bw)"
| "cal_collect ((k, w) # ws) bw cal sumw TotalBw =
     (if w = 0 then cal_collect ws bw cal sumw TotalBw
      else let (b, bw) = chm_at k 0 bw
           in cal_collect ws bw (cal @ [(k, w)]) (sumw + w) (if b > TotalBw then b else TotalBw))"

definition new_rate :: "rat \<Rightarrow> rat \<Rightarrow> rat \<Rightarrow> rat" where
  "new_rate waited sumw TotalBw = min (max (waited / sumw * TotalBw) (TotalBw / 10)) (TotalBw / 2)"

text \<open>A field of the message: \<^verbatim>\<open>filename,rate,burst,\<close>, the numbers already printed.\<close>

definition limit_text :: "string \<times> string \<times> string \<Rightarrow> string" where
  "limit_text l = fst l @ '','' @ fst (snd l) @ '','' @ snd (snd l) @ '',''"

text \<open>The limits of a round, printed.  The one of a single file is a literal, which is an integer and not a double.\<close>

definition new_limits :: "(rat \<Rightarrow> string) \<Rightarrow> 'tb throttle \<Rightarrow> (string \<times> string \<times> string) list \<times> 'tb throttle" where
  "new_limits fmt t =
     (case job_waiting t of
        [] \<Rightarrow> ([], t)
      | [(k, w)] \<Rightarrow> ([(k, to_string 649651540, to_string 649651540)], t)
      | ws \<Rightarrow> (case cal_collect ws (job_bandwidth t) [] 0 TOTAL_BW of
          (cal, sumw, TotalBw, bw) \<Rightarrow>
            (map (\<lambda>(k, w). (k, fmt (new_rate w sumw TotalBw), fmt TotalBw)) cal, t\<lparr>job_bandwidth := bw\<rparr>)))"

definition Cal_New4Test :: "(rat \<Rightarrow> string) \<Rightarrow> 'tb throttle \<Rightarrow> string \<times> 'tb throttle" where
  "Cal_New4Test fmt t = (case new_limits fmt t of (ls, t) \<Rightarrow> (concat (map limit_text ls), t))"

definition Put_Consume ::
    "'tb token_bucket \<Rightarrow> string \<Rightarrow> nat \<Rightarrow> 'tb throttle \<Rightarrow> (int \<times> 'tb throttle) option" where
  "Put_Consume tb file_name sizes t =
     (let t = (if map_of (job_tokenlimit t) file_name = None
               then t\<lparr>job_tokenlimit := AList.update file_name (tb_setCapacity tb 32768000 (tb_new tb 32768000 65536000)) (job_tokenlimit t),
                      job_waiting := AList.update file_name 0 (job_waiting t)\<rparr>
               else t)
      in case map_of (job_tokenlimit t) file_name of
           None \<Rightarrow> None
         | Some bucket \<Rightarrow>
             (case tb_consume_spin tb sizes bucket of
                None \<Rightarrow> None
              | Some (bucket, BlockTime) \<Rightarrow>
                  let (w, ws) = chm_at file_name 0 (job_waiting t)
                  in Some (SUCCESS, t\<lparr>job_tokenlimit := AList.update file_name bucket (job_tokenlimit t),
                       job_waiting := chm_assign file_name (w + BlockTime) ws\<rparr>)))"

definition Del_File :: "string \<Rightarrow> 'tb throttle \<Rightarrow> 'tb throttle" where
  "Del_File file_name t =
     t\<lparr>job_waiting := AList.delete file_name (job_waiting t),
       job_tokenlimit := AList.delete file_name (job_tokenlimit t),
       job_bandwidth := AList.delete file_name (job_bandwidth t)\<rparr>"

definition Throttle_Close :: "'tb throttle \<Rightarrow> 'tb throttle" where
  "Throttle_Close t = t\<lparr>job_tokenlimit := [], job_waiting := [], job_bandwidth := []\<rparr>"

subsection \<open>The exchange with the scheduler\<close>

lemma new_rate_bounds: "0 \<le> bw \<Longrightarrow> bw / 10 \<le> new_rate w sumw bw \<and> new_rate w sumw bw \<le> bw / 2"
proof
  assume bw: "0 \<le> bw"
  have "bw / 10 \<le> max (w / sumw * bw) (bw / 10)" by (rule max.cobounded2)
  moreover have "bw / 10 \<le> bw / 2" using bw by simp
  ultimately show "bw / 10 \<le> new_rate w sumw bw" unfolding new_rate_def by (rule min.boundedI)
  show "new_rate w sumw bw \<le> bw / 2" unfolding new_rate_def by (rule min.cobounded2)
qed

lemma chm_at_old:
  assumes "chm_at k 0 bw = (b, bw')" and "\<forall>k b. map_of bw k = Some b \<longrightarrow> b = 0 \<or> map_of bw0 k = Some b"
  shows "(b = 0 \<or> map_of bw0 k = Some b) \<and> (\<forall>k b. map_of bw' k = Some b \<longrightarrow> b = 0 \<or> map_of bw0 k = Some b)"
proof (cases "map_of bw k")
  case None
  then have "b = 0" "bw' = bw @ [(k, 0)]" using assms(1) by (auto simp: chm_at_def)
  then show ?thesis using assms(2) by (auto simp: map_add_def split: option.splits if_splits)
next
  case (Some v)
  then show ?thesis using assms by (auto simp: chm_at_def)
qed

lemma cal_collect_spec:
  "cal_collect ws bw cal sumw TotalBw = (cal', sumw', TotalBw', bw') \<Longrightarrow> 0 \<le> TotalBw \<Longrightarrow>
    \<forall>k b. map_of bw k = Some b \<longrightarrow> b = 0 \<or> map_of bw0 k = Some b \<Longrightarrow>
    TotalBw \<le> TotalBw' \<and> (TotalBw' = TotalBw \<or> (\<exists>k. map_of bw0 k = Some TotalBw')) \<and>
    cal' = cal @ filter (\<lambda>(k, w). w \<noteq> 0) ws \<and> sumw' = sumw + sum_list (map snd ws)"
proof (induction ws bw cal sumw TotalBw rule: cal_collect.induct)
  case (2 k w ws bw cal sumw TotalBw)
  obtain b bw1 where b: "chm_at k 0 bw = (b, bw1)" by (cases "chm_at k 0 bw")
  show ?case
  proof (cases "w = 0")
    case True
    with 2 show ?thesis by auto
  next
    case False
    note old = chm_at_old [OF b "2.prems"(3)]
    let ?T = "if b > TotalBw then b else TotalBw"
    have step: "cal_collect ws bw1 (cal @ [(k, w)]) (sumw + w) ?T = (cal', sumw', TotalBw', bw')"
      using "2.prems"(1) False b by simp
    have "0 \<le> ?T" using "2.prems"(2) by simp
    from "2.IH"(2) [OF False b [symmetric] refl step this] old
    have "?T \<le> TotalBw' \<and> (TotalBw' = ?T \<or> (\<exists>k. map_of bw0 k = Some TotalBw')) \<and>
      cal' = (cal @ [(k, w)]) @ filter (\<lambda>(k, w). w \<noteq> 0) ws \<and> sumw' = sumw + w + sum_list (map snd ws)" by blast
    moreover have "?T = TotalBw \<or> map_of bw0 k = Some ?T" using old "2.prems"(2) by auto
    ultimately show ?thesis using False by (auto split: if_splits)
  qed
qed auto

text \<open>The message is read back as it was written when no field has a comma.\<close>

lemma ToSplitString_limits:
  assumes "\<forall>(k, r, b) \<in> set ls. CHR '','' \<notin> set k \<and> CHR '','' \<notin> set r \<and> CHR '','' \<notin> set b"
  shows "ToSplitString (concat (map limit_text ls)) = concat (map (\<lambda>(k, r, b). [k, r, b]) ls)"
  using assms
proof (induction ls)
  case Nil
  show ?case by (simp add: ToSplitString_def getlines_def)
next
  case (Cons l ls)
  obtain k r b where l: "l = (k, r, b)" by (cases l)
  show ?case
    using Cons by (simp add: l limit_text_def ToSplitString_def getlines_split)
qed

text \<open>What \<^verbatim>\<open>SetNewLimits\<close> makes of a bucket: a new one, of the printed numbers, with the old tokens.\<close>

definition rebucket :: "'tb token_bucket \<Rightarrow> rat \<times> rat \<Rightarrow> 'tb \<Rightarrow> 'tb" where
  "rebucket tb rb old = tb_setCapacity tb (tb_available tb old) (tb_new tb (fst rb) (snd rb))"

lemma map_of_chm_assign:
  "map_of (chm_assign k v m) k' = (if k' = k then map_option (\<lambda>_. v) (map_of m k) else map_of m k')"
  by (auto simp: chm_assign_def update_conv')

lemma set_limits_spec:
  assumes "distinct (map fst ls)" and "\<forall>(k, r, b) \<in> set ls. stod r \<noteq> None \<and> stod b \<noteq> None"
  shows "\<exists>m'. set_limits tb stod (concat (map (\<lambda>(k, r, b). [k, r, b]) ls)) m = Some m' \<and>
      (\<forall>k. map_of m' k = (case map_of ls k of None \<Rightarrow> map_of m k
         | Some rb \<Rightarrow> map_option (rebucket tb (the (stod (fst rb)), the (stod (snd rb)))) (map_of m k)))"
  using assms
proof (induction ls arbitrary: m)
  case (Cons l ls)
  obtain k r b where l: "l = (k, r, b)" by (cases l)
  obtain qr qb where q: "stod r = Some qr" "stod b = Some qb" using Cons.prems(2) l by auto
  let ?m1 = "case map_of m k of
       Some old \<Rightarrow> chm_assign k (tb_setCapacity tb (tb_available tb old) (tb_new tb qr qb)) m | None \<Rightarrow> m"
  have step: "set_limits tb stod (concat (map (\<lambda>(k, r, b). [k, r, b]) (l # ls))) m =
    set_limits tb stod (concat (map (\<lambda>(k, r, b). [k, r, b]) ls)) ?m1"
    by (simp add: l q)
  have m1: "map_of ?m1 k' = (if k' = k then map_option (rebucket tb (qr, qb)) (map_of m k) else map_of m k')" for k'
    by (auto simp: map_of_chm_assign rebucket_def split: option.split)
  have d: "distinct (map fst ls)" and k: "k \<notin> fst ` set ls" using Cons.prems l by auto
  have "\<forall>(k, r, b) \<in> set ls. stod r \<noteq> None \<and> stod b \<noteq> None" using Cons.prems(2) by simp
  from Cons.IH [OF d this, of ?m1]
  obtain m' where m': "set_limits tb stod (concat (map (\<lambda>(k, r, b). [k, r, b]) ls)) ?m1 = Some m'"
    "\<And>k'. map_of m' k' = (case map_of ls k' of None \<Rightarrow> map_of ?m1 k'
         | Some rb \<Rightarrow> map_option (rebucket tb (the (stod (fst rb)), the (stod (snd rb)))) (map_of ?m1 k'))"
    by blast
  have "map_of ls k = None" using k by (simp add: map_of_eq_None_iff)
  then have "map_of m' k' = (case map_of (l # ls) k' of None \<Rightarrow> map_of m k'
      | Some rb \<Rightarrow> map_option (rebucket tb (the (stod (fst rb)), the (stod (snd rb)))) (map_of m k'))" for k'
    unfolding m'(2) m1 by (auto simp: l q split: option.split)
  then show ?case using m'(1) step by auto
qed simp

lemma length_fields: "length (concat (map (\<lambda>(k, r, b). [k, r, b]) ls)) = 3 * length ls"
  by (induction ls) auto

lemma limit_text_ne: "ls \<noteq> [] \<Longrightarrow> concat (map limit_text ls) \<noteq> []"
  by (cases ls) (auto simp: limit_text_def)

lemma SetNewLimits_message:
  assumes f: "\<forall>(k, r, b) \<in> set ls. CHR '','' \<notin> set k \<and> CHR '','' \<notin> set r \<and> CHR '','' \<notin> set b"
    and d: "distinct (map fst ls)" and s: "\<forall>(k, r, b) \<in> set ls. stod r \<noteq> None \<and> stod b \<noteq> None"
  shows "\<exists>t'. SetNewLimits tb stod (concat (map limit_text ls)) t = Some (0, t') \<and>
    (\<forall>k. map_of (job_tokenlimit t') k = (case map_of ls k of None \<Rightarrow> map_of (job_tokenlimit t) k
       | Some rb \<Rightarrow> map_option (rebucket tb (the (stod (fst rb)), the (stod (snd rb)))) (map_of (job_tokenlimit t) k)))"
proof (cases "ls = []")
  case True
  then show ?thesis by (simp add: SetNewLimits_def)
next
  case False
  define msg where "msg = concat (map limit_text ls)"
  have "msg \<noteq> []" unfolding msg_def by (rule limit_text_ne [OF False])
  moreover have "ToSplitString msg = concat (map (\<lambda>(k, r, b). [k, r, b]) ls)"
    unfolding msg_def by (rule ToSplitString_limits [OF f])
  ultimately show ?thesis using set_limits_spec [OF d s, of tb "job_tokenlimit t"] length_fields [of ls]
    unfolding msg_def [symmetric] by (auto simp: SetNewLimits_def)
qed

lemma map_of_nonzero:
  "distinct (map fst ws) \<Longrightarrow> map_of (filter (\<lambda>(k, w). w \<noteq> 0) ws) k =
    (case map_of ws k of None \<Rightarrow> None | Some w \<Rightarrow> if w = (0 :: rat) then None else Some w)"
proof (induction ws)
  case (Cons x ws)
  then have "map_of ws (fst x) = None" by (simp add: map_of_eq_None_iff)
  with Cons show ?case by (cases x) auto
qed simp

text \<open>The bandwidth to share: the total one, or a larger one noted for a file.\<close>

definition shared_bw :: "'tb throttle \<Rightarrow> rat \<Rightarrow> bool" where
  "shared_bw t bw = (TOTAL_BW \<le> bw \<and> (bw = TOTAL_BW \<or> (\<exists>k. map_of (job_bandwidth t) k = Some bw)))"

lemma new_limits_many:
  assumes "2 \<le> length (job_waiting t)"
  shows "\<exists>bw t1. new_limits fmt t =
      (map (\<lambda>(k, w). (k, fmt (new_rate w (sum_list (map snd (job_waiting t))) bw), fmt bw))
        (filter (\<lambda>(k, w). w \<noteq> 0) (job_waiting t)), t1) \<and>
    shared_bw t bw \<and> job_tokenlimit t1 = job_tokenlimit t"
proof -
  obtain w1 w2 ws where ws: "job_waiting t = w1 # w2 # ws"
    using assms by (metis Suc_le_length_iff numeral_2_eq_2)
  obtain cal sumw bw b where c: "cal_collect (job_waiting t) (job_bandwidth t) [] 0 TOTAL_BW = (cal, sumw, bw, b)"
    by (metis prod_cases4)
  have "0 \<le> TOTAL_BW" by (simp add: TOTAL_BW_def)
  from cal_collect_spec [OF c this, of "job_bandwidth t"] have "shared_bw t bw"
    "cal = filter (\<lambda>(k, w). w \<noteq> 0) (job_waiting t)" "sumw = sum_list (map snd (job_waiting t))"
    by (auto simp: shared_bw_def)
  moreover have "new_limits fmt t = (map (\<lambda>(k, w). (k, fmt (new_rate w sumw bw), fmt bw)) cal, t\<lparr>job_bandwidth := b\<rparr>)"
    using c unfolding new_limits_def ws by (cases w1) (simp del: cal_collect.simps)
  ultimately show ?thesis by auto
qed

text \<open>
  The conversions of doubles, as they are documented: \<^verbatim>\<open>operator<<\<close> prints six significant digits, so that
  \<^verbatim>\<open>stod\<close> reads a number that differs by at most one part in 200000, and \<^verbatim>\<open>stod\<close> reads integers below
  \<^verbatim>\<open>2^53\<close> exactly.  Only numbers the code prints are asked about.
\<close>

definition near :: "rat \<Rightarrow> rat \<Rightarrow> bool" where
  "near q r = (\<bar>q - r\<bar> \<le> r / 200000)"

definition six_digits :: "(rat \<Rightarrow> string) \<Rightarrow> (string \<Rightarrow> rat option) \<Rightarrow> bool" where
  "six_digits fmt stod =
     ((\<forall>r. TOTAL_BW / 10 \<le> r \<longrightarrow> (\<exists>q. stod (fmt r) = Some q \<and> near q r) \<and> CHR '','' \<notin> set (fmt r)) \<and>
      (\<forall>n < 2 ^ 53. stod (to_string n) = Some (of_nat n)))"

lemma six_digitsD:
  assumes "six_digits fmt stod" and "TOTAL_BW / 10 \<le> r"
  shows "stod (fmt r) \<noteq> None" and "near (the (stod (fmt r))) r" and "CHR '','' \<notin> set (fmt r)"
  using assms unfolding six_digits_def by fastforce+

lemma notin_to_string: "\<not> is_digit c \<Longrightarrow> c \<notin> set (to_string n)"
  using to_string_digits by blast

lemma to_string_comma: "CHR '','' \<notin> set (to_string n)"
  by (rule notin_to_string) (simp add: is_digit_def)

text \<open>
  C22: one round of the throttling thread, \<^verbatim>\<open>SetNewLimits(Cal_New4Test())\<close>: the message is well formed and
  accepted.  A single file that is known gets the full rate of 649651540 bytes a second.  Of two or more, every file
  that waited gets a new bucket with the tokens of the old one: its rate is the file's share, by its waiting
  time, of the bandwidth \<^verbatim>\<open>bw\<close>, but at least a tenth and at most half of it, and its burst is \<^verbatim>\<open>bw\<close>, both as precise as six
  printed digits are; \<^verbatim>\<open>bw\<close> is 649651540 or a larger bandwidth noted for a file.  Every other bucket is
  left alone.  The file names must have no comma, because the message is split at commas.
\<close>

theorem throttle_round:
  assumes io: "six_digits fmt stod"
    and names: "\<forall>k \<in> fst ` set (job_waiting t). CHR '','' \<notin> set k" and dist: "distinct (map fst (job_waiting t))"
  shows "\<exists>bw t'. shared_bw t bw \<and>
    SetNewLimits tb stod (fst (Cal_New4Test fmt t)) (snd (Cal_New4Test fmt t)) = Some (0, t') \<and>
    (\<forall>k old. map_of (job_tokenlimit t) k = Some old \<longrightarrow>
       (case map_of (job_waiting t) k of
          None \<Rightarrow> map_of (job_tokenlimit t') k = Some old
        | Some w \<Rightarrow>
            if length (job_waiting t) = 1
            then map_of (job_tokenlimit t') k = Some (rebucket tb (649651540, 649651540) old)
            else if w = 0 then map_of (job_tokenlimit t') k = Some old
            else \<exists>rate burst. map_of (job_tokenlimit t') k = Some (rebucket tb (rate, burst) old) \<and> near burst bw \<and>
              near rate (min (max (w / sum_list (map snd (job_waiting t)) * bw) (bw / 10)) (bw / 2))))"
proof (cases "2 \<le> length (job_waiting t)")
  case True
  let ?ws = "filter (\<lambda>(k, w). w \<noteq> 0) (job_waiting t)" and ?sum = "sum_list (map snd (job_waiting t))"
  obtain bw t1 where nl: "new_limits fmt t = (map (\<lambda>(k, w). (k, fmt (new_rate w ?sum bw), fmt bw)) ?ws, t1)"
    and bw: "shared_bw t bw" and t1: "job_tokenlimit t1 = job_tokenlimit t"
    using new_limits_many [OF True] by blast
  let ?ls = "map (\<lambda>(k, w). (k, fmt (new_rate w ?sum bw), fmt bw)) ?ws"
  have "TOTAL_BW \<le> bw" "0 \<le> bw" using bw by (auto simp: shared_bw_def TOTAL_BW_def)
  then have r: "TOTAL_BW / 10 \<le> new_rate w ?sum bw" "TOTAL_BW / 10 \<le> bw" for w
    using new_rate_bounds [of bw w ?sum] by (auto simp: TOTAL_BW_def)
  note num = six_digitsD [OF io r(1)] six_digitsD [OF io r(2)]
  have fields: "\<forall>(k, r, b) \<in> set ?ls. CHR '','' \<notin> set k \<and> CHR '','' \<notin> set r \<and> CHR '','' \<notin> set b"
    "\<forall>(k, r, b) \<in> set ?ls. stod r \<noteq> None \<and> stod b \<noteq> None"
    using names num by fastforce+
  have "map fst ?ls = map fst ?ws" by auto
  then have d: "distinct (map fst ?ls)" using distinct_map_filter [OF dist] by metis
  have cal: "Cal_New4Test fmt t = (concat (map limit_text ?ls), t1)" unfolding Cal_New4Test_def nl by simp
  have lsk: "map_of ?ls k = (case map_of (job_waiting t) k of None \<Rightarrow> None
      | Some w \<Rightarrow> if w = 0 then None else Some (fmt (new_rate w ?sum bw), fmt bw))" for k
  proof -
    have "map_of ?ls k = map_option (\<lambda>w. (fmt (new_rate w ?sum bw), fmt bw)) (map_of ?ws k)"
      by (simp only: map_of_map comp_apply)
    then show ?thesis unfolding map_of_nonzero [OF dist] by (auto split: option.splits)
  qed
  obtain t' where t': "SetNewLimits tb stod (concat (map limit_text ?ls)) t1 = Some (0, t')"
    and m': "\<And>k. map_of (job_tokenlimit t') k = (case map_of ?ls k of None \<Rightarrow> map_of (job_tokenlimit t) k
       | Some rb \<Rightarrow> map_option (rebucket tb (the (stod (fst rb)), the (stod (snd rb)))) (map_of (job_tokenlimit t) k))"
    using SetNewLimits_message [OF fields(1) d fields(2), of tb t1] unfolding t1 by blast
  have mk: "map_of (job_tokenlimit t') k = Some (case map_of (job_waiting t) k of None \<Rightarrow> old
      | Some w \<Rightarrow> if w = 0 then old
          else rebucket tb (the (stod (fmt (new_rate w ?sum bw))), the (stod (fmt bw))) old)"
    if "map_of (job_tokenlimit t) k = Some old" for k old
    unfolding m' lsk that by (simp split: option.split)
  have one: "length (job_waiting t) \<noteq> 1" using True by simp
  show ?thesis
  proof (intro exI [of _ bw] exI [of _ t'] conjI allI impI bw)
    show "SetNewLimits tb stod (fst (Cal_New4Test fmt t)) (snd (Cal_New4Test fmt t)) = Some (0, t')"
      unfolding cal fst_conv snd_conv by (rule t')
  next
    fix k old assume old: "map_of (job_tokenlimit t) k = Some old"
    show "case map_of (job_waiting t) k of None \<Rightarrow> map_of (job_tokenlimit t') k = Some old
      | Some w \<Rightarrow> if length (job_waiting t) = 1
            then map_of (job_tokenlimit t') k = Some (rebucket tb (649651540, 649651540) old)
            else if w = 0 then map_of (job_tokenlimit t') k = Some old
            else \<exists>rate burst. map_of (job_tokenlimit t') k = Some (rebucket tb (rate, burst) old) \<and> near burst bw \<and>
              near rate (min (max (w / ?sum * bw) (bw / 10)) (bw / 2))"
      using mk [OF old] num(2,5) one unfolding new_rate_def by (cases "map_of (job_waiting t) k") auto
  qed
next
  case False
  have bw: "shared_bw t TOTAL_BW" by (simp add: shared_bw_def)
  show ?thesis
  proof (cases "job_waiting t")
    case Nil
    then show ?thesis using bw
      by (intro exI [of _ TOTAL_BW] exI [of _ t]) (simp add: Cal_New4Test_def new_limits_def SetNewLimits_def)
  next
    case (Cons kw ws)
    then obtain k w where w: "job_waiting t = [(k, w)]" using False by (cases kw; cases ws) auto
    have "\<forall>n < 2 ^ 53. stod (to_string n) = Some (of_nat n)" using io unfolding six_digits_def by blast
    from this [rule_format, of 649651540] have n: "stod (to_string 649651540) = Some 649651540" by simp
    let ?ls = "[(k, to_string 649651540, to_string 649651540)]"
    have cal: "Cal_New4Test fmt t = (concat (map limit_text ?ls), t)" by (simp add: Cal_New4Test_def new_limits_def w)
    obtain t' where "SetNewLimits tb stod (concat (map limit_text ?ls)) t = Some (0, t')"
      and "\<And>k'. map_of (job_tokenlimit t') k' = (case map_of ?ls k' of None \<Rightarrow> map_of (job_tokenlimit t) k'
         | Some rb \<Rightarrow> map_option (rebucket tb (the (stod (fst rb)), the (stod (snd rb)))) (map_of (job_tokenlimit t) k'))"
      using SetNewLimits_message [of ?ls stod tb t] n names w to_string_comma by auto
    then show ?thesis using bw
      by (intro exI [of _ TOTAL_BW] exI [of _ t']) (auto simp: cal w n split: option.splits)
  qed
qed

text \<open>Numbers printed as \<^verbatim>\<open>649652e3\<close>, six digits and an exponent, and read back.\<close>

definition fmt6 :: "rat \<Rightarrow> string" where
  "fmt6 r = (let k = length (to_string (nat \<lfloor>r\<rfloor>)) - 6 in to_string (nat (round (r / 10 ^ k))) @ ''e'' @ to_string k)"

definition stod6 :: "string \<Rightarrow> rat option" where
  "stod6 s = (case getlines CHR ''e'' s of
     [m] \<Rightarrow> Some (of_nat (read_nat m))
   | [m, k] \<Rightarrow> Some (of_nat (read_nat m) * 10 ^ read_nat k)
   | _ \<Rightarrow> None)"

lemma to_string_length: "0 < n \<Longrightarrow> 10 ^ (length (to_string n) - 1) \<le> n"
proof (induction n rule: to_string.induct)
  case (1 n)
  show ?case
  proof (cases "n < 10")
    case True
    then show ?thesis using "1.prems" by (simp add: to_string.simps [of n])
  next
    case False
    let ?l = "length (to_string (n div 10))"
    have "10 ^ (?l - 1) \<le> n div 10" using "1.IH" [OF False] False by simp
    moreover have "0 < ?l" by simp
    then have "(10 :: nat) ^ ?l = 10 * 10 ^ (?l - 1)" by (metis power_minus_mult mult.commute)
    ultimately have "10 ^ ?l \<le> n" by linarith
    then show ?thesis using False by (simp add: to_string.simps [of n])
  qed
qed

lemma fmt6_near:
  assumes "10000000 \<le> r" and that: "k = length (to_string (nat \<lfloor>r\<rfloor>)) - 6"
  shows "near (of_nat (nat (round (r / 10 ^ k))) * 10 ^ k) r"
proof -
  let ?n = "nat \<lfloor>r\<rfloor>" and ?p = "(10 :: rat) ^ k"
  have p: "0 < ?p" by simp
  have n: "of_nat ?n \<le> r" "0 < ?n" using assms by linarith+
  have big: "10 ^ 5 * ?p \<le> r"
  proof (cases "6 \<le> length (to_string ?n)")
    case True
    then have "length (to_string ?n) - 1 = 5 + k" using that by simp
    then have "10 ^ (5 + k) \<le> ?n" using to_string_length [OF n(2)] by simp
    then have "(of_nat (10 ^ (5 + k)) :: rat) \<le> of_nat ?n" by (simp only: of_nat_le_iff)
    then show ?thesis using n(1) by (simp add: power_add)
  next
    case False
    then show ?thesis using that assms by simp
  qed
  have "0 \<le> r / ?p" using assms p by simp
  then have "0 \<le> round (r / ?p)" by (metis round_0 round_mono)
  then have i: "(of_nat (nat (round (r / ?p))) :: rat) = of_int (round (r / ?p))" by simp
  have "\<bar>of_int (round (r / ?p)) - r / ?p\<bar> \<le> 1 / 2" by (rule of_int_round_abs_le)
  then have "\<bar>of_int (round (r / ?p)) - r / ?p\<bar> * ?p \<le> 1 / 2 * ?p" using p by (intro mult_right_mono) auto
  moreover have "\<bar>of_int (round (r / ?p)) - r / ?p\<bar> * ?p = \<bar>of_int (round (r / ?p)) * ?p - r\<bar>"
    using p by (simp add: abs_mult_pos left_diff_distrib)
  ultimately have "\<bar>of_int (round (r / ?p)) * ?p - r\<bar> \<le> ?p / 2" by simp
  also have "\<dots> \<le> r / 200000" using big by simp
  finally show ?thesis unfolding near_def i .
qed

lemma fmt6_six_digits: "six_digits fmt6 stod6"
proof -
  have e: "CHR ''e'' \<notin> set (to_string n)" for n by (rule notin_to_string) (simp add: is_digit_def)
  have "stod6 (to_string n) = Some (of_nat n)" for n by (simp add: stod6_def getlines_one [OF e])
  moreover have "stod6 (to_string m @ ''e'' @ to_string k) = Some (of_nat m * 10 ^ k)" for m k
    using getlines_split [OF e] by (simp add: stod6_def getlines_one [OF e])
  moreover have "TOTAL_BW / 10 \<le> r \<Longrightarrow> 10000000 \<le> r" for r by (simp add: TOTAL_BW_def)
  ultimately show ?thesis
    unfolding six_digits_def using fmt6_near to_string_comma by (auto simp: fmt6_def Let_def)
qed

definition demo_bucket :: "(rat \<times> rat) token_bucket" where
  "demo_bucket = \<lparr>tb_new = (\<lambda>r b. (r, 0)), tb_setCapacity = (\<lambda>c tb. (fst tb, c)),
     tb_available = snd, tb_consume_spin = (\<lambda>n tb. Some (tb, 1))\<rparr>"

definition demo_throttle :: "(rat \<times> rat) throttle" where
  "demo_throttle = \<lparr>job_tokenlimit = [(''a'', 1, 5), (''b'', 2, 6), (''c'', 3, 7)],
     job_waiting = [(''a'', 3), (''b'', 0), (''c'', 6)], job_bandwidth = []\<rparr>"

theorem throttle_round_witness:
  "\<exists>rate t'. SetNewLimits demo_bucket stod6 (fst (Cal_New4Test fmt6 demo_throttle))
      (snd (Cal_New4Test fmt6 demo_throttle)) = Some (0, t') \<and>
    map_of (job_tokenlimit t') ''b'' = Some (2, 6) \<and>
    map_of (job_tokenlimit t') ''a'' = Some (rate, 5) \<and> near rate (649651540 / 3)"
proof -
  have w: "map_of (job_waiting demo_throttle) ''a'' = Some 3" "map_of (job_waiting demo_throttle) ''b'' = Some 0"
    "map_of (job_tokenlimit demo_throttle) ''a'' = Some (1, 5)" "map_of (job_tokenlimit demo_throttle) ''b'' = Some (2, 6)"
    "length (job_waiting demo_throttle) \<noteq> 1" "sum_list (map snd (job_waiting demo_throttle)) = 9"
    by (simp_all add: demo_throttle_def)
  have names: "\<forall>k \<in> fst ` set (job_waiting demo_throttle). CHR '','' \<notin> set k"
    "distinct (map fst (job_waiting demo_throttle))" by (simp_all add: demo_throttle_def)
  obtain bw t' where b: "shared_bw demo_throttle bw"
    "SetNewLimits demo_bucket stod6 (fst (Cal_New4Test fmt6 demo_throttle))
      (snd (Cal_New4Test fmt6 demo_throttle)) = Some (0, t')"
    and r: "\<forall>k old. map_of (job_tokenlimit demo_throttle) k = Some old \<longrightarrow>
       (case map_of (job_waiting demo_throttle) k of
          None \<Rightarrow> map_of (job_tokenlimit t') k = Some old
        | Some w \<Rightarrow>
            if length (job_waiting demo_throttle) = 1
            then map_of (job_tokenlimit t') k = Some (rebucket demo_bucket (649651540, 649651540) old)
            else if w = 0 then map_of (job_tokenlimit t') k = Some old
            else \<exists>rate burst. map_of (job_tokenlimit t') k = Some (rebucket demo_bucket (rate, burst) old) \<and> near burst bw \<and>
              near rate (min (max (w / sum_list (map snd (job_waiting demo_throttle)) * bw) (bw / 10)) (bw / 2)))"
    using throttle_round [OF fmt6_six_digits names, of demo_bucket] by blast
  have "bw = 649651540" using b(1) by (simp add: shared_bw_def demo_throttle_def TOTAL_BW_def)
  with r [rule_format, OF w(3)] r [rule_format, OF w(4)] w b(2) show ?thesis
    by (auto simp: rebucket_def demo_bucket_def)
qed

end
