(* ===== verification/Write_Cache.thy ===== *)
theory Write_Cache
  imports Local_Keys Throttle
begin

section \<open>The write cache (\<^verbatim>\<open>local_cache/write_cache.cpp\<close>)\<close>

text \<open>
  \<^verbatim>\<open>WriteCache\<close> over the page cache: byte ranges of files in pages named by \<^verbatim>\<open>GetPageKey\<close>, the
  creation times of the files written, the per-file locks and the throttle.  The hash map of keys is
  an association list.  A loop over the page list walks the list as it was when the loop started
  (the deletions only remove the element the iterator stands on).  \<open>None\<close> is a call that never
  returns, or one that indexes a token that \<^verbatim>\<open>split\<close> did not produce.
\<close>

record ('c, 'tb) write_cache =
  wc_cfg :: WriteCacheConfig
  wc_pages :: "'c page_cache"
  wc_keys :: "(key \<times> nat) list"
  wc_locks :: "key list"
  wc_throttle :: "'tb throttle"

abbreviation wc_page_size :: "('c, 'tb) write_cache \<Rightarrow> nat" where
  "wc_page_size st \<equiv> PageBodySize (WriteCacheCfg_CacheCfg (wc_cfg st))"

abbreviation WC_GetPageKey :: "(string \<Rightarrow> bytes) \<Rightarrow> key \<Rightarrow> nat \<Rightarrow> key" where
  "WC_GetPageKey digest \<equiv> GetPageKey digest ''_W''"

definition WC_Lock :: "key \<Rightarrow> ('c, 'tb) write_cache \<Rightarrow> ('c, 'tb) write_cache option" where
  "WC_Lock key st = (if key \<in> set (wc_locks st) then None else Some (st\<lparr>wc_locks := skip_insert key (wc_locks st)\<rparr>))"

definition WC_UnLock :: "key \<Rightarrow> ('c, 'tb) write_cache \<Rightarrow> ('c, 'tb) write_cache" where
  "WC_UnLock key st = st\<lparr>wc_locks := skip_erase key (wc_locks st)\<rparr>"

definition WC_Put ::
    "'c cachelib \<Rightarrow> (string \<Rightarrow> bytes) \<Rightarrow> 'tb token_bucket \<Rightarrow> nat \<Rightarrow> key \<Rightarrow> nat \<Rightarrow> bytes \<Rightarrow>
     ('c, 'tb) write_cache \<Rightarrow> (int \<times> ('c, 'tb) write_cache) option" where
  "WC_Put cl digest tb now key start buf st = do {
     let pageSize = wc_page_size st;
     let index = start div pageSize;
     let pagePos = start mod pageSize;
     st \<leftarrow> (if EnableThrottle (wc_cfg st)
           then map_option (\<lambda>(res, t). st\<lparr>wc_throttle := t\<rparr>) (Put_Consume tb key (length buf) (wc_throttle st))
           else Some st);
     (res, writePageCnt, pages) \<leftarrow>
       put_loop (Page_Write cl) (WC_GetPageKey digest key) pageSize index pagePos buf 0 (wc_pages st);
     let st = st\<lparr>wc_pages := pages\<rparr>;
     let st = (if 0 < writePageCnt \<and> map_of (wc_keys st) key = None
               then st\<lparr>wc_keys := (key, now) # wc_keys st\<rparr> else st);
     Some (res, st)
   }"

definition WC_Get ::
    "'c cachelib \<Rightarrow> (string \<Rightarrow> bytes) \<Rightarrow> key \<Rightarrow> nat \<Rightarrow> nat \<Rightarrow> bytes \<Rightarrow> boundary \<Rightarrow>
     ('c, 'tb) write_cache \<Rightarrow> (int \<times> boundary \<times> bytes \<times> ('c, 'tb) write_cache) option" where
  "WC_Get cl digest key start len buf dataBoundary st = do {
     let pageSize = wc_page_size st;
     (res, dataBoundary, buf, readPageCnt, pages) \<leftarrow>
       get_loop (Page_Read cl) (WC_GetPageKey digest key) join_segment pageSize
         (start div pageSize) (start mod pageSize) 0 len buf dataBoundary 0 (wc_pages st);
     Some (res, dataBoundary, buf, st\<lparr>wc_pages := pages\<rparr>)
   }"

text \<open>The loops over the page list, from the first page that is not before the one asked for.\<close>

fun all_cache_loop ::
    "'c cachelib \<Rightarrow> nat \<Rightarrow> key \<Rightarrow> key list \<Rightarrow> (bytes \<times> nat) list \<Rightarrow> 'c page_cache \<Rightarrow>
     (int \<times> (bytes \<times> nat) list \<times> 'c page_cache) option" where
  "all_cache_loop cl pageSize key [] segs pc = Some (SUCCESS, segs, pc)"
| "all_cache_loop cl pageSize key (pageKey # rest) segs pc =
     (case split pageKey PAGE_SEPARATOR of
        [] \<Rightarrow> None
      | t # ts \<Rightarrow>
          if key \<noteq> t then Some (SUCCESS, segs, pc)
          else (case ts of
                  [] \<Rightarrow> None
                | idx # _ \<Rightarrow>
                    let wholeValueOff = read_nat idx * pageSize
                    in case Page_GetAllCache cl pageKey pc of
                         None \<Rightarrow> None
                       | Some (res, step, pc) \<Rightarrow>
                           if res \<noteq> SUCCESS then Some (res, segs, pc)
                           else all_cache_loop cl pageSize key rest
                                  (segs @ map (\<lambda>(d, a). (d, a + wholeValueOff)) step) pc))"

fun delete_loop :: "'c cachelib \<Rightarrow> key \<Rightarrow> key list \<Rightarrow> nat \<Rightarrow> 'c page_cache \<Rightarrow> (int \<times> nat \<times> 'c page_cache) option" where
  "delete_loop cl key [] delPageNum pc = Some (SUCCESS, delPageNum, pc)"
| "delete_loop cl key (pageKey # rest) delPageNum pc =
     (case split pageKey PAGE_SEPARATOR of
        [] \<Rightarrow> None
      | t # ts \<Rightarrow>
          if key \<noteq> t then Some (SUCCESS, delPageNum, pc)
          else (case Page_Delete cl pageKey pc of
                  None \<Rightarrow> None
                | Some (tmpRes, pc) \<Rightarrow>
                    if tmpRes = SUCCESS then delete_loop cl key rest (delPageNum + 1) pc
                    else if tmpRes \<noteq> PAGE_NOT_FOUND then Some (tmpRes, delPageNum, pc)
                    else delete_loop cl key rest delPageNum pc))"

definition WC_GetAllCacheWithLock ::
    "'c cachelib \<Rightarrow> (string \<Rightarrow> bytes) \<Rightarrow> key \<Rightarrow> ('c, 'tb) write_cache \<Rightarrow>
     (int \<times> (bytes \<times> nat) list \<times> ('c, 'tb) write_cache) option" where
  "WC_GetAllCacheWithLock cl digest key st = do {
     st \<leftarrow> WC_Lock key st;
     let firstPage = WC_GetPageKey digest key 0;
     (res, segs, pages) \<leftarrow> all_cache_loop cl (wc_page_size st) key
       (lower_bound firstPage (pagesList (wc_pages st))) [] (wc_pages st);
     Some (res, segs, st\<lparr>wc_pages := pages\<rparr>)
   }"

definition WC_Delete ::
    "'c cachelib \<Rightarrow> (string \<Rightarrow> bytes) \<Rightarrow> key \<Rightarrow> bool \<Rightarrow> ('c, 'tb) write_cache \<Rightarrow> (int \<times> ('c, 'tb) write_cache) option" where
  "WC_Delete cl digest key alreadyLocked st = do {
     st \<leftarrow> (if \<not> alreadyLocked then WC_Lock key st else Some st);
     let st = (if EnableThrottle (wc_cfg st) then st\<lparr>wc_throttle := Del_File key (wc_throttle st)\<rparr> else st);
     let st = st\<lparr>wc_keys := AList.delete key (wc_keys st)\<rparr>;
     let firstPage = WC_GetPageKey digest key 0;
     (res, delPageNum, pages) \<leftarrow> delete_loop cl key (lower_bound firstPage (pagesList (wc_pages st))) 0 (wc_pages st);
     Some (res, WC_UnLock key (st\<lparr>wc_pages := pages\<rparr>))
   }"

definition WC_Truncate ::
    "'c cachelib \<Rightarrow> (string \<Rightarrow> bytes) \<Rightarrow> key \<Rightarrow> nat \<Rightarrow> ('c, 'tb) write_cache \<Rightarrow> (int \<times> ('c, 'tb) write_cache) option" where
  "WC_Truncate cl digest key len st = do {
     let pageSize = wc_page_size st;
     let index = len div pageSize;
     let pagePos = len mod pageSize;
     (res, index, st) \<leftarrow>
       (if pagePos \<noteq> 0
        then do {
          let TruncateLen = pageSize - pagePos;
          (tmpRes, pages) \<leftarrow> Page_DeletePart cl (WC_GetPageKey digest key index) pagePos TruncateLen (wc_pages st);
          Some (if tmpRes \<noteq> SUCCESS \<and> tmpRes \<noteq> PAGE_NOT_FOUND then tmpRes else SUCCESS, index + 1,
                st\<lparr>wc_pages := pages\<rparr>)
        }
        else Some (SUCCESS, index, st));
     if res = SUCCESS
     then do {
       st \<leftarrow> WC_Lock key st;
       let firstPage = WC_GetPageKey digest key index;
       (res, delPageNum, pages) \<leftarrow> delete_loop cl key (lower_bound firstPage (pagesList (wc_pages st))) 0 (wc_pages st);
       Some (res, WC_UnLock key (st\<lparr>wc_pages := pages\<rparr>))
     }
     else Some (res, st)
   }"

definition WC_GetAllKeys :: "(key \<times> nat) list \<Rightarrow> ('c, 'tb) write_cache \<Rightarrow> int \<times> (key \<times> nat) list" where
  "WC_GetAllKeys keys st = (SUCCESS, fold (\<lambda>(k, t) m. AList.update k t m) (wc_keys st) keys)"

definition WC_GetCacheSize :: "('c, 'tb) write_cache \<Rightarrow> 64 word" where
  "WC_GetCacheSize st = Page_GetCacheSize (wc_pages st)"

definition WC_GetCacheMaxSize :: "('c, 'tb) write_cache \<Rightarrow> nat" where
  "WC_GetCacheMaxSize st = Page_GetCacheMaxSize (wc_pages st)"

text \<open>\<^verbatim>\<open>Close\<close>, without the join of the throttling thread.\<close>

definition WC_Close :: "('c, 'tb) write_cache \<Rightarrow> ('c, 'tb) write_cache" where
  "WC_Close st =
     (let st = st\<lparr>wc_keys := []\<rparr>
      in if EnableThrottle (wc_cfg st) then st\<lparr>wc_throttle := Throttle_Close (wc_throttle st)\<rparr> else st)"

subsection \<open>Files in the write cache\<close>

definition wc_inv :: "'c cachelib \<Rightarrow> ('c \<Rightarrow> key \<rightharpoonup> bytes) \<Rightarrow> ('c, 'tb) write_cache \<Rightarrow> bool" where
  "wc_inv cl items st =
     (pc_inv cl items (wc_pages st) \<and> pc_cfg (wc_pages st) = WriteCacheCfg_CacheCfg (wc_cfg st))"

definition wc_file ::
    "('c \<Rightarrow> key \<rightharpoonup> bytes) \<Rightarrow> (string \<Rightarrow> bytes) \<Rightarrow> ('c, 'tb) write_cache \<Rightarrow> key \<Rightarrow> nat \<rightharpoonup> byte" where
  "wc_file items digest st key =
     file_of (contents items (wc_pages st)) (WC_GetPageKey digest key) (wc_page_size st)"

lemma wc_inv_psize: "wc_inv cl items st \<Longrightarrow> PageBodySize (pc_cfg (wc_pages st)) = wc_page_size st \<and> 0 < wc_page_size st"
  by (auto simp: wc_inv_def pc_inv_def page_cfg_ok_def)

lemma WC_Put_cases:
  assumes "WC_Put cl digest tb now key start buf st = Some (r, st')"
  obtains cnt pages t where
    "put_loop (Page_Write cl) (WC_GetPageKey digest key) (wc_page_size st) (start div wc_page_size st)
       (start mod wc_page_size st) buf 0 (wc_pages st) = Some (r, cnt, pages)"
    "wc_pages st' = pages" "wc_cfg st' = wc_cfg st" "wc_locks st' = wc_locks st"
    "wc_keys st' = (if 0 < cnt \<and> map_of (wc_keys st) key = None then (key, now) # wc_keys st else wc_keys st)"
proof -
  obtain t where st1: "(if EnableThrottle (wc_cfg st)
           then map_option (\<lambda>(res, t). st\<lparr>wc_throttle := t\<rparr>) (Put_Consume tb key (length buf) (wc_throttle st))
           else Some st) = Some (st\<lparr>wc_throttle := t\<rparr>)"
  proof (cases "EnableThrottle (wc_cfg st)")
    case True
    then show ?thesis using assms that
      by (cases "Put_Consume tb key (length buf) (wc_throttle st)") (auto simp: WC_Put_def)
  next
    case False
    then show ?thesis using that [of "wc_throttle st"] by simp
  qed
  show ?thesis
    using assms that unfolding WC_Put_def Let_def st1
    by (auto split: Option.bind_splits if_splits)
qed

lemma GetPageKey_range: "digest_ok digest k k' \<Longrightarrow> k' \<noteq> k \<Longrightarrow> GetPageKey digest sfx k' i \<notin> range (GetPageKey digest sfx k)"
  using GetPageKey_disjoint [of digest k k' sfx] by (metis imageE)

lemma file_of_agrees:
  "(\<And>i. page' (pk i) = page (pk i) \<or> (\<not> r \<and> page' (pk i) = Map.empty)) \<Longrightarrow>
     agrees r (file_of page pk P) (file_of page' pk P)"
  unfolding agrees_def file_of_def by metis

lemma put_loop_cfg:
  "pc_inv cl items st \<Longrightarrow> put_loop (Page_Write cl) pk P index pos buf cnt st = Some (r, cnt', st') \<Longrightarrow>
     pc_cfg st' = pc_cfg st"
proof (induction "length buf" arbitrary: index pos buf cnt st rule: less_induct)
  case less
  show ?case
  proof (cases "buf = []")
    case True
    with less.prems show ?thesis by (simp add: put_loop.simps)
  next
    case False
    from put_loop_step [OF False less.prems(2)] obtain n r1 st1 where n: "0 < n"
      and w: "Page_Write cl (pk index) pos (take n buf) st = Some (r1, st1)"
      and rest: "r1 = SUCCESS \<longrightarrow> put_loop (Page_Write cl) pk P (index + 1) ((pos + n) mod P)
        (drop n buf) (cnt + 1) st1 = Some (r, cnt', st')" by blast
    note wl = Page_Write_law [OF less.prems(1) w]
    have "put_loop (Page_Write cl) pk P (index + 1) ((pos + n) mod P) (drop n buf) (cnt + 1) st1 = Some (r, cnt', st')"
      using rest wl by simp
    from less.hyps [OF _ _ this] wl n False show ?thesis by auto
  qed
qed

lemma WC_Put_law:
  assumes inv: "wc_inv cl items st" and run: "WC_Put cl digest tb now key start buf st = Some (r, st')"
  shows "r = SUCCESS \<and> wc_inv cl items st' \<and> wc_page_size st' = wc_page_size st \<and>
    agrees (cachelib_roomy cl items) (overlay (wc_file items digest st key) start buf) (wc_file items digest st' key) \<and>
    (\<forall>key'. digest_ok digest key key' \<and> key' \<noteq> key \<longrightarrow>
       agrees (cachelib_roomy cl items) (wc_file items digest st key') (wc_file items digest st' key')) \<and>
    (buf \<noteq> [] \<longrightarrow> map_of (wc_keys st') key \<noteq> None)"
proof -
  let ?P = "wc_page_size st"
  have pin: "pc_inv cl items (wc_pages st)" and ps: "PageBodySize (pc_cfg (wc_pages st)) = ?P" and pos: "0 < ?P"
    using inv wc_inv_psize [OF inv] by (auto simp: wc_inv_def)
  from run obtain cnt pages where pl: "put_loop (Page_Write cl) (WC_GetPageKey digest key) ?P (start div ?P)
       (start mod ?P) buf 0 (wc_pages st) = Some (r, cnt, pages)"
    and st': "wc_pages st' = pages" "wc_cfg st' = wc_cfg st"
    "wc_keys st' = (if 0 < cnt \<and> map_of (wc_keys st) key = None then (key, now) # wc_keys st else wc_keys st)"
    by (rule WC_Put_cases)
  have "start mod ?P < PageBodySize (pc_cfg (wc_pages st))" using pos ps by simp
  from pcs.put_loop_spec [OF GetPageKey_inj pin this, unfolded ps, OF pl]
  have L: "r = SUCCESS" "pc_inv cl items pages" "PageBodySize (pc_cfg pages) = ?P"
    "agrees (cachelib_roomy cl items)
       (overlay (file_of (contents items (wc_pages st)) (WC_GetPageKey digest key) ?P) start buf)
       (file_of (contents items pages) (WC_GetPageKey digest key) ?P)"
    "\<And>k. k \<notin> range (WC_GetPageKey digest key) \<Longrightarrow>
       contents items pages k = contents items (wc_pages st) k \<or>
       (\<not> cachelib_roomy cl items \<and> contents items pages k = Map.empty)"
    "buf \<noteq> [] \<longrightarrow> 0 < cnt" by auto
  have cfg: "pc_cfg pages = pc_cfg (wc_pages st)"
    by (rule put_loop_cfg [OF pin pl])
  have "agrees (cachelib_roomy cl items) (wc_file items digest st key') (wc_file items digest st' key')"
    if "digest_ok digest key key'" "key' \<noteq> key" for key'
    unfolding wc_file_def st' using L(5) [OF GetPageKey_range [OF that]] by (intro file_of_agrees) auto
  then show ?thesis
    using L st' cfg inv by (auto simp: wc_inv_def wc_file_def)
qed

lemma Page_Read_cfg: "Page_Read cl k pos n b bd st = Some (r, bs, b', st') \<Longrightarrow> pc_cfg st' = pc_cfg st"
  by (auto simp: Page_Read_def Let_def split: if_splits option.splits prod.splits)

lemma Page_Read_list: "Page_Read cl k pos n b bd st = Some (r, bs, b', st') \<Longrightarrow> pagesList st' = pagesList st"
  by (auto simp: Page_Read_def Let_def split: if_splits option.splits prod.splits)

lemma WC_Get_law:
  assumes inv: "wc_inv cl items st" and len: "len \<le> length buf"
  shows "\<exists>bs buf' st'. WC_Get cl digest key start len buf [] st = Some (SUCCESS, bs, buf', st') \<and>
    boundary_of (wc_file items digest st key) start len bs \<and>
    filled (wc_file items digest st key) start len buf buf' \<and>
    wc_inv cl items st' \<and> (\<forall>key'. wc_file items digest st' key' = wc_file items digest st key') \<and>
    wc_cfg st' = wc_cfg st \<and> wc_keys st' = wc_keys st \<and> wc_locks st' = wc_locks st \<and>
    pagesList (wc_pages st') = pagesList (wc_pages st)"
proof -
  let ?P = "wc_page_size st"
  let ?F = "wc_file items digest st key"
  have pin: "pc_inv cl items (wc_pages st)" and ps: "PageBodySize (pc_cfg (wc_pages st)) = ?P" and pos: "0 < ?P"
    using inv wc_inv_psize [OF inv] by (auto simp: wc_inv_def)
  have F: "?F = file_of (contents items (wc_pages st)) (WC_GetPageKey digest key) (PageBodySize (pc_cfg (wc_pages st)))"
    by (simp add: wc_file_def ps)
  have m: "start mod ?P < PageBodySize (pc_cfg (wc_pages st))" using pos ps by simp
  have q0: "maximal_runs (\<lambda>i. ?F (start + i) \<noteq> None) 0 0 []" by (simp add: maximal_runs_def)
  have "\<exists>acc' buf' cnt' s'. get_loop (Page_Read cl) (WC_GetPageKey digest key) join_segment ?P (start div ?P)
      (start mod ?P) 0 len buf [] 0 (wc_pages st) = Some (SUCCESS, acc', buf', cnt', s') \<and>
    maximal_runs (\<lambda>i. ?F (start + i) \<noteq> None) 0 (0 + len) acc' \<and> pc_inv cl items s' \<and>
    PageBodySize (pc_cfg s') = ?P \<and> contents items s' = contents items (wc_pages st) \<and> length buf' = length buf \<and>
    (\<forall>i < length buf. buf' ! i = (if 0 \<le> i \<and> i < 0 + len
         then (case ?F (start + i) of Some b \<Rightarrow> b | None \<Rightarrow> buf ! i) else buf ! i))"
    by (rule pcs.get_loop_spec [where Q = "maximal_runs (\<lambda>i. ?F (start + i) \<noteq> None) 0" and F = ?F,
          OF pcs.join_rec pin F m, unfolded ps])
       (use len q0 in auto)
  then obtain bs buf' cnt' s' where gl: "get_loop (Page_Read cl) (WC_GetPageKey digest key) join_segment ?P
      (start div ?P) (start mod ?P) 0 len buf [] 0 (wc_pages st) = Some (SUCCESS, bs, buf', cnt', s')"
    and bs: "maximal_runs (\<lambda>i. ?F (start + i) \<noteq> None) 0 len bs"
    and s': "pc_inv cl items s'" "contents items s' = contents items (wc_pages st)"
    and buf': "length buf' = length buf" "\<forall>i < length buf. buf' ! i = (if i < len
         then (case ?F (start + i) of Some b \<Rightarrow> b | None \<Rightarrow> buf ! i) else buf ! i)" by auto
  have "pc_cfg s' = pc_cfg (wc_pages st)"
    by (rule get_loop_frame [where f = pc_cfg, OF Page_Read_cfg gl])
  moreover have "pagesList s' = pagesList (wc_pages st)"
    by (rule get_loop_frame [where f = pagesList, OF Page_Read_list gl])
  ultimately show ?thesis
    using gl bs s' buf' inv by (auto simp: WC_Get_def wc_inv_def wc_file_def boundary_of_def filled_def)
qed

lemma WC_Put_total:
  assumes inv: "wc_inv cl items st" and room: "cachelib_roomy cl items" and thr: "\<not> EnableThrottle (wc_cfg st)"
  shows "\<exists>st'. WC_Put cl digest tb now key start buf st = Some (SUCCESS, st')"
proof -
  let ?P = "wc_page_size st"
  have pin: "pc_inv cl items (wc_pages st)" and ps: "PageBodySize (pc_cfg (wc_pages st)) = ?P" and pos: "0 < ?P"
    using inv wc_inv_psize [OF inv] by (auto simp: wc_inv_def)
  have m: "start mod ?P < PageBodySize (pc_cfg (wc_pages st))" using pos ps by simp
  obtain cnt s' where "put_loop (Page_Write cl) (WC_GetPageKey digest key) ?P (start div ?P) (start mod ?P) buf 0
      (wc_pages st) = Some (SUCCESS, cnt, s')"
    using pcs.put_loop_total [OF pin room m] ps by metis
  then show ?thesis using thr by (auto simp: WC_Put_def Let_def)
qed

definition empty_wc :: "((key \<rightharpoonup> bytes), unit) write_cache" where
  "empty_wc = \<lparr>wc_cfg = \<lparr>WriteCacheCfg_CacheCfg = small_cfg, CacheSafeRatio = 80, EnableThrottle = False\<rparr>,
     wc_pages = empty_pc, wc_keys = [], wc_locks = [],
     wc_throttle = \<lparr>job_tokenlimit = [], job_waiting = [], job_bandwidth = []\<rparr>\<rparr>"

definition demo_digest :: "string \<Rightarrow> bytes" where
  "demo_digest s = replicate 16 (of_nat (length s))"

definition demo_tb :: "unit token_bucket" where
  "demo_tb = \<lparr>tb_new = (\<lambda>_ _. ()), tb_setCapacity = (\<lambda>_ _. ()), tb_available = (\<lambda>_. 0),
     tb_consume_spin = (\<lambda>_ _. Some ((), 0))\<rparr>"

lemma empty_wc_inv: "wc_inv map_cachelib id empty_wc"
  by (simp add: wc_inv_def empty_wc_def empty_pc_inv)

lemma empty_wc_file: "wc_file id digest empty_wc key = Map.empty"
  by (simp add: wc_file_def empty_wc_def file_of_def)

lemma empty_wc_put:
  obtains st' where "WC_Put map_cachelib demo_digest demo_tb 5 ''f'' 6 [1, 2, 3, 4, 5] empty_wc = Some (SUCCESS, st')"
  using WC_Put_total [OF empty_wc_inv map_cachelib_laws(2), of demo_digest demo_tb 5 "''f''" 6 "[1, 2, 3, 4, 5]"]
  by (auto simp: empty_wc_def)

subsection \<open>Properties\<close>

text \<open>
  C11: \<^verbatim>\<open>WriteCache::Put\<close> overlays the byte range on the file it is given, however many pages the
  range touches, records the file among the keys, and changes no other file, as long as page names do
  not collide; only an eviction can drop bytes, never change them.
\<close>

theorem WC_Put_refines:
  assumes "wc_inv cl items st" and "WC_Put cl digest tb now key start buf st = Some (r, st')"
  shows "r = SUCCESS \<and> wc_inv cl items st' \<and>
    agrees (cachelib_roomy cl items) (overlay (wc_file items digest st key) start buf) (wc_file items digest st' key) \<and>
    (\<forall>key'. digest_ok digest key key' \<and> key' \<noteq> key \<longrightarrow>
       agrees (cachelib_roomy cl items) (wc_file items digest st key') (wc_file items digest st' key')) \<and>
    (buf \<noteq> [] \<longrightarrow> map_of (wc_keys st') key \<noteq> None)"
  using WC_Put_law [OF assms] by blast

theorem WC_Put_refines_witness:
  "\<exists>st'. WC_Put map_cachelib demo_digest demo_tb 5 ''f'' 6 [1, 2, 3, 4, 5] empty_wc = Some (SUCCESS, st') \<and>
     wc_file id demo_digest st' ''f'' = overlay Map.empty 6 [1, 2, 3, 4, 5] \<and>
     wc_file id demo_digest st' ''g'' = Map.empty"
proof -
  obtain st' where w: "WC_Put map_cachelib demo_digest demo_tb 5 ''f'' 6 [1, 2, 3, 4, 5] empty_wc = Some (SUCCESS, st')"
    by (rule empty_wc_put)
  have "digest_ok demo_digest ''f'' ''g''" by (simp add: digest_ok_def demo_digest_def)
  with WC_Put_refines [OF empty_wc_inv w] w map_cachelib_laws(2) show ?thesis
    by (auto simp: empty_wc_file dest!: agrees_roomy spec [of _ "''g''"])
qed

text \<open>
  C12: \<^verbatim>\<open>WriteCache::Get\<close> always returns, with success.  The boundary it reports is the list of maximal
  runs of cached bytes of the whole range (runs that meet at a page border are joined into one), the
  buffer is filled exactly there with the bytes of the file and left alone elsewhere, and no file of
  the cache changes.
\<close>

theorem WC_Get_returns_file:
  assumes "wc_inv cl items st" and "len \<le> length buf"
  shows "\<exists>bs buf' st'. WC_Get cl digest key start len buf [] st = Some (SUCCESS, bs, buf', st') \<and>
    boundary_of (wc_file items digest st key) start len bs \<and>
    filled (wc_file items digest st key) start len buf buf' \<and>
    wc_inv cl items st' \<and> (\<forall>key'. wc_file items digest st' key' = wc_file items digest st key')"
  using WC_Get_law [OF assms] by blast

theorem WC_Get_returns_file_witness:
  "\<exists>st' bs buf' st''. WC_Put map_cachelib demo_digest demo_tb 5 ''f'' 6 [1, 2, 3, 4, 5] empty_wc = Some (SUCCESS, st') \<and>
     WC_Get map_cachelib demo_digest ''f'' 0 12 (replicate 12 9) [] st' = Some (SUCCESS, bs, buf', st'') \<and>
     bs = [(6, 5)]"
proof -
  obtain st' where w: "WC_Put map_cachelib demo_digest demo_tb 5 ''f'' 6 [1, 2, 3, 4, 5] empty_wc = Some (SUCCESS, st')"
    by (rule empty_wc_put)
  note L = WC_Put_law [OF empty_wc_inv w]
  then have f: "wc_file id demo_digest st' ''f'' = overlay Map.empty 6 [1, 2, 3, 4, 5]"
    using map_cachelib_laws(2) by (auto simp: empty_wc_file dest: agrees_roomy)
  obtain bs buf' st'' where g: "WC_Get map_cachelib demo_digest ''f'' 0 12 (replicate 12 9) [] st' = Some (SUCCESS, bs, buf', st'')"
    "boundary_of (overlay Map.empty 6 [1, 2, 3, 4, 5]) 0 12 bs"
    using WC_Get_returns_file [of map_cachelib id st' 12 "replicate 12 9" demo_digest "''f''" 0] L f by auto
  have "maximal_runs (\<lambda>i. overlay Map.empty 6 [1, 2, 3, 4, 5] i \<noteq> None) 0 12 [(6, 5)]"
    by (auto simp: maximal_runs_def overlay_def split: if_splits)
  with g(2) have "bs = [(6, 5)]" unfolding boundary_of_def by (auto intro: maximal_runs_unique)
  with w g(1) show ?thesis by blast
qed

text \<open>
  Round trip.  With room in the allocator, reading back the range just written gives one segment
  that covers it and exactly the bytes written, across page borders.
\<close>

theorem WC_Put_Get_roundtrip:
  assumes "wc_inv cl items st" and "cachelib_roomy cl items" and "data \<noteq> []"
    and "WC_Put cl digest tb now key start data st = Some (r, st')" and "length buf = length data"
  shows "\<exists>st''. WC_Get cl digest key start (length data) buf [] st' = Some (SUCCESS, [(0, length data)], data, st'')"
proof -
  note L = WC_Put_law [OF assms(1,4)]
  let ?F = "wc_file items digest st' key"
  have F: "?F (start + i) = Some (data ! i)" if "i < length data" for i
    using that L assms(2) by (auto simp: agrees_def)
  obtain bs buf' st'' where g: "WC_Get cl digest key start (length data) buf [] st' = Some (SUCCESS, bs, buf', st'')"
    and bs: "boundary_of ?F start (length data) bs" and fl: "filled ?F start (length data) buf buf'"
    using WC_Get_law [of cl items st' "length data" buf digest key start] L assms(5) by auto
  have "maximal_runs (\<lambda>i. ?F (start + i) \<noteq> None) 0 (length data) [(0, length data - 0)]"
    by (rule maximal_runs_all) (use assms(3) F in auto)
  with bs have "bs = [(0, length data)]" unfolding boundary_of_def by (auto intro: maximal_runs_unique)
  moreover have "buf' = data"
    using fl F assms(5) by (intro nth_equalityI) (auto simp: filled_def)
  ultimately show ?thesis using g by auto
qed

theorem WC_Put_Get_roundtrip_witness:
  "\<exists>st' st''. WC_Put map_cachelib demo_digest demo_tb 5 ''f'' 6 [1, 2, 3, 4, 5] empty_wc = Some (SUCCESS, st') \<and>
     WC_Get map_cachelib demo_digest ''f'' 6 5 (replicate 5 0) [] st' = Some (SUCCESS, [(0, 5)], [1, 2, 3, 4, 5], st'')"
proof -
  obtain st' where w: "WC_Put map_cachelib demo_digest demo_tb 5 ''f'' 6 [1, 2, 3, 4, 5] empty_wc = Some (SUCCESS, st')"
    by (rule empty_wc_put)
  from WC_Put_Get_roundtrip [OF empty_wc_inv map_cachelib_laws(2) _ w, of "replicate 5 0"] w show ?thesis
    by (simp add: eval_nat_numeral)
qed

subsection \<open>Deleting a file\<close>

text \<open>
  The page list of a cache holds names made by \<^verbatim>\<open>GetPageKey\<close>, of files whose names (at most 200
  characters long) have no separator.
\<close>

definition page_names :: "(string \<Rightarrow> bytes) \<Rightarrow> string \<Rightarrow> key list \<Rightarrow> bool" where
  "page_names digest suffix ks =
     (\<forall>k \<in> set ks. \<exists>key i. k = GetPageKey digest suffix key i \<and> PAGE_SEPARATOR \<notin> set (page_stem digest key))"

lemma append_less_iff: "(xs @ ys < xs @ zs) \<longleftrightarrow> ys < (zs :: 'a :: order list)"
  by (induction xs) (auto simp: list_less_def lexord_append_leftI lexord_append_left_rightI)

lemma sep_before_underscore: "PAGE_SEPARATOR < CHR ''_''"
  by (simp add: PAGE_SEPARATOR_def less_char_def)

lemma stem_token_before:
  assumes "length key \<le> 200" and "sfx = CHR ''_'' # sfx'"
  shows "key @ PAGE_SEPARATOR # x < GetPageKey digest sfx key i"
proof -
  have "PAGE_SEPARATOR # x < CHR ''_'' # (sfx' @ [PAGE_SEPARATOR] @ to_string i)"
    using sep_before_underscore by simp
  then show ?thesis using assms by (simp add: GetPageKey_def page_stem_def append_less_iff)
qed

lemma first_token_differs:
  assumes nm: "page_names digest sfx ks" and srt: "sorted ks" and l: "length key \<le> 200"
    and sfx: "sfx = CHR ''_'' # sfx'" "PAGE_SEPARATOR \<notin> set sfx"
    and k: "k \<in> set (lower_bound (GetPageKey digest sfx key i) ks)"
  shows "\<exists>t u. split k PAGE_SEPARATOR = [t, u] \<and> key \<noteq> t"
proof -
  have "k \<in> set ks" and ge: "GetPageKey digest sfx key i \<le> k" using k set_lower_bound [OF srt] by auto
  then obtain key' j where k': "k = GetPageKey digest sfx key' j" and ns: "PAGE_SEPARATOR \<notin> set (page_stem digest key')"
    using nm unfolding page_names_def by blast
  have sp: "split k PAGE_SEPARATOR = [page_stem digest key' @ sfx, to_string j]"
    unfolding k' using ns sfx by (intro split_GetPageKey) auto
  have "key \<noteq> page_stem digest key' @ sfx"
  proof
    assume eq: "key = page_stem digest key' @ sfx"
    have "k = key @ PAGE_SEPARATOR # to_string j" by (simp add: k' GetPageKey_def eq)
    with stem_token_before [OF l sfx(1), of "to_string j" digest i] have "k < GetPageKey digest sfx key i" by simp
    with ge show False by simp
  qed
  with sp show ?thesis by blast
qed

lemma delete_loop_stops:
  assumes "page_names digest sfx (pagesList pc)" and "sorted (pagesList pc)" and "length key \<le> 200"
    and "sfx = CHR ''_'' # sfx'" "PAGE_SEPARATOR \<notin> set sfx"
  shows "delete_loop cl key (lower_bound (GetPageKey digest sfx key i) (pagesList pc)) n pc = Some (SUCCESS, n, pc)"
proof (cases "lower_bound (GetPageKey digest sfx key i) (pagesList pc)")
  case (Cons k ks)
  then obtain t u where "split k PAGE_SEPARATOR = [t, u]" "key \<noteq> t"
    using first_token_differs [OF assms, of k i] by auto
  then show ?thesis by (simp add: Cons)
qed simp

text \<open>For a key of any length the loop ends: every page name has a first token, and removing a page always returns.\<close>

lemma page_names_split:
  assumes "page_names digest sfx ks" and "sfx \<noteq> []" and "PAGE_SEPARATOR \<notin> set sfx" and "k \<in> set ks"
  shows "split k PAGE_SEPARATOR \<noteq> []"
proof -
  obtain key' j where k: "k = GetPageKey digest sfx key' j" "PAGE_SEPARATOR \<notin> set (page_stem digest key')"
    using assms(1,4) unfolding page_names_def by blast
  then have "split k PAGE_SEPARATOR = [page_stem digest key' @ sfx, to_string j]"
    using assms(2,3) by (simp add: split_GetPageKey)
  then show ?thesis by simp
qed

lemma delete_loop_total:
  "pc_inv cl items pc \<Longrightarrow> \<forall>k \<in> set ks. split k PAGE_SEPARATOR \<noteq> [] \<Longrightarrow> \<exists>x. delete_loop cl key ks n pc = Some x"
proof (induction ks arbitrary: n pc)
  case (Cons k ks)
  obtain t ts where s: "split k PAGE_SEPARATOR = t # ts" using Cons.prems(2) by (metis list.exhaust list.set_intros(1))
  obtain r pc' where d: "Page_Delete cl k pc = Some (r, pc')" "r = PAGE_NOT_FOUND \<or> r = SUCCESS" "pc_inv cl items pc'"
    using Page_Delete_law [OF Cons.prems(1), of k] by (auto split: if_splits)
  have "\<exists>x. delete_loop cl key ks n pc' = Some x" for n using Cons.IH [OF d(3)] Cons.prems(2) by simp
  then show ?case using d(2) by (auto simp: s d(1))
qed simp

lemma WC_Delete_total:
  assumes "wc_inv cl items st" and "page_names digest ''_W'' (pagesList (wc_pages st))" and "key \<notin> set (wc_locks st)"
  shows "\<exists>x. WC_Delete cl digest key False st = Some x"
proof -
  have pc: "pc_inv cl items (wc_pages st)" using assms(1) by (simp add: wc_inv_def)
  then have srt: "sorted (pagesList (wc_pages st))" by (simp add: pc_inv_def)
  have "PAGE_SEPARATOR \<notin> set ''_W''" by (simp add: PAGE_SEPARATOR_def)
  then have "\<forall>k \<in> set (lower_bound (WC_GetPageKey digest key 0) (pagesList (wc_pages st))). split k PAGE_SEPARATOR \<noteq> []"
    using page_names_split [OF assms(2)] by (auto simp: set_lower_bound [OF srt])
  from delete_loop_total [OF pc this, of key 0] show ?thesis
    using assms(3) by (auto simp: WC_Delete_def WC_Lock_def Let_def)
qed

lemma WC_Delete_law:
  assumes "wc_inv cl items st" and "page_names digest ''_W'' (pagesList (wc_pages st))"
    and "length key \<le> 200" and "key \<notin> set (wc_locks st)"
  shows "\<exists>st'. WC_Delete cl digest key False st = Some (SUCCESS, st') \<and>
    map_of (wc_keys st') key = None \<and> wc_pages st' = wc_pages st \<and>
    (\<forall>key'. wc_file items digest st' key' = wc_file items digest st key')"
proof -
  have srt: "sorted (pagesList (wc_pages st))" using assms(1) by (simp add: wc_inv_def pc_inv_def)
  have ns: "PAGE_SEPARATOR \<notin> set ''_W''" by (simp add: PAGE_SEPARATOR_def)
  note stop = delete_loop_stops [OF assms(2) srt assms(3) refl ns, of cl 0 0]
  show ?thesis
    using assms(4) stop by (auto simp: WC_Delete_def WC_Lock_def WC_UnLock_def Let_def wc_file_def delete_conv')
qed

text \<open>
  \<^verbatim>\<open>WriteCache::Delete\<close> deletes no page.  It compares the key with the first token of a page
  name, but that token is the key with the suffix \<^verbatim>\<open>_W\<close>: for every key of at most 200 characters the
  loop stops at its first turn.  The call reports success and forgets the creation time, and the bytes
  of every file, the deleted one included, stay readable.
\<close>

theorem WC_Delete_keeps_pages:
  assumes "wc_inv cl items st" and "page_names digest ''_W'' (pagesList (wc_pages st))"
    and "length key \<le> 200" and "key \<notin> set (wc_locks st)"
  shows "\<exists>st'. WC_Delete cl digest key False st = Some (SUCCESS, st') \<and>
    map_of (wc_keys st') key = None \<and> wc_pages st' = wc_pages st \<and>
    (\<forall>key'. wc_file items digest st' key' = wc_file items digest st key')"
  by (rule WC_Delete_law [OF assms])

lemma wc_put_names:
  "wc_inv cl items st \<Longrightarrow> page_names digest ''_W'' (pagesList (wc_pages st)) \<Longrightarrow>
   PAGE_SEPARATOR \<notin> set (page_stem digest key) \<Longrightarrow>
   WC_Put cl digest tb now key start buf st = Some (r, st') \<Longrightarrow>
   page_names digest ''_W'' (pagesList (wc_pages st')) \<and> wc_locks st' = wc_locks st"
proof -
  assume inv: "wc_inv cl items st" and nm: "page_names digest ''_W'' (pagesList (wc_pages st))"
    and ns: "PAGE_SEPARATOR \<notin> set (page_stem digest key)"
    and run: "WC_Put cl digest tb now key start buf st = Some (r, st')"
  have "pc_inv cl items pc \<Longrightarrow> put_loop (Page_Write cl) (WC_GetPageKey digest key) P index pos buf cnt pc = Some (r, cnt', pc') \<Longrightarrow>
      set (pagesList pc') \<subseteq> set (pagesList pc) \<union> range (WC_GetPageKey digest key)" for pc P index pos cnt cnt' pc'
  proof (induction "length buf" arbitrary: index pos buf cnt pc rule: less_induct)
    case less
    show ?case
    proof (cases "buf = []")
      case True
      with less.prems show ?thesis by (simp add: put_loop.simps)
    next
      case False
      from put_loop_step [OF False less.prems(2)] obtain n r1 st1 where n: "0 < n"
        and w: "Page_Write cl (WC_GetPageKey digest key index) pos (take n buf) pc = Some (r1, st1)"
        and rest: "r1 = SUCCESS \<Longrightarrow> put_loop (Page_Write cl) (WC_GetPageKey digest key) P (index + 1) ((pos + n) mod P)
          (drop n buf) (cnt + 1) st1 = Some (r, cnt', pc')" by blast
      note wl = Page_Write_law [OF less.prems(1) w]
      have "set (pagesList pc') \<subseteq> set (pagesList st1) \<union> range (WC_GetPageKey digest key)"
        using less.hyps [OF _ _ rest] wl n False by simp
      then show ?thesis using wl by auto
    qed
  qed
  then have sub: "set (pagesList (wc_pages st')) \<subseteq> set (pagesList (wc_pages st)) \<union> range (WC_GetPageKey digest key)"
    using run inv by (elim WC_Put_cases) (auto simp: wc_inv_def)
  moreover have "wc_locks st' = wc_locks st" using run by (rule WC_Put_cases)
  ultimately show ?thesis using nm ns unfolding page_names_def by blast
qed

theorem WC_Delete_keeps_pages_witness:
  "\<exists>st' st''. WC_Put map_cachelib demo_digest demo_tb 5 ''f'' 6 [1, 2, 3, 4, 5] empty_wc = Some (SUCCESS, st') \<and>
     WC_Delete map_cachelib demo_digest ''f'' False st' = Some (SUCCESS, st'') \<and>
     wc_file id demo_digest st'' ''f'' 7 = Some 2"
proof -
  obtain st' where w: "WC_Put map_cachelib demo_digest demo_tb 5 ''f'' 6 [1, 2, 3, 4, 5] empty_wc = Some (SUCCESS, st')"
    by (rule empty_wc_put)
  note L = WC_Put_law [OF empty_wc_inv w]
  have f: "wc_file id demo_digest st' ''f'' = overlay Map.empty 6 [1, 2, 3, 4, 5]"
    using L map_cachelib_laws(2) by (auto simp: empty_wc_file dest: agrees_roomy)
  have nm: "page_names demo_digest ''_W'' (pagesList (wc_pages st'))" "wc_locks st' = []"
    using wc_put_names [OF empty_wc_inv _ _ w]
    by (auto simp: page_names_def empty_wc_def empty_pc_def page_stem_def PAGE_SEPARATOR_def)
  have inv': "wc_inv map_cachelib id st'" using L by blast
  from WC_Delete_keeps_pages [OF inv' nm(1), of "''f''"] nm(2) w f show ?thesis by (auto simp: overlay_def)
qed

end
