(* ===== verification/Read_Cache.thy ===== *)
theory Read_Cache
  imports Write_Cache
begin

section \<open>The read cache (\<^verbatim>\<open>local_cache/read_cache.cpp\<close>)\<close>

text \<open>
  \<^verbatim>\<open>ReadCache\<close> over the page cache and a data adaptor.  The adaptor's \<^verbatim>\<open>DownLoad\<close> is a parameter
  (the class is abstract): it gets the key, the offset, the size and what the destination holds, and
  returns a status and what the destination holds afterwards.  The futures of a request are run one
  after the other, in the order they are created; the flow limiter only delays them.
\<close>

record 'c read_cache =
  rc_cfg :: ReadCacheConfig
  rc_pages :: "'c page_cache"

type_synonym download = "key \<Rightarrow> nat \<Rightarrow> nat \<Rightarrow> bytes \<Rightarrow> int \<times> bytes"

abbreviation rc_page_size :: "'c read_cache \<Rightarrow> nat" where
  "rc_page_size st \<equiv> PageBodySize (ReadCacheCfg_CacheCfg (rc_cfg st))"

abbreviation RC_GetPageKey :: "(string \<Rightarrow> bytes) \<Rightarrow> key \<Rightarrow> nat \<Rightarrow> key" where
  "RC_GetPageKey digest \<equiv> GetPageKey digest ''_R''"

definition RC_Put ::
    "'c cachelib \<Rightarrow> (string \<Rightarrow> bytes) \<Rightarrow> key \<Rightarrow> nat \<Rightarrow> bytes \<Rightarrow> 'c read_cache \<Rightarrow> (int \<times> 'c read_cache) option" where
  "RC_Put cl digest key start buf st = do {
     let pageSize = rc_page_size st;
     (res, writePageCnt, pages) \<leftarrow>
       put_loop (Page_Write cl) (RC_GetPageKey digest key) pageSize (start div pageSize) (start mod pageSize) buf 0 (rc_pages st);
     Some (res, st\<lparr>rc_pages := pages\<rparr>)
   }"

text \<open>
  The loop that turns the gaps between cached segments into requests: where in the buffer, where in
  the file, and how many bytes.  It stops as soon as nothing is left to fetch.
\<close>

fun miss_loop :: "nat \<Rightarrow> nat \<Rightarrow> nat \<Rightarrow> boundary \<Rightarrow> (nat \<times> nat \<times> nat) list" where
  "miss_loop start stepStart remainLen [] =
     (if remainLen > 0 then [(stepStart, start + stepStart, remainLen)] else [])"
| "miss_loop start stepStart remainLen ((a, l) # it) =
     (if remainLen > 0
      then let readLen = a - stepStart
           in if readLen = 0 then miss_loop start (a + l) remainLen it
              else (stepStart, start + stepStart, readLen) # miss_loop start (a + l) (remainLen - readLen) it
      else [])"

text \<open>One request: download into the buffer, then put what the buffer holds into the cache.\<close>

fun run_requests ::
    "'c cachelib \<Rightarrow> (string \<Rightarrow> bytes) \<Rightarrow> bool \<Rightarrow> download \<Rightarrow> key \<Rightarrow> (nat \<times> nat \<times> nat) list \<Rightarrow> bytes \<Rightarrow>
     'c read_cache \<Rightarrow> (int list \<times> bytes \<times> 'c read_cache) option" where
  "run_requests cl digest EnableLogging DownLoad key [] buf st = Some ([], buf, st)"
| "run_requests cl digest EnableLogging DownLoad key ((stepStart, fileStartOff, readLen) # reqs) buf st =
     (let (downRes, d) = DownLoad key fileStartOff readLen (slice stepStart readLen buf);
          buf = blit buf stepStart d
      in case (if EnableLogging \<and> downRes \<noteq> SUCCESS then Some (downRes, st)
               else RC_Put cl digest key fileStartOff (slice stepStart readLen buf) st) of
           None \<Rightarrow> None
         | Some (res, st) \<Rightarrow>
             (case run_requests cl digest EnableLogging DownLoad key reqs buf st of
                None \<Rightarrow> None
              | Some (rs, buf, st) \<Rightarrow> Some (res # rs, buf, st)))"

definition final_res :: "int list \<Rightarrow> int" where
  "final_res rs = fold (\<lambda>t finalRes. if t \<noteq> SUCCESS then t else finalRes) rs SUCCESS"

definition RC_Get ::
    "'c cachelib \<Rightarrow> (string \<Rightarrow> bytes) \<Rightarrow> bool \<Rightarrow> download option \<Rightarrow> key \<Rightarrow> nat \<Rightarrow> nat \<Rightarrow> bytes \<Rightarrow>
     'c read_cache \<Rightarrow> (int \<times> bytes \<times> 'c read_cache) option" where
  "RC_Get cl digest EnableLogging dataAdaptor key start len buf st = do {
     let pageSize = rc_page_size st;
     (res, (dataBoundary, realReadLen), buf, readPageCnt, pages) \<leftarrow>
       get_loop (Page_Read cl) (RC_GetPageKey digest key) push_segment pageSize
         (start div pageSize) (start mod pageSize) 0 len buf ([], 0) 0 (rc_pages st);
     let st = st\<lparr>rc_pages := pages\<rparr>;
     let remainLen = len - realReadLen;
     let res = (if remainLen > 0 \<and> dataAdaptor = None then ADAPTOR_NOT_FOUND else res);
     let reqs = (if res = SUCCESS then miss_loop start 0 remainLen dataBoundary else []);
     (case (reqs, dataAdaptor) of
        (_ # _, Some DownLoad) \<Rightarrow> do {
          (tups, buf, st) \<leftarrow> run_requests cl digest EnableLogging DownLoad key reqs buf st;
          Some (final_res tups, buf, st)
        }
      | _ \<Rightarrow> Some (res, buf, st))
   }"

definition RC_Delete ::
    "'c cachelib \<Rightarrow> (string \<Rightarrow> bytes) \<Rightarrow> key \<Rightarrow> 'c read_cache \<Rightarrow> (int \<times> 'c read_cache) option" where
  "RC_Delete cl digest key st = do {
     let firstPage = RC_GetPageKey digest key 0;
     (res, delPageNum, pages) \<leftarrow> delete_loop cl key (lower_bound firstPage (pagesList (rc_pages st))) 0 (rc_pages st);
     Some (res, st\<lparr>rc_pages := pages\<rparr>)
   }"

text \<open>The keys as a list without order; a page name of separators only has no token (\<open>None\<close>).\<close>

fun all_keys_loop :: "key list \<Rightarrow> key list \<Rightarrow> key list option" where
  "all_keys_loop [] keys = Some keys"
| "all_keys_loop (pageKey # rest) keys =
     (case split pageKey PAGE_SEPARATOR of
        [] \<Rightarrow> None
      | t # ts \<Rightarrow> all_keys_loop rest (List.insert t keys))"

definition RC_GetAllKeys :: "key list \<Rightarrow> 'c read_cache \<Rightarrow> (int \<times> key list) option" where
  "RC_GetAllKeys keys st = map_option (\<lambda>ks. (SUCCESS, ks)) (all_keys_loop (pagesList (rc_pages st)) keys)"

subsection \<open>The gaps\<close>

lemma ordered_segs_full: "ordered_segs lo hi bs \<Longrightarrow> segs_total bs = hi - lo \<Longrightarrow> segs_set bs = {lo..<hi}"
  by (rule card_subset_eq) (use segs_total_card segs_set_bounds in \<open>auto dest: ordered_segs_le\<close>)

lemma segs_total_le: "ordered_segs lo hi bs \<Longrightarrow> segs_total bs \<le> hi - lo"
  by (induction lo hi bs rule: ordered_segs.induct) (auto dest: ordered_segs_le)

definition req_segs :: "(nat \<times> nat \<times> nat) list \<Rightarrow> boundary" where
  "req_segs reqs = map (\<lambda>(o', f, n). (o', n)) reqs"

lemma miss_loop_spec:
  "ordered_segs s len bs \<Longrightarrow> remain = len - s - segs_total bs \<Longrightarrow>
     ordered_segs s len (req_segs (miss_loop start s remain bs)) \<and>
     segs_set (req_segs (miss_loop start s remain bs)) = {s..<len} - segs_set bs \<and>
     (\<forall>(o', f, n) \<in> set (miss_loop start s remain bs). f = start + o' \<and> 0 < n)"
proof (induction start s remain bs rule: miss_loop.induct)
  case (1 start s remain)
  then show ?case by (auto simp: req_segs_def)
next
  case (2 start s remain a l it)
  have sa: "s \<le> a" "0 < l" and tl: "ordered_segs (a + l) len it" using 2(3) by auto
  have alen: "a + l \<le> len" using ordered_segs_le [OF tl] .
  have tot: "segs_total it \<le> len - (a + l)" using segs_total_le [OF tl] .
  have split: "{s..<len} - segs_set ((a, l) # it) = {s..<a} \<union> ({a + l..<len} - segs_set it)"
    using sa alen segs_set_bounds [OF tl] by auto
  have rem: "remain = (a - s) + (len - (a + l) - segs_total it)" using 2(4) sa alen tot by simp
  show ?case
  proof (cases "remain > 0")
    case False
    then have "a = s" "segs_total it = len - (a + l)" using rem sa tot by auto
    then have "{s..<len} - segs_set ((a, l) # it) = {}" unfolding split using ordered_segs_full [OF tl] by simp
    then show ?thesis using False sa alen by (simp add: req_segs_def)
  next
    case True
    show ?thesis
    proof (cases "a - s = 0")
      case z: True
      then have "a = s" using sa by simp
      with 2(1) [OF True refl z tl] rem True z split sa show ?thesis
        by (auto intro: ordered_segs_weaken)
    next
      case False
      have r2: "remain - (a - s) = len - (a + l) - segs_total it" using rem by simp
      have eq: "miss_loop start s remain ((a, l) # it) =
          (s, start + s, a - s) # miss_loop start (a + l) (remain - (a - s)) it"
        using True False by simp
      from 2(2) [OF True refl False tl r2]
      have "ordered_segs a len (req_segs (miss_loop start (a + l) (remain - (a - s)) it))"
        by (auto intro: ordered_segs_weaken)
      with 2(2) [OF True refl False tl r2] show ?thesis
        unfolding eq split using False sa by (auto simp: req_segs_def)
    qed
  qed
qed

subsection \<open>Files in the read cache\<close>

definition rc_inv :: "'c cachelib \<Rightarrow> ('c \<Rightarrow> key \<rightharpoonup> bytes) \<Rightarrow> 'c read_cache \<Rightarrow> bool" where
  "rc_inv cl items st =
     (pc_inv cl items (rc_pages st) \<and> pc_cfg (rc_pages st) = ReadCacheCfg_CacheCfg (rc_cfg st))"

definition rc_file ::
    "('c \<Rightarrow> key \<rightharpoonup> bytes) \<Rightarrow> (string \<Rightarrow> bytes) \<Rightarrow> 'c read_cache \<Rightarrow> key \<Rightarrow> nat \<rightharpoonup> byte" where
  "rc_file items digest st key =
     file_of (contents items (rc_pages st)) (RC_GetPageKey digest key) (rc_page_size st)"

lemma rc_inv_psize: "rc_inv cl items st \<Longrightarrow> PageBodySize (pc_cfg (rc_pages st)) = rc_page_size st \<and> 0 < rc_page_size st"
  by (auto simp: rc_inv_def pc_inv_def page_cfg_ok_def)

lemma RC_Put_law:
  assumes inv: "rc_inv cl items st" and run: "RC_Put cl digest key start buf st = Some (r, st')"
  shows "r = SUCCESS \<and> rc_inv cl items st' \<and>
    agrees (cachelib_roomy cl items) (overlay (rc_file items digest st key) start buf) (rc_file items digest st' key) \<and>
    (\<forall>key'. digest_ok digest key key' \<and> key' \<noteq> key \<longrightarrow>
       agrees (cachelib_roomy cl items) (rc_file items digest st key') (rc_file items digest st' key'))"
proof -
  let ?P = "rc_page_size st"
  have pin: "pc_inv cl items (rc_pages st)" and ps: "PageBodySize (pc_cfg (rc_pages st)) = ?P" and pos: "0 < ?P"
    using inv rc_inv_psize [OF inv] by (auto simp: rc_inv_def)
  from run obtain cnt pages where pl: "put_loop (Page_Write cl) (RC_GetPageKey digest key) ?P (start div ?P)
       (start mod ?P) buf 0 (rc_pages st) = Some (r, cnt, pages)" and st': "st' = st\<lparr>rc_pages := pages\<rparr>"
    by (auto simp: RC_Put_def Let_def split: Option.bind_splits)
  have "start mod ?P < PageBodySize (pc_cfg (rc_pages st))" using pos ps by simp
  from pcs.put_loop_spec [OF GetPageKey_inj pin this, unfolded ps, OF pl]
  have L: "r = SUCCESS" "pc_inv cl items pages"
    "agrees (cachelib_roomy cl items)
       (overlay (file_of (contents items (rc_pages st)) (RC_GetPageKey digest key) ?P) start buf)
       (file_of (contents items pages) (RC_GetPageKey digest key) ?P)"
    "\<And>k. k \<notin> range (RC_GetPageKey digest key) \<Longrightarrow>
       contents items pages k = contents items (rc_pages st) k \<or>
       (\<not> cachelib_roomy cl items \<and> contents items pages k = Map.empty)" by auto
  have cfg: "pc_cfg pages = pc_cfg (rc_pages st)"
    by (rule put_loop_cfg [OF pin pl])
  have "agrees (cachelib_roomy cl items) (rc_file items digest st key') (rc_file items digest st' key')"
    if "digest_ok digest key key'" "key' \<noteq> key" for key'
    unfolding rc_file_def st' by simp (rule file_of_agrees, rule L(4) [OF GetPageKey_range [OF that]])
  then show ?thesis using L st' cfg inv by (auto simp: rc_inv_def rc_file_def)
qed

lemma RC_Put_total:
  assumes inv: "rc_inv cl items st" and room: "cachelib_roomy cl items"
  shows "\<exists>st'. RC_Put cl digest key start buf st = Some (SUCCESS, st')"
proof -
  let ?P = "rc_page_size st"
  have pin: "pc_inv cl items (rc_pages st)" and ps: "PageBodySize (pc_cfg (rc_pages st)) = ?P" and pos: "0 < ?P"
    using inv rc_inv_psize [OF inv] by (auto simp: rc_inv_def)
  have m: "start mod ?P < PageBodySize (pc_cfg (rc_pages st))" using pos ps by simp
  obtain cnt s' where "put_loop (Page_Write cl) (RC_GetPageKey digest key) ?P (start div ?P) (start mod ?P) buf 0
      (rc_pages st) = Some (SUCCESS, cnt, s')"
    using pcs.put_loop_total [OF pin room m] ps by metis
  then show ?thesis by (auto simp: RC_Put_def Let_def)
qed

text \<open>What the recording of \<^verbatim>\<open>ReadCache::Get\<close> keeps: an ordered boundary of the valid bytes, counted.\<close>

definition counted :: "(nat \<rightharpoonup> byte) \<Rightarrow> nat \<Rightarrow> nat \<Rightarrow> boundary \<times> nat \<Rightarrow> bool" where
  "counted F start off acc =
     (ordered_segs 0 off (fst acc) \<and> segs_set (fst acc) = {i. i < off \<and> F (start + i) \<noteq> None} \<and>
      snd acc = segs_total (fst acc))"

lemma fold_push: "fold (push_segment off) bs acc =
    (fst acc @ map (\<lambda>(a, l). (a + off, l)) bs, snd acc + segs_total bs)"
  by (induction bs arbitrary: acc) (auto simp: push_segment_def)

lemma push_counted:
  assumes c: "counted F start off acc" and b: "boundary_of F (start + off) n bs"
  shows "counted F start (off + n) (fold (push_segment off) bs acc)"
proof -
  have sep: "separated 0 n bs" and set: "segs_set bs = {i. i < n \<and> F (start + off + i) \<noteq> None}"
    using b by (auto simp: boundary_of_def maximal_runs_def)
  have "ordered_segs (0 + off) (n + off) (map (\<lambda>(a, l). (a + off, l)) bs)"
    by (rule ordered_segs_shift) (use separated_ordered [OF sep] in simp)
  then have ord: "ordered_segs 0 (off + n) (fst acc @ map (\<lambda>(a, l). (a + off, l)) bs)"
    using c by (intro ordered_segs_append [of 0 off]) (auto simp: counted_def add.commute)
  have "(\<lambda>i. i + off) ` segs_set bs = {i. off \<le> i \<and> i < off + n \<and> F (start + i) \<noteq> None}"
    unfolding set by (auto simp: image_iff ac_simps) (metis add.assoc add.commute add_less_cancel_left le_Suc_ex)
  then have "segs_set (fst acc @ map (\<lambda>(a, l). (a + off, l)) bs) = {i. i < off + n \<and> F (start + i) \<noteq> None}"
    using c by (auto simp: counted_def segs_set_shift)
  with ord c show ?thesis by (simp add: fold_push counted_def)
qed

lemma RC_lookup:
  assumes inv: "rc_inv cl items st" and len: "len \<le> length buf"
  shows "\<exists>acc' buf' cnt' pages. get_loop (Page_Read cl) (RC_GetPageKey digest key) push_segment (rc_page_size st)
      (start div rc_page_size st) (start mod rc_page_size st) 0 len buf ([], 0) 0 (rc_pages st) =
        Some (SUCCESS, acc', buf', cnt', pages) \<and>
    counted (rc_file items digest st key) start len acc' \<and>
    filled (rc_file items digest st key) start len buf buf' \<and>
    rc_inv cl items (st\<lparr>rc_pages := pages\<rparr>) \<and> contents items pages = contents items (rc_pages st)"
proof -
  let ?P = "rc_page_size st"
  let ?F = "rc_file items digest st key"
  have pin: "pc_inv cl items (rc_pages st)" and ps: "PageBodySize (pc_cfg (rc_pages st)) = ?P" and pos: "0 < ?P"
    using inv rc_inv_psize [OF inv] by (auto simp: rc_inv_def)
  have F: "?F = file_of (contents items (rc_pages st)) (RC_GetPageKey digest key) (PageBodySize (pc_cfg (rc_pages st)))"
    by (simp add: rc_file_def ps)
  have m: "start mod ?P < PageBodySize (pc_cfg (rc_pages st))" using pos ps by simp
  have q0: "counted ?F start 0 ([], 0)" by (simp add: counted_def)
  have "\<exists>acc' buf' cnt' s'. get_loop (Page_Read cl) (RC_GetPageKey digest key) push_segment ?P (start div ?P)
      (start mod ?P) 0 len buf ([], 0) 0 (rc_pages st) = Some (SUCCESS, acc', buf', cnt', s') \<and>
    counted ?F start (0 + len) acc' \<and> pc_inv cl items s' \<and>
    PageBodySize (pc_cfg s') = ?P \<and> contents items s' = contents items (rc_pages st) \<and> length buf' = length buf \<and>
    (\<forall>i < length buf. buf' ! i = (if 0 \<le> i \<and> i < 0 + len
         then (case ?F (start + i) of Some b \<Rightarrow> b | None \<Rightarrow> buf ! i) else buf ! i))"
    by (rule pcs.get_loop_spec [where Q = "counted ?F start" and F = ?F,
          OF push_counted pin F m, unfolded ps])
       (use len q0 in auto)
  then obtain acc' buf' cnt' s' where gl: "get_loop (Page_Read cl) (RC_GetPageKey digest key) push_segment ?P
      (start div ?P) (start mod ?P) 0 len buf ([], 0) 0 (rc_pages st) = Some (SUCCESS, acc', buf', cnt', s')"
    and bs: "counted ?F start len acc'"
    and s': "pc_inv cl items s'" "contents items s' = contents items (rc_pages st)"
    and buf': "length buf' = length buf" "\<forall>i < length buf. buf' ! i = (if i < len
         then (case ?F (start + i) of Some b \<Rightarrow> b | None \<Rightarrow> buf ! i) else buf ! i)" by auto
  have "pc_cfg s' = pc_cfg (rc_pages st)"
    by (rule get_loop_frame [where f = pc_cfg, OF Page_Read_cfg gl])
  then show ?thesis using gl bs s' buf' inv by (auto simp: rc_inv_def filled_def)
qed

subsection \<open>Serving a request\<close>

text \<open>The adaptor succeeds and delivers the bytes of the remote file in the range asked for.\<close>

definition adaptor_serves :: "download \<Rightarrow> key \<Rightarrow> (nat \<Rightarrow> byte) \<Rightarrow> nat \<Rightarrow> nat \<Rightarrow> bool" where
  "adaptor_serves DownLoad key remote start len =
     (\<forall>off n buf. start \<le> off \<and> off + n \<le> start + len \<and> length buf = n \<longrightarrow>
        DownLoad key off n buf = (SUCCESS, map (\<lambda>i. remote (off + i)) [0..<n]))"

text \<open>The file after the bytes at \<open>start + S\<close> have been fetched.\<close>

definition fetched :: "(nat \<rightharpoonup> byte) \<Rightarrow> nat \<Rightarrow> nat set \<Rightarrow> (nat \<Rightarrow> byte) \<Rightarrow> nat \<rightharpoonup> byte" where
  "fetched F start S remote = (\<lambda>i. if start \<le> i \<and> i - start \<in> S then Some (remote i) else F i)"

lemma fetched_empty [simp]: "fetched F start {} remote = F"
  by (auto simp: fetched_def)

lemma fetched_Un: "fetched (fetched F start S remote) start T remote = fetched F start (S \<union> T) remote"
  by (auto simp: fetched_def fun_eq_iff)

lemma fetched_agrees: "agrees r F G \<Longrightarrow> agrees r (fetched F start S remote) (fetched G start S remote)"
  by (auto simp: agrees_def fetched_def)

lemma overlay_fetched:
  "overlay F (start + o') (map (\<lambda>i. remote (start + o' + i)) [0..<n]) = fetched F start {o'..<o' + n} remote"
  by (auto simp: overlay_def fetched_def fun_eq_iff)

lemma run_requests_spec:
  assumes serves: "adaptor_serves DownLoad key remote start len"
  shows "rc_inv cl items st \<Longrightarrow> ordered_segs s len (req_segs reqs) \<Longrightarrow> \<forall>(o', f, n) \<in> set reqs. f = start + o' \<Longrightarrow>
    len \<le> length buf \<Longrightarrow> run_requests cl digest logging DownLoad key reqs buf st = Some (rs, buf', st') \<Longrightarrow>
    (\<forall>r \<in> set rs. r = SUCCESS) \<and> length buf' = length buf \<and>
    (\<forall>i < length buf. buf' ! i = (if i \<in> segs_set (req_segs reqs) then remote (start + i) else buf ! i)) \<and>
    rc_inv cl items st' \<and>
    agrees (cachelib_roomy cl items) (fetched (rc_file items digest st key) start (segs_set (req_segs reqs)) remote)
      (rc_file items digest st' key)"
proof (induction reqs arbitrary: s buf st rs)
  case Nil
  then show ?case by (simp add: req_segs_def)
next
  case (Cons q reqs)
  obtain off f n where q: "q = (off, f, n)" by (cases q)
  have f: "f = start + off" using Cons.prems(3) q by simp
  have seg: "s \<le> off" "0 < n" and tl: "ordered_segs (off + n) len (req_segs reqs)"
    using Cons.prems(2) by (auto simp: q req_segs_def)
  have fit: "off + n \<le> len" using ordered_segs_le [OF tl] .
  let ?d = "map (\<lambda>i. remote (start + off + i)) [0..<n]"
  have dl: "DownLoad key f n (slice off n buf) = (SUCCESS, ?d)"
    using serves [unfolded adaptor_serves_def, rule_format, of "start + off" n "slice off n buf"] fit Cons.prems(4)
    by (simp add: f)
  define buf1 where "buf1 = blit buf off ?d"
  have buf1: "length buf1 = length buf" using fit Cons.prems(4) by (simp add: buf1_def)
  have sl: "slice off n buf1 = ?d"
    using fit Cons.prems(4) buf1 by (intro nth_equalityI) (auto simp: buf1_def nth_blit)
  obtain r st1 rs1 where put: "RC_Put cl digest key f ?d st = Some (r, st1)"
    and rest: "run_requests cl digest logging DownLoad key reqs buf1 st1 = Some (rs1, buf', st')" and rs: "rs = r # rs1"
    using Cons.prems(5) by (auto simp: q dl buf1_def [symmetric] sl split: option.splits)
  note pl = RC_Put_law [OF Cons.prems(1) put]
  have f3: "\<forall>(o', f, n) \<in> set reqs. f = start + o'" using Cons.prems(3) by auto
  note IH = Cons.IH [OF _ tl f3 _ rest]
  have ih: "(\<forall>r \<in> set rs1. r = SUCCESS) \<and> length buf' = length buf1 \<and>
    (\<forall>i < length buf1. buf' ! i = (if i \<in> segs_set (req_segs reqs) then remote (start + i) else buf1 ! i)) \<and>
    rc_inv cl items st' \<and>
    agrees (cachelib_roomy cl items) (fetched (rc_file items digest st1 key) start (segs_set (req_segs reqs)) remote)
      (rc_file items digest st' key)"
    by (rule IH) (use pl Cons.prems(4) buf1 in auto)
  have here: "segs_set (req_segs (q # reqs)) = {off..<off + n} \<union> segs_set (req_segs reqs)"
    by (simp add: q req_segs_def)
  have "agrees (cachelib_roomy cl items) (fetched (rc_file items digest st key) start {off..<off + n} remote)
      (rc_file items digest st1 key)"
    using pl by (simp add: f overlay_fetched)
  from agrees_trans [OF fetched_agrees [OF this, of start "segs_set (req_segs reqs)" remote]] ih
  have "agrees (cachelib_roomy cl items)
      (fetched (rc_file items digest st key) start (segs_set (req_segs (q # reqs))) remote)
      (rc_file items digest st' key)"
    by (simp add: fetched_Un here)
  moreover have "buf' ! i = (if i \<in> segs_set (req_segs (q # reqs)) then remote (start + i) else buf ! i)"
    if "i < length buf" for i
    using ih that buf1 fit Cons.prems(4) unfolding here by (auto simp: buf1_def nth_blit)
  ultimately show ?case using ih pl buf1 rs by auto
qed

lemma run_requests_total:
  assumes room: "cachelib_roomy cl items"
  shows "rc_inv cl items st \<Longrightarrow> \<exists>rs buf' st'. run_requests cl digest logging DownLoad key reqs buf st = Some (rs, buf', st')"
proof (induction reqs arbitrary: buf st)
  case (Cons q reqs)
  obtain off f n where q: "q = (off, f, n)" by (cases q)
  obtain dr d where dl: "DownLoad key f n (slice off n buf) = (dr, d)" by (cases "DownLoad key f n (slice off n buf)")
  obtain st1 where put: "RC_Put cl digest key f (slice off n (blit buf off d)) st = Some (SUCCESS, st1)"
    using RC_Put_total [OF Cons.prems room] by blast
  have inv1: "rc_inv cl items st1" using RC_Put_law [OF Cons.prems put] by blast
  obtain rs b s where "run_requests cl digest logging DownLoad key reqs (blit buf off d) st1 = Some (rs, b, s)"
    using Cons.IH [OF inv1] by blast
  moreover obtain rs' b' s' where "run_requests cl digest logging DownLoad key reqs (blit buf off d) st = Some (rs', b', s')"
    using Cons.IH [OF Cons.prems] by blast
  ultimately show ?case using put by (cases "logging \<and> dr \<noteq> SUCCESS") (auto simp: q dl Let_def)
qed simp

lemma final_res_success: "(\<forall>r \<in> set rs. r = SUCCESS) \<Longrightarrow> final_res rs = SUCCESS"
proof -
  have "(\<forall>r \<in> set rs. r = SUCCESS) \<Longrightarrow> fold (\<lambda>t finalRes. if t \<noteq> SUCCESS then t else finalRes) rs x = x" for x :: int
    by (induction rs arbitrary: x) auto
  then show "(\<forall>r \<in> set rs. r = SUCCESS) \<Longrightarrow> final_res rs = SUCCESS" unfolding final_res_def by blast
qed

lemma RC_Get_law:
  assumes inv: "rc_inv cl items st" and len: "len \<le> length buf"
    and serves: "adaptor_serves DownLoad key remote start len"
    and run: "RC_Get cl digest logging (Some DownLoad) key start len buf st = Some (r, buf', st')"
  shows "r = SUCCESS \<and> length buf' = length buf \<and>
    (\<forall>i < length buf. buf' ! i = (if i < len
       then (case rc_file items digest st key (start + i) of Some b \<Rightarrow> b | None \<Rightarrow> remote (start + i)) else buf ! i)) \<and>
    rc_inv cl items st' \<and>
    agrees (cachelib_roomy cl items)
      (fetched (rc_file items digest st key) start {i. i < len \<and> rc_file items digest st key (start + i) = None} remote)
      (rc_file items digest st' key)"
proof -
  let ?F = "rc_file items digest st key"
  obtain bd n buf1 cnt pages where gl: "get_loop (Page_Read cl) (RC_GetPageKey digest key) push_segment (rc_page_size st)
      (start div rc_page_size st) (start mod rc_page_size st) 0 len buf ([], 0) 0 (rc_pages st) =
        Some (SUCCESS, (bd, n), buf1, cnt, pages)"
    and cnt: "counted ?F start len (bd, n)" and fl: "filled ?F start len buf buf1"
    and inv1: "rc_inv cl items (st\<lparr>rc_pages := pages\<rparr>)" and same: "contents items pages = contents items (rc_pages st)"
    using RC_lookup [OF inv len, of digest key start] by (metis prod.collapse)
  define reqs where "reqs = miss_loop start 0 (len - n) bd"
  have ord: "ordered_segs 0 len bd" and bdset: "segs_set bd = {i. i < len \<and> ?F (start + i) \<noteq> None}"
    and n: "n = segs_total bd" using cnt by (auto simp: counted_def)
  have rem: "len - n = len - 0 - segs_total bd" by (simp add: n)
  note ml = miss_loop_spec [OF ord rem, of start, folded reqs_def]
  have gaps: "segs_set (req_segs reqs) = {i. i < len \<and> ?F (start + i) = None}" using ml bdset by auto
  have file1: "rc_file items digest (st\<lparr>rc_pages := pages\<rparr>) key = ?F" using same by (simp add: rc_file_def)
  show ?thesis
  proof (cases reqs)
    case Nil
    then have none: "{i. i < len \<and> ?F (start + i) = None} = {}" using gaps by (simp add: req_segs_def)
    have "RC_Get cl digest logging (Some DownLoad) key start len buf st = Some (SUCCESS, buf1, st\<lparr>rc_pages := pages\<rparr>)"
      using gl Nil by (simp add: RC_Get_def Let_def reqs_def)
    then have "r = SUCCESS" "buf' = buf1" "st' = st\<lparr>rc_pages := pages\<rparr>" using run by auto
    moreover have "(case ?F (start + i) of Some b \<Rightarrow> b | None \<Rightarrow> buf ! i) =
        (case ?F (start + i) of Some b \<Rightarrow> b | None \<Rightarrow> remote (start + i))" if "i < len" for i
      using none that by (auto split: option.split)
    moreover have "agrees (cachelib_roomy cl items)
        (fetched ?F start {i. i < len \<and> ?F (start + i) = None} remote) ?F"
      unfolding none fetched_empty by (rule agrees_refl)
    ultimately show ?thesis using fl inv1 file1 by (simp add: filled_def)
  next
    case (Cons q qs)
    obtain rs where rr: "run_requests cl digest logging DownLoad key reqs buf1 (st\<lparr>rc_pages := pages\<rparr>) = Some (rs, buf', st')"
      and r: "r = final_res rs"
      using run gl Cons by (auto simp: RC_Get_def Let_def reqs_def [symmetric] split: Option.bind_splits)
    have len1: "len \<le> length buf1" using fl len by (simp add: filled_def)
    have f: "\<forall>(o', f, n) \<in> set reqs. f = start + o'" using ml by fastforce
    note L = run_requests_spec [OF serves inv1 conjunct1 [OF ml] f len1 rr]
    have "buf' ! i = (if i < len then (case ?F (start + i) of Some b \<Rightarrow> b | None \<Rightarrow> remote (start + i)) else buf ! i)"
      if "i < length buf" for i
      using L fl that gaps by (auto simp: filled_def split: option.split)
    moreover have "length buf' = length buf" using L fl by (simp add: filled_def)
    ultimately show ?thesis using L r final_res_success [of rs] file1 gaps by simp
  qed
qed

lemma RC_Get_total:
  assumes inv: "rc_inv cl items st" and len: "len \<le> length buf" and room: "cachelib_roomy cl items"
  shows "\<exists>r buf' st'. RC_Get cl digest logging ad key start len buf st = Some (r, buf', st')"
proof -
  obtain bd n buf1 cnt pages where gl: "get_loop (Page_Read cl) (RC_GetPageKey digest key) push_segment (rc_page_size st)
      (start div rc_page_size st) (start mod rc_page_size st) 0 len buf ([], 0) 0 (rc_pages st) =
        Some (SUCCESS, (bd, n), buf1, cnt, pages)"
    and inv1: "rc_inv cl items (st\<lparr>rc_pages := pages\<rparr>)"
    using RC_lookup [OF inv len, of digest key start] by (metis prod.collapse)
  have "\<exists>rs b s. run_requests cl digest logging dl key reqs buf1 (st\<lparr>rc_pages := pages\<rparr>) = Some (rs, b, s)" for dl reqs
    using run_requests_total [OF room inv1] by blast
  then obtain g where g: "\<And>dl reqs. \<exists>b s. run_requests cl digest logging dl key reqs buf1 (st\<lparr>rc_pages := pages\<rparr>) = Some (g dl reqs, b, s)"
    by metis
  define reqs where "reqs = (if (if 0 < len - n \<and> ad = None then ADAPTOR_NOT_FOUND else SUCCESS) = SUCCESS
    then miss_loop start 0 (len - n) bd else [])"
  have eq: "RC_Get cl digest logging ad key start len buf st =
      (case (reqs, ad) of
        (_ # _, Some dl) \<Rightarrow> do {
          (tups, buf, st) \<leftarrow> run_requests cl digest logging dl key reqs buf1 (st\<lparr>rc_pages := pages\<rparr>);
          Some (final_res tups, buf, st)
        }
      | _ \<Rightarrow> Some (if 0 < len - n \<and> ad = None then ADAPTOR_NOT_FOUND else SUCCESS, buf1, st\<lparr>rc_pages := pages\<rparr>))"
    unfolding RC_Get_def Let_def gl reqs_def by simp
  show ?thesis
  proof (cases ad)
    case (Some dl)
    obtain b s where "run_requests cl digest logging dl key reqs buf1 (st\<lparr>rc_pages := pages\<rparr>) = Some (g dl reqs, b, s)"
      using g by blast
    with Some eq show ?thesis by (cases reqs) simp_all
  qed (use eq in \<open>cases reqs; simp\<close>)
qed

definition empty_rc :: "(key \<rightharpoonup> bytes) read_cache" where
  "empty_rc = \<lparr>rc_cfg = \<lparr>ReadCacheCfg_CacheCfg = small_cfg, DownloadNormalFlowLimit = 1, DownloadBurstFlowLimit = 1\<rparr>,
     rc_pages = empty_pc\<rparr>"

lemma empty_rc_inv: "rc_inv map_cachelib id empty_rc"
  by (simp add: rc_inv_def empty_rc_def empty_pc_inv)

lemma empty_rc_file: "rc_file id digest empty_rc key = Map.empty"
  by (simp add: rc_file_def empty_rc_def file_of_def)

definition demo_download :: download where
  "demo_download key off n buf = (SUCCESS, map (\<lambda>i. of_nat (off + i)) [0..<length buf])"

subsection \<open>Properties\<close>

text \<open>
  C23: \<^verbatim>\<open>ReadCache::Get\<close> over an adaptor that serves the file: the call succeeds, the buffer gets the
  cached bytes where the cache has them and the remote bytes everywhere else in the range (and nothing
  outside it), and the cache afterwards also holds the fetched bytes, except for what an eviction dropped.
\<close>

theorem RC_Get_serves:
  assumes "rc_inv cl items st" and "len \<le> length buf" and "adaptor_serves DownLoad key remote start len"
    and "RC_Get cl digest logging (Some DownLoad) key start len buf st = Some (r, buf', st')"
  shows "r = SUCCESS \<and> length buf' = length buf \<and>
    (\<forall>i < length buf. buf' ! i = (if i < len
       then (case rc_file items digest st key (start + i) of Some b \<Rightarrow> b | None \<Rightarrow> remote (start + i)) else buf ! i)) \<and>
    rc_inv cl items st' \<and>
    agrees (cachelib_roomy cl items)
      (fetched (rc_file items digest st key) start {i. i < len \<and> rc_file items digest st key (start + i) = None} remote)
      (rc_file items digest st' key)"
  by (rule RC_Get_law [OF assms])

theorem RC_Get_serves_witness:
  "\<exists>buf' st'. RC_Get map_cachelib demo_digest True (Some demo_download) ''f'' 5 7 (replicate 8 0) empty_rc =
      Some (SUCCESS, buf', st') \<and> buf' ! 6 = 11 \<and> buf' ! 7 = 0 \<and> rc_file id demo_digest st' ''f'' 5 = Some 5"
proof -
  have sv: "adaptor_serves demo_download ''f'' of_nat 5 7" by (simp add: adaptor_serves_def demo_download_def)
  obtain r buf' st' where g: "RC_Get map_cachelib demo_digest True (Some demo_download) ''f'' 5 7 (replicate 8 0) empty_rc =
      Some (r, buf', st')"
    using RC_Get_total [OF empty_rc_inv _ map_cachelib_laws(2), of 7 "replicate 8 0"] by force
  note T = RC_Get_serves [OF empty_rc_inv _ sv g]
  then have "r = SUCCESS" "buf' ! 6 = 11" "buf' ! 7 = 0"
    "agrees True (fetched Map.empty 5 {i. i < 7} of_nat) (rc_file id demo_digest st' ''f'')"
    using map_cachelib_laws(2) by (simp_all add: empty_rc_file)
  with g agrees_roomy show ?thesis by (fastforce simp: fetched_def)
qed

text \<open>
  With logging switched off, \<^verbatim>\<open>ReadCache::Get\<close> hides a failed download.  The status of the
  download is only returned when \<^verbatim>\<open>EnableLogging\<close> holds; otherwise what the caller's buffer held is put
  into the cache as file data and the call reports success.
\<close>

theorem RC_Get_hides_failed_download:
  assumes "rc_inv cl items st" and "cachelib_roomy cl items" and "0 < len" and "len \<le> length buf"
    and "\<forall>i < len. rc_file items digest st key (start + i) = None"
    and "\<And>off n b. DownLoad key off n b = (err, b)"
  shows "\<exists>st'. RC_Get cl digest False (Some DownLoad) key start len buf st = Some (SUCCESS, buf, st') \<and>
    rc_file items digest st' key = overlay (rc_file items digest st key) start (take len buf)"
proof -
  let ?F = "rc_file items digest st key"
  obtain bd n buf1 cnt pages where gl: "get_loop (Page_Read cl) (RC_GetPageKey digest key) push_segment (rc_page_size st)
      (start div rc_page_size st) (start mod rc_page_size st) 0 len buf ([], 0) 0 (rc_pages st) =
        Some (SUCCESS, (bd, n), buf1, cnt, pages)"
    and cnt: "counted ?F start len (bd, n)" and fl: "filled ?F start len buf buf1"
    and inv1: "rc_inv cl items (st\<lparr>rc_pages := pages\<rparr>)" and same: "contents items pages = contents items (rc_pages st)"
    using RC_lookup [OF assms(1,4), of digest key start] by (metis prod.collapse)
  have "segs_set bd = {}" using cnt assms(5) by (auto simp: counted_def)
  then have bd: "bd = []" "n = 0" using cnt by (cases bd; auto simp: counted_def)+
  have buf1: "buf1 = buf" using fl assms(5) by (intro nth_equalityI) (auto simp: filled_def)
  have same_buf: "blit buf 0 (slice 0 len buf) = buf"
    using assms(4) by (intro nth_equalityI) (auto simp: nth_blit)
  obtain st' where put: "RC_Put cl digest key start (slice 0 len buf) (st\<lparr>rc_pages := pages\<rparr>) = Some (SUCCESS, st')"
    using RC_Put_total [OF inv1 assms(2)] by blast
  have "RC_Get cl digest False (Some DownLoad) key start len buf st = Some (SUCCESS, buf, st')"
    using gl bd buf1 assms(3,6) put same_buf by (simp add: RC_Get_def Let_def final_res_def)
  moreover have "rc_file items digest st' key = overlay (rc_file items digest (st\<lparr>rc_pages := pages\<rparr>) key) start (take len buf)"
    using RC_Put_law [OF inv1 put] assms(2) by (auto simp: slice_def dest: agrees_roomy)
  moreover have "rc_file items digest (st\<lparr>rc_pages := pages\<rparr>) key = ?F" using same by (simp add: rc_file_def)
  ultimately show ?thesis by auto
qed

theorem RC_Get_hides_failed_download_witness:
  "\<exists>st'. RC_Get map_cachelib demo_digest False (Some (\<lambda>k off n b. (-5, b))) ''f'' 5 7 (replicate 8 9) empty_rc =
      Some (SUCCESS, replicate 8 9, st') \<and> rc_file id demo_digest st' ''f'' 5 = Some 9"
proof -
  have "\<exists>st'. RC_Get map_cachelib demo_digest False (Some (\<lambda>k off n b. (-5, b))) ''f'' 5 7 (replicate 8 9) empty_rc =
      Some (SUCCESS, replicate 8 9, st') \<and>
    rc_file id demo_digest st' ''f'' = overlay (rc_file id demo_digest empty_rc ''f'') 5 (take 7 (replicate 8 9))"
    by (rule RC_Get_hides_failed_download [OF empty_rc_inv map_cachelib_laws(2)]) (auto simp: empty_rc_file)
  then show ?thesis by auto
qed

end
