(* ===== verification/Accessor.thy ===== *)
theory Accessor
  imports Read_Cache
begin

section \<open>The accessor (\<^verbatim>\<open>s3fs/hybridcache_accessor_4_s3fs.cpp\<close>)\<close>

text \<open>
  \<^verbatim>\<open>HybridCacheAccessor4S3fs\<close> puts the write cache in front of the read cache in front of the data
  adaptor.  Its state is the two caches, the reader/writer locks of the files, the opened files (the
  size and headers an \<^verbatim>\<open>FdEntity\<close> keeps) and the state \<open>'r\<close> of what lies behind the adaptor.  The
  adaptor, and the S3 adaptor used by the global path of \<^verbatim>\<open>Flush\<close>, are parameters: their classes are
  abstract or reach the network.  Futures run one after the other in the order they are created, the
  thread that \<^verbatim>\<open>Flush\<close> detaches runs where it is detached, rate limiters only delay.  \<open>None\<close> is a
  call that never returns.
\<close>

type_synonym headers = "(string \<times> string) list"

record 'r data_adaptor =
  da_download :: "'r \<Rightarrow> download"
  da_upload :: "key \<Rightarrow> bytes \<Rightarrow> headers \<Rightarrow> 'r \<Rightarrow> int \<times> 'r"
  da_delete :: "key \<Rightarrow> 'r \<Rightarrow> int \<times> 'r"
  da_deepflush :: "key \<Rightarrow> 'r \<Rightarrow> int \<times> 'r"
  da_head :: "key \<Rightarrow> 'r \<Rightarrow> int \<times> nat \<times> headers \<times> 'r"
  da_upload_part :: "key \<Rightarrow> nat \<Rightarrow> bytes \<Rightarrow> headers \<Rightarrow> 'r \<Rightarrow> int \<times> string \<times> 'r"
  da_completed :: "key \<Rightarrow> string list \<Rightarrow> nat \<Rightarrow> 'r \<Rightarrow> int \<times> 'r"
  s3_head :: "key \<Rightarrow> 'r \<Rightarrow> int \<times> 'r"
  s3_upload :: "key \<Rightarrow> bytes \<Rightarrow> headers \<Rightarrow> 'r \<Rightarrow> int \<times> 'r"

record fd_entity =
  realsize :: nat
  update_mark :: bool
  orgheaders :: headers

definition UpdateRealsize :: "nat \<Rightarrow> fd_entity \<Rightarrow> fd_entity" where
  "UpdateRealsize sz ent =
     (if realsize ent \<ge> sz then ent else ent\<lparr>realsize := sz\<rparr>)\<lparr>update_mark := True\<rparr>"

definition TruncateRealsize :: "nat \<Rightarrow> fd_entity \<Rightarrow> fd_entity" where
  "TruncateRealsize sz ent = ent\<lparr>realsize := sz, update_mark := True\<rparr>"

text \<open>What the operations are run with: allocators, digest, buckets, adaptor, sizes, fresh memory.\<close>

record ('c, 'd, 'tb, 'r) acc_env =
  wcl :: "'c cachelib"
  rcl :: "'d cachelib"
  dig :: "string \<Rightarrow> bytes"
  tbs :: "'tb token_bucket"
  ada :: "'r data_adaptor"
  write_chunk_size :: nat
  fresh_mem :: "nat \<Rightarrow> bytes"

record ('c, 'd, 'tb, 'r) accessor =
  acfg :: HybridCacheConfig
  writeCache :: "('c, 'tb) write_cache"
  readCache :: "'d read_cache"
  fileLock :: "key \<rightharpoonup> int"
  ents :: "key \<rightharpoonup> fd_entity"
  remote :: 'r
  stopLinUCB :: bool
  writeCount :: nat
  readCount :: nat
  writeByteAcc :: nat
  readByteAcc :: nat
  writeCacheSize :: nat

subsection \<open>How full the write cache is\<close>

definition WriteCacheRatio :: "('c, 'd, 'tb, 'r) accessor \<Rightarrow> nat" where
  "WriteCacheRatio st = unat (WC_GetCacheSize (writeCache st)) * 100 div WC_GetCacheMaxSize (writeCache st)"

definition WritePoolRatio :: "('c, 'd, 'tb, 'r) accessor \<Rightarrow> nat" where
  "WritePoolRatio st = unat (WC_GetCacheSize (writeCache st)) * 100 div writeCacheSize st"

definition IsWriteCacheFull :: "nat \<Rightarrow> ('c, 'd, 'tb, 'r) accessor \<Rightarrow> bool" where
  "IsWriteCacheFull len st =
     (unat (WC_GetCacheSize (writeCache st)) + len
        \<ge> WC_GetCacheMaxSize (writeCache st) * CacheSafeRatio (WriteCacheCfg (acfg st)) div 100)"

definition IsWritePoolFull :: "nat \<Rightarrow> ('c, 'd, 'tb, 'r) accessor \<Rightarrow> bool" where
  "IsWritePoolFull len st =
     (unat (WC_GetCacheSize (writeCache st)) + len
        \<ge> writeCacheSize st * CacheSafeRatio (WriteCacheCfg (acfg st)) div 100)"

subsection \<open>File locks\<close>

text \<open>The lock of a file: absent or 0 is free, positive counts writers, -1 is exclusive.\<close>

definition lock_value :: "key \<Rightarrow> ('c, 'd, 'tb, 'r) accessor \<Rightarrow> int" where
  "lock_value key st = (case fileLock st key of None \<Rightarrow> 0 | Some l \<Rightarrow> l)"

definition file_lock_shared :: "key \<Rightarrow> ('c, 'd, 'tb, 'r) accessor \<Rightarrow> ('c, 'd, 'tb, 'r) accessor option" where
  "file_lock_shared key st =
     (let lock = lock_value key st
      in if lock \<ge> 0 then Some (st\<lparr>fileLock := (fileLock st)(key \<mapsto> lock + 1)\<rparr>) else None)"

definition file_unlock_shared :: "key \<Rightarrow> ('c, 'd, 'tb, 'r) accessor \<Rightarrow> ('c, 'd, 'tb, 'r) accessor" where
  "file_unlock_shared key st = st\<lparr>fileLock := (fileLock st)(key \<mapsto> lock_value key st - 1)\<rparr>"

definition file_lock_exclusive :: "key \<Rightarrow> ('c, 'd, 'tb, 'r) accessor \<Rightarrow> ('c, 'd, 'tb, 'r) accessor option" where
  "file_lock_exclusive key st =
     (if lock_value key st = 0 then Some (st\<lparr>fileLock := (fileLock st)(key \<mapsto> -1)\<rparr>) else None)"

subsection \<open>Put and Get\<close>

definition Acc_Put ::
    "('c, 'd, 'tb, 'r) acc_env \<Rightarrow> nat \<Rightarrow> key \<Rightarrow> nat \<Rightarrow> bytes \<Rightarrow> ('c, 'd, 'tb, 'r) accessor \<Rightarrow>
     (int \<times> ('c, 'd, 'tb, 'r) accessor) option" where
  "Acc_Put E now key start buf st =
     (if (if EnableLinUCB (acfg st) \<or> EnableResize (acfg st) then IsWritePoolFull (length buf) st
          else IsWriteCacheFull (length buf) st) then None
      else do {
        let st = st\<lparr>writeCount := writeCount st + 1\<rparr>;
        st \<leftarrow> file_lock_shared key st;
        (res, wc) \<leftarrow> WC_Put (wcl E) (dig E) (tbs E) now key start buf (writeCache st);
        let st = st\<lparr>writeCache := wc\<rparr>;
        let res = (if res = SUCCESS \<and> ents st key = None then - EIO else res);
        let st = (case ents st key of
                    Some ent \<Rightarrow> if res = SUCCESS
                      then st\<lparr>ents := (ents st)(key \<mapsto> UpdateRealsize (start + length buf) ent)\<rparr> else st
                  | None \<Rightarrow> st);
        let st = file_unlock_shared key st;
        Some (res, st\<lparr>writeByteAcc := writeByteAcc st + length buf\<rparr>)
      })"

text \<open>The reads of the gaps, in order, each into its part of the buffer.\<close>

fun get_misses ::
    "'d cachelib \<Rightarrow> (string \<Rightarrow> bytes) \<Rightarrow> bool \<Rightarrow> download \<Rightarrow> key \<Rightarrow> (nat \<times> nat \<times> nat) list \<Rightarrow> bytes \<Rightarrow>
     'd read_cache \<Rightarrow> (int list \<times> bytes \<times> 'd read_cache) option" where
  "get_misses cl digest logging dl key [] buf rc = Some ([], buf, rc)"
| "get_misses cl digest logging dl key ((stepStart, fileStartOff, readLen) # reqs) buf rc =
     (case RC_Get cl digest logging (Some dl) key fileStartOff readLen (slice stepStart readLen buf) rc of
        None \<Rightarrow> None
      | Some (r, sub, rc) \<Rightarrow>
          (case get_misses cl digest logging dl key reqs (blit buf stepStart sub) rc of
             None \<Rightarrow> None
           | Some (rs, buf, rc) \<Rightarrow> Some (r # rs, buf, rc)))"

definition collect_res :: "int \<Rightarrow> int list \<Rightarrow> int" where
  "collect_res res rs = fold (\<lambda>tmpRes res. if SUCCESS \<noteq> tmpRes \<and> - ENOENT \<noteq> tmpRes then tmpRes else res) rs res"

definition Acc_Get ::
    "('c, 'd, 'tb, 'r) acc_env \<Rightarrow> key \<Rightarrow> nat \<Rightarrow> nat \<Rightarrow> bytes \<Rightarrow> ('c, 'd, 'tb, 'r) accessor \<Rightarrow>
     (int \<times> bytes \<times> ('c, 'd, 'tb, 'r) accessor) option" where
  "Acc_Get E key start len buf st = do {
     let st = st\<lparr>readCount := readCount st + 1\<rparr>;
     (res, dataBoundary, buf, wc) \<leftarrow> WC_Get (wcl E) (dig E) key start len buf [] (writeCache st);
     let st = st\<lparr>writeCache := wc\<rparr>;
     let remainLen = len - segs_total dataBoundary;
     let reqs = (if res = SUCCESS then miss_loop start 0 remainLen dataBoundary else []);
     (rs, buf, rc) \<leftarrow> get_misses (rcl E) (dig E) (EnableLog (acfg st)) (da_download (ada E) (remote st)) key
       reqs buf (readCache st);
     let st = st\<lparr>readCache := rc\<rparr>;
     Some (collect_res res rs, buf, st\<lparr>readByteAcc := readByteAcc st + len\<rparr>)
   }"

subsection \<open>Flush, Delete, Truncate and the rest\<close>

text \<open>Reading the whole file chunk by chunk, and with a global cache uploading each chunk read.\<close>

fun flush_chunks ::
    "('c, 'd, 'tb, 'r) acc_env \<Rightarrow> key \<Rightarrow> headers \<Rightarrow> (nat \<times> nat) list \<Rightarrow> bytes \<Rightarrow> ('c, 'd, 'tb, 'r) accessor \<Rightarrow>
     (int list \<times> string list \<times> bytes \<times> ('c, 'd, 'tb, 'r) accessor) option" where
  "flush_chunks E key hs [] buf st = Some ([], [], buf, st)"
| "flush_chunks E key hs ((offset, len) # cs) buf st =
     (case Acc_Get E key offset len (slice offset len buf) st of
        None \<Rightarrow> None
      | Some (getRes, sub, st) \<Rightarrow>
          let buf = blit buf offset sub;
              (r, json, st) =
                (if \<not> UseGlobalCache (acfg st) \<or> SUCCESS \<noteq> getRes then (getRes, [], st)
                 else (case da_upload_part (ada E) key offset sub hs (remote st) of
                         (r, json, rem) \<Rightarrow> (r, json, st\<lparr>remote := rem\<rparr>)))
          in (case flush_chunks E key hs cs buf st of
                None \<Rightarrow> None
              | Some (rs, js, buf, st) \<Rightarrow> Some (r # rs, json # js, buf, st)))"

text \<open>With a global cache, an empty object is created first when the file does not exist yet.\<close>

definition flush_head ::
    "('c, 'd, 'tb, 'r) acc_env \<Rightarrow> key \<Rightarrow> headers \<Rightarrow> ('c, 'd, 'tb, 'r) accessor \<Rightarrow> int \<times> ('c, 'd, 'tb, 'r) accessor" where
  "flush_head E key hs st =
     (case s3_head (ada E) key (remote st) of
        (res, rem) \<Rightarrow>
          if res = - ENOENT
          then (case s3_upload (ada E) key [] hs rem of (res, rem) \<Rightarrow> (res, st\<lparr>remote := rem\<rparr>))
          else (res, st\<lparr>remote := rem\<rparr>))"

definition last_error :: "int \<Rightarrow> int list \<Rightarrow> int" where
  "last_error res rs = fold (\<lambda>tmpRes res. if SUCCESS \<noteq> tmpRes then tmpRes else res) rs res"

fun put_chunks ::
    "'d cachelib \<Rightarrow> (string \<Rightarrow> bytes) \<Rightarrow> key \<Rightarrow> (nat \<times> nat) list \<Rightarrow> bytes \<Rightarrow> 'd read_cache \<Rightarrow> 'd read_cache option" where
  "put_chunks cl digest key [] buf rc = Some rc"
| "put_chunks cl digest key ((offset, len) # cs) buf rc =
     (case RC_Put cl digest key offset (slice offset len buf) rc of
        None \<Rightarrow> None
      | Some (res, rc) \<Rightarrow> put_chunks cl digest key cs buf rc)"

definition flush_read ::
    "('c, 'd, 'tb, 'r) acc_env \<Rightarrow> key \<Rightarrow> int \<Rightarrow> nat \<Rightarrow> headers \<Rightarrow> ('c, 'd, 'tb, 'r) accessor \<Rightarrow>
     (int \<times> bytes \<times> ('c, 'd, 'tb, 'r) accessor) option" where
  "flush_read E key res realSize realHeaders st =
     (let buf = fresh_mem E realSize
      in if res = SUCCESS
         then do {
           (rs, jsonRoots, buf, st) \<leftarrow> flush_chunks E key realHeaders (chunks (write_chunk_size E * 2) realSize 0) buf st;
           let res = last_error res rs;
           (if UseGlobalCache (acfg st) \<and> res = SUCCESS
            then (case da_completed (ada E) key jsonRoots realSize (remote st) of
                    (r, rem) \<Rightarrow> Some (r, buf, st\<lparr>remote := rem\<rparr>))
            else Some (res, buf, st))
         }
         else Some (res, buf, st))"

definition flush_upload ::
    "('c, 'd, 'tb, 'r) acc_env \<Rightarrow> key \<Rightarrow> int \<Rightarrow> headers \<Rightarrow> bytes \<Rightarrow> ('c, 'd, 'tb, 'r) accessor \<Rightarrow>
     int \<times> ('c, 'd, 'tb, 'r) accessor" where
  "flush_upload E key res realHeaders buf st =
     (if res = SUCCESS \<and> \<not> UseGlobalCache (acfg st)
      then (case da_upload (ada E) key buf realHeaders (remote st) of (r, rem) \<Rightarrow> (r, st\<lparr>remote := rem\<rparr>))
      else (res, st))"

text \<open>The detached thread drops the file from the write cache and the lock; then the read cache is fed.\<close>

definition flush_finish ::
    "('c, 'd, 'tb, 'r) acc_env \<Rightarrow> key \<Rightarrow> int \<Rightarrow> nat \<Rightarrow> bytes \<Rightarrow> ('c, 'd, 'tb, 'r) accessor \<Rightarrow>
     (int \<times> ('c, 'd, 'tb, 'r) accessor) option" where
  "flush_finish E key res realSize buf st = do {
     st \<leftarrow> (if res = SUCCESS
           then (case WC_Delete (wcl E) (dig E) key False (writeCache st) of
                   None \<Rightarrow> None | Some (r, wc) \<Rightarrow> Some (st\<lparr>writeCache := wc\<rparr>))
           else Some st);
     let st = st\<lparr>fileLock := (fileLock st)(key := None)\<rparr>;
     (if res = SUCCESS \<and> FlushToRead (acfg st)
      then (case put_chunks (rcl E) (dig E) key (chunks (32 * 1024 * 1024) realSize 0) buf (readCache st) of
              None \<Rightarrow> None | Some rc \<Rightarrow> Some (res, st\<lparr>readCache := rc\<rparr>))
      else Some (res, st))
   }"

definition Acc_Flush ::
    "('c, 'd, 'tb, 'r) acc_env \<Rightarrow> key \<Rightarrow> ('c, 'd, 'tb, 'r) accessor \<Rightarrow> (int \<times> ('c, 'd, 'tb, 'r) accessor) option" where
  "Acc_Flush E key st = do {
     st \<leftarrow> file_lock_exclusive key st;
     let (res, realSize, realHeaders) =
       (case ents st key of None \<Rightarrow> (- EIO, 0, []) | Some ent \<Rightarrow> (SUCCESS, realsize ent, orgheaders ent));
     let st = (if res = SUCCESS \<and> realSize \<ge> 10737418240 then st\<lparr>stopLinUCB := True\<rparr> else st);
     let (res, st) = (if res = SUCCESS \<and> UseGlobalCache (acfg st) then flush_head E key realHeaders st else (res, st));
     (res, buf, st) \<leftarrow> flush_read E key res realSize realHeaders st;
     let (res, st) = flush_upload E key res realHeaders buf st;
     flush_finish E key res realSize buf st
   }"

definition Acc_DeepFlush ::
    "('c, 'd, 'tb, 'r) acc_env \<Rightarrow> key \<Rightarrow> ('c, 'd, 'tb, 'r) accessor \<Rightarrow> int \<times> ('c, 'd, 'tb, 'r) accessor" where
  "Acc_DeepFlush E key st =
     (if UseGlobalCache (acfg st)
      then (case da_deepflush (ada E) key (remote st) of (r, rem) \<Rightarrow> (r, st\<lparr>remote := rem\<rparr>))
      else (SUCCESS, st))"

definition Acc_Delete ::
    "('c, 'd, 'tb, 'r) acc_env \<Rightarrow> key \<Rightarrow> ('c, 'd, 'tb, 'r) accessor \<Rightarrow> (int \<times> ('c, 'd, 'tb, 'r) accessor) option" where
  "Acc_Delete E key st = do {
     st \<leftarrow> file_lock_exclusive key st;
     (res, wc) \<leftarrow> WC_Delete (wcl E) (dig E) key False (writeCache st);
     let st = st\<lparr>writeCache := wc\<rparr>;
     (res, st) \<leftarrow>
       (if res = SUCCESS
        then (case RC_Delete (rcl E) (dig E) key (readCache st) of
                None \<Rightarrow> None | Some (r, rc) \<Rightarrow> Some (r, st\<lparr>readCache := rc\<rparr>))
        else Some (res, st));
     let (res, st) =
       (if res = SUCCESS
        then (case da_delete (ada E) key (remote st) of (r, rem) \<Rightarrow> (r, st\<lparr>remote := rem\<rparr>))
        else (res, st));
     Some (res, st\<lparr>fileLock := (fileLock st)(key := None)\<rparr>)
   }"

definition Acc_Truncate ::
    "('c, 'd, 'tb, 'r) acc_env \<Rightarrow> nat \<Rightarrow> key \<Rightarrow> nat \<Rightarrow> ('c, 'd, 'tb, 'r) accessor \<Rightarrow>
     (int \<times> ('c, 'd, 'tb, 'r) accessor) option" where
  "Acc_Truncate E now key sz st = do {
     st \<leftarrow> file_lock_exclusive key st;
     (res, realSize, st) \<leftarrow>
       (case ents st key of
          None \<Rightarrow> Some (- EIO, 0, st)
        | Some ent \<Rightarrow>
            let realSize = realsize ent
            in if sz < realSize
               then (case WC_Truncate (wcl E) (dig E) key sz (writeCache st) of
                       None \<Rightarrow> None | Some (r, wc) \<Rightarrow> Some (r, realSize, st\<lparr>writeCache := wc\<rparr>))
               else if sz > realSize
               then (case WC_Put (wcl E) (dig E) (tbs E) now key realSize (replicate (sz - realSize) 0) (writeCache st) of
                       None \<Rightarrow> None | Some (r, wc) \<Rightarrow> Some (r, realSize, st\<lparr>writeCache := wc\<rparr>))
               else Some (SUCCESS, realSize, st));
     let st = (case ents st key of
                 Some ent \<Rightarrow> if res = SUCCESS \<and> sz \<noteq> realSize
                   then st\<lparr>ents := (ents st)(key \<mapsto> TruncateRealsize sz ent)\<rparr> else st
               | None \<Rightarrow> st);
     Some (res, st\<lparr>fileLock := (fileLock st)(key \<mapsto> 0)\<rparr>)
   }"

definition Acc_Invalidate ::
    "('c, 'd, 'tb, 'r) acc_env \<Rightarrow> key \<Rightarrow> ('c, 'd, 'tb, 'r) accessor \<Rightarrow> (int \<times> ('c, 'd, 'tb, 'r) accessor) option" where
  "Acc_Invalidate E key st =
     (if CleanCacheByOpen (acfg st)
      then (case RC_Delete (rcl E) (dig E) key (readCache st) of
              None \<Rightarrow> None | Some (r, rc) \<Rightarrow> Some (r, st\<lparr>readCache := rc\<rparr>))
      else Some (SUCCESS, st))"

definition Acc_Head ::
    "('c, 'd, 'tb, 'r) acc_env \<Rightarrow> key \<Rightarrow> ('c, 'd, 'tb, 'r) accessor \<Rightarrow> int \<times> nat \<times> headers \<times> ('c, 'd, 'tb, 'r) accessor" where
  "Acc_Head E key st =
     (case da_head (ada E) key (remote st) of (r, sz, hs, rem) \<Rightarrow> (r, sz, hs, st\<lparr>remote := rem\<rparr>))"

text \<open>\<^verbatim>\<open>FsSync\<close>: every file of the write cache is flushed, the oldest first; errors are only logged.\<close>

fun flush_all ::
    "('c, 'd, 'tb, 'r) acc_env \<Rightarrow> (key \<times> nat) list \<Rightarrow> ('c, 'd, 'tb, 'r) accessor \<Rightarrow> ('c, 'd, 'tb, 'r) accessor option" where
  "flush_all E [] st = Some st"
| "flush_all E (f # fs) st =
     (case Acc_Flush E (fst f) st of None \<Rightarrow> None | Some (res, st) \<Rightarrow> flush_all E fs st)"

definition Acc_FsSync ::
    "('c, 'd, 'tb, 'r) acc_env \<Rightarrow> ('c, 'd, 'tb, 'r) accessor \<Rightarrow> (int \<times> ('c, 'd, 'tb, 'r) accessor) option" where
  "Acc_FsSync E st =
     (let filesVec = sort_key snd (snd (WC_GetAllKeys [] (writeCache st)))
      in map_option (\<lambda>st. (SUCCESS, st)) (flush_all E filesVec st))"

subsection \<open>What a reader sees\<close>

definition acc_inv ::
    "('c, 'd, 'tb, 'r) acc_env \<Rightarrow> ('c \<Rightarrow> key \<rightharpoonup> bytes) \<Rightarrow> ('d \<Rightarrow> key \<rightharpoonup> bytes) \<Rightarrow> ('c, 'd, 'tb, 'r) accessor \<Rightarrow> bool" where
  "acc_inv E wi ri st = (wc_inv (wcl E) wi (writeCache st) \<and> rc_inv (rcl E) ri (readCache st))"

text \<open>The read cache holds nothing but bytes of the remote file.\<close>

definition coherent :: "(nat \<rightharpoonup> byte) \<Rightarrow> (nat \<Rightarrow> byte) \<Rightarrow> bool" where
  "coherent F rem = (\<forall>i b. F i = Some b \<longrightarrow> b = rem i)"

text \<open>The write cache over the remote file.\<close>

definition seen :: "(nat \<rightharpoonup> byte) \<Rightarrow> (nat \<Rightarrow> byte) \<Rightarrow> nat \<Rightarrow> byte" where
  "seen F rem i = (case F i of Some b \<Rightarrow> b | None \<Rightarrow> rem i)"

lemma coherent_agrees: "agrees r F G \<Longrightarrow> coherent F rem \<Longrightarrow> coherent G rem"
  unfolding coherent_def by (metis agrees_le)

lemma coherent_fetched: "coherent F rem \<Longrightarrow> coherent (fetched F start S rem) rem"
  by (auto simp: coherent_def fetched_def)

lemma seen_coherent: "coherent F rem \<Longrightarrow> seen F rem i = rem i"
  by (auto simp: coherent_def seen_def split: option.split)

lemma adaptor_serves_sub:
  "adaptor_serves dl key rem start len \<Longrightarrow> start \<le> f \<Longrightarrow> f + n \<le> start + len \<Longrightarrow> adaptor_serves dl key rem f n"
  by (auto simp: adaptor_serves_def)

text \<open>The adaptor serves every part of a range of the file that the write cache has nothing of.\<close>

definition gaps_served :: "download \<Rightarrow> key \<Rightarrow> (nat \<Rightarrow> byte) \<Rightarrow> (nat \<rightharpoonup> byte) \<Rightarrow> nat \<Rightarrow> nat \<Rightarrow> bool" where
  "gaps_served dl key rem F start len =
     (\<forall>f n. start \<le> f \<and> f + n \<le> start + len \<and> (\<forall>i. f \<le> i \<and> i < f + n \<longrightarrow> F i = None) \<longrightarrow> adaptor_serves dl key rem f n)"

lemma gaps_served_all: "adaptor_serves dl key rem start len \<Longrightarrow> gaps_served dl key rem F start len"
  unfolding gaps_served_def using adaptor_serves_sub by blast

lemma gaps_served_sub:
  "gaps_served dl key rem F start len \<Longrightarrow> start \<le> a \<Longrightarrow> a + n \<le> start + len \<Longrightarrow> gaps_served dl key rem F a n"
  unfolding gaps_served_def by (meson le_trans)

lemma requests_served:
  assumes g: "gaps_served dl key rem F start len" and f: "\<forall>(o', f, n) \<in> set reqs. f = start + o' \<and> 0 < n"
    and gaps: "segs_set (req_segs reqs) = {i. i < len \<and> F (start + i) = None}"
  shows "\<forall>(o', f, n) \<in> set reqs. adaptor_serves dl key rem f n"
proof (clarify)
  fix o' f' n assume q: "(o', f', n) \<in> set reqs"
  have fo: "f' = start + o'" "0 < n" using f q by auto
  have "{o'..<o' + n} \<subseteq> segs_set (req_segs reqs)" using q unfolding segs_set_def req_segs_def by force
  then have sub: "i < len \<and> F (start + i) = None" if "o' \<le> i" "i < o' + n" for i using that gaps by auto
  have "o' + (n - 1) < len" using sub [of "o' + (n - 1)"] fo(2) by simp
  then have "f' + n \<le> start + len" using fo by simp
  moreover have "F i = None" if "f' \<le> i" "i < f' + n" for i using sub [of "i - start"] that fo by simp
  ultimately show "adaptor_serves dl key rem f' n" using g fo(1) unfolding gaps_served_def by simp
qed

lemma get_misses_spec:
  assumes serves: "\<forall>(o', f, n) \<in> set reqs. adaptor_serves dl key rem f n"
  shows "rc_inv cl items rc \<Longrightarrow> coherent (rc_file items digest rc key) rem \<Longrightarrow>
    ordered_segs s len (req_segs reqs) \<Longrightarrow> \<forall>(o', f, n) \<in> set reqs. f = start + o' \<Longrightarrow> len \<le> length buf \<Longrightarrow>
    get_misses cl digest logging dl key reqs buf rc = Some (rs, buf', rc') \<Longrightarrow>
    (\<forall>r \<in> set rs. r = SUCCESS) \<and> length buf' = length buf \<and>
    (\<forall>i < length buf. buf' ! i = (if i \<in> segs_set (req_segs reqs) then rem (start + i) else buf ! i)) \<and>
    rc_inv cl items rc' \<and> coherent (rc_file items digest rc' key) rem"
  using serves
proof (induction reqs arbitrary: s buf rc rs)
  case Nil
  then show ?case by (simp add: req_segs_def)
next
  case (Cons q reqs)
  obtain off f n where q: "q = (off, f, n)" by (cases q)
  have f: "f = start + off" using Cons.prems(4) q by simp
  have seg: "s \<le> off" "0 < n" and tl: "ordered_segs (off + n) len (req_segs reqs)"
    using Cons.prems(3) by (auto simp: q req_segs_def)
  have fit: "off + n \<le> len" using ordered_segs_le [OF tl] .
  obtain r sub rc1 rs1 where g: "RC_Get cl digest logging (Some dl) key f n (slice off n buf) rc = Some (r, sub, rc1)"
    and rest: "get_misses cl digest logging dl key reqs (blit buf off sub) rc1 = Some (rs1, buf', rc')" and rs: "rs = r # rs1"
    using Cons.prems(6) by (auto simp: q split: option.splits)
  have sv: "adaptor_serves dl key rem f n" using Cons.prems(7) q by simp
  have ls: "n \<le> length (slice off n buf)" using fit Cons.prems(5) by simp
  note L = RC_Get_law [OF Cons.prems(1) ls sv g]
  have lsub: "length sub = n" using L fit Cons.prems(5) by simp
  have nsub: "sub ! j = rem (f + j)" if "j < n" for j
  proof -
    have "sub ! j = seen (rc_file items digest rc key) rem (f + j)"
      using L that fit Cons.prems(5) by (simp add: seen_def)
    then show ?thesis using seen_coherent [OF Cons.prems(2)] by simp
  qed
  define buf1 where "buf1 = blit buf off sub"
  have l1: "length buf1 = length buf" using lsub fit Cons.prems(5) by (simp add: buf1_def)
  have coh1: "coherent (rc_file items digest rc1 key) rem"
    using L coherent_agrees coherent_fetched [OF Cons.prems(2)] by blast
  have f3: "\<forall>(o', f, n) \<in> set reqs. f = start + o'" using Cons.prems(4) by auto
  have ih: "(\<forall>r \<in> set rs1. r = SUCCESS) \<and> length buf' = length buf1 \<and>
    (\<forall>i < length buf1. buf' ! i = (if i \<in> segs_set (req_segs reqs) then rem (start + i) else buf1 ! i)) \<and>
    rc_inv cl items rc' \<and> coherent (rc_file items digest rc' key) rem"
    by (rule Cons.IH [OF _ coh1 tl f3 _ rest [folded buf1_def]]) (use L Cons.prems(5,7) l1 in auto)
  have here: "segs_set (req_segs (q # reqs)) = {off..<off + n} \<union> segs_set (req_segs reqs)"
    by (simp add: q req_segs_def)
  have "buf' ! i = (if i \<in> segs_set (req_segs (q # reqs)) then rem (start + i) else buf ! i)"
    if "i < length buf" for i
    using ih that l1 lsub fit Cons.prems(5) nsub [of "i - off"] unfolding here by (auto simp: buf1_def nth_blit f)
  then show ?case using ih L l1 rs by auto
qed

lemma collect_res_success: "(\<forall>r \<in> set rs. r = SUCCESS) \<Longrightarrow> collect_res x rs = x"
proof -
  show "(\<forall>r \<in> set rs. r = SUCCESS) \<Longrightarrow> collect_res x rs = x"
    unfolding collect_res_def by (induction rs arbitrary: x) auto
qed

lemma Acc_Get_gaps:
  assumes inv: "acc_inv E wi ri st" and len: "len \<le> length buf"
    and serves: "gaps_served (da_download (ada E) (remote st)) key rem (wc_file wi (dig E) (writeCache st) key) start len"
    and coh: "coherent (rc_file ri (dig E) (readCache st) key) rem"
    and run: "Acc_Get E key start len buf st = Some (r, buf', st')"
  shows "r = SUCCESS \<and> length buf' = length buf \<and>
    (\<forall>i < length buf. buf' ! i =
       (if i < len then seen (wc_file wi (dig E) (writeCache st) key) rem (start + i) else buf ! i)) \<and>
    acc_inv E wi ri st' \<and> (\<forall>k. wc_file wi (dig E) (writeCache st') k = wc_file wi (dig E) (writeCache st) k) \<and>
    coherent (rc_file ri (dig E) (readCache st') key) rem \<and> remote st' = remote st \<and> ents st' = ents st \<and>
    fileLock st' = fileLock st \<and> acfg st' = acfg st \<and>
    wc_keys (writeCache st') = wc_keys (writeCache st) \<and> wc_locks (writeCache st') = wc_locks (writeCache st) \<and>
    pagesList (wc_pages (writeCache st')) = pagesList (wc_pages (writeCache st))"
proof -
  let ?F = "wc_file wi (dig E) (writeCache st) key"
  have winv: "wc_inv (wcl E) wi (writeCache st)" and rinv: "rc_inv (rcl E) ri (readCache st)"
    using inv by (auto simp: acc_inv_def)
  obtain bs buf1 wc' where g: "WC_Get (wcl E) (dig E) key start len buf [] (writeCache st) = Some (SUCCESS, bs, buf1, wc')"
    and bnd: "boundary_of ?F start len bs" and fl: "filled ?F start len buf buf1"
    and wc': "wc_inv (wcl E) wi wc'" "\<forall>k. wc_file wi (dig E) wc' k = wc_file wi (dig E) (writeCache st) k"
    "wc_keys wc' = wc_keys (writeCache st)" "wc_locks wc' = wc_locks (writeCache st)"
    "pagesList (wc_pages wc') = pagesList (wc_pages (writeCache st))"
    using WC_Get_law [OF winv len, of "dig E" key start] by blast
  define reqs where "reqs = miss_loop start 0 (len - segs_total bs) bs"
  obtain rs rc' where m: "get_misses (rcl E) (dig E) (EnableLog (acfg st)) (da_download (ada E) (remote st)) key
       reqs buf1 (readCache st) = Some (rs, buf', rc')"
    and st': "r = collect_res SUCCESS rs" "readCache st' = rc'" "writeCache st' = wc'" "remote st' = remote st"
    "ents st' = ents st" "fileLock st' = fileLock st" "acfg st' = acfg st"
    using run g by (auto simp: Acc_Get_def Let_def reqs_def split: Option.bind_splits)
  have sep: "separated 0 len bs" and set: "segs_set bs = {i. i < len \<and> ?F (start + i) \<noteq> None}"
    using bnd by (auto simp: boundary_of_def maximal_runs_def)
  have ord: "ordered_segs 0 len bs" using separated_ordered [OF sep] by simp
  note ml = miss_loop_spec [OF ord, of "len - segs_total bs" start, folded reqs_def, simplified]
  have f: "\<forall>(o', f, n) \<in> set reqs. f = start + o'" using ml by fastforce
  have l1: "len \<le> length buf1" using fl len by (simp add: filled_def)
  have gaps: "segs_set (req_segs reqs) = {i. i < len \<and> ?F (start + i) = None}" using ml set by auto
  have f2: "\<forall>(o', f, n) \<in> set reqs. f = start + o' \<and> 0 < n" using ml by fastforce
  note M = get_misses_spec [OF requests_served [OF serves f2 gaps] rinv coh conjunct1 [OF ml] f l1 m]
  have "buf' ! i = (if i < len then seen ?F rem (start + i) else buf ! i)" if "i < length buf" for i
    using M fl that gaps by (auto simp: filled_def seen_def split: option.split)
  moreover have "length buf' = length buf" using M fl by (simp add: filled_def)
  ultimately show ?thesis using M st' wc' collect_res_success [of rs SUCCESS] by (simp add: acc_inv_def)
qed

lemma Acc_Get_law:
  assumes "acc_inv E wi ri st" and "len \<le> length buf"
    and "adaptor_serves (da_download (ada E) (remote st)) key rem start len"
    and "coherent (rc_file ri (dig E) (readCache st) key) rem"
    and "Acc_Get E key start len buf st = Some (r, buf', st')"
  shows "r = SUCCESS \<and> length buf' = length buf \<and>
    (\<forall>i < length buf. buf' ! i =
       (if i < len then seen (wc_file wi (dig E) (writeCache st) key) rem (start + i) else buf ! i)) \<and>
    acc_inv E wi ri st' \<and> (\<forall>k. wc_file wi (dig E) (writeCache st') k = wc_file wi (dig E) (writeCache st) k) \<and>
    coherent (rc_file ri (dig E) (readCache st') key) rem \<and> remote st' = remote st \<and> fileLock st' = fileLock st"
  using Acc_Get_gaps [OF assms(1,2) gaps_served_all [OF assms(3)] assms(4,5)] by blast

lemma get_misses_total:
  assumes room: "cachelib_roomy cl items"
  shows "rc_inv cl items rc \<Longrightarrow> ordered_segs s len (req_segs reqs) \<Longrightarrow> len \<le> length buf \<Longrightarrow>
    \<forall>(o', f, n) \<in> set reqs. adaptor_serves dl key rem f n \<Longrightarrow>
    \<exists>x. get_misses cl digest logging dl key reqs buf rc = Some x"
proof (induction reqs arbitrary: s buf rc)
  case (Cons q reqs)
  obtain off f n where q: "q = (off, f, n)" by (cases q)
  have tl: "ordered_segs (off + n) len (req_segs reqs)" using Cons.prems(2) by (auto simp: q req_segs_def)
  have fit: "off + n \<le> len" using ordered_segs_le [OF tl] .
  have ls: "n \<le> length (slice off n buf)" and ls': "length (slice off n buf) = n" using fit Cons.prems(3) by simp_all
  obtain r sub rc1 where g: "RC_Get cl digest logging (Some dl) key f n (slice off n buf) rc = Some (r, sub, rc1)"
    using RC_Get_total [OF Cons.prems(1) ls room] by blast
  have sv: "adaptor_serves dl key rem f n" using Cons.prems(4) q by simp
  note L = RC_Get_law [OF Cons.prems(1) ls sv g]
  have "len \<le> length (blit buf off sub)" using L ls' fit Cons.prems(3) by simp
  then obtain x where "get_misses cl digest logging dl key reqs (blit buf off sub) rc1 = Some x"
    using Cons.IH [of rc1 "off + n" "blit buf off sub"] L tl Cons.prems(4) by auto
  then show ?case using g by (cases x) (simp add: q)
qed simp

lemma Acc_Get_total:
  assumes inv: "acc_inv E wi ri st" and len: "len \<le> length buf" and room: "cachelib_roomy (rcl E) ri"
    and serves: "gaps_served (da_download (ada E) (remote st)) key rem (wc_file wi (dig E) (writeCache st) key) start len"
  shows "\<exists>x. Acc_Get E key start len buf st = Some x"
proof -
  let ?F = "wc_file wi (dig E) (writeCache st) key"
  have winv: "wc_inv (wcl E) wi (writeCache st)" and rinv: "rc_inv (rcl E) ri (readCache st)"
    using inv by (auto simp: acc_inv_def)
  obtain bs buf1 wc' where g: "WC_Get (wcl E) (dig E) key start len buf [] (writeCache st) = Some (SUCCESS, bs, buf1, wc')"
    and bnd: "boundary_of ?F start len bs" and fl: "filled ?F start len buf buf1"
    using WC_Get_law [OF winv len, of "dig E" key start] by blast
  define reqs where "reqs = miss_loop start 0 (len - segs_total bs) bs"
  have sep: "separated 0 len bs" and set: "segs_set bs = {i. i < len \<and> ?F (start + i) \<noteq> None}"
    using bnd by (auto simp: boundary_of_def maximal_runs_def)
  have ord: "ordered_segs 0 len bs" using separated_ordered [OF sep] by simp
  note ml = miss_loop_spec [OF ord, of "len - segs_total bs" start, folded reqs_def, simplified]
  have gaps: "segs_set (req_segs reqs) = {i. i < len \<and> ?F (start + i) = None}" using ml set by auto
  have f2: "\<forall>(o', f, n) \<in> set reqs. f = start + o' \<and> 0 < n" using ml by fastforce
  have "len \<le> length buf1" using fl len by (simp add: filled_def)
  from get_misses_total [OF room rinv conjunct1 [OF ml] this requests_served [OF serves f2 gaps], of "dig E" "EnableLog (acfg st)"]
  show ?thesis using g by (auto simp: Acc_Get_def Let_def reqs_def)
qed

text \<open>Without a global cache the chunk loop reads the whole file into the buffer.\<close>

lemma flush_chunks_local:
  assumes c: "0 < c" and gaps: "gaps_served (da_download (ada E) (remote st0)) key rem F 0 realSize"
  shows "acc_inv E wi ri st \<Longrightarrow> \<not> UseGlobalCache (acfg st) \<Longrightarrow> remote st = remote st0 \<Longrightarrow>
    coherent (rc_file ri (dig E) (readCache st) key) rem \<Longrightarrow> length buf = realSize \<Longrightarrow>
    F = wc_file wi (dig E) (writeCache st) key \<Longrightarrow>
    (cachelib_roomy (rcl E) ri \<longrightarrow> flush_chunks E key hs (chunks c realSize off) buf st \<noteq> None) \<and>
    (\<forall>rs js buf' st'. flush_chunks E key hs (chunks c realSize off) buf st = Some (rs, js, buf', st') \<longrightarrow>
      (\<forall>r \<in> set rs. r = SUCCESS) \<and> length buf' = realSize \<and>
      (\<forall>i < realSize. buf' ! i = (if off \<le> i then seen F rem i else buf ! i)) \<and>
      acc_inv E wi ri st' \<and> remote st' = remote st \<and> acfg st' = acfg st \<and> fileLock st' = fileLock st \<and>
      wc_locks (writeCache st') = wc_locks (writeCache st) \<and>
      pagesList (wc_pages (writeCache st')) = pagesList (wc_pages (writeCache st)))"
proof (induction "realSize - off" arbitrary: off buf st rule: less_induct)
  case less
  show ?case
  proof (cases "off < realSize")
    case False
    with less.prems show ?thesis by (auto simp: chunks_done)
  next
    case True
    define n where "n = min c (realSize - off)"
    have n: "0 < n" "off + n \<le> realSize" using True c by (auto simp: n_def)
    have sl: "length (slice off n buf) = n" using n less.prems(5) by simp
    have sv: "gaps_served (da_download (ada E) (remote st)) key rem (wc_file wi (dig E) (writeCache st) key) off n"
      using gaps_served_sub [OF gaps, of off n] n less.prems(3,6) by simp
    show ?thesis
    proof (cases "Acc_Get E key off n (slice off n buf) st")
      case None
      then have "\<not> cachelib_roomy (rcl E) ri"
        using Acc_Get_total [OF less.prems(1) _ _ sv, of "slice off n buf"] sl by auto
      moreover have "flush_chunks E key hs (chunks c realSize off) buf st = None"
        using True c None by (simp add: chunks_step n_def [symmetric])
      ultimately show ?thesis by simp
    next
      case (Some x)
      then obtain r sub st1 where g: "Acc_Get E key off n (slice off n buf) st = Some (r, sub, st1)" by (cases x) auto
      note L = Acc_Get_gaps [OF less.prems(1) _ sv less.prems(4) g, unfolded sl, OF order_refl]
      have loc: "\<not> UseGlobalCache (acfg st1)" using L less.prems(2) by simp
      define buf1 where "buf1 = blit buf off sub"
      have l1: "length buf1 = realSize" using L sl n less.prems(5) by (simp add: buf1_def)
      have nth1: "buf1 ! i = (if off \<le> i \<and> i < off + n then seen F rem i else buf ! i)" if "i < realSize" for i
        using L that n less.prems(5,6) by (auto simp: buf1_def nth_blit)
      have dec: "realSize - (off + c) < realSize - off" using True c by simp
      let ?rest = "flush_chunks E key hs (chunks c realSize (off + c)) buf1 st1"
      have ih: "(cachelib_roomy (rcl E) ri \<longrightarrow> ?rest \<noteq> None) \<and>
        (\<forall>rs js buf' st'. ?rest = Some (rs, js, buf', st') \<longrightarrow> (\<forall>r \<in> set rs. r = SUCCESS) \<and> length buf' = realSize \<and>
        (\<forall>i < realSize. buf' ! i = (if off + c \<le> i then seen F rem i else buf1 ! i)) \<and>
        acc_inv E wi ri st' \<and> remote st' = remote st1 \<and> acfg st' = acfg st1 \<and> fileLock st' = fileLock st1 \<and>
        wc_locks (writeCache st') = wc_locks (writeCache st1) \<and>
        pagesList (wc_pages (writeCache st')) = pagesList (wc_pages (writeCache st1)))"
        by (rule less.hyps [OF dec _ loc _ _ l1]) (use L less.prems in simp_all)
      have run: "flush_chunks E key hs (chunks c realSize off) buf st =
          map_option (\<lambda>(rs, js, buf', st'). (r # rs, [] # js, buf', st')) ?rest"
        using True c g loc by (simp add: chunks_step n_def [symmetric] buf1_def [symmetric] Let_def split: option.split prod.split)
      have merge: "buf' ! i = (if off \<le> i then seen F rem i else buf ! i)"
        if b: "\<forall>i < realSize. buf' ! i = (if off + c \<le> i then seen F rem i else buf1 ! i)" and i: "i < realSize" for buf' i
      proof (cases "off + c \<le> i")
        case False
        then have "i < off + n \<or> i < off" using i by (auto simp: n_def)
        then show ?thesis using b nth1 [OF i] i False by auto
      qed (use b i in auto)
      have keep: "remote st1 = remote st" "acfg st1 = acfg st" "fileLock st1 = fileLock st" "r = SUCCESS"
        "wc_locks (writeCache st1) = wc_locks (writeCache st)"
        "pagesList (wc_pages (writeCache st1)) = pagesList (wc_pages (writeCache st))" using L by blast+
      show ?thesis
      proof (cases ?rest)
        case None
        then show ?thesis using ih unfolding run by simp
      next
        case (Some y)
        then obtain rs js buf' st' where y: "?rest = Some (rs, js, buf', st')" by (cases y) auto
        note A = conjunct2 [OF ih, rule_format, OF y]
        have "\<forall>i < realSize. buf' ! i = (if off \<le> i then seen F rem i else buf ! i)" using merge A by blast
        then show ?thesis using A unfolding run y keep by simp
      qed
    qed
  qed
qed

lemma last_error_success: "(\<forall>r \<in> set rs. r = SUCCESS) \<Longrightarrow> last_error x rs = x"
  unfolding last_error_def by (induction rs arbitrary: x) auto

lemma Acc_Put_law:
  assumes inv: "acc_inv E wi ri st" and run: "Acc_Put E now key start data st = Some (r, st')"
  shows "r = (if ents st key = None then - EIO else SUCCESS) \<and> acc_inv E wi ri st' \<and>
    agrees (cachelib_roomy (wcl E) wi) (overlay (wc_file wi (dig E) (writeCache st) key) start data)
      (wc_file wi (dig E) (writeCache st') key) \<and>
    readCache st' = readCache st \<and> remote st' = remote st \<and> acfg st' = acfg st \<and>
    (\<forall>k. lock_value k st' = lock_value k st) \<and>
    (\<forall>ent. ents st key = Some ent \<longrightarrow>
       map_option realsize (ents st' key) = Some (max (realsize ent) (start + length data)))"
proof -
  define st0 where "st0 = st\<lparr>writeCount := writeCount st + 1\<rparr>"
  obtain st1 wr wc where l1: "file_lock_shared key st0 = Some st1"
    and put: "WC_Put (wcl E) (dig E) (tbs E) now key start data (writeCache st1) = Some (wr, wc)"
    and st': "(r, st') = (let st = st1\<lparr>writeCache := wc\<rparr>;
        res = (if wr = SUCCESS \<and> ents st key = None then - EIO else wr);
        st = (case ents st key of
                    Some ent \<Rightarrow> if res = SUCCESS
                      then st\<lparr>ents := (ents st)(key \<mapsto> UpdateRealsize (start + length data) ent)\<rparr> else st
                  | None \<Rightarrow> st);
        st = file_unlock_shared key st
      in (res, st\<lparr>writeByteAcc := writeByteAcc st + length data\<rparr>))"
    using run unfolding Acc_Put_def st0_def by (auto simp: Let_def split: if_splits Option.bind_splits)
  have st1: "st1 = st0\<lparr>fileLock := (fileLock st)(key \<mapsto> lock_value key st + 1)\<rparr>"
    using l1 by (auto simp: file_lock_shared_def Let_def st0_def lock_value_def split: if_splits)
  have wc1: "writeCache st1 = writeCache st" by (simp add: st1 st0_def)
  have winv: "wc_inv (wcl E) wi (writeCache st)" using inv by (simp add: acc_inv_def)
  note L = WC_Put_law [OF winv put [unfolded wc1]]
  show ?thesis
  proof (cases "ents st key")
    case None
    then show ?thesis using L st' inv
      by (auto simp: st1 st0_def Let_def file_unlock_shared_def lock_value_def acc_inv_def)
  next
    case (Some ent)
    then show ?thesis using L st' inv
      by (auto simp: st1 st0_def Let_def file_unlock_shared_def lock_value_def acc_inv_def UpdateRealsize_def max_def)
  qed
qed

lemma put_chunks_total:
  assumes room: "cachelib_roomy cl items"
  shows "rc_inv cl items rc \<Longrightarrow> \<exists>rc'. put_chunks cl digest key cs buf rc = Some rc'"
proof (induction cs arbitrary: rc)
  case (Cons x cs)
  obtain off n where x: "x = (off, n)" by (cases x)
  obtain rc1 where p: "RC_Put cl digest key off (slice off n buf) rc = Some (SUCCESS, rc1)"
    using RC_Put_total [OF Cons.prems room] by blast
  have "rc_inv cl items rc1" using RC_Put_law [OF Cons.prems p] by blast
  from Cons.IH [OF this] show ?case by (simp add: x p)
qed simp

lemma flush_finish_law:
  assumes "flush_finish E key res n buf st = Some (r, st')"
  shows "r = res \<and> remote st' = remote st \<and> fileLock st' key = None"
proof -
  obtain st1 where 1: "remote st1 = remote st"
    and 2: "(let st = st1\<lparr>fileLock := (fileLock st1)(key := None)\<rparr> in
      if res = SUCCESS \<and> FlushToRead (acfg st)
      then (case put_chunks (rcl E) (dig E) key (chunks (32 * 1024 * 1024) n 0) buf (readCache st) of
              None \<Rightarrow> None | Some rc \<Rightarrow> Some (res, st\<lparr>readCache := rc\<rparr>))
      else Some (res, st)) = Some (r, st')"
  proof (cases "res = SUCCESS")
    case True
    with assms obtain x wc where "WC_Delete (wcl E) (dig E) key False (writeCache st) = Some (x, wc)"
      by (cases "WC_Delete (wcl E) (dig E) key False (writeCache st)") (auto simp: flush_finish_def)
    then show ?thesis using that [of "st\<lparr>writeCache := wc\<rparr>"] assms True by (simp add: flush_finish_def Let_def cong: if_cong option.case_cong)
  next
    case False
    then show ?thesis using that [of st] assms by (simp add: flush_finish_def Let_def)
  qed
  show ?thesis using 2 by (auto simp: Let_def 1 split: if_splits option.splits)
qed

lemma flush_finish_total:
  assumes "acc_inv E wi ri st" and "cachelib_roomy (rcl E) ri" and "key \<notin> set (wc_locks (writeCache st))"
    and "page_names (dig E) ''_W'' (pagesList (wc_pages (writeCache st)))"
  shows "flush_finish E key res n buf st \<noteq> None"
proof -
  have winv: "wc_inv (wcl E) wi (writeCache st)" and rinv: "rc_inv (rcl E) ri (readCache st)"
    using assms(1) by (auto simp: acc_inv_def)
  obtain r wc where "WC_Delete (wcl E) (dig E) key False (writeCache st) = Some (r, wc)"
    using WC_Delete_total [OF winv assms(4,3)] by auto
  moreover obtain rc where "put_chunks (rcl E) (dig E) key (chunks (32 * 1024 * 1024) n 0) buf (readCache st) = Some rc"
    using put_chunks_total [OF assms(2) rinv] by blast
  ultimately show ?thesis by (simp add: flush_finish_def Let_def)
qed

subsection \<open>Properties\<close>

text \<open>
  C7: what \<^verbatim>\<open>Get\<close> of the accessor returns.  Over an adaptor that serves the file and a read cache that
  holds only bytes of it, the call succeeds and fills the range asked for with the bytes of the write
  cache where it has them and with those of the remote file elsewhere, whatever the read cache holds or
  evicts on the way; the write cache, the locks and the coherence of the read cache are kept.
\<close>

theorem Acc_Get_sees:
  assumes "acc_inv E wi ri st" and "len \<le> length buf"
    and "adaptor_serves (da_download (ada E) (remote st)) key rem start len"
    and "coherent (rc_file ri (dig E) (readCache st) key) rem"
    and "Acc_Get E key start len buf st = Some (r, buf', st')"
  shows "r = SUCCESS \<and> length buf' = length buf \<and>
    (\<forall>i < length buf. buf' ! i =
       (if i < len then seen (wc_file wi (dig E) (writeCache st) key) rem (start + i) else buf ! i)) \<and>
    acc_inv E wi ri st' \<and> (\<forall>k. wc_file wi (dig E) (writeCache st') k = wc_file wi (dig E) (writeCache st) k) \<and>
    coherent (rc_file ri (dig E) (readCache st') key) rem \<and> fileLock st' = fileLock st"
  using Acc_Get_law [OF assms] by blast


text \<open>
  C8: \<^verbatim>\<open>Flush\<close> of an opened file without a global cache uploads exactly the file a reader sees.  Over an adaptor that
  serves the parts of the file the write cache does not have, and a read cache that holds only bytes of the file, every
  flush that returns gave the adaptor's \<^verbatim>\<open>UpLoad\<close> the bytes of the write cache over the remote file, from 0 to the
  file's size, with the file's headers, whatever the chunk size and whatever the caches evicted; the status is the
  one of the upload, and the file's lock is released and forgotten.  A flush does return when no one holds the
  locks of the file, the page list has only names of pages, and the read cache always finds room for what is read.
\<close>

theorem Acc_Flush_uploads:
  assumes "acc_inv E wi ri st" and "ents st key = Some ent" and "\<not> UseGlobalCache (acfg st)"
    and "0 < write_chunk_size E" and "length (fresh_mem E (realsize ent)) = realsize ent"
    and "gaps_served (da_download (ada E) (remote st)) key rem (wc_file wi (dig E) (writeCache st) key) 0 (realsize ent)"
    and "coherent (rc_file ri (dig E) (readCache st) key) rem"
  shows "(\<forall>r st'. Acc_Flush E key st = Some (r, st') \<longrightarrow>
      (r, remote st') = da_upload (ada E) key
        (map (seen (wc_file wi (dig E) (writeCache st) key) rem) [0..<realsize ent]) (orgheaders ent) (remote st) \<and>
      fileLock st' key = None) \<and>
    (lock_value key st = 0 \<and> key \<notin> set (wc_locks (writeCache st)) \<and> cachelib_roomy (rcl E) ri \<and>
     page_names (dig E) ''_W'' (pagesList (wc_pages (writeCache st))) \<longrightarrow> Acc_Flush E key st \<noteq> None)"
proof (cases "lock_value key st = 0")
  case False
  then show ?thesis by (simp add: Acc_Flush_def file_lock_exclusive_def)
next
  case True
  let ?F = "wc_file wi (dig E) (writeCache st) key" and ?n = "realsize ent"
  let ?d = "map (seen ?F rem) [0..<?n]"
  define st1 where "st1 = st\<lparr>fileLock := (fileLock st)(key \<mapsto> -1)\<rparr>"
  define st2 where "st2 = (if ?n \<ge> 10737418240 then st1\<lparr>stopLinUCB := True\<rparr> else st1)"
  let ?fc = "flush_chunks E key (orgheaders ent) (chunks (write_chunk_size E * 2) ?n 0) (fresh_mem E ?n) st2"
  have keep: "acc_inv E wi ri st2" "\<not> UseGlobalCache (acfg st2)" "remote st2 = remote st"
    "readCache st2 = readCache st" "writeCache st2 = writeCache st"
    using assms(1,3) by (simp_all add: st2_def st1_def acc_inv_def)
  obtain ur rem' where up: "da_upload (ada E) key ?d (orgheaders ent) (remote st) = (ur, rem')" by force
  have L: "(cachelib_roomy (rcl E) ri \<longrightarrow> ?fc \<noteq> None) \<and> (\<forall>rs js buf st4. ?fc = Some (rs, js, buf, st4) \<longrightarrow>
      (\<forall>r \<in> set rs. r = SUCCESS) \<and> length buf = ?n \<and> (\<forall>i < ?n. buf ! i = (if 0 \<le> i then seen ?F rem i else fresh_mem E ?n ! i)) \<and>
      acc_inv E wi ri st4 \<and> remote st4 = remote st2 \<and> acfg st4 = acfg st2 \<and> fileLock st4 = fileLock st2 \<and>
      wc_locks (writeCache st4) = wc_locks (writeCache st2) \<and>
      pagesList (wc_pages (writeCache st4)) = pagesList (wc_pages (writeCache st2)))"
    by (rule flush_chunks_local [where ?st0.0 = st, OF _ assms(6) keep(1,2,3)]) (use assms keep in simp_all)
  have eq: "Acc_Flush E key st = do {
      (res, buf, st) \<leftarrow> flush_read E key SUCCESS ?n (orgheaders ent) st2;
      let (res, st) = flush_upload E key res (orgheaders ent) buf st;
      flush_finish E key res ?n buf st }"
    using assms(2,3) True
    by (cases "?n \<ge> 10737418240") (simp_all add: Acc_Flush_def file_lock_exclusive_def st2_def st1_def Let_def)
  show ?thesis
  proof (cases ?fc)
    case None
    then show ?thesis using L by (simp add: eq flush_read_def Let_def)
  next
    case (Some x)
    then obtain rs js buf st4 where fc: "?fc = Some (rs, js, buf, st4)" by (cases x) auto
    with L have R: "\<forall>r \<in> set rs. r = SUCCESS" "length buf = ?n" "\<forall>i < ?n. buf ! i = seen ?F rem i" "acc_inv E wi ri st4"
      "remote st4 = remote st" "\<not> UseGlobalCache (acfg st4)" "wc_locks (writeCache st4) = wc_locks (writeCache st)"
      "pagesList (wc_pages (writeCache st4)) = pagesList (wc_pages (writeCache st))"
      using keep by auto
    have buf: "buf = ?d" using R(2,3) by (intro nth_equalityI) auto
    have fin: "Acc_Flush E key st = flush_finish E key ur ?n buf (st4\<lparr>remote := rem'\<rparr>)"
      using fc R(5,6) keep(2) last_error_success [OF R(1)] up
      by (simp add: eq flush_read_def flush_upload_def Let_def buf)
    have "acc_inv E wi ri (st4\<lparr>remote := rem'\<rparr>)" using R(4) by (simp add: acc_inv_def)
    from flush_finish_total [OF this, of key ur ?n buf] flush_finish_law [of E key ur ?n buf "st4\<lparr>remote := rem'\<rparr>"]
    show ?thesis unfolding fin using R(7,8) up by auto
  qed
qed

subsection \<open>A small instance\<close>

text \<open>One remote file, kept as its bytes; bytes beyond its end read as 0.\<close>

definition file_byte :: "bytes \<Rightarrow> nat \<Rightarrow> byte" where
  "file_byte r i = (if i < length r then r ! i else 0)"

definition demo_ada :: "bytes data_adaptor" where
  "demo_ada = \<lparr>
     da_download = (\<lambda>r key off n buf. (SUCCESS, map (\<lambda>i. file_byte r (off + i)) [0..<length buf])),
     da_upload = (\<lambda>key data hs r. (SUCCESS, data)), da_delete = (\<lambda>key r. (SUCCESS, [])),
     da_deepflush = (\<lambda>key r. (SUCCESS, r)), da_head = (\<lambda>key r. (SUCCESS, length r, [], r)),
     da_upload_part = (\<lambda>key off data hs r. (SUCCESS, [], r)), da_completed = (\<lambda>key js n r. (SUCCESS, r)),
     s3_head = (\<lambda>key r. (SUCCESS, r)), s3_upload = (\<lambda>key data hs r. (SUCCESS, data))\<rparr>"

definition demo_env :: "((key \<rightharpoonup> bytes), (key \<rightharpoonup> bytes), unit, bytes) acc_env" where
  "demo_env = \<lparr>wcl = map_cachelib, rcl = map_cachelib, dig = demo_digest, tbs = demo_tb, ada = demo_ada,
     write_chunk_size = 2, fresh_mem = (\<lambda>n. replicate n 77)\<rparr>"

definition demo_cfg :: HybridCacheConfig where
  "demo_cfg = \<lparr>ReadCacheCfg = rc_cfg empty_rc, WriteCacheCfg = wc_cfg empty_wc,
     GlobalCacheCfg = \<lparr>EnableWriteCache = False, EtcdAddress = [], GlobalServers = [], GflagFile = []\<rparr>,
     ThreadNum = 1, BackFlushCacheRatio = 40, UploadNormalFlowLimit = 1, UploadBurstFlowLimit = 1, LogPath = [],
     LogLevel = 1, EnableLog = False, UseGlobalCache = False, FlushToRead = False, CleanCacheByOpen = False,
     EnableResize = False, EnableLinUCB = False\<rparr>"

definition demo_acc :: "((key \<rightharpoonup> bytes), (key \<rightharpoonup> bytes), unit, bytes) accessor" where
  "demo_acc = \<lparr>acfg = demo_cfg, writeCache = empty_wc, readCache = empty_rc, fileLock = Map.empty,
     ents = [''f'' \<mapsto> \<lparr>realsize = 4, update_mark = False, orgheaders = []\<rparr>], remote = [10, 11, 12, 13],
     stopLinUCB = False, writeCount = 0, readCount = 0, writeByteAcc = 0, readByteAcc = 0, writeCacheSize = 1000\<rparr>"

lemma demo_env_simps [simp]:
  "wcl demo_env = map_cachelib" "rcl demo_env = map_cachelib" "dig demo_env = demo_digest" "tbs demo_env = demo_tb"
  "ada demo_env = demo_ada" "write_chunk_size demo_env = 2" "fresh_mem demo_env n = replicate n 77"
  by (simp_all add: demo_env_def)

lemma demo_acc_simps [simp]:
  "acfg demo_acc = demo_cfg" "writeCache demo_acc = empty_wc" "readCache demo_acc = empty_rc"
  "fileLock demo_acc = Map.empty" "remote demo_acc = [10, 11, 12, 13]" "UseGlobalCache demo_cfg = False"
  by (simp_all add: demo_acc_def demo_cfg_def)

lemma demo_acc_inv: "acc_inv demo_env id id demo_acc"
  by (simp add: acc_inv_def empty_wc_inv empty_rc_inv)

lemma demo_serves: "adaptor_serves (da_download demo_ada r) key (file_byte r) a n"
  by (simp add: adaptor_serves_def demo_ada_def)

lemma demo_coherent: "coherent (rc_file id digest empty_rc key) rem"
  by (simp add: coherent_def empty_rc_file)

lemma demo_wc_put: "\<exists>st'. WC_Put map_cachelib d tb now key start buf empty_wc = Some (SUCCESS, st')"
  by (rule WC_Put_total [OF empty_wc_inv map_cachelib_laws(2)]) (simp add: empty_wc_def)

lemma demo_get:
  assumes "acc_inv demo_env id id st" and "len \<le> length buf"
  obtains r buf' st' where "Acc_Get demo_env key start len buf st = Some (r, buf', st')"
proof -
  have "\<exists>x. Acc_Get demo_env key start len buf st = Some x"
    by (rule Acc_Get_total [OF assms, where rem = "file_byte (remote st)"])
       (simp_all add: gaps_served_all demo_serves map_cachelib_laws)
  then show thesis using that by auto
qed

lemma demo_put:
  obtains r st1 where "Acc_Put demo_env 5 ''f'' 2 [1, 2, 3] demo_acc = Some (r, st1)"
proof -
  obtain wc where "WC_Put map_cachelib demo_digest demo_tb 5 ''f'' 2 [1, 2, 3] empty_wc = Some (SUCCESS, wc)"
    using demo_wc_put by blast
  moreover have "\<not> IsWriteCacheFull (Suc (Suc (Suc 0))) demo_acc"
    by (simp add: IsWriteCacheFull_def demo_acc_def demo_cfg_def WC_GetCacheSize_def WC_GetCacheMaxSize_def
        Page_GetCacheSize_def Page_GetCacheMaxSize_def empty_wc_def empty_pc_def small_cfg_def)
  ultimately have "\<exists>x. Acc_Put demo_env 5 ''f'' 2 [1, 2, 3] demo_acc = Some x"
    by (simp add: Acc_Put_def Let_def file_lock_shared_def lock_value_def demo_cfg_def)
  then show thesis using that by auto
qed

theorem Acc_Get_sees_witness:
  "\<exists>buf' st'. Acc_Get demo_env ''f'' 1 3 (replicate 3 0) demo_acc = Some (SUCCESS, buf', st') \<and> buf' ! 2 = 13"
proof -
  obtain r buf' st' where g: "Acc_Get demo_env ''f'' 1 3 (replicate 3 0) demo_acc = Some (r, buf', st')"
    by (rule demo_get [OF demo_acc_inv, of 3 "replicate 3 0"]) simp
  have "r = SUCCESS \<and> buf' ! 2 = 13"
    using Acc_Get_sees [OF demo_acc_inv _ _ _ g, of "file_byte [10, 11, 12, 13]"] demo_serves demo_coherent
    by (simp add: empty_wc_file seen_def file_byte_def)
  with g show ?thesis by auto
qed


theorem Acc_Flush_uploads_witness:
  "\<exists>st1 st'. Acc_Put demo_env 5 ''f'' 2 [1, 2, 3] demo_acc = Some (SUCCESS, st1) \<and>
     Acc_Flush demo_env ''f'' st1 = Some (SUCCESS, st') \<and> remote st' = [10, 11, 1, 2, 3]"
proof -
  obtain r st1 where p: "Acc_Put demo_env 5 ''f'' 2 [1, 2, 3] demo_acc = Some (r, st1)" by (rule demo_put)
  note P = Acc_Put_law [OF demo_acc_inv p]
  have e: "ents demo_acc ''f'' = Some \<lparr>realsize = 4, update_mark = False, orgheaders = []\<rparr>" by (simp add: demo_acc_def)
  obtain wc where w: "WC_Put map_cachelib demo_digest demo_tb 5 ''f'' 2 [1, 2, 3] empty_wc = Some (SUCCESS, wc)"
    using demo_wc_put by blast
  have st1: "r = SUCCESS" "writeCache st1 = wc" "remote st1 = [10, 11, 12, 13]" "acfg st1 = demo_cfg" "lock_value ''f'' st1 = 0"
    "readCache st1 = empty_rc" "ents st1 ''f'' = Some (UpdateRealsize 5 \<lparr>realsize = 4, update_mark = False, orgheaders = []\<rparr>)"
    using p w e by (auto simp: Acc_Put_def Let_def file_lock_shared_def lock_value_def file_unlock_shared_def split: if_splits)
  define ent where "ent = UpdateRealsize 5 \<lparr>realsize = 4, update_mark = False, orgheaders = []\<rparr>"
  have ent: "realsize ent = 5" "orgheaders ent = []" by (simp_all add: ent_def UpdateRealsize_def)
  have F: "wc_file id demo_digest wc ''f'' = overlay Map.empty 2 [1, 2, 3]"
    using P map_cachelib_laws(2) by (auto simp: st1 empty_wc_file dest: agrees_roomy)
  have nm: "page_names demo_digest ''_W'' (pagesList (wc_pages wc)) \<and> wc_locks wc = wc_locks empty_wc"
    by (rule wc_put_names [OF empty_wc_inv _ _ w])
      (simp_all add: empty_wc_def empty_pc_def page_names_def page_stem_def PAGE_SEPARATOR_def)
  then have locks: "''f'' \<notin> set (wc_locks wc)" by (simp add: empty_wc_def)
  have data: "map (seen (wc_file id demo_digest wc ''f'') (file_byte [10, 11, 12, 13])) [0..<5] = [10, 11, 1, 2, 3]"
    unfolding F by (simp add: overlay_def seen_def file_byte_def upt_conv_Cons)
  have coh: "coherent (rc_file id (dig demo_env) (readCache st1) ''f'') (file_byte [10, 11, 12, 13])"
    by (simp add: st1 demo_coherent)
  have "(\<forall>r st'. Acc_Flush demo_env ''f'' st1 = Some (r, st') \<longrightarrow>
      (r, remote st') = da_upload (ada demo_env) ''f''
        (map (seen (wc_file id (dig demo_env) (writeCache st1) ''f'') (file_byte [10, 11, 12, 13])) [0..<realsize ent])
        (orgheaders ent) (remote st1) \<and> fileLock st' ''f'' = None) \<and>
    (lock_value ''f'' st1 = 0 \<and> ''f'' \<notin> set (wc_locks (writeCache st1)) \<and> cachelib_roomy (rcl demo_env) id \<and>
     page_names (dig demo_env) ''_W'' (pagesList (wc_pages (writeCache st1))) \<longrightarrow> Acc_Flush demo_env ''f'' st1 \<noteq> None)"
    by (rule Acc_Flush_uploads [OF _ _ _ _ _ _ coh])
      (use P in \<open>simp_all add: st1 ent_def [symmetric] gaps_served_all demo_serves\<close>)
  then have "(\<forall>r st'. Acc_Flush demo_env ''f'' st1 = Some (r, st') \<longrightarrow> (r, remote st') = (SUCCESS, [10, 11, 1, 2, 3])) \<and>
      Acc_Flush demo_env ''f'' st1 \<noteq> None"
    using nm locks data ent map_cachelib_laws(2) by (simp add: st1 demo_ada_def)
  then show ?thesis using p st1(1) by (cases "Acc_Flush demo_env ''f'' st1") auto
qed

lemma RC_Delete_law:
  assumes "rc_inv cl items st" and "page_names digest ''_R'' (pagesList (rc_pages st))" and "length key \<le> 200"
  shows "\<exists>st'. RC_Delete cl digest key st = Some (SUCCESS, st') \<and> rc_pages st' = rc_pages st \<and>
    (\<forall>key'. rc_file items digest st' key' = rc_file items digest st key')"
proof -
  have srt: "sorted (pagesList (rc_pages st))" using assms(1) by (simp add: rc_inv_def pc_inv_def)
  have ns: "PAGE_SEPARATOR \<notin> set ''_R''" by (simp add: PAGE_SEPARATOR_def)
  note stop = delete_loop_stops [OF assms(2) srt assms(3) refl ns, of cl 0 0]
  show ?thesis using stop by (auto simp: RC_Delete_def Let_def rc_file_def)
qed

text \<open>
  \<^verbatim>\<open>Delete\<close> of the accessor removes the remote file and forgets the lock, and reports what the
  adaptor reported, but for a key of at most 200 characters every cached byte of the file stays, in the
  write cache and in the read cache: a file created again under the name shows the old data.
\<close>

theorem Acc_Delete_keeps_data:
  assumes "acc_inv E wi ri st" and "lock_value key st = 0" and "key \<notin> set (wc_locks (writeCache st))"
    and "page_names (dig E) ''_W'' (pagesList (wc_pages (writeCache st)))"
    and "page_names (dig E) ''_R'' (pagesList (rc_pages (readCache st)))" and "length key \<le> 200"
  shows "\<exists>r st'. Acc_Delete E key st = Some (r, st') \<and> (r, remote st') = da_delete (ada E) key (remote st) \<and>
    fileLock st' key = None \<and> ents st' = ents st \<and>
    wc_file wi (dig E) (writeCache st') key = wc_file wi (dig E) (writeCache st) key \<and>
    rc_file ri (dig E) (readCache st') key = rc_file ri (dig E) (readCache st) key"
proof -
  have inv: "wc_inv (wcl E) wi (writeCache st)" "rc_inv (rcl E) ri (readCache st)"
    using assms(1) by (auto simp: acc_inv_def)
  obtain wc where wc: "WC_Delete (wcl E) (dig E) key False (writeCache st) = Some (SUCCESS, wc)"
      "wc_file wi (dig E) wc key = wc_file wi (dig E) (writeCache st) key"
    using WC_Delete_law [OF inv(1) assms(4,6,3)] by blast
  obtain rc where rc: "RC_Delete (rcl E) (dig E) key (readCache st) = Some (SUCCESS, rc)"
      "rc_file ri (dig E) rc key = rc_file ri (dig E) (readCache st) key"
    using RC_Delete_law [OF inv(2) assms(5,6)] by blast
  obtain r rem where "da_delete (ada E) key (remote st) = (r, rem)" by force
  then show ?thesis using assms(2) wc rc
    by (simp add: Acc_Delete_def file_lock_exclusive_def Let_def)
qed

theorem Acc_Delete_keeps_data_witness:
  "\<exists>st'. Acc_Delete demo_env ''f'' demo_acc = Some (SUCCESS, st') \<and> remote st' = []"
  using Acc_Delete_keeps_data [OF demo_acc_inv, of "''f''"]
  by (auto simp: lock_value_def demo_ada_def empty_wc_def empty_rc_def empty_pc_def page_names_def)

end
