(* ===== verification/Config.thy ===== *)
theory Config
  imports Local_Config "HOL-Library.Monad_Syntax"
begin

section \<open>Reading the configuration (\<^verbatim>\<open>local_cache/config.cpp\<close>)\<close>

text \<open>
  \<^verbatim>\<open>Configuration\<close> as a list of lines turned into a map of strings, the typed look-ups, and the
  assembly of the configuration structures.  \<open>None\<close> is \<^verbatim>\<open>LOG(FATAL)\<close>, which ends the process.
\<close>

type_synonym configuration = "string \<rightharpoonup> string"

text \<open>\<^verbatim>\<open>isspace\<close> in the C locale.\<close>

definition isspace :: "char \<Rightarrow> bool" where
  "isspace c = (c \<in> set [CHR '' '', CHR 0x09, CHR 0x0A, CHR 0x0B, CHR 0x0C, CHR 0x0D])"

text \<open>\<^verbatim>\<open>int pos = s.find(c)\<close>: -1 when there is none.\<close>

fun find_from :: "int \<Rightarrow> char \<Rightarrow> string \<Rightarrow> int" where
  "find_from i c [] = -1"
| "find_from i c (x # xs) = (if x = c then i else find_from (i + 1) c xs)"

definition find_char :: "char \<Rightarrow> string \<Rightarrow> int" where
  "find_char c s = find_from 0 c s"

text \<open>\<^verbatim>\<open>substr(pos, n)\<close>: a negative count is a huge unsigned one.\<close>

definition substr :: "string \<Rightarrow> int \<Rightarrow> int \<Rightarrow> string" where
  "substr s pos n = (let t = drop (nat pos) s in if n < 0 then t else take (nat n) t)"

definition load_line :: "string \<Rightarrow> configuration \<Rightarrow> configuration" where
  "load_line line config =
     (let line = filter (\<lambda>c. \<not> isspace c) line
      in if line = [] \<or> hd line = CHR ''#'' then config
         else let delimiterPos = find_char CHR ''='' line;
                  key = substr line 0 delimiterPos;
                  commentPos = find_char CHR ''#'' line;
                  value = substr line (delimiterPos + 1) (commentPos - delimiterPos - 1)
              in config(key \<mapsto> value))"

definition LoadConfig :: "string list \<Rightarrow> configuration" where
  "LoadConfig ls = fold load_line ls Map.empty"

subsection \<open>Typed values\<close>

text \<open>
  \<^verbatim>\<open>stream >> value\<close>.  An unsigned number is read from its leading digits, after a sign, a minus
  wrapping around; text without digits gives 0 and a number that does not fit the largest one.  A
  string is what it is, except that an empty text leaves the old value.  A bool is 0, 1 or an error
  that stores true.
\<close>

definition read_uint :: "nat \<Rightarrow> string \<Rightarrow> nat" where
  "read_uint w s =
     (let (neg, ds) = (if s \<noteq> [] \<and> hd s = CHR ''-'' then (True, tl s)
                       else if s \<noteq> [] \<and> hd s = CHR ''+'' then (False, tl s) else (False, s));
          n = read_nat ds
      in if n \<ge> 2 ^ w then 2 ^ w - 1 else if neg then (2 ^ w - n) mod 2 ^ w else n)"

definition read_bool :: "string \<Rightarrow> bool" where
  "read_bool s = (read_uint 64 s \<noteq> 0)"

text \<open>
  The look-up of a key, with the reader of the type and the value the variable has now: an empty text fails
  before anything is stored.
\<close>

definition GetValueFatalIfFail :: "configuration \<Rightarrow> (string \<Rightarrow> 'a) \<Rightarrow> string \<Rightarrow> 'a \<Rightarrow> 'a option" where
  "GetValueFatalIfFail config rd key old = map_option (\<lambda>s. if s = [] then old else rd s) (config key)"

definition get_uint :: "configuration \<Rightarrow> nat \<Rightarrow> string \<Rightarrow> nat \<Rightarrow> nat option" where
  "get_uint config w = GetValueFatalIfFail config (read_uint w)"

definition get_bool :: "configuration \<Rightarrow> string \<Rightarrow> bool \<Rightarrow> bool option" where
  "get_bool config = GetValueFatalIfFail config read_bool"

definition get_string :: "configuration \<Rightarrow> string \<Rightarrow> string \<Rightarrow> string option" where
  "get_string config = GetValueFatalIfFail config (\<lambda>s. s)"

definition SplitString :: "string \<Rightarrow> string list" where
  "SplitString input = getlines CHR '','' input"

subsection \<open>Assembly\<close>

text \<open>
  The structure to fill is the caller's: what no key is read for (the flash tier of the write cache, and of the
  read cache and the global cache what is not asked for) stays as it is.
\<close>

definition get_cache_cfg :: "configuration \<Rightarrow> string \<Rightarrow> CacheConfig \<Rightarrow> CacheConfig option" where
  "get_cache_cfg conf p c = do {
     name \<leftarrow> get_string conf (p @ ''CacheName'') (CacheName c);
     msize \<leftarrow> get_uint conf 64 (p @ ''MaxCacheSize'') (MaxCacheSize c);
     body \<leftarrow> get_uint conf 32 (p @ ''PageBodySize'') (PageBodySize c);
     meta \<leftarrow> get_uint conf 32 (p @ ''PageMetaSize'') (PageMetaSize c);
     cas \<leftarrow> get_bool conf (p @ ''EnableCAS'') (EnableCAS c);
     safe \<leftarrow> get_bool conf (p @ ''SafeMode'') (SafeMode c);
     Some (c\<lparr>CacheName := name, MaxCacheSize := msize, PageBodySize := body, PageMetaSize := meta,
       EnableCAS := cas, SafeMode := safe\<rparr>)
   }"

definition get_nvm :: "configuration \<Rightarrow> string \<Rightarrow> CacheLibConfig \<Rightarrow> CacheLibConfig option" where
  "get_nvm conf p lib = do {
     nvm \<leftarrow> get_bool conf (p @ ''EnableNvmCache'') (EnableNvmCache lib);
     if nvm
     then do {
       path \<leftarrow> get_string conf (p @ ''RaidPath'') (RaidPath lib);
       num \<leftarrow> get_uint conf 64 (p @ ''RaidFileNum'') (RaidFileNum lib);
       sz \<leftarrow> get_uint conf 64 (p @ ''RaidFileSize'') (RaidFileSize lib);
       chk \<leftarrow> get_bool conf (p @ ''DataChecksum'') (DataChecksum lib);
       Some \<lparr>EnableNvmCache = nvm, RaidPath = path, RaidFileNum = num, RaidFileSize = sz, DataChecksum = chk\<rparr>
     }
     else Some (lib\<lparr>EnableNvmCache := nvm\<rparr>)
   }"

definition get_global :: "configuration \<Rightarrow> string \<Rightarrow> GlobalCacheConfig \<Rightarrow> GlobalCacheConfig option" where
  "get_global conf p g = do {
     wr \<leftarrow> get_bool conf (p @ ''EnableWriteCache'') (EnableWriteCache g);
     etcd \<leftarrow> get_string conf (p @ ''EtcdAddress'') (EtcdAddress g);
     servers \<leftarrow> get_string conf (p @ ''GlobalServers'') [];
     flags \<leftarrow> get_string conf (p @ ''GflagFile'') (GflagFile g);
     Some \<lparr>EnableWriteCache = wr, EtcdAddress = etcd, GlobalServers = SplitString servers, GflagFile = flags\<rparr>
   }"

definition get_all :: "configuration \<Rightarrow> HybridCacheConfig \<Rightarrow> HybridCacheConfig option" where
  "get_all conf cfg = (let r = ReadCacheCfg cfg; w = WriteCacheCfg cfg in do {
     rcache \<leftarrow> get_cache_cfg conf ''ReadCacheConfig.CacheConfig.'' (ReadCacheCfg_CacheCfg r);
     nvm \<leftarrow> get_nvm conf ''ReadCacheConfig.CacheConfig.CacheLibConfig.'' (CacheLibCfg rcache);
     dn \<leftarrow> get_uint conf 64 ''ReadCacheConfig.DownloadNormalFlowLimit'' (DownloadNormalFlowLimit r);
     db \<leftarrow> get_uint conf 64 ''ReadCacheConfig.DownloadBurstFlowLimit'' (DownloadBurstFlowLimit r);
     wcache \<leftarrow> get_cache_cfg conf ''WriteCacheConfig.CacheConfig.'' (WriteCacheCfg_CacheCfg w);
     safe \<leftarrow> get_uint conf 32 ''WriteCacheConfig.CacheSafeRatio'' (CacheSafeRatio w);
     thr \<leftarrow> get_bool conf ''WriteCacheConfig.EnableThrottle'' (EnableThrottle w);
     use \<leftarrow> get_bool conf ''UseGlobalCache'' (UseGlobalCache cfg);
     global \<leftarrow> (if use then get_global conf ''GlobalCacheConfig.'' (GlobalCacheCfg cfg) else Some (GlobalCacheCfg cfg));
     threads \<leftarrow> get_uint conf 32 ''ThreadNum'' (ThreadNum cfg);
     ratio \<leftarrow> get_uint conf 32 ''BackFlushCacheRatio'' (BackFlushCacheRatio cfg);
     un \<leftarrow> get_uint conf 64 ''UploadNormalFlowLimit'' (UploadNormalFlowLimit cfg);
     ub \<leftarrow> get_uint conf 64 ''UploadBurstFlowLimit'' (UploadBurstFlowLimit cfg);
     logpath \<leftarrow> get_string conf ''LogPath'' (LogPath cfg);
     level \<leftarrow> get_uint conf 32 ''LogLevel'' (LogLevel cfg);
     elog \<leftarrow> get_bool conf ''EnableLog'' (EnableLog cfg);
     f2r \<leftarrow> get_bool conf ''FlushToRead'' (FlushToRead cfg);
     clean \<leftarrow> get_bool conf ''CleanCacheByOpen'' (CleanCacheByOpen cfg);
     resize \<leftarrow> get_bool conf ''EnableResize'' (EnableResize cfg);
     linucb \<leftarrow> get_bool conf ''EnableLinUCB'' (EnableLinUCB cfg);
     Some \<lparr>
       ReadCacheCfg = \<lparr>ReadCacheCfg_CacheCfg = rcache\<lparr>CacheLibCfg := nvm\<rparr>,
         DownloadNormalFlowLimit = dn, DownloadBurstFlowLimit = db\<rparr>,
       WriteCacheCfg = \<lparr>WriteCacheCfg_CacheCfg = wcache, CacheSafeRatio = safe, EnableThrottle = thr\<rparr>,
       GlobalCacheCfg = global, ThreadNum = threads, BackFlushCacheRatio = ratio,
       UploadNormalFlowLimit = un, UploadBurstFlowLimit = ub, LogPath = logpath, LogLevel = level,
       EnableLog = elog, UseGlobalCache = use, FlushToRead = f2r, CleanCacheByOpen = clean,
       EnableResize = resize, EnableLinUCB = linucb\<rparr>
   })"

text \<open>The file is its lines, or \<open>None\<close> when it cannot be opened; then nothing is read and the result is false.\<close>

definition GetHybridCacheConfig :: "string list option \<Rightarrow> HybridCacheConfig \<Rightarrow> (bool \<times> HybridCacheConfig) option" where
  "GetHybridCacheConfig file cfg =
     (case file of
        None \<Rightarrow> Some (False, cfg)
      | Some ls \<Rightarrow> do {
          cfg \<leftarrow> get_all (LoadConfig ls) cfg;
          if CheckConfig cfg then Some (True, cfg) else None
        })"

subsection \<open>Writing a configuration and reading it back\<close>

text \<open>A line \<^verbatim>\<open>key = value # comment\<close>, with any blanks.\<close>

definition config_line :: "string \<times> string \<Rightarrow> string" where
  "config_line kv = fst kv @ '' = '' @ snd kv @ '' # '' @ ''set by the operator''"

definition config_key :: "string \<Rightarrow> bool" where
  "config_key s = (s \<noteq> [] \<and> (\<forall>c \<in> set s. \<not> isspace c \<and> c \<noteq> CHR ''='' \<and> c \<noteq> CHR ''#''))"

definition config_text :: "string \<Rightarrow> bool" where
  "config_text s = (\<forall>c \<in> set s. \<not> isspace c \<and> c \<noteq> CHR ''#'')"

lemma find_from_append: "c \<notin> set xs \<Longrightarrow> find_from i c (xs @ c # ys) = i + int (length xs)"
  by (induction xs arbitrary: i) auto

lemma find_char_at: "c \<notin> set xs \<Longrightarrow> find_char c (xs @ c # ys) = int (length xs)"
  by (simp add: find_char_def find_from_append)

lemma strip_blanks:
  "filter (\<lambda>c. \<not> isspace c) '' = '' = ''=''" "filter (\<lambda>c. \<not> isspace c) '' # '' = ''#''"
  "filter (\<lambda>c. \<not> isspace c) ''set by the operator'' = ''setbytheoperator''"
  by code_simp+

lemma load_config_line:
  assumes k: "config_key k" and v: "config_text v"
  shows "load_line (config_line (k, v)) conf = conf(k \<mapsto> v)"
proof -
  define rest where "rest = ''setbytheoperator''"
  have "filter (\<lambda>c. \<not> isspace c) k = k" "filter (\<lambda>c. \<not> isspace c) v = v"
    using k v by (auto simp: config_key_def config_text_def intro: filter_True)
  then have line: "filter (\<lambda>c. \<not> isspace c) (config_line (k, v)) = k @ CHR ''='' # v @ CHR ''#'' # rest"
    unfolding config_line_def fst_conv snd_conv filter_append strip_blanks by (simp add: rest_def)
  have nk: "CHR ''='' \<notin> set k" "CHR ''#'' \<notin> set k" "CHR ''#'' \<notin> set v" and ne: "k \<noteq> []"
    using k v unfolding config_key_def config_text_def by blast+
  have eq: "find_char CHR ''='' (k @ CHR ''='' # v @ CHR ''#'' # rest) = int (length k)"
    by (rule find_char_at [OF nk(1)])
  have "CHR ''#'' \<notin> set (k @ CHR ''='' # v)" using nk by simp
  from find_char_at [OF this, of rest]
  have cm: "find_char CHR ''#'' (k @ CHR ''='' # v @ CHR ''#'' # rest) = int (length k) + 1 + int (length v)" by simp
  have hd: "hd (k @ CHR ''='' # v @ CHR ''#'' # rest) \<noteq> CHR ''#''"
    using nk(2) ne by (cases k) auto
  have drop: "drop (nat (int (length k) + 1)) (k @ CHR ''='' # v @ CHR ''#'' # rest) = v @ CHR ''#'' # rest"
    by (simp add: nat_add_distrib)
  have "load_line (config_line (k, v)) conf =
      conf(substr (k @ CHR ''='' # v @ CHR ''#'' # rest) 0 (int (length k)) \<mapsto>
        substr (k @ CHR ''='' # v @ CHR ''#'' # rest) (int (length k) + 1) (int (length v)))"
    using hd by (simp only: load_line_def Let_def line eq cm) (simp add: algebra_simps)
  also have "substr (k @ CHR ''='' # v @ CHR ''#'' # rest) 0 (int (length k)) = k" by (simp add: substr_def)
  also have "substr (k @ CHR ''='' # v @ CHR ''#'' # rest) (int (length k) + 1) (int (length v)) = v"
    by (simp only: substr_def Let_def drop) simp
  finally show ?thesis .
qed

lemma LoadConfig_lines:
  assumes "\<forall>(k, v) \<in> set kvs. config_key k \<and> config_text v"
  shows "LoadConfig (map config_line kvs) = map_of (rev kvs)"
proof -
  have "fold load_line (map config_line kvs) conf = conf ++ map_of (rev kvs)" for conf
    using assms
  proof (induction kvs arbitrary: conf)
    case (Cons kv kvs)
    obtain k v where kv: "kv = (k, v)" by (cases kv)
    with Cons.prems have "load_line (config_line kv) conf = conf(k \<mapsto> v)" by (simp add: load_config_line)
    with Cons kv show ?case by (simp add: map_add_assoc [symmetric])
  qed simp
  then show ?thesis by (simp add: LoadConfig_def)
qed

subsection \<open>Properties\<close>

text \<open>
  A configuration file written as lines \<^verbatim>\<open>key = value # comment\<close> is read back as written: blanks and
  comments are dropped, every key gets its value, and when a key is set twice the last line counts.
\<close>

theorem LoadConfig_roundtrip:
  assumes "\<forall>(k, v) \<in> set kvs. config_key k \<and> config_text v"
  shows "LoadConfig (map config_line kvs) = map_of (rev kvs)"
  by (rule LoadConfig_lines [OF assms])

theorem LoadConfig_roundtrip_witness:
  "LoadConfig (map config_line [(''ThreadNum'', ''48''), (''LogPath'', ''.''), (''ThreadNum'', ''16'')]) ''ThreadNum'' = Some ''16''"
proof -
  have "\<forall>(k, v) \<in> set [(''ThreadNum'', ''48''), (''LogPath'', ''.''), (''ThreadNum'', ''16'')]. config_key k \<and> config_text v"
    by (simp add: config_key_def config_text_def isspace_def)
  from LoadConfig_roundtrip [OF this] show ?thesis by simp
qed

subsection \<open>The file of a configuration\<close>

text \<open>What an operator writes for a configuration: one line for every key that is asked for.\<close>

definition show_bool :: "bool \<Rightarrow> string" where
  "show_bool b = (if b then ''1'' else ''0'')"

definition join_servers :: "string list \<Rightarrow> string" where
  "join_servers xs = (case xs of [] \<Rightarrow> [] | x # xs \<Rightarrow> x @ concat (map ((#) CHR '','') xs))"

definition cache_pairs :: "string \<Rightarrow> CacheConfig \<Rightarrow> (string \<times> string) list" where
  "cache_pairs p c =
     [(p @ ''CacheName'', CacheName c), (p @ ''MaxCacheSize'', to_string (MaxCacheSize c)),
      (p @ ''PageBodySize'', to_string (PageBodySize c)), (p @ ''PageMetaSize'', to_string (PageMetaSize c)),
      (p @ ''EnableCAS'', show_bool (EnableCAS c)), (p @ ''SafeMode'', show_bool (SafeMode c))]"

definition nvm_pairs :: "string \<Rightarrow> CacheLibConfig \<Rightarrow> (string \<times> string) list" where
  "nvm_pairs p l = (p @ ''EnableNvmCache'', show_bool (EnableNvmCache l)) #
     (if EnableNvmCache l
      then [(p @ ''RaidPath'', RaidPath l), (p @ ''RaidFileNum'', to_string (RaidFileNum l)),
            (p @ ''RaidFileSize'', to_string (RaidFileSize l)), (p @ ''DataChecksum'', show_bool (DataChecksum l))]
      else [])"

definition global_pairs :: "string \<Rightarrow> GlobalCacheConfig \<Rightarrow> (string \<times> string) list" where
  "global_pairs p g =
     [(p @ ''EnableWriteCache'', show_bool (EnableWriteCache g)), (p @ ''EtcdAddress'', EtcdAddress g),
      (p @ ''GlobalServers'', join_servers (GlobalServers g)), (p @ ''GflagFile'', GflagFile g)]"

definition config_pairs :: "HybridCacheConfig \<Rightarrow> (string \<times> string) list" where
  "config_pairs cfg = (let r = ReadCacheCfg cfg; w = WriteCacheCfg cfg in
     cache_pairs ''ReadCacheConfig.CacheConfig.'' (ReadCacheCfg_CacheCfg r) @
     nvm_pairs ''ReadCacheConfig.CacheConfig.CacheLibConfig.'' (CacheLibCfg (ReadCacheCfg_CacheCfg r)) @
     [(''ReadCacheConfig.DownloadNormalFlowLimit'', to_string (DownloadNormalFlowLimit r)),
      (''ReadCacheConfig.DownloadBurstFlowLimit'', to_string (DownloadBurstFlowLimit r))] @
     cache_pairs ''WriteCacheConfig.CacheConfig.'' (WriteCacheCfg_CacheCfg w) @
     [(''WriteCacheConfig.CacheSafeRatio'', to_string (CacheSafeRatio w)),
      (''WriteCacheConfig.EnableThrottle'', show_bool (EnableThrottle w)),
      (''UseGlobalCache'', show_bool (UseGlobalCache cfg))] @
     (if UseGlobalCache cfg then global_pairs ''GlobalCacheConfig.'' (GlobalCacheCfg cfg) else []) @
     [(''ThreadNum'', to_string (ThreadNum cfg)), (''BackFlushCacheRatio'', to_string (BackFlushCacheRatio cfg)),
      (''UploadNormalFlowLimit'', to_string (UploadNormalFlowLimit cfg)),
      (''UploadBurstFlowLimit'', to_string (UploadBurstFlowLimit cfg)),
      (''LogPath'', LogPath cfg), (''LogLevel'', to_string (LogLevel cfg)), (''EnableLog'', show_bool (EnableLog cfg)),
      (''FlushToRead'', show_bool (FlushToRead cfg)), (''CleanCacheByOpen'', show_bool (CleanCacheByOpen cfg)),
      (''EnableResize'', show_bool (EnableResize cfg)), (''EnableLinUCB'', show_bool (EnableLinUCB cfg))])"

text \<open>The keys, by whether the read cache has a flash tier and whether there is a global cache.\<close>

definition cache_keys :: "string list" where
  "cache_keys = [''CacheName'', ''MaxCacheSize'', ''PageBodySize'', ''PageMetaSize'', ''EnableCAS'', ''SafeMode'']"

definition config_keys :: "bool \<Rightarrow> bool \<Rightarrow> string list" where
  "config_keys nvm global =
     map ((@) ''ReadCacheConfig.CacheConfig.'') cache_keys @
     map ((@) ''ReadCacheConfig.CacheConfig.CacheLibConfig.'')
       (''EnableNvmCache'' # (if nvm then [''RaidPath'', ''RaidFileNum'', ''RaidFileSize'', ''DataChecksum''] else [])) @
     [''ReadCacheConfig.DownloadNormalFlowLimit'', ''ReadCacheConfig.DownloadBurstFlowLimit''] @
     map ((@) ''WriteCacheConfig.CacheConfig.'') cache_keys @
     [''WriteCacheConfig.CacheSafeRatio'', ''WriteCacheConfig.EnableThrottle'', ''UseGlobalCache''] @
     map ((@) ''GlobalCacheConfig.'')
       (if global then [''EnableWriteCache'', ''EtcdAddress'', ''GlobalServers'', ''GflagFile''] else []) @
     [''ThreadNum'', ''BackFlushCacheRatio'', ''UploadNormalFlowLimit'', ''UploadBurstFlowLimit'', ''LogPath'',
      ''LogLevel'', ''EnableLog'', ''FlushToRead'', ''CleanCacheByOpen'', ''EnableResize'', ''EnableLinUCB'']"

text \<open>
  A configuration that such a file can hold, for a caller's structure \<^verbatim>\<open>cfg0\<close>: numbers fit their types, texts have
  no blanks and no comment sign, an empty text is what the caller has already, and so is what no line is written for.
\<close>

definition text_ok :: "string \<Rightarrow> string \<Rightarrow> bool" where
  "text_ok old s = (config_text s \<and> (s = [] \<longrightarrow> old = []))"

definition cache_ok :: "CacheConfig \<Rightarrow> CacheConfig \<Rightarrow> bool" where
  "cache_ok c0 c = (text_ok (CacheName c0) (CacheName c) \<and> MaxCacheSize c < 2 ^ 64 \<and> PageBodySize c < 2 ^ 32 \<and>
     PageMetaSize c < 2 ^ 32)"

definition nvm_ok :: "CacheLibConfig \<Rightarrow> CacheLibConfig \<Rightarrow> bool" where
  "nvm_ok l0 l = (if EnableNvmCache l
     then text_ok (RaidPath l0) (RaidPath l) \<and> RaidFileNum l < 2 ^ 64 \<and> RaidFileSize l < 2 ^ 64
     else l = l0\<lparr>EnableNvmCache := False\<rparr>)"

definition global_ok :: "GlobalCacheConfig \<Rightarrow> GlobalCacheConfig \<Rightarrow> bool" where
  "global_ok g0 g = (text_ok (EtcdAddress g0) (EtcdAddress g) \<and> text_ok (GflagFile g0) (GflagFile g) \<and>
     (\<forall>s \<in> set (GlobalServers g). s \<noteq> [] \<and> config_text s \<and> CHR '','' \<notin> set s))"

definition config_ok :: "HybridCacheConfig \<Rightarrow> HybridCacheConfig \<Rightarrow> bool" where
  "config_ok cfg0 cfg = (let r0 = ReadCacheCfg cfg0; r = ReadCacheCfg cfg; w0 = WriteCacheCfg cfg0; w = WriteCacheCfg cfg in
     cache_ok (ReadCacheCfg_CacheCfg r0) (ReadCacheCfg_CacheCfg r) \<and>
     nvm_ok (CacheLibCfg (ReadCacheCfg_CacheCfg r0)) (CacheLibCfg (ReadCacheCfg_CacheCfg r)) \<and>
     DownloadNormalFlowLimit r < 2 ^ 64 \<and> DownloadBurstFlowLimit r < 2 ^ 64 \<and>
     cache_ok (WriteCacheCfg_CacheCfg w0) (WriteCacheCfg_CacheCfg w) \<and>
     CacheLibCfg (WriteCacheCfg_CacheCfg w) = CacheLibCfg (WriteCacheCfg_CacheCfg w0) \<and> CacheSafeRatio w < 2 ^ 32 \<and>
     (if UseGlobalCache cfg then global_ok (GlobalCacheCfg cfg0) (GlobalCacheCfg cfg)
      else GlobalCacheCfg cfg = GlobalCacheCfg cfg0) \<and>
     ThreadNum cfg < 2 ^ 32 \<and> BackFlushCacheRatio cfg < 2 ^ 32 \<and> UploadNormalFlowLimit cfg < 2 ^ 64 \<and>
     UploadBurstFlowLimit cfg < 2 ^ 64 \<and> text_ok (LogPath cfg0) (LogPath cfg) \<and> LogLevel cfg < 2 ^ 32)"

subsection \<open>Reading the values back\<close>

lemma digit_no_blank: "is_digit c \<Longrightarrow> \<not> isspace c \<and> c \<noteq> CHR ''#'' \<and> c \<noteq> CHR ''-'' \<and> c \<noteq> CHR ''+''"
  by (auto simp: is_digit_def isspace_def)

lemma read_uint_to_string:
  assumes "n < 2 ^ w"
  shows "read_uint w (to_string n) = n"
proof -
  obtain c cs where s: "to_string n = c # cs" by (cases "to_string n") auto
  then have "is_digit c" using to_string_digits [of c n] by simp
  then have "c \<noteq> CHR ''-''" "c \<noteq> CHR ''+''" using digit_no_blank by auto
  then have "read_uint w (c # cs) = (let n = read_nat (c # cs) in if n \<ge> 2 ^ w then 2 ^ w - 1 else n)"
    by (simp add: read_uint_def Let_def)
  then show ?thesis using assms read_to_string [of n] by (simp add: s)
qed

lemma config_text_intros [intro, simp]:
  "config_text (to_string n)" "config_text (show_bool b)" "text_ok old s \<Longrightarrow> config_text s"
  "(\<And>s. s \<in> set xs \<Longrightarrow> config_text s) \<Longrightarrow> config_text (join_servers xs)"
proof -
  show "config_text (to_string n)"
    using to_string_digits digit_no_blank by (fastforce simp: config_text_def)
  show "config_text (show_bool b)" by (simp add: config_text_def show_bool_def isspace_def)
  show "text_ok old s \<Longrightarrow> config_text s" by (simp add: text_ok_def)
  show "config_text (join_servers xs)" if "\<And>s. s \<in> set xs \<Longrightarrow> config_text s"
    using that by (cases xs) (auto simp: join_servers_def config_text_def isspace_def)
qed

lemma SplitString_join:
  assumes "\<forall>s \<in> set xs. s \<noteq> [] \<and> CHR '','' \<notin> set s"
  shows "SplitString (join_servers xs) = xs"
  using assms
proof (induction xs)
  case Nil
  then show ?case by (simp add: SplitString_def join_servers_def getlines_def)
next
  case (Cons x xs)
  show ?case
  proof (cases xs)
    case Nil
    then show ?thesis using Cons.prems by (simp add: SplitString_def join_servers_def getlines_one)
  next
    case (Cons y ys)
    then have "join_servers (x # xs) = x @ CHR '','' # join_servers xs" by (simp add: join_servers_def)
    then show ?thesis using Cons.prems Cons.IH by (simp add: SplitString_def getlines_split)
  qed
qed

lemma get_values [simp]:
  "conf k = Some (to_string n) \<Longrightarrow> n < 2 ^ w \<Longrightarrow> get_uint conf w k old = Some n"
  "conf k = Some (show_bool b) \<Longrightarrow> get_bool conf k b0 = Some b"
  "conf k = Some s \<Longrightarrow> text_ok s0 s \<Longrightarrow> get_string conf k s0 = Some s"
  "conf k = Some s \<Longrightarrow> get_string conf k [] = Some s"
proof -
  have "read_nat ''0'' = 0" "read_nat ''1'' = 1" by code_simp+
  then have "read_bool ''0'' = False" "read_bool ''1'' = True" by (simp_all add: read_bool_def read_uint_def)
  then show "conf k = Some (show_bool b) \<Longrightarrow> get_bool conf k b0 = Some b"
    by (auto simp: get_bool_def GetValueFatalIfFail_def show_bool_def)
qed (auto simp: get_uint_def get_string_def GetValueFatalIfFail_def read_uint_to_string text_ok_def)

text \<open>
  The look-ups in a file that holds some pairs, with the lines of the keys in \<^verbatim>\<open>K\<close> left out: a missing key ends
  the process.
\<close>

abbreviation holds_pairs :: "configuration \<Rightarrow> (string \<times> string) list \<Rightarrow> bool" where
  "holds_pairs conf \<equiv> list_all (\<lambda>(k, v). conf k = Some v)"

abbreviation without :: "configuration \<Rightarrow> string set \<Rightarrow> configuration" where
  "without conf K \<equiv> conf |` (- K)"

lemma get_without [simp]:
  "get_uint (without conf K) w k u = (if k \<in> K then None else get_uint conf w k u)"
  "get_bool (without conf K) k b = (if k \<in> K then None else get_bool conf k b)"
  "get_string (without conf K) k s = (if k \<in> K then None else get_string conf k s)"
  by (simp_all add: get_uint_def get_bool_def get_string_def GetValueFatalIfFail_def)

lemma bind_if [simp]:
  "Option.bind (if b then None else m) f = (if b then None else Option.bind m f)"
  "(if a then None else if b then None else m) = (if a \<or> b then None else m)"
  by simp_all

lemma get_cache_cfg_pairs:
  assumes "holds_pairs conf (cache_pairs p c)" and "cache_ok c0 c"
  shows "get_cache_cfg (without conf K) p c0 =
    (if K \<inter> fst ` set (cache_pairs p c) = {} then Some (c\<lparr>CacheLibCfg := CacheLibCfg c0\<rparr>) else None)"
  using assms by (simp add: cache_pairs_def get_cache_cfg_def cache_ok_def)

lemma get_nvm_pairs:
  assumes h: "holds_pairs conf (nvm_pairs p l)" and ok: "nvm_ok l0 l"
  shows "get_nvm (without conf K) p l0 = (if K \<inter> fst ` set (nvm_pairs p l) = {} then Some l else None)"
proof (cases "EnableNvmCache l")
  case True
  with assms show ?thesis by (simp add: nvm_pairs_def get_nvm_def nvm_ok_def)
next
  case False
  then have l: "l = l0\<lparr>EnableNvmCache := False\<rparr>" using ok by (simp add: nvm_ok_def)
  have "get_bool conf (p @ ''EnableNvmCache'') (EnableNvmCache l0) = Some False"
    by (rule get_values(2)) (use h False in \<open>simp add: nvm_pairs_def\<close>)
  with False show ?thesis by (simp add: get_nvm_def nvm_pairs_def) (use l in simp)
qed

lemma get_global_pairs:
  assumes "holds_pairs conf (global_pairs p g)" and "global_ok g0 g"
  shows "get_global (without conf K) p g0 = (if K \<inter> fst ` set (global_pairs p g) = {} then Some g else None)"
  using assms by (simp add: global_pairs_def get_global_def global_ok_def SplitString_join)

lemma get_all_pairs:
  assumes h: "holds_pairs conf (config_pairs cfg)" and ok: "config_ok cfg0 cfg"
  shows "get_all (without conf K) cfg0 = (if K \<inter> fst ` set (config_pairs cfg) = {} then Some cfg else None)"
proof -
  let ?ro = "ReadCacheCfg cfg0" and ?r = "ReadCacheCfg cfg" and ?wo = "WriteCacheCfg cfg0" and ?w = "WriteCacheCfg cfg"
  let ?rc = "ReadCacheCfg_CacheCfg ?r" and ?wc = "WriteCacheCfg_CacheCfg ?w"
  let ?R = "K \<inter> fst ` set (cache_pairs ''ReadCacheConfig.CacheConfig.'' ?rc) = {}"
  let ?N = "K \<inter> fst ` set (nvm_pairs ''ReadCacheConfig.CacheConfig.CacheLibConfig.'' (CacheLibCfg ?rc)) = {}"
  let ?W = "K \<inter> fst ` set (cache_pairs ''WriteCacheConfig.CacheConfig.'' ?wc) = {}"
  let ?gp = "if UseGlobalCache cfg then global_pairs ''GlobalCacheConfig.'' (GlobalCacheCfg cfg) else []"
  let ?G = "K \<inter> fst ` set ?gp = {}"
  note h' = h [unfolded config_pairs_def Let_def list_all_append]
  note ok' = ok [unfolded config_ok_def Let_def]
  from h' have pairs: "holds_pairs conf (cache_pairs ''ReadCacheConfig.CacheConfig.'' ?rc)"
    "holds_pairs conf (nvm_pairs ''ReadCacheConfig.CacheConfig.CacheLibConfig.'' (CacheLibCfg ?rc))"
    "holds_pairs conf (cache_pairs ''WriteCacheConfig.CacheConfig.'' ?wc)"
    "UseGlobalCache cfg \<Longrightarrow> holds_pairs conf (global_pairs ''GlobalCacheConfig.'' (GlobalCacheCfg cfg))"
    by (simp_all only: if_True)
  from ok' have oks: "cache_ok (ReadCacheCfg_CacheCfg ?ro) ?rc" "cache_ok (WriteCacheCfg_CacheCfg ?wo) ?wc"
    "nvm_ok (CacheLibCfg (ReadCacheCfg_CacheCfg ?ro)) (CacheLibCfg ?rc)"
    "CacheLibCfg ?wc = CacheLibCfg (WriteCacheCfg_CacheCfg ?wo)"
    "UseGlobalCache cfg \<Longrightarrow> global_ok (GlobalCacheCfg cfg0) (GlobalCacheCfg cfg)"
    "\<not> UseGlobalCache cfg \<Longrightarrow> GlobalCacheCfg cfg = GlobalCacheCfg cfg0"
    by (simp_all only: if_True if_False not_False_eq_True)
  note rc = get_cache_cfg_pairs [OF pairs(1) oks(1), of K]
  have nvm: "get_nvm (without conf K) ''ReadCacheConfig.CacheConfig.CacheLibConfig.'' (CacheLibCfg (ReadCacheCfg_CacheCfg ?ro)) =
      (if ?N then Some (CacheLibCfg ?rc) else None)"
    by (rule get_nvm_pairs [OF pairs(2) oks(3), of K])
  have wc: "get_cache_cfg (without conf K) ''WriteCacheConfig.CacheConfig.'' (WriteCacheCfg_CacheCfg ?wo) =
      (if ?W then Some ?wc else None)"
    using get_cache_cfg_pairs [OF pairs(3) oks(2), of K] by (simp add: oks(4) [symmetric])
  have gl: "(if UseGlobalCache cfg then get_global (without conf K) ''GlobalCacheConfig.'' (GlobalCacheCfg cfg0)
      else Some (GlobalCacheCfg cfg0)) = (if ?G then Some (GlobalCacheCfg cfg) else None)"
    using get_global_pairs [OF pairs(4) oks(5), of K] oks(6) by simp
  have cfg: "\<lparr>ReadCacheCfg = \<lparr>ReadCacheCfg_CacheCfg = (?rc\<lparr>CacheLibCfg := l\<rparr>)\<lparr>CacheLibCfg := CacheLibCfg ?rc\<rparr>,
         DownloadNormalFlowLimit = DownloadNormalFlowLimit ?r, DownloadBurstFlowLimit = DownloadBurstFlowLimit ?r\<rparr>,
       WriteCacheCfg = \<lparr>WriteCacheCfg_CacheCfg = ?wc, CacheSafeRatio = CacheSafeRatio ?w, EnableThrottle = EnableThrottle ?w\<rparr>,
       GlobalCacheCfg = GlobalCacheCfg cfg, ThreadNum = ThreadNum cfg, BackFlushCacheRatio = BackFlushCacheRatio cfg,
       UploadNormalFlowLimit = UploadNormalFlowLimit cfg, UploadBurstFlowLimit = UploadBurstFlowLimit cfg,
       LogPath = LogPath cfg, LogLevel = LogLevel cfg,
       EnableLog = EnableLog cfg, UseGlobalCache = UseGlobalCache cfg, FlushToRead = FlushToRead cfg,
       CleanCacheByOpen = CleanCacheByOpen cfg,
       EnableResize = EnableResize cfg, EnableLinUCB = EnableLinUCB cfg\<rparr> = cfg" for l
    by simp
  from h' have rest: "holds_pairs conf [(''ReadCacheConfig.DownloadNormalFlowLimit'', to_string (DownloadNormalFlowLimit ?r)),
      (''ReadCacheConfig.DownloadBurstFlowLimit'', to_string (DownloadBurstFlowLimit ?r))]"
    "holds_pairs conf [(''WriteCacheConfig.CacheSafeRatio'', to_string (CacheSafeRatio ?w)),
      (''WriteCacheConfig.EnableThrottle'', show_bool (EnableThrottle ?w)),
      (''UseGlobalCache'', show_bool (UseGlobalCache cfg))]"
    "holds_pairs conf [(''ThreadNum'', to_string (ThreadNum cfg)), (''BackFlushCacheRatio'', to_string (BackFlushCacheRatio cfg)),
      (''UploadNormalFlowLimit'', to_string (UploadNormalFlowLimit cfg)),
      (''UploadBurstFlowLimit'', to_string (UploadBurstFlowLimit cfg)),
      (''LogPath'', LogPath cfg), (''LogLevel'', to_string (LogLevel cfg)), (''EnableLog'', show_bool (EnableLog cfg)),
      (''FlushToRead'', show_bool (FlushToRead cfg)), (''CleanCacheByOpen'', show_bool (CleanCacheByOpen cfg)),
      (''EnableResize'', show_bool (EnableResize cfg)), (''EnableLinUCB'', show_bool (EnableLinUCB cfg))]"
    by (simp_all only:)
  have all: "K \<inter> fst ` set (config_pairs cfg) = {} \<longleftrightarrow> ?R \<and> ?N \<and> ?W \<and> ?G \<and>
      ''ReadCacheConfig.DownloadNormalFlowLimit'' \<notin> K \<and> ''ReadCacheConfig.DownloadBurstFlowLimit'' \<notin> K \<and>
      ''WriteCacheConfig.CacheSafeRatio'' \<notin> K \<and> ''WriteCacheConfig.EnableThrottle'' \<notin> K \<and> ''UseGlobalCache'' \<notin> K \<and>
      ''ThreadNum'' \<notin> K \<and> ''BackFlushCacheRatio'' \<notin> K \<and> ''UploadNormalFlowLimit'' \<notin> K \<and>
      ''UploadBurstFlowLimit'' \<notin> K \<and> ''LogPath'' \<notin> K \<and> ''LogLevel'' \<notin> K \<and> ''EnableLog'' \<notin> K \<and>
      ''FlushToRead'' \<notin> K \<and> ''CleanCacheByOpen'' \<notin> K \<and> ''EnableResize'' \<notin> K \<and> ''EnableLinUCB'' \<notin> K"
    unfolding config_pairs_def Let_def set_append image_Un Int_Un_distrib Un_empty by auto
  show ?thesis
    unfolding all get_all_def Let_def rc
    using rest ok' 
    by (simp add: nvm wc gl cfg del: CacheConfig.update_convs)
qed

subsection \<open>The keys of a file\<close>

lemma config_pairs_keys:
  "map fst (config_pairs cfg) =
    config_keys (EnableNvmCache (CacheLibCfg (ReadCacheCfg_CacheCfg (ReadCacheCfg cfg)))) (UseGlobalCache cfg)"
  unfolding config_pairs_def config_keys_def Let_def map_append
  by (simp add: cache_pairs_def nvm_pairs_def global_pairs_def cache_keys_def)

lemma config_keys_ok: "distinct (config_keys nvm global) \<and> list_all config_key (config_keys nvm global)"
proof -
  have "distinct (config_keys False False)" "distinct (config_keys False True)" "distinct (config_keys True False)"
    "distinct (config_keys True True)" "list_all config_key (config_keys False False)"
    "list_all config_key (config_keys False True)" "list_all config_key (config_keys True False)"
    "list_all config_key (config_keys True True)"
    by code_simp+
  then show ?thesis by (cases nvm; cases global) simp_all
qed

lemma config_pairs_text:
  assumes "config_ok cfg0 cfg" and "kv \<in> set (config_pairs cfg)"
  shows "config_text (snd kv)"
proof -
  let ?r = "ReadCacheCfg cfg" and ?w = "WriteCacheCfg cfg"
  have c: "config_text (snd kv)" if "cache_ok c0 c" "kv \<in> set (cache_pairs p c)" for kv c0 c p
    using that by (auto simp: cache_pairs_def cache_ok_def)
  have n: "config_text (snd kv)" if "nvm_ok l0 l" "kv \<in> set (nvm_pairs p l)" for kv l0 l p
    using that by (auto simp: nvm_pairs_def nvm_ok_def split: if_splits)
  have g: "config_text (snd kv)" if "global_ok g0 g" "kv \<in> set (global_pairs p g)" for kv g0 g p
    using that by (auto simp: global_pairs_def global_ok_def)
  note ok = assms(1) [unfolded config_ok_def Let_def]
  from assms(2) have "kv \<in> set (cache_pairs ''ReadCacheConfig.CacheConfig.'' (ReadCacheCfg_CacheCfg ?r)) \<or>
      kv \<in> set (nvm_pairs ''ReadCacheConfig.CacheConfig.CacheLibConfig.'' (CacheLibCfg (ReadCacheCfg_CacheCfg ?r))) \<or>
      kv \<in> set (cache_pairs ''WriteCacheConfig.CacheConfig.'' (WriteCacheCfg_CacheCfg ?w)) \<or>
      UseGlobalCache cfg \<and> kv \<in> set (global_pairs ''GlobalCacheConfig.'' (GlobalCacheCfg cfg)) \<or>
      snd kv = LogPath cfg \<or> (\<exists>n. snd kv = to_string n) \<or> (\<exists>b. snd kv = show_bool b)"
    unfolding config_pairs_def Let_def by (auto split: if_splits)
  then show ?thesis using c n g ok by (elim disjE conjE exE) auto
qed

lemma map_of_without: "map_of (filter (\<lambda>kv. fst kv \<notin> K) ps) = map_of ps |` (- K)"
  by (induction ps) (auto simp: restrict_map_def fun_eq_iff)

lemma holds_pairs_map_of: "distinct (map fst ps) \<Longrightarrow> holds_pairs (map_of (rev ps)) ps"
  by (auto simp: list_all_iff map_of_eq_Some_iff rev_map [symmetric])

text \<open>
  C24: a configuration written as lines \<^verbatim>\<open>key = value # comment\<close>, one for each key, is read as it was written, into
  a structure of the caller that has what no line is written for, and accepted exactly when \<^verbatim>\<open>CheckConfig\<close> lets it pass: the write cache has
  no flash tier and both page sizes are multiples of 8.  Otherwise the process ends, and it ends when any of the lines
  is missing, too.  A file that cannot be opened gives false and leaves the structure alone.
\<close>

theorem GetHybridCacheConfig_roundtrip:
  assumes "config_ok cfg0 cfg"
  shows "GetHybridCacheConfig (Some (map config_line (filter (\<lambda>kv. fst kv \<notin> K) (config_pairs cfg)))) cfg0 =
      (if K \<inter> fst ` set (config_pairs cfg) = {} \<and>
          \<not> EnableNvmCache (CacheLibCfg (WriteCacheCfg_CacheCfg (WriteCacheCfg cfg))) \<and>
          8 dvd PageBodySize (ReadCacheCfg_CacheCfg (ReadCacheCfg cfg)) \<and>
          8 dvd PageBodySize (WriteCacheCfg_CacheCfg (WriteCacheCfg cfg))
       then Some (True, cfg) else None) \<and>
    GetHybridCacheConfig None cfg0 = Some (False, cfg0)"
proof -
  let ?ps = "config_pairs cfg"
  have d: "distinct (map fst ?ps)" and k: "list_all config_key (map fst ?ps)"
    using config_keys_ok by (simp_all only: config_pairs_keys)
  have "LoadConfig (map config_line (filter (\<lambda>kv. fst kv \<notin> K) ?ps)) = without (map_of (rev ?ps)) K"
    using k config_pairs_text [OF assms]
    by (subst LoadConfig_lines) (auto simp: list_all_iff rev_filter map_of_without)
  then show ?thesis
    by (simp add: GetHybridCacheConfig_def get_all_pairs [OF holds_pairs_map_of [OF d] assms] CheckConfig_def BYTE_LEN_def
        mod_eq_0_iff_dvd)
qed

text \<open>A configuration with a flash tier for reads and two servers of a global cache.\<close>

definition demo_cache :: "string \<Rightarrow> CacheLibConfig \<Rightarrow> CacheConfig" where
  "demo_cache name lib = \<lparr>CacheName = name, MaxCacheSize = 5368709120, PageBodySize = 65536, PageMetaSize = 1024,
     EnableCAS = True, SafeMode = False, CacheLibCfg = lib\<rparr>"

definition no_nvm :: CacheLibConfig where
  "no_nvm = \<lparr>EnableNvmCache = False, RaidPath = [], RaidFileNum = 0, RaidFileSize = 0, DataChecksum = False\<rparr>"

definition demo_config :: HybridCacheConfig where
  "demo_config = \<lparr>
     ReadCacheCfg = \<lparr>ReadCacheCfg_CacheCfg = demo_cache ''Read'' \<lparr>EnableNvmCache = True, RaidPath = ''/nvm'',
       RaidFileNum = 2, RaidFileSize = 1024, DataChecksum = True\<rparr>, DownloadNormalFlowLimit = 7, DownloadBurstFlowLimit = 8\<rparr>,
     WriteCacheCfg = \<lparr>WriteCacheCfg_CacheCfg = demo_cache ''Write'' no_nvm, CacheSafeRatio = 90, EnableThrottle = True\<rparr>,
     GlobalCacheCfg = \<lparr>EnableWriteCache = True, EtcdAddress = ''http://h:2379'', GlobalServers = [''a:80'', ''b:81''],
       GflagFile = []\<rparr>,
     ThreadNum = 48, BackFlushCacheRatio = 40, UploadNormalFlowLimit = 1, UploadBurstFlowLimit = 2, LogPath = ''.'',
     LogLevel = 1, EnableLog = False, UseGlobalCache = True, FlushToRead = True, CleanCacheByOpen = False,
     EnableResize = True, EnableLinUCB = False\<rparr>"

definition empty_config :: HybridCacheConfig where
  "empty_config = \<lparr>
     ReadCacheCfg = \<lparr>ReadCacheCfg_CacheCfg = (demo_cache [] no_nvm)\<lparr>PageBodySize := 3\<rparr>, DownloadNormalFlowLimit = 0,
       DownloadBurstFlowLimit = 0\<rparr>,
     WriteCacheCfg = \<lparr>WriteCacheCfg_CacheCfg = demo_cache [] no_nvm, CacheSafeRatio = 0, EnableThrottle = False\<rparr>,
     GlobalCacheCfg = \<lparr>EnableWriteCache = False, EtcdAddress = [], GlobalServers = [], GflagFile = []\<rparr>,
     ThreadNum = 0, BackFlushCacheRatio = 0, UploadNormalFlowLimit = 0, UploadBurstFlowLimit = 0, LogPath = [],
     LogLevel = 0, EnableLog = True, UseGlobalCache = False, FlushToRead = False, CleanCacheByOpen = False,
     EnableResize = False, EnableLinUCB = False\<rparr>"

lemma demo_config_ok: "config_ok empty_config demo_config"
  by (simp add: config_ok_def Let_def demo_config_def empty_config_def demo_cache_def no_nvm_def cache_ok_def nvm_ok_def
      global_ok_def text_ok_def config_text_def isspace_def)

theorem GetHybridCacheConfig_roundtrip_witness:
  "GetHybridCacheConfig (Some (map config_line (config_pairs demo_config))) empty_config = Some (True, demo_config) \<and>
   GetHybridCacheConfig (Some (map config_line (filter (\<lambda>kv. fst kv \<notin> {''ThreadNum''}) (config_pairs demo_config)))) empty_config = None"
proof -
  have "''ThreadNum'' \<in> set (map fst (config_pairs demo_config))"
    by (simp add: config_pairs_keys config_keys_def)
  then have "{''ThreadNum''} \<inter> fst ` set (config_pairs demo_config) \<noteq> {}" by (simp only: set_map) blast
  then show ?thesis
    using GetHybridCacheConfig_roundtrip [OF demo_config_ok, of "{}"]
      GetHybridCacheConfig_roundtrip [OF demo_config_ok, of "{''ThreadNum''}"]
    by (simp add: demo_config_def demo_cache_def no_nvm_def)
qed

end
