(* ===== verification/Pool_Resize.thy ===== *)
theory Pool_Resize
  imports Prelude "HOL-Library.Signed_Division"
begin

section \<open>Moving memory between the write pool and the read pool\<close>

text \<open>
  The end of a round of \<^verbatim>\<open>LinUCBClient\<close> (\<^verbatim>\<open>s3fs/hybridcache_accessor_4_s3fs.cpp\<close>): the scheduler has
  answered with two pool sizes in units of 256 MiB, and the pools of the shared CacheLib instance are
  shrunk first and then grown.  The arithmetic mixes \<^verbatim>\<open>int64_t\<close> and \<^verbatim>\<open>size_t\<close> and is kept on 64-bit
  words: a comparison or division is signed or unsigned as the C++ conversions make it.  CacheLib's
  pools are a parameter.
\<close>

type_synonym w64 = "64 word"

datatype pool_id = WritePool | ReadPool

record 'p pool_lib =
  poolSize :: "pool_id \<Rightarrow> 'p \<Rightarrow> w64"
  shrinkPool :: "pool_id \<Rightarrow> w64 \<Rightarrow> 'p \<Rightarrow> bool \<times> 'p"
  growPool :: "pool_id \<Rightarrow> w64 \<Rightarrow> 'p \<Rightarrow> bool \<times> 'p"

definition FIX_SIZE :: w64 where "FIX_SIZE = 1024 * 1024 * 256"
definition RESERVE_SIZE :: w64 where "RESERVE_SIZE = 1024 * 1024 * 512"

text \<open>Division of two \<^verbatim>\<open>int64_t\<close>: it truncates towards zero.\<close>

definition div_s64 :: "w64 \<Rightarrow> w64 \<Rightarrow> w64" where
  "div_s64 a b = word_of_int (sint a sdiv sint b)"

definition less_s64 :: "w64 \<Rightarrow> w64 \<Rightarrow> bool" where
  "less_s64 a b = (sint a < sint b)"

text \<open>How much a pool is to grow, negative to shrink.\<close>

definition pool_delta :: "w64 \<Rightarrow> w64 \<Rightarrow> w64" where
  "pool_delta newSize sz = newSize * FIX_SIZE - sz"

text \<open>A shrink of the write pool takes at most what is free beyond the reserve.\<close>

definition clamp_write :: "w64 \<Rightarrow> w64 \<Rightarrow> w64 \<Rightarrow> w64" where
  "clamp_write sz used deltaWrite =
     (let freeSize = sz - used
      in if less_s64 (freeSize - RESERVE_SIZE) (- deltaWrite)
         then div_s64 (- (freeSize - RESERVE_SIZE)) FIX_SIZE * FIX_SIZE
         else deltaWrite)"

text \<open>One of the read pool leaves twice the reserve; here the operands are unsigned.\<close>

definition clamp_read :: "w64 \<Rightarrow> w64 \<Rightarrow> w64" where
  "clamp_read sz deltaRead =
     (if sz - 2 * RESERVE_SIZE < - deltaRead
      then (- (sz - 2 * RESERVE_SIZE)) div FIX_SIZE * FIX_SIZE
      else deltaRead)"

definition shrink_step :: "'p pool_lib \<Rightarrow> pool_id \<Rightarrow> w64 \<Rightarrow> w64 \<Rightarrow> 'p \<Rightarrow> w64 \<times> 'p" where
  "shrink_step L pid d shrinkSize p =
     (case shrinkPool L pid (- d) p of
        (r, p) \<Rightarrow> (if r then shrinkSize + (- d) else shrinkSize, p))"

definition grow_step :: "'p pool_lib \<Rightarrow> pool_id \<Rightarrow> w64 \<Rightarrow> w64 \<Rightarrow> 'p \<Rightarrow> w64 \<times> 'p" where
  "grow_step L pid d shrinkSize p =
     (let d = (if less_s64 shrinkSize d then shrinkSize else d)
      in case growPool L pid d p of (r, p) \<Rightarrow> (if r then shrinkSize - d else shrinkSize, p))"

definition resize_round :: "'p pool_lib \<Rightarrow> w64 \<Rightarrow> w64 \<Rightarrow> w64 \<Rightarrow> 'p \<Rightarrow> 'p" where
  "resize_round L newWrite newRead used p =
     (let deltaWrite = pool_delta newWrite (poolSize L WritePool p);
          deltaRead = pool_delta newRead (poolSize L ReadPool p);
          (deltaWrite, shrinkSize, p) =
            (if less_s64 deltaWrite 0
             then (let d = clamp_write (poolSize L WritePool p) used deltaWrite
                   in case shrink_step L WritePool d 0 p of (s, p) \<Rightarrow> (d, s, p))
             else (deltaWrite, 0, p));
          (deltaRead, shrinkSize, p) =
            (if less_s64 deltaRead 0
             then (let d = clamp_read (poolSize L ReadPool p) deltaRead
                   in case shrink_step L ReadPool d shrinkSize p of (s, p) \<Rightarrow> (d, s, p))
             else (deltaRead, shrinkSize, p));
          (shrinkSize, p) =
            (if less_s64 0 deltaWrite then grow_step L WritePool deltaWrite shrinkSize p else (shrinkSize, p));
          (shrinkSize, p) =
            (if less_s64 0 deltaRead then grow_step L ReadPool deltaRead shrinkSize p else (shrinkSize, p))
      in p)"

subsection \<open>CacheLib's pools\<close>

text \<open>
  What CacheLib documents: \<^verbatim>\<open>shrinkPool\<close> fails when the pool has not that many bytes and else takes
  them from it; \<^verbatim>\<open>growPool\<close> adds them when it succeeds; a call that fails, and the other pool, change
  nothing.
\<close>

definition pool_laws :: "'p pool_lib \<Rightarrow> bool" where
  "pool_laws L = (\<forall>pid n p r p'.
     (shrinkPool L pid n p = (r, p') \<longrightarrow>
        (if r then n \<le> poolSize L pid p \<and> (\<forall>q. poolSize L q p' = (if q = pid then poolSize L q p - n else poolSize L q p))
         else \<forall>q. poolSize L q p' = poolSize L q p)) \<and>
     (growPool L pid n p = (r, p') \<longrightarrow>
        (if r then (\<forall>q. poolSize L q p' = (if q = pid then poolSize L q p + n else poolSize L q p))
         else \<forall>q. poolSize L q p' = poolSize L q p)))"

definition pool_total :: "'p pool_lib \<Rightarrow> 'p \<Rightarrow> int" where
  "pool_total L p = uint (poolSize L WritePool p) + uint (poolSize L ReadPool p)"

text \<open>The bytes taken and not yet given back, with the pools, are at most the bytes there were.\<close>

definition budget :: "'p pool_lib \<Rightarrow> int \<Rightarrow> w64 \<Rightarrow> 'p \<Rightarrow> bool" where
  "budget L T s p = (pool_total L p + uint s \<le> T \<and> T < 2 ^ 62)"

lemma sint_small: "uint (w :: w64) < 2 ^ 63 \<Longrightarrow> sint w = uint w"
  using signed_take_bit_int_eq_self [of 63 "uint w"] uint_ge_0 [of w] by (simp add: sint_uint)

lemma sint_big: "\<not> uint (w :: w64) < 2 ^ 63 \<Longrightarrow> sint w = uint w - 2 ^ 64"
  using uint_bounded [of w] signed_take_bit_int_eq_self [of 63 "uint w - 2 ^ 64"]
    signed_take_bit_eq_iff_take_bit_eq [of 63 "uint w" "uint w - 2 ^ 64"]
  by (simp add: sint_uint take_bit_eq_mod)

lemma budget_small:
  assumes "budget L T s p"
  shows "uint s < 2 ^ 62" "uint (poolSize L pid p) + uint s < 2 ^ 62" "0 \<le> uint s"
proof -
  have ge: "0 \<le> uint (poolSize L q p)" for q by simp
  have b: "uint (poolSize L WritePool p) + uint (poolSize L ReadPool p) + uint s < 2 ^ 62"
    using assms by (simp add: budget_def pool_total_def)
  show "0 \<le> uint s" by simp
  show "uint s < 2 ^ 62" using b ge [of WritePool] ge [of ReadPool] by linarith
  show "uint (poolSize L pid p) + uint s < 2 ^ 62"
    using b ge [of WritePool] ge [of ReadPool] by (cases pid; simp only:; linarith)
qed

lemma uint_minus_le: "(n :: w64) \<le> w \<Longrightarrow> uint (w - n) = uint w - uint n"
  by (simp add: uint_sub_if' word_le_def)

lemma uint_plus_small: "uint (a :: w64) + uint b < 2 ^ 64 \<Longrightarrow> uint (a + b) = uint a + uint b"
  by (simp add: uint_plus_if')

lemma shrink_step_budget:
  assumes laws: "pool_laws L" and b: "budget L T s p" and run: "shrink_step L pid d s p = (s', p')"
  shows "budget L T s' p'"
proof -
  obtain r q where q: "shrinkPool L pid (- d) p = (r, q)" by force
  have q': "p' = q" "s' = (if r then s + - d else s)" using run q by (auto simp: shrink_step_def)
  have L: "if r then - d \<le> poolSize L pid p \<and>
        (\<forall>x. poolSize L x q = (if x = pid then poolSize L x p - - d else poolSize L x p))
      else \<forall>x. poolSize L x q = poolSize L x p"
    using laws q unfolding pool_laws_def by blast
  show ?thesis
  proof (cases r)
    case True
    then have le: "- d \<le> poolSize L pid p" using L by simp
    then have "uint (- d) \<le> uint (poolSize L pid p)" by (simp add: word_le_def)
    moreover have "uint (poolSize L pid p - - d) = uint (poolSize L pid p) - uint (- d)" by (rule uint_minus_le [OF le])
    moreover have "uint (s + - d) = uint s + uint (- d)"
      using calculation(1) budget_small(2) [OF b, of pid] by (intro uint_plus_small) auto
    ultimately show ?thesis using True L b q' unfolding budget_def pool_total_def by (cases pid) auto
  next
    case False
    then show ?thesis using L b q' by (simp add: budget_def pool_total_def)
  qed
qed

lemma grow_step_budget:
  assumes laws: "pool_laws L" and b: "budget L T s p" and pos: "less_s64 0 d" and run: "grow_step L pid d s p = (s', p')"
  shows "budget L T s' p'"
proof -
  define g where "g = (if less_s64 s d then s else d)"
  have d: "uint d < 2 ^ 63"
  proof (rule ccontr)
    assume "\<not> ?thesis"
    then have "sint d < 0" using uint_bounded [of d] by (simp add: sint_big)
    then show False using pos by (simp add: less_s64_def)
  qed
  have s: "sint s = uint s" by (rule sint_small) (use budget_small(1) [OF b] in simp)
  have ud: "sint d = uint d" by (rule sint_small [OF d])
  have gs: "uint g \<le> uint s" by (auto simp: g_def less_s64_def s ud)
  then have le: "g \<le> s" by (simp add: word_le_def)
  obtain r q where q: "growPool L pid g p = (r, q)" by force
  have q': "p' = q" "s' = (if r then s - g else s)" using run q by (auto simp: grow_step_def Let_def g_def [symmetric])
  have L: "if r then (\<forall>x. poolSize L x q = (if x = pid then poolSize L x p + g else poolSize L x p))
      else \<forall>x. poolSize L x q = poolSize L x p"
    using laws q unfolding pool_laws_def by blast
  have "uint (poolSize L pid p + g) = uint (poolSize L pid p) + uint g"
    using gs budget_small(2) [OF b, of pid] by (intro uint_plus_small) auto
  then show ?thesis using L b q' uint_minus_le [OF le] unfolding budget_def pool_total_def
    by (cases pid) (auto split: if_splits)
qed
subsection \<open>Properties\<close>

text \<open>
  C25: a round of resizing never hands out memory that it has not taken: whatever sizes the scheduler
  asks for and whatever the write cache uses, the two pools together are not larger after the round
  than before it.
\<close>

theorem resize_round_conserves:
  assumes "pool_laws L" and "pool_total L p < 2 ^ 62"
  shows "pool_total L (resize_round L newWrite newRead used p) \<le> pool_total L p"
proof -
  let ?B = "budget L (pool_total L p)"
  let ?dw = "pool_delta newWrite (poolSize L WritePool p)" and ?dr = "pool_delta newRead (poolSize L ReadPool p)"
  have start: "?B 0 p" using assms(2) by (simp add: budget_def)
  obtain dw s1 p1 where 1: "(if less_s64 ?dw 0
      then (let d = clamp_write (poolSize L WritePool p) used ?dw
            in case shrink_step L WritePool d 0 p of (s, p) \<Rightarrow> (d, s, p))
      else (?dw, 0, p)) = (dw, s1, p1)" by (metis prod_cases3)
  have B1: "?B s1 p1"
    using 1 start shrink_step_budget [OF assms(1) start] by (auto simp: Let_def split: if_splits prod.splits)
  obtain dr s2 p2 where 2: "(if less_s64 ?dr 0
      then (let d = clamp_read (poolSize L ReadPool p1) ?dr
            in case shrink_step L ReadPool d s1 p1 of (s, p) \<Rightarrow> (d, s, p))
      else (?dr, s1, p1)) = (dr, s2, p2)" by (metis prod_cases3)
  have B2: "?B s2 p2"
    using 2 B1 shrink_step_budget [OF assms(1) B1] by (auto simp: Let_def split: if_splits prod.splits)
  obtain s3 p3 where 3: "(if less_s64 0 dw then grow_step L WritePool dw s2 p2 else (s2, p2)) = (s3, p3)" by force
  have B3: "?B s3 p3" using 3 B2 grow_step_budget [OF assms(1) B2] by (auto split: if_splits)
  obtain s4 p4 where 4: "(if less_s64 0 dr then grow_step L ReadPool dr s3 p3 else (s3, p3)) = (s4, p4)" by force
  have B4: "?B s4 p4" using 4 B3 grow_step_budget [OF assms(1) B3] by (auto split: if_splits)
  have "resize_round L newWrite newRead used p = p4"
    unfolding resize_round_def Let_def 1 [unfolded Let_def] prod.case 2 [unfolded Let_def] 3 4 ..
  moreover have "pool_total L p4 + uint s4 \<le> pool_total L p" using B4 by (simp add: budget_def)
  then have "pool_total L p4 \<le> pool_total L p" using uint_ge_0 [of s4] by linarith
  ultimately show ?thesis by simp
qed

lemma FIX_SIZE_conv: "FIX_SIZE = word_of_int (2 ^ 28)" "RESERVE_SIZE = word_of_int (2 ^ 29)"
  by (simp_all add: FIX_SIZE_def RESERVE_SIZE_def)

lemma wi_sint: "(word_of_int (sint w) :: w64) = w"
  by (simp add: signed_word_eqI)

lemma uint_neg: "uint (- (w :: w64)) = (if uint w = 0 then 0 else 2 ^ 64 - uint w)"
  using uint_bounded [of w] uint_ge_0 [of w] by (auto simp: uint_word_ariths(4) zmod_zminus1_eq_if)

lemma sint_word_of_int: "- (2 ^ 63) \<le> i \<Longrightarrow> i < 2 ^ 63 \<Longrightarrow> sint (word_of_int i :: w64) = i"
  by (simp add: sint_sbintrunc' signed_take_bit_int_eq_self)

text \<open>
  The limit on a shrink of the write pool.  With \<open>f\<close> bytes free and a shrink by \<open>d\<close> asked for, the
  round shrinks by \<open>d\<close> when that leaves the reserve of 512 MiB, and else by the whole units of 256 MiB of
  what is free beyond the reserve; but with at most 256 MiB free the limited value is positive: the
  shrink has become a request to grow by one or two units.
\<close>

theorem clamp_write_limits:
  assumes "sint used = u" "0 \<le> u" and "sint sz = u + f" "0 \<le> f" "u + f < 2 ^ 62"
    and "sint deltaWrite = - d" and "0 < d" "d < 2 ^ 62"
  shows "sint (clamp_write sz used deltaWrite) =
      (if d \<le> f - 2 ^ 29 then - d
       else if 2 ^ 29 \<le> f then - ((f - 2 ^ 29) div 2 ^ 28 * 2 ^ 28)
       else (2 ^ 29 - f) div 2 ^ 28 * 2 ^ 28) \<and>
    (f \<le> 2 ^ 28 \<longrightarrow> 0 < sint (clamp_write sz used deltaWrite))"
proof -
  have w: "sz = word_of_int (u + f)" "used = word_of_int u" "deltaWrite = word_of_int (- d)"
    using wi_sint [of sz] wi_sint [of used] wi_sint [of deltaWrite] assms(1,3,6) by simp_all
  have fr: "sz - used - RESERVE_SIZE = word_of_int (f - 2 ^ 29)"
    by (simp add: w FIX_SIZE_conv wi_hom_sub)
  have s1: "sint (sz - used - RESERVE_SIZE) = f - 2 ^ 29"
    unfolding fr by (rule sint_word_of_int) (use assms in auto)
  have s2: "sint (- deltaWrite) = d"
    unfolding w(3) wi_hom_neg [symmetric] by (simp, rule sint_word_of_int) (use assms in auto)
  have s3: "sint (- (sz - used - RESERVE_SIZE)) = - (f - 2 ^ 29)"
    unfolding fr wi_hom_neg by (rule sint_word_of_int) (use assms in auto)
  have F: "sint FIX_SIZE = 2 ^ 28" unfolding FIX_SIZE_conv by (rule sint_word_of_int) auto
  have q: "- (f - 2 ^ 29) sdiv 2 ^ 28 =
      (if 2 ^ 29 \<le> f then - ((f - 2 ^ 29) div 2 ^ 28) else (2 ^ 29 - f) div 2 ^ 28)"
    by (cases "f = 2 ^ 29") (auto simp: signed_divide_int_def sgn_if)
  define k where "k = (if 2 ^ 29 \<le> f then - ((f - 2 ^ 29) div 2 ^ 28) else (2 ^ 29 - f) div 2 ^ 28)"
  have kb: "- (2 ^ 34) \<le> k \<and> k \<le> 2" using assms(2,4,5) by (auto simp: k_def)
  have "div_s64 (- (sz - used - RESERVE_SIZE)) FIX_SIZE * FIX_SIZE = word_of_int (k * 2 ^ 28)"
    unfolding div_s64_def s3 F q k_def [symmetric] by (simp add: FIX_SIZE_conv wi_hom_mult)
  then have s4: "sint (div_s64 (- (sz - used - RESERVE_SIZE)) FIX_SIZE * FIX_SIZE) = k * 2 ^ 28"
    by (simp only:) (rule sint_word_of_int; use kb in simp)
  have 1: "sint (clamp_write sz used deltaWrite) =
      (if d \<le> f - 2 ^ 29 then - d
       else if 2 ^ 29 \<le> f then - ((f - 2 ^ 29) div 2 ^ 28 * 2 ^ 28)
       else (2 ^ 29 - f) div 2 ^ 28 * 2 ^ 28)"
    using s4 assms(6) by (simp add: clamp_write_def less_s64_def Let_def s1 s2 k_def)
  have "0 < sint (clamp_write sz used deltaWrite)" if "f \<le> 2 ^ 28"
    unfolding 1 using that assms(4,7) by auto
  with 1 show ?thesis by blast
qed

text \<open>
  The limit on a shrink of the read pool.  The pool is to keep 1 GiB, but the quotient is taken of
  the negated unsigned number, so it rounds up: a pool of more than 1 GiB whose size is no multiple of
  256 MiB is shrunk below 1 GiB, and for a pool smaller than 1 GiB the comparison wraps and no limit
  applies at all.
\<close>

theorem clamp_read_limits:
  assumes "uint sz = s" "s < 2 ^ 62" and "uint (- deltaRead) = d" "d \<le> s"
  shows "uint (- clamp_read sz deltaRead) =
      (if s < 2 ^ 30 \<or> d \<le> s - 2 ^ 30 then d else (s - 2 ^ 30 + (2 ^ 28 - 1)) div 2 ^ 28 * 2 ^ 28)"
proof -
  define x where "x = sz - 2 * RESERVE_SIZE"
  have two: "uint (2 * RESERVE_SIZE) = 2 ^ 30" "uint FIX_SIZE = 2 ^ 28" by (simp_all add: RESERVE_SIZE_def FIX_SIZE_def)
  have s0: "0 \<le> s" using assms(1) uint_ge_0 [of sz] by simp
  have ux: "uint x = (if 2 ^ 30 \<le> s then s - 2 ^ 30 else s - 2 ^ 30 + 2 ^ 64)"
    unfolding x_def uint_sub_if' two assms(1) by simp
  have cmp: "x < - deltaRead \<longleftrightarrow> 2 ^ 30 \<le> s \<and> s - 2 ^ 30 < d"
    using assms(2,4) s0 by (simp add: word_less_def ux assms(3))
  show ?thesis
  proof (cases "2 ^ 30 \<le> s \<and> s - 2 ^ 30 < d")
    case True
    define q where "q = (s - 2 ^ 30 + (2 ^ 28 - 1)) div 2 ^ 28"
    have q: "0 \<le> q" "q * 2 ^ 28 < 2 ^ 63" "q * 2 ^ 28 = s - 2 ^ 30 + (2 ^ 28 - 1) - (s - 2 ^ 30 + (2 ^ 28 - 1)) mod 2 ^ 28"
      using True assms(2) by (auto simp: q_def minus_mod_eq_div_mult [symmetric])
    have "uint (- x) = (if s = 2 ^ 30 then 0 else 2 ^ 64 - (s - 2 ^ 30))"
      using True assms(2) ux uint_neg [of x] by auto
    moreover have "(2 ^ 64 - (s - 2 ^ 30)) div 2 ^ 28 = 2 ^ 36 - q" if "s \<noteq> 2 ^ 30"
    proof -
      have "(2 ^ 64 - (s - 2 ^ 30)) div 2 ^ 28 = (2 ^ 36 * 2 ^ 28 + - (s - 2 ^ 30)) div (2 ^ 28 :: int)" by simp
      also have "\<dots> = 2 ^ 36 + - (s - 2 ^ 30) div 2 ^ 28" by (subst div_mult_self3) simp_all
      also have "- (s - 2 ^ 30) div 2 ^ 28 = - q" using q(3) by (intro int_div_pos_eq [where r = "2 ^ 28 - 1 - (s - 2 ^ 30 + (2 ^ 28 - 1)) mod 2 ^ 28"]) auto
      finally show ?thesis by simp
    qed
    ultimately have "uint ((- x) div FIX_SIZE) = (if s = 2 ^ 30 then 0 else 2 ^ 36 - q)"
      by (simp add: uint_div two)
    moreover have q0: "s = 2 ^ 30 \<Longrightarrow> q = 0" "s \<noteq> 2 ^ 30 \<Longrightarrow> 0 < q" using True by (auto simp: q_def)
    ultimately have "uint ((- x) div FIX_SIZE * FIX_SIZE) = (if s = 2 ^ 30 then 0 else 2 ^ 64 - q * 2 ^ 28)"
      using q by (auto simp: uint_word_ariths(3) two algebra_simps)
    then have "uint (- ((- x) div FIX_SIZE * FIX_SIZE)) = q * 2 ^ 28"
      using q(1,2) q0 unfolding uint_neg by (cases "s = 2 ^ 30") simp_all
    then show ?thesis using True cmp by (simp add: clamp_read_def x_def q_def)
  next
    case False
    then show ?thesis using cmp assms(3) by (auto simp: clamp_read_def x_def)
  qed
qed

subsection \<open>Two pools that are two numbers\<close>

fun demo_size :: "pool_id \<Rightarrow> w64 \<times> w64 \<Rightarrow> w64" where
  "demo_size WritePool p = fst p" | "demo_size ReadPool p = snd p"

fun demo_set :: "pool_id \<Rightarrow> w64 \<Rightarrow> w64 \<times> w64 \<Rightarrow> w64 \<times> w64" where
  "demo_set WritePool n p = (n, snd p)" | "demo_set ReadPool n p = (fst p, n)"

definition demo_pools :: "(w64 \<times> w64) pool_lib" where
  "demo_pools = \<lparr>poolSize = demo_size,
     shrinkPool = (\<lambda>pid n p. if n \<le> demo_size pid p then (True, demo_set pid (demo_size pid p - n) p) else (False, p)),
     growPool = (\<lambda>pid n p. (True, demo_set pid (demo_size pid p + n) p))\<rparr>"

lemma demo_size_set [simp]: "demo_size q (demo_set pid n p) = (if q = pid then n else demo_size q p)"
  by (cases q; cases pid; simp)

lemma demo_pools_laws: "pool_laws demo_pools"
  unfolding pool_laws_def by (simp add: demo_pools_def split: if_splits) (metis demo_size_set)

text \<open>
  A write pool of 2 GiB, all of it in use, and a read pool of 4 GiB: the scheduler asks for 1 GiB and 2
  GiB, and the round makes the write pool larger.
\<close>

lemma shrink_grows_write_pool:
  "resize_round demo_pools 4 8 (2 ^ 31) (2 ^ 31, 2 ^ 32) = (2 ^ 31 + 2 ^ 29, 2 ^ 31)"
  by code_simp

theorem resize_round_conserves_witness:
  "pool_total demo_pools (resize_round demo_pools 4 8 (2 ^ 31) (2 ^ 31, 2 ^ 32)) \<le> 2 ^ 31 + 2 ^ 32"
  using resize_round_conserves [OF demo_pools_laws, of "(2 ^ 31, 2 ^ 32)" 4 8 "2 ^ 31"]
  by (simp add: pool_total_def demo_pools_def)

theorem clamp_write_limits_witness:
  "sint (clamp_write (2 ^ 31) (2 ^ 31) (- (2 ^ 30))) = 2 ^ 29 \<and> 0 < sint (clamp_write (2 ^ 31) (2 ^ 31) (- (2 ^ 30)))"
  using clamp_write_limits [of "2 ^ 31" "2 ^ 31" "2 ^ 31" 0 "- (2 ^ 30)" "2 ^ 30"] by simp

theorem clamp_read_limits_witness:
  "uint (- clamp_read (2 ^ 30 + 1) (- (2 ^ 30))) = 2 ^ 28"
  using clamp_read_limits [of "2 ^ 30 + 1" "2 ^ 30 + 1" "- (2 ^ 30)" "2 ^ 30"] by simp

end
