(* ===== verification/Global_Chunks.thy ===== *)
theory Global_Chunks
  imports Prelude
begin

section \<open>Chunks and placement of the global cache (\<^verbatim>\<open>global_cache\<close>)\<close>

text \<open>
  How a byte range is cut into chunk requests (\<^verbatim>\<open>GenerateGetChunkRequestsV2\<close> of the read cache and of the
  replication client) and how the servers of a key are chosen (\<^verbatim>\<open>Placement\<close> and the two \<^verbatim>\<open>GetReplica\<close>).
  \<^verbatim>\<open>std::hash\<close> is a parameter; its value is a 64-bit word, and so is the sum with the replica index.
  The sub-buffer of a request is its offset in the caller's buffer.  Ranges end below \<open>2 ^ 64\<close>, as those
  of a file do, and the list of servers is not empty.
\<close>

subsection \<open>Chunk requests\<close>

record chunk_request =
  user_key :: key
  internal_key :: key
  chunk_id :: nat
  chunk_start :: nat
  chunk_len :: nat
  chunk_granularity :: nat
  buffer_off :: nat

definition chunk_name :: "key \<Rightarrow> nat \<Rightarrow> nat \<Rightarrow> key" where
  "chunk_name key cid chunk_size = key @ ''-'' @ to_string cid @ ''-'' @ to_string chunk_size"

text \<open>The loop over the chunk numbers; a chunk that would be empty ends it.\<close>

fun gen_loop :: "(nat \<Rightarrow> key) \<Rightarrow> key \<Rightarrow> nat \<Rightarrow> nat \<Rightarrow> nat \<Rightarrow> nat \<Rightarrow> nat list \<Rightarrow> chunk_request list" where
  "gen_loop name key chunk_size start stop buffer_offset [] = []"
| "gen_loop name key chunk_size start stop buffer_offset (cid # ids) =
     (let cstart = max (cid * chunk_size) start;
          cstop = min ((cid + 1) * chunk_size) stop
      in if cstop \<le> cstart then []
         else \<lparr>user_key = key, internal_key = name cid, chunk_id = cid, chunk_start = cstart mod chunk_size,
                chunk_len = cstop - cstart, chunk_granularity = chunk_size, buffer_off = buffer_offset\<rparr>
              # gen_loop name key chunk_size start stop (buffer_offset + (cstop - cstart)) ids)"

definition gen_requests :: "(nat \<Rightarrow> key) \<Rightarrow> key \<Rightarrow> nat \<Rightarrow> nat \<Rightarrow> nat \<Rightarrow> chunk_request list" where
  "gen_requests name key start len chunk_size =
     (let stop = start + len;
          begin_chunk_id = start div chunk_size;
          end_chunk_id = (stop + chunk_size - 1) div chunk_size
      in gen_loop name key chunk_size start stop 0 [begin_chunk_id..<end_chunk_id])"

definition Read_GenerateGetChunkRequestsV2 :: "key \<Rightarrow> nat \<Rightarrow> nat \<Rightarrow> nat \<Rightarrow> chunk_request list" where
  "Read_GenerateGetChunkRequestsV2 key start len chunk_size =
     gen_requests (\<lambda>cid. chunk_name key cid chunk_size) key start len chunk_size"

definition Repl_GenerateGetChunkRequestsV2 :: "key \<Rightarrow> nat \<Rightarrow> nat \<Rightarrow> nat \<Rightarrow> chunk_request list" where
  "Repl_GenerateGetChunkRequestsV2 key start len chunk_size = gen_requests (\<lambda>cid. []) key start len chunk_size"

text \<open>
  The specification: from offset \<open>off\<close> of the buffer on, the requests follow each other without gap,
  each non-empty and inside one chunk, at the position of the file the buffer offset stands for.
\<close>

fun tiled :: "(nat \<Rightarrow> key) \<Rightarrow> key \<Rightarrow> nat \<Rightarrow> nat \<Rightarrow> nat \<Rightarrow> nat \<Rightarrow> chunk_request list \<Rightarrow> bool" where
  "tiled name key c start len off [] = (off = len)"
| "tiled name key c start len off (r # rs) =
     (user_key r = key \<and> internal_key r = name (chunk_id r) \<and> chunk_granularity r = c \<and>
      buffer_off r = off \<and> 0 < chunk_len r \<and> chunk_id r * c + chunk_start r = start + off \<and>
      chunk_start r + chunk_len r \<le> c \<and> tiled name key c start len (off + chunk_len r) rs)"

lemma tiled_le: "tiled name key c start len off rs \<Longrightarrow> off \<le> len"
  by (induction rs arbitrary: off) force+

lemma ceil_div_le: "0 < c \<Longrightarrow> stop \<le> (stop + c - 1) div c * (c :: nat)"
  using dividend_less_times_div [of c "stop + c - 1"] by (simp add: algebra_simps)

lemma ceil_div_least: "0 < c \<Longrightarrow> stop \<le> i * c \<Longrightarrow> (stop + c - 1) div c \<le> (i :: nat)"
  by (simp add: less_Suc_eq_le [symmetric] div_less_iff_less_mult)

lemma gen_loop_tiled:
  assumes c: "0 < c" and n: "n = (stop + c - 1) div c"
  shows "start + off = max (i * c) start \<and> start + off \<le> stop \<and> start + off < (i + 1) * c \<or>
      start + off = stop \<and> n \<le> i \<Longrightarrow>
    tiled name key c start (stop - start) off (gen_loop name key c start stop off [i..<n])"
proof (induction "n - i" arbitrary: i off)
  case 0
  then have "n \<le> i" by simp
  have "stop \<le> n * c" unfolding n by (rule ceil_div_le [OF c])
  also have "\<dots> \<le> i * c" using \<open>n \<le> i\<close> by simp
  finally have "stop \<le> i * c" .
  then have "start + off = stop" using 0 by auto
  then show ?case using 0 by auto
next
  case (Suc m)
  then have up: "[i..<n] = i # [Suc i..<n]" by (simp add: upt_conv_Cons)
  have p: "start + off = max (i * c) start" "start + off \<le> stop" "start + off < (i + 1) * c" using Suc by auto
  show ?case
  proof (cases "start + off = stop")
    case True
    then have "min ((i + 1) * c) stop \<le> max (i * c) start" using p(1) by simp
    then show ?thesis using True by (auto simp: up Let_def)
  next
    case False
    define l where "l = min ((i + 1) * c) stop - (start + off)"
    have l: "0 < l" "start + off + l = min ((i + 1) * c) stop" using p False by (auto simp: l_def)
    have "start + off - i * c < c" using p by (auto simp: max_def algebra_simps)
    then have md: "(start + off) mod c = start + off - i * c"
      using p(1) mod_mult_self1 [of "start + off - i * c" i c] by (simp add: add.commute)
    have tl: "tiled name key c start (stop - start) (off + l) (gen_loop name key c start stop (off + l) [Suc i..<n])"
    proof (rule Suc.hyps)
      show "m = n - Suc i" using Suc.hyps(2) by simp
      show "start + (off + l) = max (Suc i * c) start \<and> start + (off + l) \<le> stop \<and> start + (off + l) < (Suc i + 1) * c \<or>
          start + (off + l) = stop \<and> n \<le> Suc i"
        using l p c ceil_div_least [OF c, of stop "Suc i"] by (auto simp: min_def max_def n split: if_splits)
    qed
    have ne: "\<not> min ((i + 1) * c) stop \<le> max (i * c) start" using l p(1) by linarith
    have eq: "gen_loop name key c start stop off [i..<n] =
      \<lparr>user_key = key, internal_key = name i, chunk_id = i, chunk_start = (start + off) mod c,
       chunk_len = l, chunk_granularity = c, buffer_off = off\<rparr> # gen_loop name key c start stop (off + l) [Suc i..<n]"
      unfolding up gen_loop.simps Let_def l_def p(1) using ne by (simp only: if_False)
    show ?thesis unfolding eq using tl l p md by (auto simp: min_def split: if_splits)
  qed
qed

lemma gen_requests_tiled:
  assumes "0 < c" shows "tiled name key c start len 0 (gen_requests name key start len c)"
proof -
  have "start div c * c \<le> start" "start < (start div c + 1) * c"
    using assms dividend_less_times_div [of c start] by (simp_all add: algebra_simps)
  then have "tiled name key c start (start + len - start) 0 (gen_loop name key c start (start + len) 0
      [start div c..<(start + len + c - 1) div c])"
    by (intro gen_loop_tiled [OF assms refl]) (auto simp: max_def)
  then show ?thesis by (simp add: gen_requests_def Let_def)
qed

subsection \<open>Placement\<close>

definition placement_loop :: "64 word \<Rightarrow> nat \<Rightarrow> nat \<Rightarrow> int list" where
  "placement_loop seed num_available n = map (\<lambda>i. int (unat (seed + of_nat i) mod num_available)) [0..<n]"

definition Placement :: "(string \<Rightarrow> 64 word) \<Rightarrow> key \<Rightarrow> int \<Rightarrow> int \<Rightarrow> int list" where
  "Placement hash key num_available num_choose =
     placement_loop (hash key) (nat num_available) (nat (min num_available num_choose))"

definition Read_GetReplica :: "(string \<Rightarrow> 64 word) \<Rightarrow> string list \<Rightarrow> key \<Rightarrow> int \<Rightarrow> int list" where
  "Read_GetReplica hash server_list key num_choose =
     placement_loop (hash key) (length server_list) (nat (min (int (length server_list)) num_choose))"

definition Write_GetReplica :: "(string \<Rightarrow> 64 word) \<Rightarrow> string list \<Rightarrow> int \<Rightarrow> key \<Rightarrow> int list" where
  "Write_GetReplica hash server_list num_choose key = placement_loop (hash key) (length server_list) (nat num_choose)"

lemma length_placement_loop [simp]: "length (placement_loop seed m n) = n"
  by (simp add: placement_loop_def)

lemma placement_loop_range: "0 < m \<Longrightarrow> x \<in> set (placement_loop seed m n) \<Longrightarrow> 0 \<le> x \<and> x < int m"
  by (auto simp: placement_loop_def)

lemma unat_plus_no_wrap: "unat (seed :: 64 word) + i < 2 ^ 64 \<Longrightarrow> unat (seed + of_nat i) = unat seed + i"
  by (simp add: unat_word_ariths unat_of_nat)

lemma shifted_mod_inj: "i < n \<Longrightarrow> n \<le> m \<Longrightarrow> j \<le> i \<Longrightarrow> (a + i) mod m = (a + j) mod (m :: nat) \<Longrightarrow> i = j"
proof -
  assume a: "i < n" "n \<le> m" "j \<le> i" "(a + i) mod m = (a + j) mod m"
  then have "m dvd (a + i) - (a + j)" by (simp add: mod_eq_dvd_iff_nat)
  then have "m dvd i - j" by simp
  then show ?thesis using a by (auto dest: dvd_imp_le)
qed

lemma placement_loop_distinct:
  assumes "n \<le> m" and "unat seed + n \<le> 2 ^ 64"
  shows "distinct (placement_loop seed m n)"
proof -
  have "i = j" if "i < n" "j < n" "(unat seed + i) mod m = (unat seed + j) mod m" for i j
    using that assms(1) shifted_mod_inj [of i n m j "unat seed"] shifted_mod_inj [of j n m i "unat seed"]
    by (cases "j \<le> i") simp_all
  moreover have "unat (seed + of_nat i) = unat seed + i" if "i < n" for i
    using assms(2) that by (intro unat_plus_no_wrap) linarith
  ultimately have "inj_on (\<lambda>i. int (unat (seed + of_nat i) mod m)) (set [0..<n])"
    by (auto simp: inj_on_def)
  then show ?thesis by (simp add: placement_loop_def distinct_map)
qed

text \<open>
  C26: a range is cut into chunk requests that tile it.  For every chunk size and range the requests of
  the read cache client follow each other in the buffer without gap or overlap from 0 to the length,
  each lies inside one chunk, at the file position its buffer offset stands for, and carries that
  chunk's name; the requests of the replication client do the same without a name.
\<close>

theorem GenerateGetChunkRequests_tile:
  assumes "0 < chunk_size"
  shows "tiled (\<lambda>cid. chunk_name key cid chunk_size) key chunk_size start len 0
      (Read_GenerateGetChunkRequestsV2 key start len chunk_size) \<and>
    tiled (\<lambda>cid. []) key chunk_size start len 0 (Repl_GenerateGetChunkRequestsV2 key start len chunk_size)"
  unfolding Read_GenerateGetChunkRequestsV2_def Repl_GenerateGetChunkRequestsV2_def
  using gen_requests_tiled [OF assms] by blast

text \<open>
  The servers chosen for a key are as many as asked for or as there are, numbers of existing servers
  and all different, as long as the hash is not within that many of the largest 64-bit number: there the
  sum wraps around and a server may be chosen twice.
\<close>

theorem GetReplica_distinct:
  assumes "0 < length server_list" and "0 \<le> num_choose"
    and "unat (hash key) + nat (min (int (length server_list)) num_choose) \<le> 2 ^ 64"
  shows "length (Read_GetReplica hash server_list key num_choose) = min (length server_list) (nat num_choose) \<and>
    (\<forall>x \<in> set (Read_GetReplica hash server_list key num_choose). 0 \<le> x \<and> x < int (length server_list)) \<and>
    distinct (Read_GetReplica hash server_list key num_choose) \<and>
    Placement hash key (int (length server_list)) num_choose = Read_GetReplica hash server_list key num_choose"
  using assms placement_loop_range [OF assms(1)]
  by (auto simp: Read_GetReplica_def Placement_def min_def nat_le_iff intro!: placement_loop_distinct)

lemma replicas_collide_at_wrap:
  "Read_GetReplica (\<lambda>k. - 1) [''a'', ''b'', ''c''] key 2 = [0, 0]"
proof -
  have u: "unat (- 1 :: 64 word) = 18446744073709551615" by (simp add: unsigned_minus_1_eq_mask mask_eq_exp_minus_1)
  have "[0..<nat 2] = [0, 1]" by (simp add: upt_conv_Cons)
  then show ?thesis by (simp add: Read_GetReplica_def placement_loop_def u)
qed

text \<open>
  The replication client of the write cache does not limit the number of replicas to the number of
  servers: with a larger replication factor some server gets the same chunk more than once.
\<close>

theorem Write_GetReplica_repeats:
  assumes "0 < length server_list" and "int (length server_list) < num_choose"
  shows "length (Write_GetReplica hash server_list num_choose key) = nat num_choose \<and>
    \<not> distinct (Write_GetReplica hash server_list num_choose key)"
proof -
  let ?xs = "Write_GetReplica hash server_list num_choose key"
  have "set ?xs \<subseteq> {0..<int (length server_list)}"
    using placement_loop_range [OF assms(1)] by (auto simp: Write_GetReplica_def)
  then have "card (set ?xs) \<le> length server_list"
    using card_mono [of "{0..<int (length server_list)}" "set ?xs"] by simp
  moreover have "length ?xs = nat num_choose" by (simp add: Write_GetReplica_def)
  ultimately show ?thesis using assms(2) distinct_card [of ?xs] by auto
qed

theorem GenerateGetChunkRequests_tile_witness:
  "tiled (\<lambda>cid. chunk_name ''f'' cid 4) ''f'' 4 3 6 0 (Read_GenerateGetChunkRequestsV2 ''f'' 3 6 4) \<and>
   map chunk_len (Read_GenerateGetChunkRequestsV2 ''f'' 3 6 4) = [1, 4, 1]"
  using GenerateGetChunkRequests_tile [of 4 "''f''" 3 6]
  by (simp add: Read_GenerateGetChunkRequestsV2_def gen_requests_def Let_def upt_conv_Cons)

theorem GetReplica_distinct_witness:
  "distinct (Read_GetReplica (\<lambda>k. 5) [''a'', ''b'', ''c''] ''f'' 2)"
  using GetReplica_distinct [of "[''a'', ''b'', ''c'']" 2 "\<lambda>k. 5" "''f''"] by simp

theorem Write_GetReplica_repeats_witness:
  "\<not> distinct (Write_GetReplica (\<lambda>k. 5) [''a''] 2 ''f'')"
  using Write_GetReplica_repeats [of "[''a'']" 2 "\<lambda>k. 5" "''f''"] by simp

end
