(* ===== verification/Effects.thy ===== *)
theory Effects
  imports Main "HOL-Library.State_Monad"
begin

section \<open>Reasoning about programs with state\<close>

text \<open>
  The global cache threads its state through many calls and is written in the state monad of the
  library.  \<open>holds P m Q\<close> says that from every state with \<open>P\<close> the program \<open>m\<close> gives a value and a state
  with \<open>Q\<close>; programs are total functions, so this is total correctness.  The rules of the collection
  \<open>holds_intros\<close> follow the syntax of programs.
\<close>

definition holds :: "('s \<Rightarrow> bool) \<Rightarrow> ('s, 'a) state \<Rightarrow> ('a \<Rightarrow> 's \<Rightarrow> bool) \<Rightarrow> bool" where
  "holds P m Q = (\<forall>s. P s \<longrightarrow> (case run_state m s of (a, s') \<Rightarrow> Q a s'))"

named_theorems holds_intros \<open>rules for the programs of the global cache\<close>

lemma holdsI: "(\<And>s a s'. P s \<Longrightarrow> run_state m s = (a, s') \<Longrightarrow> Q a s') \<Longrightarrow> holds P m Q"
  by (auto simp: holds_def)

lemma holdsD: "holds P m Q \<Longrightarrow> P s \<Longrightarrow> run_state m s = (a, s') \<Longrightarrow> Q a s'"
  by (auto simp: holds_def)

lemma holds_return [holds_intros]: "(\<And>s. P s \<Longrightarrow> Q a s) \<Longrightarrow> holds P (State_Monad.return a) Q"
  by (simp add: holds_def)

lemma holds_get [holds_intros]: "(\<And>s. P s \<Longrightarrow> Q s s) \<Longrightarrow> holds P State_Monad.get Q"
  by (simp add: holds_def)

lemma holds_set: "(\<And>s. P s \<Longrightarrow> Q () s') \<Longrightarrow> holds P (State_Monad.set s') Q"
  by (simp add: holds_def)

lemma holds_bind:
  "holds P m R \<Longrightarrow> (\<And>a. holds (R a) (f a) Q) \<Longrightarrow> holds P (State_Monad.bind m f) Q"
  by (fastforce simp: holds_def split: prod.splits)

lemma holds_conseq:
  "holds P' m Q' \<Longrightarrow> (\<And>s. P s \<Longrightarrow> P' s) \<Longrightarrow> (\<And>a s. Q' a s \<Longrightarrow> Q a s) \<Longrightarrow> holds P m Q"
  by (fastforce simp: holds_def)

lemma holds_pre: "holds P' m Q \<Longrightarrow> (\<And>s. P s \<Longrightarrow> P' s) \<Longrightarrow> holds P m Q"
  by (simp add: holds_def)

lemma holds_post: "holds P m Q' \<Longrightarrow> (\<And>a s. Q' a s \<Longrightarrow> Q a s) \<Longrightarrow> holds P m Q"
  by (fastforce simp: holds_def)

lemma holds_assume: "(C \<Longrightarrow> holds P m Q) \<Longrightarrow> holds (\<lambda>s. P s \<and> C) m Q"
  by (auto simp: holds_def)

lemma holds_if [holds_intros]:
  "(c \<Longrightarrow> holds P m Q) \<Longrightarrow> (\<not> c \<Longrightarrow> holds P n Q) \<Longrightarrow> holds P (if c then m else n) Q"
  by simp

lemma holds_case_option [holds_intros]:
  "(x = None \<Longrightarrow> holds P m Q) \<Longrightarrow> (\<And>y. x = Some y \<Longrightarrow> holds P (f y) Q) \<Longrightarrow>
   holds P (case x of None \<Rightarrow> m | Some y \<Rightarrow> f y) Q"
  by (cases x) simp_all

lemma holds_case_prod [holds_intros]:
  "(\<And>a b. x = (a, b) \<Longrightarrow> holds P (f a b) Q) \<Longrightarrow> holds P (case x of (a, b) \<Rightarrow> f a b) Q"
  by (cases x) simp

text \<open>Reading and changing the state by a function.\<close>

definition gets :: "('s \<Rightarrow> 'a) \<Rightarrow> ('s, 'a) state" where
  "gets f = State (\<lambda>s. (f s, s))"

definition modify :: "('s \<Rightarrow> 's) \<Rightarrow> ('s, unit) state" where
  "modify f = State (\<lambda>s. ((), f s))"

lemma run_gets [simp]: "run_state (gets f) s = (f s, s)"
  by (simp add: gets_def)

lemma run_modify [simp]: "run_state (modify f) s = ((), f s)"
  by (simp add: modify_def)

lemma holds_gets [holds_intros]: "(\<And>s. P s \<Longrightarrow> Q (f s) s) \<Longrightarrow> holds P (gets f) Q"
  by (simp add: holds_def)

lemma holds_modify [holds_intros]: "(\<And>s. P s \<Longrightarrow> Q () (f s)) \<Longrightarrow> holds P (modify f) Q"
  by (simp add: holds_def)

text \<open>A call that keeps an invariant and whose result satisfies a predicate.\<close>

definition keeps :: "('s \<Rightarrow> bool) \<Rightarrow> ('s, 'a) state \<Rightarrow> ('a \<Rightarrow> bool) \<Rightarrow> bool" where
  "keeps I m R = holds I m (\<lambda>a s. I s \<and> R a)"

lemma keepsD: "keeps I m R \<Longrightarrow> I s \<Longrightarrow> run_state m s = (a, s') \<Longrightarrow> I s' \<and> R a"
  by (auto simp: keeps_def holds_def)

lemma keepsI: "(\<And>s a s'. I s \<Longrightarrow> run_state m s = (a, s') \<Longrightarrow> I s' \<and> R a) \<Longrightarrow> keeps I m R"
  by (auto simp: keeps_def holds_def)

lemma keeps_bind:
  "keeps I m R \<Longrightarrow> (\<And>a. R a \<Longrightarrow> keeps I (f a) Q) \<Longrightarrow> keeps I (State_Monad.bind m f) Q"
proof (rule keepsI)
  assume m: "keeps I m R" and f: "\<And>a. R a \<Longrightarrow> keeps I (f a) Q"
  fix s b s'' assume "I s" and "run_state (State_Monad.bind m f) s = (b, s'')"
  then obtain a s' where "run_state m s = (a, s')" "run_state (f a) s' = (b, s'')"
    by (auto split: prod.splits)
  then show "I s'' \<and> Q b" using keepsD [OF m \<open>I s\<close>] keepsD [OF f] by blast
qed

lemma keeps_return [holds_intros]: "R a \<Longrightarrow> keeps I (State_Monad.return a) R"
  by (simp add: keeps_def holds_def)

lemma keeps_weaken: "keeps I m R' \<Longrightarrow> (\<And>a. R' a \<Longrightarrow> R a) \<Longrightarrow> keeps I m R"
  by (rule keepsI, frule (2) keepsD) simp

lemma keeps_if [holds_intros]:
  "(c \<Longrightarrow> keeps I m R) \<Longrightarrow> (\<not> c \<Longrightarrow> keeps I n R) \<Longrightarrow> keeps I (if c then m else n) R"
  by simp

lemma keeps_gets [holds_intros]: "(\<And>s. I s \<Longrightarrow> R (f s)) \<Longrightarrow> keeps I (gets f) R"
  by (simp add: keeps_def holds_def)

lemma keeps_modify [holds_intros]: "(\<And>s. I s \<Longrightarrow> I (f s)) \<Longrightarrow> R () \<Longrightarrow> keeps I (modify f) R"
  by (simp add: keeps_def holds_def)

lemma keeps_case_option [holds_intros]:
  "(x = None \<Longrightarrow> keeps I m R) \<Longrightarrow> (\<And>y. x = Some y \<Longrightarrow> keeps I (f y) R) \<Longrightarrow>
   keeps I (case x of None \<Rightarrow> m | Some y \<Rightarrow> f y) R"
  by (cases x) simp_all

lemma keeps_case_prod [holds_intros]:
  "(\<And>a b. x = (a, b) \<Longrightarrow> keeps I (f a b) R) \<Longrightarrow> keeps I (case x of (a, b) \<Rightarrow> f a b) R"
  by (cases x) simp

end
