(* ===== verification/Global_State.thy ===== *)
theory Global_State
  imports Global_Chunks Effects
begin

section \<open>State of the global cache client, its RPCs and its metadata\<close>

text \<open>
  \<^verbatim>\<open>global_cache/Common.h\<close>, \<^verbatim>\<open>GlobalCacheClient.cpp\<close>, \<^verbatim>\<open>EtcdClient.h\<close> and the metadata cache of
  \<^verbatim>\<open>GlobalDataAdaptor.cpp\<close>.  What lies outside is the parameter \<^verbatim>\<open>world\<close>: brpc, etcd, jsoncpp, the base
  adaptor (an abstract class) and \<^verbatim>\<open>lrand48\<close>, each a function on the state \<open>'w\<close> of the outside; etcd
  keeps the text jsoncpp writes, and gives \<open>None\<close> where jsoncpp cannot read the text back.  A
  reply \<open>None\<close> of an RPC is \<^verbatim>\<open>cntl.Failed()\<close>; a result \<open>None\<close> of the base adaptor is a future that
  carries an exception, and \<open>value_or\<close> reads it as \<^verbatim>\<open>FOLLY_ERROR\<close>.  Futures run where they are created.
\<close>

abbreviation OK :: int where "OK \<equiv> 0"
abbreviation RPC_FAILED :: int where "RPC_FAILED \<equiv> -2"
abbreviation NOT_FOUND :: int where "NOT_FOUND \<equiv> -3"
abbreviation INVALID_ARGUMENT :: int where "INVALID_ARGUMENT \<equiv> -4"
abbreviation FOLLY_ERROR :: int where "FOLLY_ERROR \<equiv> -6"
abbreviation METADATA_ERROR :: int where "METADATA_ERROR \<equiv> -8"
abbreviation IO_ERROR :: int where "IO_ERROR \<equiv> -9"
abbreviation END_OF_FILE :: int where "END_OF_FILE \<equiv> -10"
abbreviation NO_ENOUGH_DISKSPACE :: int where "NO_ENOUGH_DISKSPACE \<equiv> -11"
abbreviation UNSUPPORTED_TYPE :: int where "UNSUPPORTED_TYPE \<equiv> -12"
abbreviation UNSUPPORTED_OPERATION :: int where "UNSUPPORTED_OPERATION \<equiv> -13"

datatype WriteCacheType = NOCACHE | REPLICATION | REED_SOLOMON

record CachePolicy =
  read_chunk_size :: nat
  read_replication_factor :: int
  write_cache_type :: WriteCacheType
  write_replication_factor :: int

record GlobalConfig =
  rpc_connections :: nat
  use_meta_cache :: bool
  write_chunk_size :: nat
  max_inflight_payload_size :: nat
  default_policy :: CachePolicy
  etcd_prefix :: string

type_synonym json_headers = "string \<rightharpoonup> string"

text \<open>The JSON record of a file in the write cache: an object with these members.\<close>

record json_root =
  jtype :: string
  jsize :: nat
  jreplica :: "int list"
  jpath :: "string list"
  jheaders :: json_headers

record 'w world =
  w_lrand48 :: "'w \<Rightarrow> nat \<times> 'w"
  w_channel_init :: "nat \<Rightarrow> int \<Rightarrow> 'w \<Rightarrow> int \<times> 'w"
  w_rpc_register :: "nat \<Rightarrow> int \<Rightarrow> 'w \<Rightarrow> int option \<times> 'w"
  w_rpc_get :: "bool \<Rightarrow> nat \<Rightarrow> int \<Rightarrow> key \<Rightarrow> nat \<Rightarrow> nat \<Rightarrow> 'w \<Rightarrow> (int \<times> bytes) option \<times> 'w"
  w_rpc_put :: "bool \<Rightarrow> nat \<Rightarrow> int \<Rightarrow> key \<Rightarrow> bytes \<Rightarrow> 'w \<Rightarrow> (int \<times> string) option \<times> 'w"
  w_rpc_del_read :: "nat \<Rightarrow> int \<Rightarrow> key \<Rightarrow> nat \<Rightarrow> nat \<Rightarrow> 'w \<Rightarrow> int option \<times> 'w"
  w_rpc_del_write :: "nat \<Rightarrow> int \<Rightarrow> string \<Rightarrow> nat \<Rightarrow> string list \<Rightarrow> 'w \<Rightarrow> int option \<times> 'w"
  w_rpc_query :: "nat \<Rightarrow> int \<Rightarrow> 'w \<Rightarrow> (int \<times> nat) option \<times> 'w"
  w_etcd_get :: "string \<Rightarrow> 'w \<Rightarrow> (int + json_root option) \<times> 'w"
  w_etcd_put :: "string \<Rightarrow> json_root \<Rightarrow> 'w \<Rightarrow> int option \<times> 'w"
  w_etcd_rm :: "string \<Rightarrow> 'w \<Rightarrow> int option \<times> 'w"
  w_etcd_keys :: "string \<Rightarrow> 'w \<Rightarrow> (int + string list) \<times> 'w"
  w_download :: "key \<Rightarrow> nat \<Rightarrow> nat \<Rightarrow> bytes \<Rightarrow> 'w \<Rightarrow> (int option \<times> bytes) \<times> 'w"
  w_upload :: "key \<Rightarrow> nat \<Rightarrow> bytes \<Rightarrow> json_headers \<Rightarrow> 'w \<Rightarrow> int option \<times> 'w"
  w_delete :: "key \<Rightarrow> 'w \<Rightarrow> int option \<times> 'w"
  w_head :: "key \<Rightarrow> nat \<Rightarrow> json_headers \<Rightarrow> 'w \<Rightarrow> (int option \<times> nat \<times> json_headers) \<times> 'w"

record MetaCacheEntry =
  present :: bool
  existed :: bool
  write_cached :: bool
  msize :: nat
  mheaders :: json_headers
  mroot :: json_root

record 'w genv =
  wld :: "'w world"
  server_list :: "string list"
  gcfg :: GlobalConfig
  hash :: "string \<Rightarrow> 64 word"
  evicted :: "key \<Rightarrow> (key \<rightharpoonup> MetaCacheEntry) \<Rightarrow> key set"
  fresh_bytes :: "nat \<Rightarrow> bytes"

record 'w gstate =
  server_map :: "nat \<Rightarrow> int set"
  inflight :: "nat \<Rightarrow> nat"
  bg_tasks :: "(nat \<times> int) list"
  meta_cache :: "key \<rightharpoonup> MetaCacheEntry"
  ext :: 'w

type_synonym ('w, 'a) gprog = "('w gstate, 'a) state"

definition value_or :: "int option \<Rightarrow> int" where
  "value_or r = (case r of None \<Rightarrow> FOLLY_ERROR | Some v \<Rightarrow> v)"

lemma value_or_Some [simp]: "value_or (Some v) = v"
  by (simp add: value_or_def)

lemma value_or_None [simp]: "value_or None = FOLLY_ERROR"
  by (simp add: value_or_def)

lemma value_or_OK [simp]: "value_or r = OK \<longleftrightarrow> r = Some OK"
  by (cases r) auto

text \<open>A call to the outside.\<close>

definition outside :: "('w \<Rightarrow> 'a \<times> 'w) \<Rightarrow> ('w, 'a) gprog" where
  "outside f = State (\<lambda>s. case f (ext s) of (a, w) \<Rightarrow> (a, s\<lparr>ext := w\<rparr>))"

lemma run_outside [simp]: "run_state (outside f) s = (case f (ext s) of (a, w) \<Rightarrow> (a, s\<lparr>ext := w\<rparr>))"
  by (simp add: outside_def)

definition policy :: "'w genv \<Rightarrow> CachePolicy" where
  "policy E = default_policy (gcfg E)"

subsection \<open>The RPC client (\<^verbatim>\<open>GlobalCacheClient.cpp\<close>)\<close>

definition RegisterServer :: "'w genv \<Rightarrow> nat \<Rightarrow> int \<Rightarrow> ('w, int) gprog" where
  "RegisterServer E conn server_id = do {
     rc \<leftarrow> outside (w_channel_init (wld E) conn server_id);
     if rc \<noteq> 0 then State_Monad.return RPC_FAILED
     else do {
       reply \<leftarrow> outside (w_rpc_register (wld E) conn server_id);
       if reply \<noteq> Some OK then State_Monad.return RPC_FAILED
       else do {
         modify (\<lambda>s. s\<lparr>server_map := (server_map s)(conn := insert server_id (server_map s conn))\<rparr>);
         State_Monad.return OK
       }
     }
   }"

definition GetChannelByServerId :: "nat \<Rightarrow> int \<Rightarrow> ('w, bool) gprog" where
  "GetChannelByServerId conn server_id = gets (\<lambda>s. server_id \<in> server_map s conn)"

definition add_inflight :: "nat \<Rightarrow> nat \<Rightarrow> ('w, unit) gprog" where
  "add_inflight conn n = modify (\<lambda>s. s\<lparr>inflight := (inflight s)(conn := inflight s conn + n)\<rparr>)"

definition sub_inflight :: "nat \<Rightarrow> nat \<Rightarrow> ('w, unit) gprog" where
  "sub_inflight conn n = modify (\<lambda>s. s\<lparr>inflight := (inflight s)(conn := inflight s conn - n)\<rparr>)"

definition GetEntry :: "'w genv \<Rightarrow> nat \<Rightarrow> bool \<Rightarrow> int \<Rightarrow> key \<Rightarrow> nat \<Rightarrow> nat \<Rightarrow> ('w, int \<times> bytes) gprog" where
  "GetEntry E conn is_read_cache server_id key start len = do {
     add_inflight conn len;
     channel \<leftarrow> GetChannelByServerId conn server_id;
     if \<not> channel then State_Monad.return (RPC_FAILED, [])
     else do {
       reply \<leftarrow> outside (w_rpc_get (wld E) is_read_cache conn server_id key start len);
       sub_inflight conn len;
       State_Monad.return (case reply of
           None \<Rightarrow> (RPC_FAILED, [])
         | Some (status, buf) \<Rightarrow> (if status = OK \<and> length buf \<noteq> len then RPC_FAILED else status, buf))
     }
   }"

definition PutEntry :: "'w genv \<Rightarrow> nat \<Rightarrow> bool \<Rightarrow> int \<Rightarrow> key \<Rightarrow> bytes \<Rightarrow> nat \<Rightarrow> ('w, int \<times> string) gprog" where
  "PutEntry E conn is_read_cache server_id key buf len = do {
     add_inflight conn len;
     channel \<leftarrow> GetChannelByServerId conn server_id;
     if \<not> channel then State_Monad.return (RPC_FAILED, [])
     else do {
       reply \<leftarrow> outside (w_rpc_put (wld E) is_read_cache conn server_id key (take len buf));
       sub_inflight conn len;
       State_Monad.return (case reply of None \<Rightarrow> (RPC_FAILED, []) | Some r \<Rightarrow> r)
     }
   }"

definition DeleteEntryFromReadCache :: "'w genv \<Rightarrow> nat \<Rightarrow> int \<Rightarrow> key \<Rightarrow> nat \<Rightarrow> nat \<Rightarrow> ('w, int) gprog" where
  "DeleteEntryFromReadCache E conn server_id key chunk_size max_chunk_id = do {
     channel \<leftarrow> GetChannelByServerId conn server_id;
     if \<not> channel then State_Monad.return RPC_FAILED
     else do {
       reply \<leftarrow> outside (w_rpc_del_read (wld E) conn server_id key chunk_size max_chunk_id);
       State_Monad.return (case reply of None \<Rightarrow> RPC_FAILED | Some st \<Rightarrow> st)
     }
   }"

text \<open>The time stamp of a failed query is never written by the code; it is 0 here and not used.\<close>

definition QueryTsFromWriteCache :: "'w genv \<Rightarrow> nat \<Rightarrow> int \<Rightarrow> ('w, int \<times> nat) gprog" where
  "QueryTsFromWriteCache E conn server_id = do {
     channel \<leftarrow> GetChannelByServerId conn server_id;
     if \<not> channel then State_Monad.return (RPC_FAILED, 0)
     else do {
       reply \<leftarrow> outside (w_rpc_query (wld E) conn server_id);
       State_Monad.return (case reply of None \<Rightarrow> (RPC_FAILED, 0) | Some r \<Rightarrow> r)
     }
   }"

definition DeleteEntryFromWriteCache ::
    "'w genv \<Rightarrow> nat \<Rightarrow> int \<Rightarrow> string \<Rightarrow> nat \<Rightarrow> string list \<Rightarrow> ('w, int) gprog" where
  "DeleteEntryFromWriteCache E conn server_id key_prefix max_ts except_keys = do {
     channel \<leftarrow> GetChannelByServerId conn server_id;
     if \<not> channel then State_Monad.return RPC_FAILED
     else do {
       reply \<leftarrow> outside (w_rpc_del_write (wld E) conn server_id key_prefix max_ts except_keys);
       State_Monad.return (case reply of None \<Rightarrow> RPC_FAILED | Some st \<Rightarrow> st)
     }
   }"

definition GetRpcClient :: "'w genv \<Rightarrow> ('w, nat) gprog" where
  "GetRpcClient E = do {
     r \<leftarrow> outside (w_lrand48 (wld E));
     State_Monad.return (r mod rpc_connections (gcfg E))
   }"

subsection \<open>Registering the servers\<close>

text \<open>The constructor registers every server with every connection; what fails is retried in rounds.\<close>

fun register_all :: "'w genv \<Rightarrow> (nat \<times> int) list \<Rightarrow> ('w, (nat \<times> int) list) gprog" where
  "register_all E [] = State_Monad.return []"
| "register_all E (t # ts) = do {
     rc \<leftarrow> RegisterServer E (fst t) (snd t);
     failed \<leftarrow> register_all E ts;
     State_Monad.return (if rc \<noteq> 0 then t # failed else failed)
   }"

definition all_tasks :: "'w genv \<Rightarrow> (nat \<times> int) list" where
  "all_tasks E = concat (map (\<lambda>conn. map (\<lambda>sid. (conn, int sid)) [0..<length (server_list E)])
     [0..<rpc_connections (gcfg E)])"

definition Adaptor_init :: "'w genv \<Rightarrow> ('w, unit) gprog" where
  "Adaptor_init E = do {
     failed \<leftarrow> register_all E (all_tasks E);
     modify (\<lambda>s. s\<lparr>bg_tasks := failed\<rparr>)
   }"

definition BackgroundRound :: "'w genv \<Rightarrow> ('w, unit) gprog" where
  "BackgroundRound E = do {
     tasks \<leftarrow> gets bg_tasks;
     failed \<leftarrow> register_all E tasks;
     modify (\<lambda>s. s\<lparr>bg_tasks := failed\<rparr>)
   }"

subsection \<open>The metadata server (\<^verbatim>\<open>EtcdClient.h\<close>)\<close>

definition PathJoin :: "string \<Rightarrow> string \<Rightarrow> string" where
  "PathJoin left right =
     (if left = [] then right
      else if left ! (length left - 1) = CHR ''/'' then left @ right
      else left @ ''/'' @ right)"

definition etcd_path :: "'w genv \<Rightarrow> key \<Rightarrow> string" where
  "etcd_path E key = PathJoin (etcd_prefix (gcfg E)) key"

definition empty_root :: json_root where
  "empty_root = \<lparr>jtype = [], jsize = 0, jreplica = [], jpath = [], jheaders = Map.empty\<rparr>"

definition GetJson :: "'w genv \<Rightarrow> key \<Rightarrow> ('w, int \<times> json_root) gprog" where
  "GetJson E key = do {
     resp \<leftarrow> outside (w_etcd_get (wld E) (etcd_path E key));
     State_Monad.return (case resp of
         Inl code \<Rightarrow> if code \<noteq> 100 then (METADATA_ERROR, empty_root) else (NOT_FOUND, empty_root)
       | Inr None \<Rightarrow> (METADATA_ERROR, empty_root)
       | Inr (Some root) \<Rightarrow> (OK, root))
   }"

definition PutJson :: "'w genv \<Rightarrow> key \<Rightarrow> json_root \<Rightarrow> ('w, int) gprog" where
  "PutJson E key root = do {
     resp \<leftarrow> outside (w_etcd_put (wld E) (etcd_path E key) root);
     State_Monad.return (case resp of None \<Rightarrow> OK | Some code \<Rightarrow> METADATA_ERROR)
   }"

definition DeleteJson :: "'w genv \<Rightarrow> key \<Rightarrow> ('w, int) gprog" where
  "DeleteJson E key = do {
     resp \<leftarrow> outside (w_etcd_rm (wld E) (etcd_path E key));
     State_Monad.return (case resp of
         None \<Rightarrow> OK
       | Some code \<Rightarrow> if code \<noteq> 100 then METADATA_ERROR else NOT_FOUND)
   }"

definition ListJson :: "'w genv \<Rightarrow> string \<Rightarrow> ('w, int \<times> key list) gprog" where
  "ListJson E key_prefix = do {
     resp \<leftarrow> outside (w_etcd_keys (wld E) (etcd_path E key_prefix));
     State_Monad.return (case resp of
         Inl code \<Rightarrow> if code \<noteq> 100 then (METADATA_ERROR, []) else (NOT_FOUND, [])
       | Inr ks \<Rightarrow> (OK, map (drop (length (etcd_prefix (gcfg E)))) ks))
   }"

subsection \<open>The metadata cache and \<^verbatim>\<open>Head\<close>\<close>

text \<open>
  The entries are shared by pointer; an operation that has fetched an entry finds it in the map until
  it erases it, so an update of the entry is an update of the map.  Inserting may evict others.
\<close>

definition new_entry :: MetaCacheEntry where
  "new_entry = \<lparr>present = False, existed = False, write_cached = False, msize = 0, mheaders = Map.empty,
     mroot = empty_root\<rparr>"

definition GetMetaCacheEntry :: "'w genv \<Rightarrow> key \<Rightarrow> ('w, MetaCacheEntry) gprog" where
  "GetMetaCacheEntry E key = do {
     mc \<leftarrow> gets meta_cache;
     (case mc key of
        None \<Rightarrow> do {
          modify (\<lambda>s. s\<lparr>meta_cache := (mc |` (- evicted E key mc))(key \<mapsto> new_entry)\<rparr>);
          State_Monad.return new_entry
        }
      | Some entry \<Rightarrow> State_Monad.return entry)
   }"

definition set_entry :: "key \<Rightarrow> (MetaCacheEntry \<Rightarrow> MetaCacheEntry) \<Rightarrow> ('w, unit) gprog" where
  "set_entry key f = modify (\<lambda>s. s\<lparr>meta_cache := (meta_cache s)(key := map_option f (meta_cache s key))\<rparr>)"

text \<open>What is learnt about a file is remembered when the metadata cache is in use.\<close>

definition remember :: "'w genv \<Rightarrow> key \<Rightarrow> (MetaCacheEntry \<Rightarrow> MetaCacheEntry) \<Rightarrow> ('w, unit) gprog" where
  "remember E key f = (if use_meta_cache (gcfg E) then set_entry key f else State_Monad.return ())"

definition InvalidateMetaCache :: "('w, unit) gprog" where
  "InvalidateMetaCache = modify (\<lambda>s. s\<lparr>meta_cache := Map.empty\<rparr>)"

definition InvalidateMetaCacheEntry :: "key \<Rightarrow> ('w, unit) gprog" where
  "InvalidateMetaCacheEntry key = modify (\<lambda>s. s\<lparr>meta_cache := (meta_cache s)(key := None)\<rparr>)"

text \<open>\<^verbatim>\<open>Head\<close> on the base adaptor, remembered when the answer is definite.\<close>

definition base_head :: "'w genv \<Rightarrow> key \<Rightarrow> nat \<Rightarrow> json_headers \<Rightarrow> ('w, int option \<times> nat \<times> json_headers) gprog" where
  "base_head E key size0 headers0 = do {
     (res, sz, headers) \<leftarrow> outside (w_head (wld E) key size0 headers0);
     _ \<leftarrow> (if res = Some OK \<or> res = Some NOT_FOUND
           then remember E key (\<lambda>e. e\<lparr>present := True, existed := (res = Some OK), write_cached := False,
                  msize := sz, mheaders := headers\<rparr>)
           else State_Monad.return ());
     State_Monad.return (res, sz, headers)
   }"

definition Head :: "'w genv \<Rightarrow> key \<Rightarrow> nat \<Rightarrow> json_headers \<Rightarrow> ('w, int option \<times> nat \<times> json_headers) gprog" where
  "Head E key size0 headers0 = do {
     entry \<leftarrow> GetMetaCacheEntry E key;
     if present entry
     then (if \<not> existed entry then State_Monad.return (Some NOT_FOUND, size0, headers0)
           else State_Monad.return (Some OK, msize entry, mheaders entry))
     else if write_cache_type (policy E) = NOCACHE then base_head E key size0 headers0
     else do {
       (status, root) \<leftarrow> GetJson E key;
       if status = OK
       then do {
         let sz = jsize root;
         let headers = headers0 ++ jheaders root;
         remember E key (\<lambda>e. e\<lparr>present := True, existed := True, write_cached := True, msize := sz,
           mheaders := headers, mroot := root\<rparr>);
         State_Monad.return (Some OK, sz, headers)
       }
       else if status \<noteq> NOT_FOUND then State_Monad.return (Some status, size0, headers0)
       else base_head E key size0 headers0
     }
   }"

end
