(* ===== verification/Read_Client.thy ===== *)
theory Read_Client
  imports Global_State
begin

section \<open>The client of the global read cache (\<^verbatim>\<open>global_cache/ReadCacheClient.cpp\<close>)\<close>

text \<open>
  A chunk is asked from one of its servers, chosen at random; a server that has not got it makes the
  client fetch the whole chunk through the base adaptor and store it on all its servers; a server that
  cannot be reached is replaced by the others in turn.  A request works on its part of the caller's
  buffer and returns it.
\<close>

definition AWS_BUFFER_PADDING :: nat where "AWS_BUFFER_PADDING = 64"

text \<open>The first of some results that is not \<^verbatim>\<open>OK\<close>.\<close>

fun first_error :: "int option list \<Rightarrow> int" where
  "first_error [] = OK"
| "first_error (r # rs) = (if value_or r \<noteq> OK then value_or r else first_error rs)"

lemma first_error_OK [simp]: "first_error rs = OK \<longleftrightarrow> (\<forall>r \<in> set rs. r = Some OK)"
  by (induction rs) auto

fun put_replicas :: "'w genv \<Rightarrow> key \<Rightarrow> bytes \<Rightarrow> int list \<Rightarrow> ('w, int option list) gprog" where
  "put_replicas E ikey data [] = State_Monad.return []"
| "put_replicas E ikey data (server_id # ids) = do {
     conn \<leftarrow> GetRpcClient E;
     (st, ik) \<leftarrow> PutEntry E conn True server_id ikey data (length data);
     rs \<leftarrow> put_replicas E ikey data ids;
     State_Monad.return (Some st # rs)
   }"

definition GetChunkFromGlobalCache ::
    "'w genv \<Rightarrow> chunk_request \<Rightarrow> bytes \<Rightarrow> ('w, int option \<times> bytes) gprog" where
  "GetChunkFromGlobalCache E request buf = do {
     (res, sz, headers) \<leftarrow> Head E (user_key request) 0 Map.empty;
     if value_or res \<noteq> OK then State_Monad.return (Some (value_or res), buf)
     else do {
       let align_chunk_start = chunk_id request * chunk_granularity request;
       let align_chunk_stop = min (align_chunk_start + chunk_granularity request) sz;
       if align_chunk_start + chunk_start request + chunk_len request > sz
       then State_Monad.return (Some END_OF_FILE, buf)
       else if align_chunk_start = align_chunk_stop then State_Monad.return (Some OK, buf)
       else if align_chunk_start > align_chunk_stop then State_Monad.return (Some INVALID_ARGUMENT, buf)
       else do {
         let n = align_chunk_stop - align_chunk_start;
         (res, data) \<leftarrow> outside (w_download (wld E) (user_key request) align_chunk_start n
                           (fresh_bytes E (n + AWS_BUFFER_PADDING)));
         if value_or res \<noteq> OK then State_Monad.return (Some (value_or res), buf)
         else do {
           let buf = blit buf 0 (slice (chunk_start request) (chunk_len request) data);
           let replicas = Read_GetReplica (hash E) (server_list E) (internal_key request)
                            (read_replication_factor (policy E));
           rs \<leftarrow> put_replicas E (internal_key request) (take n data) replicas;
           State_Monad.return (Some (first_error rs), buf)
         }
       }
     }
   }"

definition GetChunkAsync ::
    "'w genv \<Rightarrow> int \<Rightarrow> chunk_request \<Rightarrow> bytes \<Rightarrow> ('w, int option \<times> bytes) gprog" where
  "GetChunkAsync E server_id request buf = do {
     conn \<leftarrow> GetRpcClient E;
     (status, data) \<leftarrow> GetEntry E conn True server_id (internal_key request) (chunk_start request) (chunk_len request);
     if status = OK then State_Monad.return (Some OK, blit buf 0 (take (length buf) data))
     else if status = NOT_FOUND then GetChunkFromGlobalCache E request buf
     else State_Monad.return (Some status, buf)
   }"

fun read_failover ::
    "'w genv \<Rightarrow> int \<Rightarrow> chunk_request \<Rightarrow> int list \<Rightarrow> bytes \<Rightarrow> ('w, int option \<times> bytes) gprog" where
  "read_failover E primary request [] buf = State_Monad.return (Some RPC_FAILED, buf)"
| "read_failover E primary request (server_id # ids) buf =
     (if server_id = primary then read_failover E primary request ids buf
      else do {
        (res, buf) \<leftarrow> GetChunkAsync E server_id request buf;
        if res \<noteq> Some RPC_FAILED then State_Monad.return (res, buf)
        else read_failover E primary request ids buf
      })"

definition DoGetChunkAsync ::
    "'w genv \<Rightarrow> chunk_request \<Rightarrow> bytes \<Rightarrow> ('w, int option \<times> bytes) gprog" where
  "DoGetChunkAsync E request buf = do {
     let replicas = Read_GetReplica (hash E) (server_list E) (internal_key request)
                      (read_replication_factor (policy E));
     r \<leftarrow> outside (w_lrand48 (wld E));
     let primary = replicas ! (r mod length replicas);
     (res, buf) \<leftarrow> GetChunkAsync E primary request buf;
     if res \<noteq> Some RPC_FAILED then State_Monad.return (res, buf)
     else read_failover E primary request replicas buf
   }"

text \<open>
  The requests in order; when the bytes asked for reach the limit the pending results are collected,
  and an error among them ends the call.  The read cache client does not reset its byte count then
  (\<open>reset\<close> is false), the replication client does.
\<close>

fun batch_loop ::
    "nat \<Rightarrow> bool \<Rightarrow> (chunk_request \<Rightarrow> bytes \<Rightarrow> ('w, int option \<times> bytes) gprog) \<Rightarrow> chunk_request list \<Rightarrow> nat \<Rightarrow>
     int option list \<Rightarrow> bytes \<Rightarrow> ('w, int option \<times> bytes) gprog" where
  "batch_loop limit reset get_chunk [] aggr pending buf = State_Monad.return (Some (first_error pending), buf)"
| "batch_loop limit reset get_chunk (request # requests) aggr pending buf = do {
     (r, sub) \<leftarrow> get_chunk request (slice (buffer_off request) (chunk_len request) buf);
     let buf = blit buf (buffer_off request) sub;
     let aggr = aggr + chunk_len request;
     let pending = pending @ [r];
     if aggr \<ge> limit
     then (if first_error pending \<noteq> OK then State_Monad.return (Some (first_error pending), buf)
           else batch_loop limit reset get_chunk requests (if reset then 0 else aggr) [] buf)
     else batch_loop limit reset get_chunk requests aggr pending buf
   }"

definition ReadClient_Get ::
    "'w genv \<Rightarrow> key \<Rightarrow> nat \<Rightarrow> nat \<Rightarrow> bytes \<Rightarrow> ('w, int option \<times> bytes) gprog" where
  "ReadClient_Get E key start len buf =
     (case Read_GenerateGetChunkRequestsV2 key start len (read_chunk_size (policy E)) of
        [] \<Rightarrow> State_Monad.return (Some OK, buf)
      | [request] \<Rightarrow> do {
          (r, sub) \<leftarrow> DoGetChunkAsync E request (slice (buffer_off request) (chunk_len request) buf);
          State_Monad.return (r, blit buf (buffer_off request) sub)
        }
      | requests \<Rightarrow> batch_loop (max_inflight_payload_size (gcfg E)) False (DoGetChunkAsync E) requests 0 [] buf)"

fun invalidate_servers :: "'w genv \<Rightarrow> key \<Rightarrow> nat \<Rightarrow> nat \<Rightarrow> int list \<Rightarrow> ('w, int option list) gprog" where
  "invalidate_servers E key chunk_size end_chunk_id [] = State_Monad.return []"
| "invalidate_servers E key chunk_size end_chunk_id (server_id # ids) = do {
     conn \<leftarrow> GetRpcClient E;
     st \<leftarrow> DeleteEntryFromReadCache E conn server_id key chunk_size end_chunk_id;
     rs \<leftarrow> invalidate_servers E key chunk_size end_chunk_id ids;
     State_Monad.return (Some st # rs)
   }"

definition ReadClient_Invalidate :: "'w genv \<Rightarrow> key \<Rightarrow> nat \<Rightarrow> ('w, int) gprog" where
  "ReadClient_Invalidate E key sz = do {
     let chunk_size = read_chunk_size (policy E);
     let end_chunk_id = (sz + chunk_size - 1) div chunk_size;
     rs \<leftarrow> invalidate_servers E key chunk_size end_chunk_id (map int [0..<length (server_list E)]);
     State_Monad.return (first_error rs)
   }"

subsection \<open>Correctness of a read\<close>

text \<open>
  The content of the files is \<open>content\<close>.  What is relied on: a server that answers \<^verbatim>\<open>OK\<close> with as many
  bytes as asked returns bytes of the chunk, storing a chunk's own bytes keeps that so, the metadata
  servers know the sizes, the base adaptor reads the content, and no call here changes the files.
\<close>

definition chunk_bytes :: "bytes \<Rightarrow> nat \<Rightarrow> nat \<Rightarrow> bytes" where
  "chunk_bytes f cid c = slice (cid * c) (min c (length f - cid * c)) f"

definition law_rand :: "'w genv \<Rightarrow> ('w \<Rightarrow> bool) \<Rightarrow> bool" where
  "law_rand E J = (\<forall>w r w'. J w \<and> w_lrand48 (wld E) w = (r, w') \<longrightarrow> J w')"

definition law_rget :: "'w genv \<Rightarrow> ('w \<Rightarrow> bool) \<Rightarrow> (key \<rightharpoonup> bytes) \<Rightarrow> bool" where
  "law_rget E J content = (\<forall>w conn sid k s l r w'. J w \<and> w_rpc_get (wld E) True conn sid k s l w = (r, w') \<longrightarrow>
     J w' \<and>
     (\<forall>d key cid. r = Some (OK, d) \<and> length d = l \<and> 0 < l \<and> k = chunk_name key cid (read_chunk_size (policy E)) \<longrightarrow>
        (\<exists>f. content key = Some f \<and> cid * read_chunk_size (policy E) + s + l \<le> length f \<and>
             d = slice (cid * read_chunk_size (policy E) + s) l f)))"

definition law_rput :: "'w genv \<Rightarrow> ('w \<Rightarrow> bool) \<Rightarrow> (key \<rightharpoonup> bytes) \<Rightarrow> bool" where
  "law_rput E J content = (\<forall>w conn sid key cid f r w'. J w \<and> content key = Some f \<and>
     w_rpc_put (wld E) True conn sid (chunk_name key cid (read_chunk_size (policy E)))
       (chunk_bytes f cid (read_chunk_size (policy E))) w = (r, w') \<longrightarrow> J w')"

definition law_etcd :: "'w genv \<Rightarrow> ('w \<Rightarrow> bool) \<Rightarrow> (key \<rightharpoonup> bytes) \<Rightarrow> bool" where
  "law_etcd E J content = (\<forall>w key r w'. J w \<and> w_etcd_get (wld E) (etcd_path E key) w = (r, w') \<longrightarrow> J w' \<and>
     (\<forall>root. r = Inr (Some root) \<longrightarrow>
        (\<exists>f. content key = Some f \<and> jsize root = length f)))"

definition law_head :: "'w genv \<Rightarrow> ('w \<Rightarrow> bool) \<Rightarrow> (key \<rightharpoonup> bytes) \<Rightarrow> bool" where
  "law_head E J content = (\<forall>w key sz hs r sz' hs' w'. J w \<and> w_head (wld E) key sz hs w = ((r, sz', hs'), w') \<longrightarrow>
     J w' \<and> (r = Some OK \<longrightarrow> (\<exists>f. content key = Some f \<and> sz' = length f)))"

definition law_download :: "'w genv \<Rightarrow> ('w \<Rightarrow> bool) \<Rightarrow> (key \<rightharpoonup> bytes) \<Rightarrow> bool" where
  "law_download E J content = (\<forall>w key start n buf r buf' w'.
     J w \<and> w_download (wld E) key start n buf w = ((r, buf'), w') \<longrightarrow> J w' \<and> length buf' = length buf \<and>
     (\<forall>f. r = Some OK \<and> content key = Some f \<and> start + n \<le> length f \<and> n \<le> length buf \<longrightarrow>
        take n buf' = slice start n f))"

definition read_laws :: "'w genv \<Rightarrow> ('w \<Rightarrow> bool) \<Rightarrow> (key \<rightharpoonup> bytes) \<Rightarrow> bool" where
  "read_laws E J content = (law_rand E J \<and> law_rget E J content \<and> law_rput E J content \<and> law_etcd E J content \<and>
     law_head E J content \<and> law_download E J content \<and> (\<forall>n. length (fresh_bytes E n) = n) \<and>
     0 < read_chunk_size (policy E))"

text \<open>The cached metadata is right about existing files.\<close>

definition meta_ok :: "(key \<rightharpoonup> bytes) \<Rightarrow> (key \<rightharpoonup> MetaCacheEntry) \<Rightarrow> bool" where
  "meta_ok content mc = (\<forall>key e. mc key = Some e \<and> present e \<and> existed e \<longrightarrow>
     (\<exists>f. content key = Some f \<and> msize e = length f))"

definition ginv :: "('w \<Rightarrow> bool) \<Rightarrow> (key \<rightharpoonup> bytes) \<Rightarrow> 'w gstate \<Rightarrow> bool" where
  "ginv J content s = (J (ext s) \<and> meta_ok content (meta_cache s))"

lemma ginv_simps [simp]:
  "ginv J content (s\<lparr>server_map := a\<rparr>) = ginv J content s"
  "ginv J content (s\<lparr>inflight := b\<rparr>) = ginv J content s"
  "ginv J content (s\<lparr>bg_tasks := c\<rparr>) = ginv J content s"
  by (simp_all add: ginv_def)

lemma keeps_outside:
  "(\<And>w r w'. J w \<Longrightarrow> f w = (r, w') \<Longrightarrow> J w' \<and> R r) \<Longrightarrow> keeps (ginv J content) (outside f) R"
  by (rule keepsI) (fastforce simp: ginv_def split: prod.splits)

lemma keeps_rand: "law_rand E J \<Longrightarrow> keeps (ginv J content) (outside (w_lrand48 (wld E))) (\<lambda>_. True)"
  by (rule keeps_outside) (auto simp: law_rand_def)

lemma keeps_GetRpcClient: "law_rand E J \<Longrightarrow> keeps (ginv J content) (GetRpcClient E) (\<lambda>_. True)"
  unfolding GetRpcClient_def by (rule keeps_bind [OF keeps_rand]) (simp_all add: holds_intros)

lemma keeps_inflight [holds_intros]:
  "keeps (ginv J content) (add_inflight conn n) (\<lambda>_. True)"
  "keeps (ginv J content) (sub_inflight conn n) (\<lambda>_. True)"
  "keeps (ginv J content) (GetChannelByServerId conn sid) (\<lambda>_. True)"
  by (simp_all add: add_inflight_def sub_inflight_def GetChannelByServerId_def holds_intros)

lemma keeps_GetEntry:
  assumes laws: "law_rget E J content" and l: "0 < l"
  shows "keeps (ginv J content) (GetEntry E conn True sid (chunk_name key cid (read_chunk_size (policy E))) s l)
    (\<lambda>r. fst r = OK \<longrightarrow> (\<exists>f. content key = Some f \<and> cid * read_chunk_size (policy E) + s + l \<le> length f \<and>
       snd r = slice (cid * read_chunk_size (policy E) + s) l f))"
  (is "keeps ?I (GetEntry E conn True sid ?k s l) ?R")
proof -
  let ?Q = "\<lambda>reply. \<forall>d. reply = Some (OK, d) \<and> length d = l \<longrightarrow> ?R (OK, d)"
  have call: "keeps ?I (outside (w_rpc_get (wld E) True conn sid ?k s l)) ?Q"
  proof (rule keeps_outside)
    fix w r w' assume "J w" "w_rpc_get (wld E) True conn sid ?k s l w = (r, w')"
    with laws have "J w'" "\<And>d. r = Some (OK, d) \<Longrightarrow> length d = l \<Longrightarrow>
        (\<exists>f. content key = Some f \<and> cid * read_chunk_size (policy E) + s + l \<le> length f \<and>
             d = slice (cid * read_chunk_size (policy E) + s) l f)"
      using l unfolding law_rget_def by blast+
    then show "J w' \<and> ?Q r" by simp
  qed
  have ret: "keeps ?I (State_Monad.return (case reply of None \<Rightarrow> (RPC_FAILED, [])
      | Some (status, buf) \<Rightarrow> (if status = OK \<and> length buf \<noteq> l then RPC_FAILED else status, buf))) ?R"
    if "?Q reply" for reply
    using that by (intro keeps_return) (auto split: option.split)
  show ?thesis
    unfolding GetEntry_def
    by (rule keeps_bind [OF keeps_inflight(1)], rule keeps_bind [OF keeps_inflight(3)], rule keeps_if,
        rule keeps_return, simp, rule keeps_bind [OF call], rule keeps_bind [OF keeps_inflight(2)], rule ret)
qed

lemma keeps_PutEntry:
  assumes "law_rput E J content" and "content key = Some f" and "n = length d"
    and "d = chunk_bytes f cid (read_chunk_size (policy E))"
  shows "keeps (ginv J content)
    (PutEntry E conn True sid (chunk_name key cid (read_chunk_size (policy E))) d n) (\<lambda>_. True)"
proof -
  have call: "keeps (ginv J content) (outside (w_rpc_put (wld E) True conn sid
      (chunk_name key cid (read_chunk_size (policy E))) (take n d))) (\<lambda>_. True)"
    using assms by (intro keeps_outside) (auto simp: law_rput_def)
  show ?thesis
    unfolding PutEntry_def
    by (rule keeps_bind [OF keeps_inflight(1)], rule keeps_bind [OF keeps_inflight(3)], rule keeps_if,
        rule keeps_return, simp, rule keeps_bind [OF call], rule keeps_bind [OF keeps_inflight(2)],
        rule keeps_return, simp)
qed

lemma keeps_put_replicas:
  assumes "law_rand E J" and "law_rput E J content" and "content key = Some f"
    and "d = chunk_bytes f cid (read_chunk_size (policy E))"
  shows "keeps (ginv J content)
    (put_replicas E (chunk_name key cid (read_chunk_size (policy E))) d sids) (\<lambda>_. True)"
proof (induction sids)
  case (Cons sid sids)
  show ?case
    unfolding put_replicas.simps
    by (rule keeps_bind [OF keeps_GetRpcClient [OF assms(1)]],
        rule keeps_bind [OF keeps_PutEntry [OF assms(2,3) refl assms(4)]], rule keeps_case_prod,
        rule keeps_bind [OF Cons.IH], rule keeps_return, simp)
qed (simp add: holds_intros)

lemma keeps_GetMetaCacheEntry:
  "keeps (ginv J content) (GetMetaCacheEntry E key)
     (\<lambda>e. present e \<and> existed e \<longrightarrow> (\<exists>f. content key = Some f \<and> msize e = length f))"
proof (rule keepsI)
  fix s e s' assume I: "ginv J content s" and run: "run_state (GetMetaCacheEntry E key) s = (e, s')"
  show "ginv J content s' \<and> (present e \<and> existed e \<longrightarrow> (\<exists>f. content key = Some f \<and> msize e = length f))"
  proof (cases "meta_cache s key")
    case None
    then have "s' = s\<lparr>meta_cache := (meta_cache s |` (- evicted E key (meta_cache s)))(key \<mapsto> new_entry)\<rparr>" "e = new_entry"
      using run by (auto simp: GetMetaCacheEntry_def)
    then show ?thesis using I by (auto simp: ginv_def meta_ok_def new_entry_def restrict_map_def)
  next
    case (Some e')
    then have "s' = s" "e = e'" using run by (auto simp: GetMetaCacheEntry_def)
    then show ?thesis using I Some by (auto simp: ginv_def meta_ok_def)
  qed
qed

lemma keeps_set_entry:
  assumes "\<And>e. existed (f e) \<Longrightarrow> \<exists>c. content key = Some c \<and> msize (f e) = length c"
  shows "keeps (ginv J content) (set_entry key f) (\<lambda>_. True)"
  using assms by (auto simp: set_entry_def ginv_def meta_ok_def intro!: keeps_modify)

lemma keeps_remember:
  assumes "\<And>e. existed (f e) \<Longrightarrow> \<exists>c. content key = Some c \<and> msize (f e) = length c"
  shows "keeps (ginv J content) (remember E key f) (\<lambda>_. True)"
  unfolding remember_def by (intro keeps_if keeps_set_entry assms keeps_return) auto

lemma keeps_base_head:
  assumes "law_head E J content"
  shows "keeps (ginv J content) (base_head E key sz hs)
    (\<lambda>r. fst r = Some OK \<longrightarrow> (\<exists>f. content key = Some f \<and> fst (snd r) = length f))"
proof -
  let ?Q = "\<lambda>r. fst r = Some OK \<longrightarrow> (\<exists>f. content key = Some f \<and> fst (snd r) = length f)"
  have call: "keeps (ginv J content) (outside (w_head (wld E) key sz hs)) ?Q"
    using assms by (intro keeps_outside) (fastforce simp: law_head_def)
  show ?thesis
    unfolding base_head_def
    by (rule keeps_bind [OF call], rule keeps_case_prod, rule keeps_case_prod, rule keeps_bind [where R = "\<lambda>_. True"])
       (auto intro!: keeps_if keeps_remember keeps_return)
qed

lemma keeps_GetJson:
  assumes "law_etcd E J content"
  shows "keeps (ginv J content) (GetJson E key)
    (\<lambda>r. fst r = OK \<longrightarrow> (\<exists>f. content key = Some f \<and> jsize (snd r) = length f))"
proof -
  let ?Q = "\<lambda>r. \<forall>root. r = Inr (Some root) \<longrightarrow>
        (\<exists>f. content key = Some f \<and> jsize root = length f)"
  have call: "keeps (ginv J content) (outside (w_etcd_get (wld E) (etcd_path E key))) ?Q"
    using assms by (intro keeps_outside) (auto simp: law_etcd_def)
  show ?thesis
    unfolding GetJson_def by (rule keeps_bind [OF call], rule keeps_return) (auto split: sum.split option.split)
qed

lemma keeps_Head:
  assumes "law_head E J content" and "law_etcd E J content"
  shows "keeps (ginv J content) (Head E key sz hs)
    (\<lambda>r. fst r = Some OK \<longrightarrow> (\<exists>f. content key = Some f \<and> fst (snd r) = length f))"
proof -
  note bh = keeps_base_head [OF assms(1)]
  show ?thesis
    unfolding Head_def Let_def
    apply (rule keeps_bind [OF keeps_GetMetaCacheEntry])
    apply (rule keeps_if)
    subgoal by (intro keeps_if keeps_return) auto
    apply (rule keeps_if)
    subgoal by (rule bh)
    apply (rule keeps_bind [OF keeps_GetJson [OF assms(2)]])
    apply (rule keeps_case_prod)
    apply (rule keeps_if)
    subgoal by (rule keeps_bind [where R = "\<lambda>_. True"]) (auto intro!: keeps_remember keeps_return)
    subgoal by (intro keeps_if keeps_return bh) auto
    done
qed

text \<open>What a chunk request returns: on \<^verbatim>\<open>OK\<close> the bytes of the file it stands for.\<close>

definition chunk_result :: "nat \<Rightarrow> (key \<rightharpoonup> bytes) \<Rightarrow> chunk_request \<Rightarrow> int option \<times> bytes \<Rightarrow> bool" where
  "chunk_result c content req r = (length (snd r) = chunk_len req \<and>
     (fst r = Some OK \<longrightarrow> (\<exists>f. content (user_key req) = Some f \<and>
        chunk_id req * c + chunk_start req + chunk_len req \<le> length f \<and>
        snd r = slice (chunk_id req * c + chunk_start req) (chunk_len req) f)))"

definition request_ok :: "'w genv \<Rightarrow> chunk_request \<Rightarrow> bool" where
  "request_ok E req = (internal_key req = chunk_name (user_key req) (chunk_id req) (read_chunk_size (policy E)) \<and>
     chunk_granularity req = read_chunk_size (policy E) \<and> 0 < chunk_len req \<and>
     chunk_start req + chunk_len req \<le> read_chunk_size (policy E))"

lemma slice_slice: "a + n \<le> m \<Longrightarrow> slice a n (slice b m xs) = slice (b + a) n xs"
  unfolding slice_def drop_take take_take drop_drop by (simp add: min_absorb1 add.commute)

lemma slice_take: "a + n \<le> m \<Longrightarrow> slice a n (take m xs) = slice a n xs"
  unfolding slice_def drop_take take_take by (simp add: min_absorb1)

lemma blit_all: "length xs = length ys \<Longrightarrow> blit xs 0 ys = ys"
  by (simp add: blit_def)

lemma keeps_GetChunkFromGlobalCache:
  assumes laws: "read_laws E J content" and req: "request_ok E req" and buf: "length buf = chunk_len req"
  shows "keeps (ginv J content) (GetChunkFromGlobalCache E req buf)
    (chunk_result (read_chunk_size (policy E)) content req)"
  (is "keeps ?I _ ?R")
proof -
  let ?c = "read_chunk_size (policy E)"
  note L = laws [unfolded read_laws_def]
  define a where "a = chunk_id req * ?c"
  have g: "chunk_granularity req = ?c" and ik: "internal_key req = chunk_name (user_key req) (chunk_id req) ?c"
    and cl: "0 < chunk_len req" "chunk_start req + chunk_len req \<le> ?c"
    using req by (auto simp: request_ok_def)
  have fail: "keeps ?I (State_Monad.return (Some e, buf)) ?R" if "e \<noteq> OK" for e
    using that buf by (intro keeps_return) (simp add: chunk_result_def)
  have load: "keeps ?I (do {
         (res, data) \<leftarrow> outside (w_download (wld E) (user_key req) a n (fresh_bytes E (n + AWS_BUFFER_PADDING)));
         if value_or res \<noteq> OK then State_Monad.return (Some (value_or res), buf)
         else do {
           rs \<leftarrow> put_replicas E (internal_key req) (take n data) replicas;
           State_Monad.return (Some (first_error rs), blit buf 0 (slice (chunk_start req) (chunk_len req) data))
         }}) ?R"
    if f: "content (user_key req) = Some f" and n: "n = min (a + ?c) (length f) - a"
      and fit: "a + chunk_start req + chunk_len req \<le> length f" for f n replicas
  proof -
    have n': "n = min ?c (length f - a)" "a + n \<le> length f" "chunk_start req + chunk_len req \<le> n"
      using n cl fit by auto
    let ?Q = "\<lambda>r. length (snd r) = n + AWS_BUFFER_PADDING \<and> (fst r = Some OK \<longrightarrow> take n (snd r) = slice a n f)"
    have call: "keeps ?I (outside (w_download (wld E) (user_key req) a n
        (fresh_bytes E (n + AWS_BUFFER_PADDING)))) ?Q"
    proof (rule keeps_outside)
      fix w r w' assume w: "J w" "w_download (wld E) (user_key req) a n (fresh_bytes E (n + AWS_BUFFER_PADDING)) w = (r, w')"
      obtain q d where r: "r = (q, d)" by (cases r)
      have "law_download E J content" using L by blast
      then have "J w' \<and> length d = length (fresh_bytes E (n + AWS_BUFFER_PADDING)) \<and>
          (q = Some OK \<and> content (user_key req) = Some f \<and> a + n \<le> length f \<and>
           n \<le> length (fresh_bytes E (n + AWS_BUFFER_PADDING)) \<longrightarrow> take n d = slice a n f)"
        using w unfolding law_download_def r by blast
      then show "J w' \<and> ?Q r" using L f n'(2) by (simp add: r)
    qed
    show ?thesis
    proof (rule keeps_bind [OF call], rule keeps_case_prod, rule keeps_if)
      fix r res data assume "?Q r" "r = (res, data)" "\<not> value_or res \<noteq> OK"
      then have d: "take n data = slice a n f" "length data = n + AWS_BUFFER_PADDING" by auto
      have put: "take n data = chunk_bytes f (chunk_id req) ?c"
        using d n'(1) by (simp add: chunk_bytes_def a_def)
      have sl: "slice (chunk_start req) (chunk_len req) data = slice (a + chunk_start req) (chunk_len req) f"
        using d(1) n'(3) by (metis slice_slice slice_take)
      have "?R (Some (first_error rs), blit buf 0 (slice (chunk_start req) (chunk_len req) data))" for rs
        using f fit buf sl by (auto simp: chunk_result_def blit_all a_def)
      then show "keeps ?I (do {
           rs \<leftarrow> put_replicas E (internal_key req) (take n data) replicas;
           State_Monad.return (Some (first_error rs), blit buf 0 (slice (chunk_start req) (chunk_len req) data))}) ?R"
        unfolding ik
        by (intro keeps_bind [OF keeps_put_replicas [where E = E and content = content and cid = "chunk_id req" and f = f and key = "user_key req", OF _ _ f put]] keeps_return)
           (use L in auto)
    qed (use buf in \<open>auto simp: chunk_result_def intro!: keeps_return\<close>)
  qed
  show ?thesis
    unfolding GetChunkFromGlobalCache_def g a_def [symmetric] Let_def
  proof (rule keeps_bind [OF keeps_Head], use L in blast, use L in blast, rule keeps_case_prod, rule keeps_case_prod, rule keeps_if)
    fix r res p sz hs assume "fst r = Some OK \<longrightarrow> (\<exists>f. content (user_key req) = Some f \<and> fst (snd r) = length f)"
      "r = (res, p)" "p = (sz, hs)" "\<not> value_or res \<noteq> OK"
    then obtain f where "content (user_key req) = Some f" "sz = length f" by auto
    then show "keeps ?I (if a + chunk_start req + chunk_len req > sz
       then State_Monad.return (Some END_OF_FILE, buf)
       else if a = min (a + ?c) sz then State_Monad.return (Some OK, buf)
       else if a > min (a + ?c) sz then State_Monad.return (Some INVALID_ARGUMENT, buf)
       else do {
         (res, data) \<leftarrow> outside (w_download (wld E) (user_key req) a (min (a + ?c) sz - a)
                           (fresh_bytes E (min (a + ?c) sz - a + AWS_BUFFER_PADDING)));
         if value_or res \<noteq> OK then State_Monad.return (Some (value_or res), buf)
         else do {
           rs \<leftarrow> put_replicas E (internal_key req) (take (min (a + ?c) sz - a) data)
              (Read_GetReplica (hash E) (server_list E) (internal_key req) (read_replication_factor (policy E)));
           State_Monad.return (Some (first_error rs), blit buf 0 (slice (chunk_start req) (chunk_len req) data))
         }}) ?R"
      using cl by (intro keeps_if fail load) auto
  qed (auto intro: fail)
qed

lemma chunk_result_length: "chunk_result c content req r \<Longrightarrow> length (snd r) = chunk_len req"
  by (simp add: chunk_result_def)

lemma keeps_GetChunkAsync:
  assumes laws: "read_laws E J content" and req: "request_ok E req" and buf: "length buf = chunk_len req"
  shows "keeps (ginv J content) (GetChunkAsync E sid req buf) (chunk_result (read_chunk_size (policy E)) content req)"
proof -
  have L: "law_rand E J" "law_rget E J content" using laws by (auto simp: read_laws_def)
  have ik: "internal_key req = chunk_name (user_key req) (chunk_id req) (read_chunk_size (policy E))"
    and cl: "0 < chunk_len req" using req by (auto simp: request_ok_def)
  show ?thesis
    unfolding GetChunkAsync_def ik
    by (rule keeps_bind [OF keeps_GetRpcClient [OF L(1)]], rule keeps_bind [OF keeps_GetEntry [OF L(2) cl]],
        rule keeps_case_prod, intro keeps_if keeps_GetChunkFromGlobalCache [OF laws req buf] keeps_return)
       (use buf in \<open>auto simp: chunk_result_def blit_all\<close>)
qed

lemma keeps_read_failover:
  assumes laws: "read_laws E J content" and req: "request_ok E req"
  shows "length buf = chunk_len req \<Longrightarrow>
    keeps (ginv J content) (read_failover E primary req sids buf) (chunk_result (read_chunk_size (policy E)) content req)"
proof (induction sids arbitrary: buf)
  case Nil
  then show ?case by (simp add: keeps_return chunk_result_def)
next
  case (Cons sid sids)
  show ?case
    unfolding read_failover.simps
    by (rule keeps_if, rule Cons.IH [OF Cons.prems],
        rule keeps_bind [OF keeps_GetChunkAsync [OF laws req Cons.prems]], rule keeps_case_prod,
        rule keeps_if, rule keeps_return, simp, rule Cons.IH) (auto dest: chunk_result_length)
qed

lemma keeps_DoGetChunkAsync:
  assumes laws: "read_laws E J content" and req: "request_ok E req" and buf: "length buf = chunk_len req"
  shows "keeps (ginv J content) (DoGetChunkAsync E req buf) (chunk_result (read_chunk_size (policy E)) content req)"
proof -
  have "law_rand E J" using laws by (simp add: read_laws_def)
  from keeps_rand [OF this] show ?thesis
    unfolding DoGetChunkAsync_def Let_def
    by (rule keeps_bind) (rule keeps_bind [OF keeps_GetChunkAsync [OF laws req buf]], rule keeps_case_prod,
        rule keeps_if, rule keeps_return, simp, rule keeps_read_failover [OF laws req], auto dest: chunk_result_length)
qed

text \<open>
  What a loop over the requests of a tiled range returns when it starts at \<open>off\<close>: nothing outside
  \<open>[off, len)\<close> is touched, and on \<^verbatim>\<open>OK\<close> no pending result was an error and \<open>[off, len)\<close> holds the file.
\<close>

definition range_read ::
    "(key \<rightharpoonup> bytes) \<Rightarrow> key \<Rightarrow> nat \<Rightarrow> nat \<Rightarrow> nat \<Rightarrow> int option list \<Rightarrow> bytes \<Rightarrow> int option \<times> bytes \<Rightarrow> bool" where
  "range_read content key start len off pending buf r = (length (snd r) = length buf \<and>
     (fst r = Some OK \<longrightarrow> (\<forall>p \<in> set pending. p = Some OK) \<and>
        (\<forall>i < off. snd r ! i = buf ! i) \<and> (\<forall>i. len \<le> i \<and> i < length buf \<longrightarrow> snd r ! i = buf ! i) \<and>
        (off < len \<longrightarrow> (\<exists>f. content key = Some f \<and> start + len \<le> length f \<and>
           (\<forall>i. off \<le> i \<and> i < len \<longrightarrow> snd r ! i = f ! (start + i))))))"

lemma range_read_fail: "length b = length buf \<Longrightarrow> e \<noteq> OK \<Longrightarrow> range_read content key start len off pending buf (Some e, b)"
  by (simp add: range_read_def)

lemma range_read_step:
  assumes cr: "chunk_result c content req (r, s)" and t: "user_key req = key" "0 < chunk_len req"
      "chunk_id req * c + chunk_start req = start + off"
    and fit: "off + chunk_len req \<le> len" "len \<le> length buf"
    and rest: "range_read content key start len (off + chunk_len req) pend (blit buf off s) q"
    and pend: "fst q = Some OK \<longrightarrow> (\<forall>p \<in> set (pending @ [r]). p = Some OK)"
  shows "range_read content key start len off pending buf q"
proof -
  let ?n = "chunk_len req"
  define b where "b = blit buf off s"
  have ls: "length s = ?n" and lb: "length b = length buf" using cr fit by (auto simp: chunk_result_def b_def)
  have b_nth: "b ! i = (if off \<le> i \<and> i < off + ?n then s ! (i - off) else buf ! i)" if "i < length buf" for i
    unfolding b_def using ls fit that by (subst nth_blit) auto
  note R = rest [folded b_def, unfolded range_read_def]
  show ?thesis
    unfolding range_read_def
  proof (intro conjI impI)
    show "length (snd q) = length buf" using R lb by simp
    assume ok: "fst q = Some OK"
    then have r: "r = Some OK" using pend by simp
    obtain f where f: "content key = Some f" "start + off + ?n \<le> length f" "s = slice (start + off) ?n f"
      using cr r t by (auto simp: chunk_result_def)
    show "\<forall>p \<in> set pending. p = Some OK" using pend ok by simp
    show "\<forall>i < off. snd q ! i = buf ! i" using R ok fit by (auto simp: b_nth)
    show "\<forall>i. len \<le> i \<and> i < length buf \<longrightarrow> snd q ! i = buf ! i" using R ok fit lb by (auto simp: b_nth)
    have len: "start + len \<le> length f" using R ok f fit by (cases "off + ?n < len") auto
    have "snd q ! i = f ! (start + i)" if i: "off \<le> i" "i < len" for i
    proof (cases "i < off + ?n")
      case True
      then have "snd q ! i = b ! i" using R ok by auto
      also have "\<dots> = f ! (start + i)" using True i f fit by (simp add: b_nth)
      finally show ?thesis .
    qed (use R ok f i fit in auto)
    with f len show "\<exists>f. content key = Some f \<and> start + len \<le> length f \<and>
        (\<forall>i. off \<le> i \<and> i < len \<longrightarrow> snd q ! i = f ! (start + i))" by blast
  qed
qed

lemma keeps_batch_loop:
  assumes c: "\<And>req sub. req \<in> set reqs \<Longrightarrow> length sub = chunk_len req \<Longrightarrow>
      keeps I (get_chunk req sub) (chunk_result c content req)"
  shows "tiled name key c start len off reqs \<Longrightarrow> len \<le> length buf \<Longrightarrow>
    keeps I (batch_loop limit reset get_chunk reqs aggr pending buf) (range_read content key start len off pending buf)"
  using c
proof (induction reqs arbitrary: off aggr pending buf)
  case Nil
  then show ?case by (auto simp: range_read_def intro!: keeps_return)
next
  case (Cons req reqs)
  let ?n = "chunk_len req" and ?R = "range_read content key start len"
  have t: "user_key req = key" "0 < ?n" "chunk_id req * c + chunk_start req = start + off" "buffer_off req = off"
    and tl: "tiled name key c start len (off + ?n) reqs" using Cons.prems(1) by auto
  have fit: "off + ?n \<le> len" using tiled_le [OF tl] .
  have sub: "length (slice off ?n buf) = ?n" using fit Cons.prems(2) by simp
  have ih: "keeps I (batch_loop limit reset get_chunk reqs aggr pend b) (?R (off + ?n) pend b)"
    if "length b = length buf" for b aggr pend
    by (rule Cons.IH [OF tl]) (use that Cons.prems in auto)
  show ?case
    unfolding batch_loop.simps t(4) Let_def
  proof (rule keeps_bind [OF Cons.prems(3)], simp, rule sub, rule keeps_case_prod)
    fix a r s assume a: "chunk_result c content req a" "a = (r, s)"
    then have lb: "length (blit buf off s) = length buf" using fit Cons.prems(2) by (auto simp: chunk_result_def)
    note step = range_read_step [OF a(1) [unfolded a(2)] t(1,2,3) fit Cons.prems(2)]
    show "keeps I (if limit \<le> aggr + ?n
        then (if first_error (pending @ [r]) \<noteq> OK then State_Monad.return (Some (first_error (pending @ [r])), blit buf off s)
              else batch_loop limit reset get_chunk reqs (if reset then 0 else aggr + ?n) [] (blit buf off s))
        else batch_loop limit reset get_chunk reqs (aggr + ?n) (pending @ [r]) (blit buf off s))
      (?R off pending buf)"
    proof (intro keeps_if)
      assume "first_error (pending @ [r]) \<noteq> OK"
      then show "keeps I (State_Monad.return (Some (first_error (pending @ [r])), blit buf off s)) (?R off pending buf)"
        by (intro keeps_return range_read_fail lb)
    next
      assume "\<not> first_error (pending @ [r]) \<noteq> OK"
      then show "keeps I (batch_loop limit reset get_chunk reqs (if reset then 0 else aggr + ?n) [] (blit buf off s))
          (?R off pending buf)"
        by (intro keeps_weaken [OF ih [OF lb]] step) auto
    next
      show "keeps I (batch_loop limit reset get_chunk reqs (aggr + ?n) (pending @ [r]) (blit buf off s)) (?R off pending buf)"
        by (rule keeps_weaken [OF ih [OF lb]], rule step) (auto simp: range_read_def)
    qed
  qed
qed

lemma tiled_requests_ok:
  "tiled (\<lambda>cid. chunk_name key cid (read_chunk_size (policy E))) key (read_chunk_size (policy E)) start len off reqs \<Longrightarrow>
   req \<in> set reqs \<Longrightarrow> request_ok E req"
  by (induction reqs arbitrary: off) (auto simp: request_ok_def)

lemma keeps_ReadClient_Get:
  assumes laws: "read_laws E J content" and len: "len \<le> length buf"
  shows "keeps (ginv J content) (ReadClient_Get E key start len buf) (range_read content key start len 0 [] buf)"
proof -
  let ?c = "read_chunk_size (policy E)"
  define reqs where "reqs = Read_GenerateGetChunkRequestsV2 key start len ?c"
  have t: "tiled (\<lambda>cid. chunk_name key cid ?c) key ?c start len 0 reqs"
    using laws gen_requests_tiled by (simp add: reqs_def Read_GenerateGetChunkRequestsV2_def read_laws_def)
  have get: "keeps (ginv J content) (DoGetChunkAsync E req sub) (chunk_result ?c content req)"
    if "req \<in> set reqs" "length sub = chunk_len req" for req sub
    by (rule keeps_DoGetChunkAsync [OF laws tiled_requests_ok [OF t that(1)] that(2)])
  show ?thesis
  proof (cases reqs rule: list.exhaust [case_names Nil Cons])
    case Nil
    have "len = 0" using t Nil by simp
    then show ?thesis unfolding ReadClient_Get_def reqs_def [symmetric] Nil list.case
      by (intro keeps_return) (simp add: range_read_def)
  next
    case (Cons req rest)
    show ?thesis
    proof (cases rest)
      case Nil
      have r: "reqs = [req]" using Cons Nil by simp
      then have q: "user_key req = key" "0 < chunk_len req" "chunk_id req * ?c + chunk_start req = start + 0"
          "buffer_off req = 0" "chunk_len req = len" using t by auto
      show ?thesis
        unfolding ReadClient_Get_def reqs_def [symmetric] r list.case q(4)
      proof (rule keeps_bind [OF get], simp add: r, use q len in simp, rule keeps_case_prod, rule keeps_return)
        fix a r s assume "chunk_result ?c content req a" "a = (r, s)"
        then show "range_read content key start len 0 [] buf (r, blit buf 0 s)"
          using len q by (intro range_read_step [OF _ q(1,2,3), where pend = "[r]" and r = r and s = s])
             (auto simp: range_read_def chunk_result_def)
      qed
    next
      case (Cons req' rest')
      then have eq: "ReadClient_Get E key start len buf =
          batch_loop (max_inflight_payload_size (gcfg E)) False (DoGetChunkAsync E) reqs 0 [] buf"
        by (simp add: ReadClient_Get_def reqs_def [symmetric] \<open>reqs = req # rest\<close>)
      show ?thesis unfolding eq by (rule keeps_batch_loop [OF get t len])
    qed
  qed
qed

subsection \<open>Properties\<close>

text \<open>
  C4: a read through the global read cache is right when it succeeds.  Whatever the servers have cached,
  whichever of them fail and however the range is cut into chunks and batches, a \<^verbatim>\<open>Get\<close> that returns
  \<^verbatim>\<open>OK\<close> has filled the range with the bytes of the file, which is long enough, and no call, failed ones
  included, touches the buffer behind the range on success or breaks what is known about the servers
  and the metadata.
\<close>

theorem ReadClient_Get_correct:
  assumes "read_laws E J content" and "ginv J content s" and "len \<le> length buf"
    and "run_state (ReadClient_Get E key start len buf) s = ((r, buf'), s')"
  shows "ginv J content s' \<and> length buf' = length buf \<and>
    (r = Some OK \<longrightarrow> (\<forall>i. len \<le> i \<and> i < length buf \<longrightarrow> buf' ! i = buf ! i) \<and>
       (0 < len \<longrightarrow> (\<exists>f. content key = Some f \<and> start + len \<le> length f \<and>
          (\<forall>i < len. buf' ! i = f ! (start + i)))))"
  using keepsD [OF keeps_ReadClient_Get [OF assms(1,3)] assms(2,4)] by (auto simp: range_read_def)

subsection \<open>A small world\<close>

text \<open>
  Three servers that hold chunks by name, a metadata server, a base store and a counter; nothing fails,
  a server that has not got a chunk says so, and the random numbers are 0.
\<close>

record demo_state =
  dw_read :: "int \<Rightarrow> key \<rightharpoonup> bytes"
  dw_write :: "int \<Rightarrow> key \<rightharpoonup> bytes"
  dw_ts :: nat
  dw_etcd :: "string \<rightharpoonup> json_root"
  dw_base :: "key \<rightharpoonup> bytes"

definition demo_reply :: "(key \<rightharpoonup> bytes) \<Rightarrow> key \<Rightarrow> nat \<Rightarrow> nat \<Rightarrow> (int \<times> bytes) option" where
  "demo_reply m k s l = (case m k of None \<Rightarrow> Some (NOT_FOUND, []) | Some v \<Rightarrow>
     if s + l \<le> length v then Some (OK, slice s l v) else Some (INVALID_ARGUMENT, []))"

definition demo_world :: "demo_state world" where
  "demo_world = \<lparr>w_lrand48 = (\<lambda>w. (0, w)), w_channel_init = (\<lambda>c sid w. (0, w)), w_rpc_register = (\<lambda>c sid w. (Some OK, w)),
     w_rpc_get = (\<lambda>rd c sid k s l w. (demo_reply ((if rd then dw_read w else dw_write w) sid) k s l, w)),
     w_rpc_put = (\<lambda>rd c sid k d w.
        if rd then (Some (OK, []), w\<lparr>dw_read := (dw_read w)(sid := (dw_read w sid)(k \<mapsto> d))\<rparr>)
        else (let ik = k @ ''-'' @ to_string (dw_ts w)
              in if dw_write w sid ik \<noteq> None then (Some (IO_ERROR, []), w)
                 else (Some (OK, ik), w\<lparr>dw_write := (dw_write w)(sid := (dw_write w sid)(ik \<mapsto> d)), dw_ts := dw_ts w + 1\<rparr>))),
     w_rpc_del_read = (\<lambda>c sid k cs n w. (Some OK, w)),
     w_rpc_del_write = (\<lambda>c sid p ts ex w. (Some OK, w\<lparr>dw_write := (dw_write w)(sid := dw_write w sid |` set ex)\<rparr>)), w_rpc_query = (\<lambda>c sid w. (Some (OK, dw_ts w), w)),
     w_etcd_get = (\<lambda>k w. ((case dw_etcd w k of None \<Rightarrow> Inl 100 | Some r \<Rightarrow> Inr (Some r)), w)),
     w_etcd_put = (\<lambda>k r w. (None, w\<lparr>dw_etcd := (dw_etcd w)(k \<mapsto> r)\<rparr>)),
     w_etcd_rm = (\<lambda>k w. (if dw_etcd w k = None then Some 100 else None, w\<lparr>dw_etcd := (dw_etcd w)(k := None)\<rparr>)),
     w_etcd_keys = (\<lambda>k w. (Inr [], w)),
     w_download = (\<lambda>k start n buf w. (case dw_base w k of
         None \<Rightarrow> ((Some NOT_FOUND, buf), w)
       | Some f \<Rightarrow> if start + n \<le> length f \<and> n \<le> length buf then ((Some OK, blit buf 0 (slice start n f)), w)
                  else ((Some IO_ERROR, buf), w))),
     w_upload = (\<lambda>k n buf hs w. (Some OK, w\<lparr>dw_base := (dw_base w)(k \<mapsto> take n buf)\<rparr>)),
     w_delete = (\<lambda>k w. (Some OK, w\<lparr>dw_base := (dw_base w)(k := None)\<rparr>)),
     w_head = (\<lambda>k sz hs w. (case dw_base w k of
         None \<Rightarrow> ((Some NOT_FOUND, sz, hs), w) | Some f \<Rightarrow> ((Some OK, length f, hs), w)))\<rparr>"

lemma demo_world_simps [simp]:
  "w_lrand48 demo_world w = (0, w)"
  "w_rpc_get demo_world rd c sid k s l w = (demo_reply ((if rd then dw_read w else dw_write w) sid) k s l, w)"
  "w_rpc_put demo_world True c sid k d w = (Some (OK, []), w\<lparr>dw_read := (dw_read w)(sid := (dw_read w sid)(k \<mapsto> d))\<rparr>)"
  "w_rpc_put demo_world False c sid k d w = (let ik = k @ ''-'' @ to_string (dw_ts w)
     in if dw_write w sid ik \<noteq> None then (Some (IO_ERROR, []), w)
        else (Some (OK, ik), w\<lparr>dw_write := (dw_write w)(sid := (dw_write w sid)(ik \<mapsto> d)), dw_ts := dw_ts w + 1\<rparr>))"
  "w_etcd_get demo_world k w = ((case dw_etcd w k of None \<Rightarrow> Inl 100 | Some r \<Rightarrow> Inr (Some r)), w)"
  by (simp_all add: demo_world_def)

definition demo_policy :: CachePolicy where
  "demo_policy = \<lparr>read_chunk_size = 4, read_replication_factor = 1, write_cache_type = REPLICATION,
     write_replication_factor = 2\<rparr>"

definition demo_gcfg :: GlobalConfig where
  "demo_gcfg = \<lparr>rpc_connections = 1, use_meta_cache = True, write_chunk_size = 2, max_inflight_payload_size = 1000,
     default_policy = demo_policy, etcd_prefix = ''/m/''\<rparr>"

definition demo_genv :: "demo_state genv" where
  "demo_genv = \<lparr>wld = demo_world, server_list = [''a'', ''b'', ''c''], gcfg = demo_gcfg, hash = (\<lambda>k. 1),
     evicted = (\<lambda>k m. {}), fresh_bytes = (\<lambda>n. replicate n 0)\<rparr>"

definition demo_gstate :: "demo_state gstate" where
  "demo_gstate = \<lparr>server_map = (\<lambda>c. {0, 1, 2}), inflight = (\<lambda>c. 0), bg_tasks = [], meta_cache = Map.empty,
     ext = \<lparr>dw_read = (\<lambda>sid. [chunk_name ''f'' 0 4 \<mapsto> [10, 11, 12, 13]]), dw_write = (\<lambda>sid. Map.empty), dw_ts = 0, dw_etcd = Map.empty,
            dw_base = [''f'' \<mapsto> [10, 11, 12, 13, 14, 15]]\<rparr>\<rparr>"

lemma demo_genv_simps [simp]:
  "wld demo_genv = demo_world" "length (server_list demo_genv) = 3" "gcfg demo_genv = demo_gcfg" "hash demo_genv k = 1"
  "rpc_connections demo_gcfg = 1" "use_meta_cache demo_gcfg" "policy demo_genv = demo_policy"
  "evicted demo_genv k m = {}" "fresh_bytes demo_genv n = replicate n 0" "write_chunk_size demo_gcfg = 2"
  "max_inflight_payload_size demo_gcfg = 1000" "etcd_prefix demo_gcfg = ''/m/''"
  by (simp_all add: demo_genv_def demo_gcfg_def policy_def)

lemma demo_policy_simps [simp]:
  "read_chunk_size demo_policy = 4" "read_replication_factor demo_policy = 1" "write_cache_type demo_policy = REPLICATION"
  "write_replication_factor demo_policy = 2"
  by (simp_all add: demo_policy_def)

definition demo_content :: "key \<rightharpoonup> bytes" where
  "demo_content = [''f'' \<mapsto> [10, 11, 12, 13, 14, 15]]"

text \<open>Every chunk a server holds is a chunk of a file; nothing is in the write cache.\<close>

definition demo_J :: "demo_state \<Rightarrow> bool" where
  "demo_J w = (dw_base w = demo_content \<and> dw_etcd w = Map.empty \<and>
     (\<forall>sid k v key cid. dw_read w sid k = Some v \<and> k = chunk_name key cid 4 \<longrightarrow>
        (\<exists>f. demo_content key = Some f \<and> v = chunk_bytes f cid 4)))"

lemma dash_notin_to_string: "CHR ''-'' \<notin> set (to_string n)"
  using to_string_digits [of "CHR ''-''" n] by (auto simp: is_digit_def)

lemma chunk_name_inj: "chunk_name key cid c = chunk_name key' cid' c' \<longleftrightarrow> key = key' \<and> cid = cid' \<and> c = c'"
proof
  assume "chunk_name key cid c = chunk_name key' cid' c'"
  then have "(key @ ''-'' @ to_string cid) @ CHR ''-'' # to_string c = (key' @ ''-'' @ to_string cid') @ CHR ''-'' # to_string c'"
    by (simp add: chunk_name_def)
  from last_sep_unique [OF this dash_notin_to_string dash_notin_to_string]
  have c: "c = c'" and "key @ CHR ''-'' # to_string cid = key' @ CHR ''-'' # to_string cid'" by simp_all
  from last_sep_unique [OF this(2) dash_notin_to_string dash_notin_to_string] c
  show "key = key' \<and> cid = cid' \<and> c = c'" by simp
qed simp

lemma demo_reply_OK: "demo_reply m k s l = Some (OK, d) \<longleftrightarrow> (\<exists>v. m k = Some v \<and> s + l \<le> length v \<and> d = slice s l v)"
  by (auto simp: demo_reply_def split: option.splits)

lemma demo_chunk_put:
  "demo_J w \<Longrightarrow> demo_content key = Some f \<Longrightarrow> k = chunk_name key cid 4 \<Longrightarrow> d = chunk_bytes f cid 4 \<Longrightarrow>
   demo_J (w\<lparr>dw_read := (dw_read w)(sid := (dw_read w sid)(k \<mapsto> d))\<rparr>)"
  by (auto simp: demo_J_def chunk_name_inj split: if_splits)

lemma demo_read_laws: "read_laws demo_genv demo_J demo_content"
proof -
  have get: "\<exists>f. demo_content key = Some f \<and> cid * 4 + s + l \<le> length f \<and> d = slice (cid * 4 + s) l f"
    if J: "demo_J w" and r: "demo_reply (dw_read w sid) (chunk_name key cid 4) s l = Some (OK, d)" and l: "0 < l"
    for w sid key cid s l d
  proof -
    obtain v where v: "dw_read w sid (chunk_name key cid 4) = Some v" "s + l \<le> length v" "d = slice s l v"
      using r by (auto simp: demo_reply_OK)
    with J obtain f where f: "demo_content key = Some f" "v = chunk_bytes f cid 4" unfolding demo_J_def by blast
    have fit: "s + l \<le> min 4 (length f - cid * 4)" using v(2) f(2) by (simp add: chunk_bytes_def slice_def)
    then have "d = slice (cid * 4 + s) l f" using v(3) f(2) by (simp add: chunk_bytes_def slice_slice)
    then show ?thesis using f fit l by (intro exI [of _ f]) (simp, linarith)
  qed
  have "law_rand demo_genv demo_J" by (simp add: law_rand_def)
  moreover have "law_rget demo_genv demo_J demo_content" using get by (auto simp: law_rget_def)
  moreover have "law_rput demo_genv demo_J demo_content" using demo_chunk_put by (auto simp: law_rput_def)
  moreover have "law_etcd demo_genv demo_J demo_content" by (auto simp: law_etcd_def demo_J_def)
  moreover have "law_head demo_genv demo_J demo_content"
    by (auto simp: law_head_def demo_world_def demo_J_def split: option.splits)
  moreover have "law_download demo_genv demo_J demo_content"
    by (auto simp: law_download_def demo_world_def demo_J_def blit_def split: option.splits if_splits)
  ultimately show ?thesis by (simp add: read_laws_def)
qed

lemma demo_ginv: "ginv demo_J demo_content demo_gstate"
  by (auto simp: ginv_def meta_ok_def demo_gstate_def demo_J_def demo_content_def chunk_name_inj chunk_bytes_def slice_def
      split: if_splits)

lemma unat_one_plus_0: "unat (1 + of_nat 0 :: 64 word) = 1"
  by simp

lemma demo_requests:
  "Read_GenerateGetChunkRequestsV2 ''f'' 1 2 4 = [\<lparr>user_key = ''f'', internal_key = chunk_name ''f'' 0 4, chunk_id = 0,
     chunk_start = 1, chunk_len = 2, chunk_granularity = 4, buffer_off = 0\<rparr>]"
  by (simp add: Read_GenerateGetChunkRequestsV2_def gen_requests_def Let_def)

lemma demo_replica: "Read_GetReplica (hash demo_genv) (server_list demo_genv) k 1 = [1]"
  by (simp add: Read_GetReplica_def placement_loop_def)

lemma demo_read_run:
  "\<exists>s'. run_state (ReadClient_Get demo_genv ''f'' 1 2 [0, 0, 9]) demo_gstate = ((Some OK, [11, 12, 9]), s')"
  by (simp add: ReadClient_Get_def demo_requests DoGetChunkAsync_def demo_replica GetChunkAsync_def GetRpcClient_def
      GetEntry_def add_inflight_def sub_inflight_def GetChannelByServerId_def demo_gstate_def demo_reply_def slice_def blit_def del: One_nat_def) simp

theorem ReadClient_Get_correct_witness:
  "\<exists>f. demo_content ''f'' = Some f \<and> f ! 1 = 11 \<and> f ! 2 = 12 \<and> 3 \<le> length f"
proof -
  obtain s' where run: "run_state (ReadClient_Get demo_genv ''f'' 1 2 [0, 0, 9]) demo_gstate = ((Some OK, [11, 12, 9]), s')"
    using demo_read_run by blast
  obtain f where "demo_content ''f'' = Some f" "1 + 2 \<le> length f" "\<forall>i < 2. [11, 12, 9] ! i = f ! (1 + i)"
    using ReadClient_Get_correct [OF demo_read_laws demo_ginv _ run] by auto
  then show ?thesis by (auto simp: numeral_2_eq_2 dest: spec [of _ 0] spec [of _ 1])
qed

end
