(* ===== verification/Registration.thy ===== *)
theory Registration
  imports Read_Client
begin

section \<open>Registering the servers: no server is lost, all are reached\<close>

text \<open>
  \<^verbatim>\<open>GlobalDataAdaptor\<close> registers every server with every connection when it is made, and its background
  thread retries what failed.  The states the adaptor goes through are those reachable by its
  constructor, rounds of the background thread, and steps of anything else, which never forgets a
  channel nor touches the pending registrations.
\<close>

definition registered :: "'w gstate \<Rightarrow> nat \<times> int \<Rightarrow> bool" where
  "registered s t = (snd t \<in> server_map s (fst t))"

inductive adaptor_state :: "'w genv \<Rightarrow> 'w gstate \<Rightarrow> bool" for E where
  made: "run_state (Adaptor_init E) s0 = ((), s) \<Longrightarrow> adaptor_state E s"
| round: "adaptor_state E s \<Longrightarrow> run_state (BackgroundRound E) s = ((), s') \<Longrightarrow> adaptor_state E s'"
| other: "adaptor_state E s \<Longrightarrow> server_map s' = server_map s \<Longrightarrow> bg_tasks s' = bg_tasks s \<Longrightarrow> adaptor_state E s'"

inductive_cases adaptor_stateE: "adaptor_state E s"

lemma RegisterServer_run:
  assumes "run_state (RegisterServer E conn sid) s = (rc, s')"
  shows "(\<forall>t. registered s t \<longrightarrow> registered s' t) \<and> bg_tasks s' = bg_tasks s \<and> (rc = 0 \<longrightarrow> registered s' (conn, sid))"
  using assms by (auto simp: RegisterServer_def registered_def split: prod.splits if_splits)

lemma register_all_run:
  "run_state (register_all E ts) s = (failed, s') \<Longrightarrow>
   (\<forall>t. registered s t \<longrightarrow> registered s' t) \<and> bg_tasks s' = bg_tasks s \<and> set failed \<subseteq> set ts \<and>
   (\<forall>t \<in> set ts. registered s' t \<or> t \<in> set failed)"
proof (induction ts arbitrary: s failed s')
  case (Cons t ts)
  obtain rc s1 where 1: "run_state (RegisterServer E (fst t) (snd t)) s = (rc, s1)" by force
  obtain f s2 where 2: "run_state (register_all E ts) s1 = (f, s2)" by force
  have o: "failed = (if rc \<noteq> 0 then t # f else f)" "s' = s2" using Cons.prems 1 2 by auto
  show ?case using RegisterServer_run [OF 1] Cons.IH [OF 2] by (auto simp: o split_paired_all simp del: split_paired_All)
qed simp

lemma registered_bg [simp]: "registered (s\<lparr>bg_tasks := x\<rparr>) t = registered s t"
  by (simp add: registered_def)

lemma adaptor_state_inv:
  "adaptor_state E s \<Longrightarrow> (\<forall>t \<in> set (all_tasks E). registered s t \<or> t \<in> set (bg_tasks s)) \<and> set (bg_tasks s) \<subseteq> set (all_tasks E)"
proof (induction rule: adaptor_state.induct)
  case (made s0 s)
  then show ?case using register_all_run [of E "all_tasks E" s0]
    by (auto simp: Adaptor_init_def split: prod.splits)
next
  case (round s s')
  obtain f s1 where 1: "run_state (register_all E (bg_tasks s)) s = (f, s1)" by force
  have "s' = s1\<lparr>bg_tasks := f\<rparr>" using round.hyps(2) 1 by (simp add: BackgroundRound_def)
  moreover have "registered s1 t \<or> t \<in> set f" if "t \<in> set (all_tasks E)" for t
    using register_all_run [OF 1] round.IH that by blast
  ultimately show ?case using register_all_run [OF 1] round.IH by auto
next
  case (other s s')
  then show ?case by (simp add: registered_def)
qed

text \<open>
  C15: no server is lost.  In every state of the adaptor, every server is, for every connection, either
  registered or among the registrations the background thread will retry, and nothing else is retried.
\<close>

theorem servers_registered_or_pending:
  assumes "adaptor_state E s"
  shows "(\<forall>conn < rpc_connections (gcfg E). \<forall>sid < length (server_list E).
      int sid \<in> server_map s conn \<or> (conn, int sid) \<in> set (bg_tasks s)) \<and>
    set (bg_tasks s) \<subseteq> {0..<rpc_connections (gcfg E)} \<times> int ` {0..<length (server_list E)}"
  using adaptor_state_inv [OF assms] by (force simp: all_tasks_def registered_def)

text \<open>
  Servers that have come up: in the outside states \<open>U\<close>, which no attempt to register leaves, a channel to the
  servers \<open>A\<close> can be made and they confirm.  Other servers, and outside states before \<open>U\<close>, may refuse.
\<close>

definition accepting :: "'w genv \<Rightarrow> 'w set \<Rightarrow> int set \<Rightarrow> bool" where
  "accepting E U A = (\<forall>w \<in> U. \<forall>conn sid.
     (case w_channel_init (wld E) conn sid w of (r, w1) \<Rightarrow>
        if r \<noteq> 0 then sid \<notin> A \<and> w1 \<in> U
        else (case w_rpc_register (wld E) conn sid w1 of (q, w2) \<Rightarrow> (sid \<in> A \<longrightarrow> q = Some OK) \<and> w2 \<in> U)))"

lemma RegisterServer_accepting:
  assumes "accepting E U A" and "ext s \<in> U" and "run_state (RegisterServer E conn sid) s = (rc, s')"
  shows "ext s' \<in> U \<and> (sid \<in> A \<longrightarrow> rc = 0)"
proof -
  obtain r w1 q w2 where 1: "w_channel_init (wld E) conn sid (ext s) = (r, w1)" "w_rpc_register (wld E) conn sid w1 = (q, w2)"
    by (metis surj_pair)
  have "case w_channel_init (wld E) conn sid (ext s) of (r, w1) \<Rightarrow>
      if r \<noteq> 0 then sid \<notin> A \<and> w1 \<in> U
      else (case w_rpc_register (wld E) conn sid w1 of (q, w2) \<Rightarrow> (sid \<in> A \<longrightarrow> q = Some OK) \<and> w2 \<in> U)"
    by (rule assms(1) [unfolded accepting_def, THEN bspec, OF assms(2), THEN spec, THEN spec])
  then have "if r \<noteq> 0 then sid \<notin> A \<and> w1 \<in> U else (sid \<in> A \<longrightarrow> q = Some OK) \<and> w2 \<in> U"
    using 1 by (auto split: if_splits)
  then show ?thesis using assms(3) 1 by (auto simp: RegisterServer_def split: if_splits)
qed

lemma register_all_accepting:
  assumes "accepting E U A" and "ext s \<in> U" and "run_state (register_all E ts) s = (failed, s')"
  shows "ext s' \<in> U \<and> (\<forall>t \<in> set failed. snd t \<notin> A)"
  using assms(2,3)
proof (induction ts arbitrary: s failed s')
  case (Cons t ts)
  obtain rc s1 where 1: "run_state (RegisterServer E (fst t) (snd t)) s = (rc, s1)" by force
  obtain f s2 where 2: "run_state (register_all E ts) s1 = (f, s2)" by force
  have o: "failed = (if rc \<noteq> 0 then t # f else f)" "s' = s2" using Cons.prems(2) 1 2 by auto
  have r: "ext s1 \<in> U" "snd t \<in> A \<longrightarrow> rc = 0" using RegisterServer_accepting [OF assms(1) Cons.prems(1) 1] by auto
  show ?case using Cons.IH [OF r(1) 2] r(2) by (auto simp: o)
qed simp

text \<open>
  C14: the servers are reached.  Take any state of the adaptor, whatever registrations failed before, in which some
  servers have come up.  One round of the background thread registers each of them with every connection, whether
  other servers still refuse or not, keeps what was registered, and retries none of them any more.  When all servers
  have come up nothing is left to retry, and the next round changes nothing.
\<close>

theorem BackgroundRound_registers_all:
  assumes "adaptor_state E s" and "accepting E U A" and "ext s \<in> U" and "run_state (BackgroundRound E) s = ((), s')"
  shows "(\<forall>conn < rpc_connections (gcfg E). \<forall>sid < length (server_list E). int sid \<in> A \<longrightarrow>
      int sid \<in> server_map s' conn \<and> (conn, int sid) \<notin> set (bg_tasks s')) \<and>
    (\<forall>conn. server_map s conn \<subseteq> server_map s' conn) \<and>
    (int ` {0..<length (server_list E)} \<subseteq> A \<longrightarrow>
      bg_tasks s' = [] \<and> run_state (BackgroundRound E) s' = ((), s'))"
proof -
  obtain f s1 where 1: "run_state (register_all E (bg_tasks s)) s = (f, s1)" by force
  have s': "s' = s1\<lparr>bg_tasks := f\<rparr>" using assms(4) 1 by (simp add: BackgroundRound_def)
  note up = register_all_accepting [OF assms(2,3) 1]
  have inv: "(\<forall>t \<in> set (all_tasks E). registered s' t \<or> t \<in> set (bg_tasks s')) \<and> set (bg_tasks s') \<subseteq> set (all_tasks E)"
    by (rule adaptor_state_inv [OF adaptor_state.round [OF assms(1,4)]])
  have kept: "\<forall>t. registered s t \<longrightarrow> registered s' t" using register_all_run [OF 1] by (simp add: s')
  have "bg_tasks s' = []" if "int ` {0..<length (server_list E)} \<subseteq> A"
  proof -
    have "snd t \<in> A" if "t \<in> set (all_tasks E)" for t
      using that \<open>int ` {0..<length (server_list E)} \<subseteq> A\<close> by (force simp: all_tasks_def)
    then have "t \<notin> set (bg_tasks s')" for t using up inv by (cases t) (force simp: s')
    then show ?thesis by (meson list.set_sel(1))
  qed
  moreover have "run_state (BackgroundRound E) s' = ((), s')" if "bg_tasks s' = []" using that by (simp add: BackgroundRound_def)
  moreover have "int sid \<in> server_map s' conn \<and> (conn, int sid) \<notin> set (bg_tasks s')"
    if "conn < rpc_connections (gcfg E)" "sid < length (server_list E)" "int sid \<in> A" for conn sid
  proof -
    have "(conn, int sid) \<in> set (all_tasks E)" using that by (force simp: all_tasks_def)
    moreover have "(conn, int sid) \<notin> set (bg_tasks s')" using up that(3) by (auto simp: s')
    ultimately show ?thesis using inv by (force simp: registered_def)
  qed
  ultimately show ?thesis using kept by (force simp: registered_def)
qed

text \<open>An adaptor whose servers could not be reached when it was made.\<close>

definition demo_down :: "demo_state genv" where
  "demo_down = demo_genv\<lparr>wld := demo_world\<lparr>w_channel_init := (\<lambda>c sid w. (-1, w))\<rparr>\<rparr>"

theorem servers_registered_or_pending_witness:
  "\<exists>s. adaptor_state demo_down s \<and> (2 \<in> server_map s 0 \<or> (0, 2) \<in> set (bg_tasks s))"
proof -
  obtain s where "run_state (Adaptor_init demo_down) demo_gstate = ((), s)"
    by (cases "run_state (Adaptor_init demo_down) demo_gstate") simp
  then have a: "adaptor_state demo_down s" by (rule adaptor_state.made)
  have "0 < rpc_connections (gcfg demo_down)" "2 < length (server_list demo_down)" by (simp_all add: demo_down_def demo_genv_def demo_gcfg_def)
  then show ?thesis using servers_registered_or_pending [OF a] a by fastforce
qed

text \<open>Servers that refuse until the outside state says that they are up.\<close>

definition demo_late :: "demo_state genv" where
  "demo_late = demo_genv\<lparr>wld := demo_world\<lparr>w_channel_init := (\<lambda>c sid w. (if dw_ts w = 0 then -1 else 0, w))\<rparr>\<rparr>"

theorem BackgroundRound_registers_all_witness:
  "\<exists>s s'. adaptor_state demo_late s \<and> bg_tasks s = [(0, 0), (0, 1), (0, 2)] \<and> server_map s 0 = {} \<and>
     run_state (BackgroundRound demo_late) s = ((), s') \<and> bg_tasks s' = [] \<and> 2 \<in> server_map s' 0"
proof -
  define s0 where "s0 = demo_gstate\<lparr>server_map := (\<lambda>c. {}), ext := (ext demo_gstate)\<lparr>dw_ts := 0\<rparr>\<rparr>"
  define s1 where "s1 = s0\<lparr>bg_tasks := [(0, 0), (0, 1), (0, 2)]\<rparr>"
  define s where "s = s1\<lparr>ext := (ext s0)\<lparr>dw_ts := 1\<rparr>\<rparr>"
  have n: "rpc_connections (gcfg demo_late) = 1" "length (server_list demo_late) = 3"
    by (simp_all add: demo_late_def demo_genv_def demo_gcfg_def)
  have refuse: "run_state (RegisterServer demo_late c sid) s0 = (RPC_FAILED, s0)" for c sid
    by (simp add: RegisterServer_def demo_late_def s0_def)
  have "all_tasks demo_late = [(0, 0), (0, 1), (0, 2)]" by (simp add: all_tasks_def n upt_rec)
  then have "run_state (Adaptor_init demo_late) s0 = ((), s1)" by (simp add: Adaptor_init_def refuse s1_def)
  then have "adaptor_state demo_late s1" by (rule adaptor_state.made)
  then have a: "adaptor_state demo_late s" by (rule adaptor_state.other) (simp_all add: s_def)
  have u: "accepting demo_late {w. dw_ts w \<noteq> 0} UNIV" by (simp add: accepting_def demo_late_def demo_world_def)
  obtain s' where r: "run_state (BackgroundRound demo_late) s = ((), s')"
    by (cases "run_state (BackgroundRound demo_late) s") simp
  have "ext s \<in> {w. dw_ts w \<noteq> 0}" by (simp add: s_def)
  note T = BackgroundRound_registers_all [OF a u this r]
  have "int 2 \<in> server_map s' 0" using T [THEN conjunct1, rule_format, of 0 2] n by simp
  moreover have "bg_tasks s' = []" using T by simp
  ultimately show ?thesis using a r by (intro exI [of _ s] exI [of _ s']) (simp add: s_def s1_def s0_def)
qed

text \<open>
  A request to a server without a channel is added to the bytes in flight and never taken out again.
\<close>

lemma GetEntry_inflight_leak:
  "sid \<notin> server_map s conn \<Longrightarrow> run_state (GetEntry E conn rd sid key start len) s =
     ((RPC_FAILED, []), s\<lparr>inflight := (inflight s)(conn := inflight s conn + len)\<rparr>)"
  by (simp add: GetEntry_def add_inflight_def GetChannelByServerId_def)

end
