(* ===== verification/Repl_Client.thy ===== *)
theory Repl_Client
  imports Read_Client
begin

section \<open>The replicated write cache (\<^verbatim>\<open>global_cache/ReplicationWriteCacheClient.cpp\<close>)\<close>

text \<open>
  A file is cut into chunks of \<^verbatim>\<open>write_chunk_size\<close>; every chunk is stored on every replica server, and
  the names the servers gave are listed chunk by chunk, replica by replica, in the file's record.  A
  read of a chunk picks a replica at random and, when its server cannot be reached, tries the others.
  An index outside the list of names, which is undefined in the code, is the result \<open>None\<close> of
  \<open>repl_key\<close>; the model then stops with the status \<open>Some UNDEFINED\<close>, which no code path returns.
\<close>

abbreviation UNDEFINED :: int where "UNDEFINED \<equiv> -1000"

subsection \<open>Put\<close>

text \<open>The stores of one \<^verbatim>\<open>Put\<close>, in order: server, name of the chunk, bytes.\<close>

definition repl_requests :: "nat \<Rightarrow> int list \<Rightarrow> key \<Rightarrow> nat \<Rightarrow> nat \<Rightarrow> bytes \<Rightarrow> (int \<times> key \<times> bytes) list" where
  "repl_requests wcs replicas key off len buf =
     concat (map (\<lambda>(offset, region_size). map (\<lambda>server_id.
         (server_id, chunk_name key ((off + offset) div wcs) wcs,
          slice offset region_size buf)) replicas)
       (chunks wcs len 0))"

fun put_regions :: "'w genv \<Rightarrow> (int \<times> key \<times> bytes) list \<Rightarrow> ('w, (int \<times> string) list) gprog" where
  "put_regions E [] = State_Monad.return []"
| "put_regions E ((server_id, partial_key, region) # rest) = do {
     conn \<leftarrow> GetRpcClient E;
     out \<leftarrow> PutEntry E conn False server_id partial_key region (length region);
     outs \<leftarrow> put_regions E rest;
     State_Monad.return (out # outs)
   }"

fun first_bad :: "(int \<times> string) list \<Rightarrow> int" where
  "first_bad [] = OK"
| "first_bad (o' # os) = (if fst o' \<noteq> OK then fst o' else first_bad os)"

definition Repl_GetReplica :: "'w genv \<Rightarrow> key \<Rightarrow> int list" where
  "Repl_GetReplica E key = Write_GetReplica (hash E) (server_list E) (write_replication_factor (policy E)) key"

definition Repl_Put ::
    "'w genv \<Rightarrow> key \<Rightarrow> nat \<Rightarrow> bytes \<Rightarrow> json_headers \<Rightarrow> nat \<Rightarrow> ('w, int \<times> json_root) gprog" where
  "Repl_Put E key len buf headers off = do {
     let replicas = Repl_GetReplica E key;
     conn \<leftarrow> GetRpcClient E;
     outs \<leftarrow> put_regions E (repl_requests (write_chunk_size (gcfg E)) replicas key off len buf);
     let st = first_bad outs;
     if st \<noteq> OK then State_Monad.return (st, empty_root)
     else State_Monad.return (OK, \<lparr>jtype = ''replication'', jsize = len, jreplica = replicas, jpath = map snd outs,
                                   jheaders = headers\<rparr>)
   }"

subsection \<open>Get\<close>

definition repl_key :: "json_root \<Rightarrow> nat \<Rightarrow> nat \<Rightarrow> string option" where
  "repl_key root cid r =
     (let i = cid * length (jreplica root) + r in if i < length (jpath root) then Some (jpath root ! i) else None)"

definition Repl_GetChunkAsync ::
    "'w genv \<Rightarrow> int \<Rightarrow> chunk_request \<Rightarrow> string \<Rightarrow> bytes \<Rightarrow> ('w, int option \<times> bytes) gprog" where
  "Repl_GetChunkAsync E server_id request ikey buf = do {
     conn \<leftarrow> GetRpcClient E;
     (status, data) \<leftarrow> GetEntry E conn False server_id ikey (chunk_start request) (chunk_len request);
     if status = OK then State_Monad.return (Some OK, blit buf 0 (take (length buf) data))
     else State_Monad.return (Some status, buf)
   }"

text \<open>The other replicas: the name is looked up at the number of the server, not of the replica.\<close>

fun repl_failover ::
    "'w genv \<Rightarrow> json_root \<Rightarrow> int \<Rightarrow> chunk_request \<Rightarrow> int list \<Rightarrow> bytes \<Rightarrow> ('w, int option \<times> bytes) gprog" where
  "repl_failover E root primary request [] buf = State_Monad.return (Some RPC_FAILED, buf)"
| "repl_failover E root primary request (server_id # ids) buf =
     (if server_id = primary then repl_failover E root primary request ids buf
      else (case repl_key root (chunk_id request) (nat server_id) of
          None \<Rightarrow> State_Monad.return (Some UNDEFINED, buf)
        | Some ikey \<Rightarrow> do {
            (res, buf) \<leftarrow> Repl_GetChunkAsync E server_id request ikey buf;
            if res \<noteq> Some RPC_FAILED then State_Monad.return (res, buf)
            else repl_failover E root primary request ids buf
          }))"

definition repl_get_chunk ::
    "'w genv \<Rightarrow> json_root \<Rightarrow> chunk_request \<Rightarrow> bytes \<Rightarrow> ('w, int option \<times> bytes) gprog" where
  "repl_get_chunk E root request buf = do {
     let replicas = jreplica root;
     r \<leftarrow> outside (w_lrand48 (wld E));
     let primary_replica_id = r mod length replicas;
     let primary_server_id = replicas ! primary_replica_id;
     (case repl_key root (chunk_id request) primary_replica_id of
        None \<Rightarrow> State_Monad.return (Some UNDEFINED, buf)
      | Some ikey \<Rightarrow> do {
          (res, buf) \<leftarrow> Repl_GetChunkAsync E primary_server_id request ikey buf;
          if res \<noteq> Some RPC_FAILED then State_Monad.return (res, buf)
          else repl_failover E root primary_server_id request replicas buf
        })
   }"

definition Repl_Get ::
    "'w genv \<Rightarrow> key \<Rightarrow> nat \<Rightarrow> nat \<Rightarrow> bytes \<Rightarrow> json_root \<Rightarrow> ('w, int option \<times> bytes) gprog" where
  "Repl_Get E key start len buf root =
     (case Repl_GenerateGetChunkRequestsV2 key start len (write_chunk_size (gcfg E)) of
        [] \<Rightarrow> State_Monad.return (Some OK, buf)
      | requests \<Rightarrow> batch_loop (max_inflight_payload_size (gcfg E)) True (repl_get_chunk E root) requests 0 [] buf)"

subsection \<open>What the servers store\<close>

text \<open>
  \<open>store w sid\<close> is what server \<open>sid\<close> holds for the write cache.  Relied on: a successful put stores
  its bytes under the name it returns and no call made here loses an entry; a successful get of as many
  bytes as asked returns them from the entry.
\<close>

definition kept :: "('w \<Rightarrow> int \<Rightarrow> key \<rightharpoonup> bytes) \<Rightarrow> 'w \<Rightarrow> 'w \<Rightarrow> bool" where
  "kept store w w' = (\<forall>sid k v. store w sid k = Some v \<longrightarrow> store w' sid k = Some v)"

definition wlaw_rand :: "'w genv \<Rightarrow> ('w \<Rightarrow> int \<Rightarrow> key \<rightharpoonup> bytes) \<Rightarrow> bool" where
  "wlaw_rand E store = (\<forall>w r w'. w_lrand48 (wld E) w = (r, w') \<longrightarrow> kept store w w')"

definition wlaw_put :: "'w genv \<Rightarrow> ('w \<Rightarrow> int \<Rightarrow> key \<rightharpoonup> bytes) \<Rightarrow> bool" where
  "wlaw_put E store = (\<forall>w conn sid k d r w'. w_rpc_put (wld E) False conn sid k d w = (r, w') \<longrightarrow>
     kept store w w' \<and> (\<forall>ik. r = Some (OK, ik) \<longrightarrow> store w' sid ik = Some d))"

definition wlaw_get :: "'w genv \<Rightarrow> ('w \<Rightarrow> int \<Rightarrow> key \<rightharpoonup> bytes) \<Rightarrow> bool" where
  "wlaw_get E store = (\<forall>w conn sid k s l r w'. w_rpc_get (wld E) False conn sid k s l w = (r, w') \<longrightarrow>
     kept store w w' \<and>
     (\<forall>d v. r = Some (OK, d) \<and> length d = l \<and> store w sid k = Some v \<longrightarrow> s + l \<le> length v \<and> d = slice s l v))"

definition write_laws :: "'w genv \<Rightarrow> ('w \<Rightarrow> int \<Rightarrow> key \<rightharpoonup> bytes) \<Rightarrow> bool" where
  "write_laws E store = (wlaw_rand E store \<and> wlaw_put E store \<and> wlaw_get E store)"

text \<open>The record of a file is right when every replica of every chunk is stored under its name.\<close>

definition root_ok :: "nat \<Rightarrow> (int \<Rightarrow> key \<rightharpoonup> bytes) \<Rightarrow> bytes \<Rightarrow> json_root \<Rightarrow> bool" where
  "root_ok c st f root = (\<forall>cid r. cid * c < length f \<and> r < length (jreplica root) \<longrightarrow>
     (\<exists>ik. repl_key root cid r = Some ik \<and> st (jreplica root ! r) ik = Some (chunk_bytes f cid c)))"

lemma kept_refl: "kept store w w"
  by (simp add: kept_def)

lemma kept_trans: "kept store w w' \<Longrightarrow> kept store w' w'' \<Longrightarrow> kept store w w''"
  by (simp add: kept_def)

lemma root_ok_kept: "root_ok c (store w) f root \<Longrightarrow> kept store w w' \<Longrightarrow> root_ok c (store w') f root"
  unfolding root_ok_def kept_def by blast

lemma law_wrand: "write_laws E store \<Longrightarrow> w_lrand48 (wld E) w = (r, w') \<Longrightarrow> kept store w w'"
  by (simp add: write_laws_def wlaw_rand_def)

lemma law_wput:
  assumes "write_laws E store" and "w_rpc_put (wld E) False conn sid k d w = (r, w')"
  shows "kept store w w' \<and> (\<forall>ik. r = Some (OK, ik) \<longrightarrow> store w' sid ik = Some d)"
proof -
  have "wlaw_put E store" using assms(1) by (simp add: write_laws_def)
  then show ?thesis using assms(2) unfolding wlaw_put_def by blast
qed

lemma law_wget:
  assumes "write_laws E store" and "w_rpc_get (wld E) False conn sid k s l w = (r, w')"
  shows "kept store w w' \<and> (\<forall>d v. r = Some (OK, d) \<and> length d = l \<and> store w sid k = Some v \<longrightarrow>
    s + l \<le> length v \<and> d = slice s l v)"
proof -
  have "wlaw_get E store" using assms(1) by (simp add: write_laws_def)
  then show ?thesis using assms(2) unfolding wlaw_get_def by blast
qed

lemma GetRpcClient_kept:
  "write_laws E store \<Longrightarrow> run_state (GetRpcClient E) s = (c, s') \<Longrightarrow> kept store (ext s) (ext s')"
  by (auto simp: GetRpcClient_def split: prod.splits dest: law_wrand)

lemma PutEntry_stores:
  assumes laws: "write_laws E store" and run: "run_state (PutEntry E conn False sid k d (length d)) s = ((st, ik), s')"
  shows "kept store (ext s) (ext s') \<and> (st = OK \<longrightarrow> store (ext s') sid ik = Some d)"
proof -
  obtain r w' where c: "w_rpc_put (wld E) False conn sid k d (ext s) = (r, w')" by force
  note L = law_wput [OF laws c]
  show ?thesis
    using run c L by (auto simp: PutEntry_def add_inflight_def sub_inflight_def GetChannelByServerId_def kept_refl
        split: if_splits option.splits)
qed

lemma put_regions_stores:
  assumes laws: "write_laws E store"
  shows "run_state (put_regions E reqs) s = (outs, s') \<Longrightarrow>
    kept store (ext s) (ext s') \<and> length outs = length reqs \<and>
    (first_bad outs = OK \<longrightarrow> (\<forall>i < length reqs. case reqs ! i of (sid, k, d) \<Rightarrow>
       store (ext s') sid (snd (outs ! i)) = Some d))"
proof (induction reqs arbitrary: s outs s')
  case Nil
  then show ?case by (simp add: kept_refl)
next
  case (Cons q reqs)
  obtain sid k d where q: "q = (sid, k, d)" by (cases q)
  obtain conn s1 where c: "run_state (GetRpcClient E) s = (conn, s1)" by force
  obtain st ik s2 where p: "run_state (PutEntry E conn False sid k d (length d)) s1 = ((st, ik), s2)"
    by (metis prod.collapse)
  obtain outs' s3 where r: "run_state (put_regions E reqs) s2 = (outs', s3)" by force
  have o: "outs = (st, ik) # outs'" "s' = s3" using Cons.prems c p r by (simp_all add: q)
  note K = GetRpcClient_kept [OF laws c] PutEntry_stores [OF laws p] Cons.IH [OF r]
  have k: "kept store (ext s) (ext s')" unfolding o(2)
    by (rule kept_trans [OF K(1) kept_trans [OF conjunct1 [OF K(2)] conjunct1 [OF K(3)]]])
  have "case (q # reqs) ! i of (sid, k, d) \<Rightarrow> store (ext s') sid (snd (outs ! i)) = Some d"
    if ok: "first_bad outs = OK" and i: "i < length (q # reqs)" for i
  proof (cases i)
    case 0
    have "store (ext s2) sid ik = Some d" using K(2) ok o by (simp split: if_splits)
    then show ?thesis using K(3) 0 o by (simp add: q kept_def)
  next
    case (Suc j)
    then show ?thesis using K(3) ok i o by (simp split: if_splits)
  qed
  then show ?case using k K(3) o by simp
qed

text \<open>The \<open>i\<close>-th replica of chunk \<open>cid\<close> is request number \<open>cid * length replicas + i\<close>.\<close>

lemma chunks_nth: "0 < c \<Longrightarrow> off + i * c < len \<Longrightarrow>
    i < length (chunks c len off) \<and> chunks c len off ! i = (off + i * c, min c (len - (off + i * c)))"
proof (induction i arbitrary: off)
  case 0
  then show ?case by (simp add: chunks_step)
next
  case (Suc i)
  then have "off + c + i * c < len" "off < len" by simp_all
  with Suc.IH [of "off + c"] Suc.prems show ?case by (simp add: chunks_step add.assoc)
qed

lemma concat_map_nth:
  assumes "\<And>x. length (f x) = m"
  shows "i < length xs \<Longrightarrow> j < m \<Longrightarrow> i * m + j < length (concat (map f xs)) \<and> concat (map f xs) ! (i * m + j) = f (xs ! i) ! j"
proof (induction xs arbitrary: i)
  case (Cons x xs)
  show ?case
  proof (cases i)
    case (Suc k)
    have "k * m + j < length (concat (map f xs)) \<and> concat (map f xs) ! (k * m + j) = f (xs ! k) ! j"
      using Cons Suc by simp
    then show ?thesis using assms [of x] by (simp add: Suc nth_append)
  qed (use Cons assms [of x] in \<open>simp add: nth_append\<close>)
qed simp

lemma repl_requests_nth:
  assumes "0 < wcs" and "cid * wcs < len" and "r < length replicas" and "wcs dvd off"
  shows "cid * length replicas + r < length (repl_requests wcs replicas key off len buf) \<and>
    repl_requests wcs replicas key off len buf ! (cid * length replicas + r) =
      (replicas ! r, chunk_name key (off div wcs + cid) wcs, slice (cid * wcs) (min wcs (len - cid * wcs)) buf)"
proof -
  let ?f = "\<lambda>(offset, region_size). map (\<lambda>server_id.
         (server_id, chunk_name key ((off + offset) div wcs) wcs, slice offset region_size buf)) replicas"
  have c: "cid < length (chunks wcs len 0)" "chunks wcs len 0 ! cid = (cid * wcs, min wcs (len - cid * wcs))"
    using chunks_nth [OF assms(1), of 0 cid len] assms(2) by simp_all
  have "(off + cid * wcs) div wcs = off div wcs + cid" using assms(1,4) by (auto elim: dvdE)
  moreover have "cid * length replicas + r < length (concat (map ?f (chunks wcs len 0))) \<and>
      concat (map ?f (chunks wcs len 0)) ! (cid * length replicas + r) = ?f (chunks wcs len 0 ! cid) ! r"
    by (rule concat_map_nth) (use c assms(3) in auto)
  ultimately show ?thesis using c assms(3) by (simp add: repl_requests_def)
qed

lemma Repl_Put_stores:
  assumes laws: "write_laws E store" and c: "0 < write_chunk_size (gcfg E)"
    and run: "run_state (Repl_Put E key (length buf) buf headers 0) s = ((st, root), s')" and ok: "st = OK"
  shows "root_ok (write_chunk_size (gcfg E)) (store (ext s')) buf root \<and> kept store (ext s) (ext s') \<and>
    jreplica root = Repl_GetReplica E key \<and> jsize root = length buf \<and> jtype root = ''replication'' \<and> jheaders root = headers"
proof -
  let ?c = "write_chunk_size (gcfg E)" and ?reps = "Repl_GetReplica E key"
  define reqs where "reqs = repl_requests ?c ?reps key 0 (length buf) buf"
  obtain conn s1 where g: "run_state (GetRpcClient E) s = (conn, s1)" by force
  obtain outs s2 where p: "run_state (put_regions E reqs) s1 = (outs, s2)" by force
  have r: "first_bad outs = OK" "s' = s2" "root = \<lparr>jtype = ''replication'', jsize = length buf, jreplica = ?reps,
      jpath = map snd outs, jheaders = headers\<rparr>"
    using run g p ok by (auto simp: Repl_Put_def Let_def reqs_def split: if_splits)
  note P = put_regions_stores [OF laws p]
  have "\<exists>ik. repl_key root cid i = Some ik \<and> store (ext s') (?reps ! i) ik = Some (chunk_bytes buf cid ?c)"
    if "cid * ?c < length buf" "i < length ?reps" for cid i
  proof -
    let ?k = "cid * length ?reps + i"
    have q: "?k < length reqs" "reqs ! ?k = (?reps ! i, chunk_name key cid ?c, chunk_bytes buf cid ?c)"
      using repl_requests_nth [OF c that, of 0 key buf] by (simp_all add: reqs_def chunk_bytes_def)
    then have "store (ext s') (?reps ! i) (snd (outs ! ?k)) = Some (chunk_bytes buf cid ?c)"
      using P r by fastforce
    moreover have "repl_key root cid i = Some (snd (outs ! ?k))" using q P by (simp add: repl_key_def r Let_def)
    ultimately show ?thesis by blast
  qed
  then show ?thesis using r P kept_trans [OF GetRpcClient_kept [OF laws g]] by (simp add: root_ok_def)
qed

subsection \<open>Reading back\<close>

text \<open>The servers of the replicas can always be reached and answer in full.\<close>

definition always_answers :: "'w genv \<Rightarrow> bool" where
  "always_answers E = (\<forall>w conn sid k s l. case fst (w_rpc_get (wld E) False conn sid k s l w) of
     None \<Rightarrow> False | Some (st, d) \<Rightarrow> st \<noteq> RPC_FAILED \<and> (st = OK \<longrightarrow> length d = l))"

definition repl_inv ::
    "'w genv \<Rightarrow> ('w \<Rightarrow> int \<Rightarrow> key \<rightharpoonup> bytes) \<Rightarrow> bytes \<Rightarrow> json_root \<Rightarrow> 'w gstate \<Rightarrow> bool" where
  "repl_inv E store f root s = (root_ok (write_chunk_size (gcfg E)) (store (ext s)) f root \<and>
     (length (jreplica root) = 1 \<or> always_answers E \<and> (\<forall>conn. set (jreplica root) \<subseteq> server_map s conn)))"

lemma repl_inv_simps [simp]: "repl_inv E store f root (s\<lparr>inflight := x\<rparr>) = repl_inv E store f root s"
  by (simp add: repl_inv_def)

lemma repl_inv_ext: "repl_inv E store f root s \<Longrightarrow> kept store (ext s) w \<Longrightarrow> repl_inv E store f root (s\<lparr>ext := w\<rparr>)"
  by (auto simp: repl_inv_def intro: root_ok_kept)

lemma GetEntry_write:
  assumes laws: "write_laws E store" and I: "repl_inv E store f root s" and sid: "i < length (jreplica root)" "sid = jreplica root ! i"
    and key: "store (ext s) sid ik = Some v" and run: "run_state (GetEntry E conn False sid ik a l) s = ((st, d), s')"
  shows "repl_inv E store f root s' \<and> (st = OK \<longrightarrow> a + l \<le> length v \<and> d = slice a l v) \<and>
    (length (jreplica root) \<noteq> 1 \<longrightarrow> st \<noteq> RPC_FAILED)"
proof -
  obtain r w' where c: "w_rpc_get (wld E) False conn sid ik a l (ext s) = (r, w')" by force
  note L = law_wget [OF laws c]
  have ans: "sid \<in> server_map s conn" "case r of None \<Rightarrow> False | Some (st, d) \<Rightarrow> st \<noteq> RPC_FAILED \<and> (st = OK \<longrightarrow> length d = l)"
    if "length (jreplica root) \<noteq> 1"
  proof -
    have A: "always_answers E" "set (jreplica root) \<subseteq> server_map s conn" using I that by (auto simp: repl_inv_def)
    show "sid \<in> server_map s conn" using A(2) sid nth_mem by blast
    have "case fst (w_rpc_get (wld E) False conn sid ik a l (ext s)) of
        None \<Rightarrow> False | Some (st, d) \<Rightarrow> st \<noteq> RPC_FAILED \<and> (st = OK \<longrightarrow> length d = l)"
      using A(1) unfolding always_answers_def by iprover
    then show "case r of None \<Rightarrow> False | Some (st, d) \<Rightarrow> st \<noteq> RPC_FAILED \<and> (st = OK \<longrightarrow> length d = l)"
      by (simp add: c)
  qed
  have inv: "repl_inv E store f root (s\<lparr>ext := w'\<rparr>)" using repl_inv_ext [OF I] L by blast
  show ?thesis
  proof (cases "sid \<in> server_map s conn")
    case False
    then show ?thesis using run I ans(1) by (auto simp: GetEntry_def add_inflight_def GetChannelByServerId_def)
  next
    case True
    then have "s' = s\<lparr>ext := w'\<rparr>" and
      "(st, d) = (case r of None \<Rightarrow> (RPC_FAILED, []) | Some (status, buf) \<Rightarrow>
          (if status = OK \<and> length buf \<noteq> l then RPC_FAILED else status, buf))"
      using run c by (auto simp: GetEntry_def add_inflight_def sub_inflight_def GetChannelByServerId_def)
    then show ?thesis using inv L key ans(2) by (auto split: option.splits if_splits)
  qed
qed

lemma Repl_GetChunk_read:
  assumes laws: "write_laws E store" and I: "repl_inv E store f root s" and i: "i < length (jreplica root)"
    and ik: "repl_key root (chunk_id req) i = Some ik" and fit: "chunk_id req * write_chunk_size (gcfg E) < length f"
    and buf: "length buf = chunk_len req" and key: "user_key req = key"
    and run: "run_state (Repl_GetChunkAsync E (jreplica root ! i) req ik buf) s = ((r, buf'), s')"
    and cl: "chunk_start req + chunk_len req \<le> write_chunk_size (gcfg E)"
  shows "repl_inv E store f root s' \<and> chunk_result (write_chunk_size (gcfg E)) [key \<mapsto> f] req (r, buf') \<and>
    (length (jreplica root) \<noteq> 1 \<longrightarrow> r \<noteq> Some RPC_FAILED)"
proof -
  let ?c = "write_chunk_size (gcfg E)"
  obtain conn s1 where g: "run_state (GetRpcClient E) s = (conn, s1)" by force
  obtain st d s2 where e: "run_state (GetEntry E conn False (jreplica root ! i) ik (chunk_start req) (chunk_len req)) s1 = ((st, d), s2)"
    by (metis prod.collapse)
  have s1: "s1 = s\<lparr>ext := ext s1\<rparr>" using g by (auto simp: GetRpcClient_def split: prod.splits)
  have I1: "repl_inv E store f root s1"
    using repl_inv_ext [OF I GetRpcClient_kept [OF laws g]] s1 by simp
  have "root_ok ?c (store (ext s1)) f root" using I1 by (simp add: repl_inv_def)
  then have st: "store (ext s1) (jreplica root ! i) ik = Some (chunk_bytes f (chunk_id req) ?c)"
    using fit i ik unfolding root_ok_def by fastforce
  note G = GetEntry_write [OF laws I1 i refl st e]
  have "r = (if st = OK then Some OK else Some st)" "s' = s2" "buf' = (if st = OK then blit buf 0 (take (length buf) d) else buf)"
    using run g e by (auto simp: Repl_GetChunkAsync_def split: if_splits)
  moreover have "st = OK \<Longrightarrow> chunk_id req * ?c + chunk_start req + chunk_len req \<le> length f \<and>
      d = slice (chunk_id req * ?c + chunk_start req) (chunk_len req) f"
  proof -
    assume "st = OK"
    then have "chunk_start req + chunk_len req \<le> length (chunk_bytes f (chunk_id req) ?c)"
      and d: "d = slice (chunk_start req) (chunk_len req) (chunk_bytes f (chunk_id req) ?c)" using G by auto
    then have "chunk_start req + chunk_len req \<le> min ?c (length f - chunk_id req * ?c)"
      by (simp add: chunk_bytes_def slice_def)
    then show ?thesis using d fit by (auto simp: chunk_bytes_def slice_slice)
  qed
  ultimately show ?thesis using G buf key by (auto simp: chunk_result_def blit_all)
qed

lemma repl_failover_one:
  "length (jreplica root) = 1 \<Longrightarrow> repl_failover E root (jreplica root ! 0) req (jreplica root) buf =
     State_Monad.return (Some RPC_FAILED, buf)"
  by (cases "jreplica root") auto

lemma keeps_repl_get_chunk:
  assumes laws: "write_laws E store" and n: "jreplica root \<noteq> []"
    and fit: "chunk_id req * write_chunk_size (gcfg E) < length f" and buf: "length buf = chunk_len req"
    and key: "user_key req = key" and cl: "chunk_start req + chunk_len req \<le> write_chunk_size (gcfg E)"
  shows "keeps (repl_inv E store f root) (repl_get_chunk E root req buf)
    (chunk_result (write_chunk_size (gcfg E)) [key \<mapsto> f] req)"
proof (rule keepsI)
  fix s a s' assume I: "repl_inv E store f root s" and run: "run_state (repl_get_chunk E root req buf) s = (a, s')"
  let ?c = "write_chunk_size (gcfg E)"
  obtain q w where w: "w_lrand48 (wld E) (ext s) = (q, w)" by force
  define i where "i = q mod length (jreplica root)"
  have i: "i < length (jreplica root)" using n by (simp add: i_def)
  define s1 where "s1 = s\<lparr>ext := w\<rparr>"
  have I1: "repl_inv E store f root s1" unfolding s1_def by (rule repl_inv_ext [OF I law_wrand [OF laws w]])
  obtain ik where ik: "repl_key root (chunk_id req) i = Some ik"
    using I1 fit i unfolding repl_inv_def root_ok_def by blast
  obtain r buf' s2 where c: "run_state (Repl_GetChunkAsync E (jreplica root ! i) req ik buf) s1 = ((r, buf'), s2)"
    by (metis prod.collapse)
  note R = Repl_GetChunk_read [OF laws I1 i ik fit buf key c cl]
  have eq: "run_state (repl_get_chunk E root req buf) s =
      run_state (if r \<noteq> Some RPC_FAILED then State_Monad.return (r, buf')
                 else repl_failover E root (jreplica root ! i) req (jreplica root) buf') s2"
    using w ik [unfolded i_def] c [unfolded i_def s1_def] by (simp add: repl_get_chunk_def i_def Let_def)
  show "repl_inv E store f root s' \<and> chunk_result ?c [key \<mapsto> f] req a"
  proof (cases "r = Some RPC_FAILED")
    case False
    then show ?thesis using eq run R by auto
  next
    case True
    then have "length (jreplica root) = 1" using R by blast
    moreover from this have "i = 0" using i by simp
    ultimately show ?thesis using eq run R True
      by (auto simp: repl_failover_one chunk_result_def)
  qed
qed

lemma tiled_chunk_below:
  "tiled name key c start len off reqs \<Longrightarrow> req \<in> set reqs \<Longrightarrow> chunk_id req * c < start + len"
  by (induction reqs arbitrary: off) (force dest: tiled_le)+

lemma keeps_Repl_Get:
  assumes laws: "write_laws E store" and n: "jreplica root \<noteq> []" and c: "0 < write_chunk_size (gcfg E)"
    and fit: "start + len \<le> length f" and len: "len \<le> length buf"
  shows "keeps (repl_inv E store f root) (Repl_Get E key start len buf root)
    (range_read [key \<mapsto> f] key start len 0 [] buf)"
proof -
  let ?c = "write_chunk_size (gcfg E)"
  define reqs where "reqs = Repl_GenerateGetChunkRequestsV2 key start len ?c"
  have t: "tiled (\<lambda>cid. []) key ?c start len 0 reqs"
    using gen_requests_tiled [OF c] by (simp add: reqs_def Repl_GenerateGetChunkRequestsV2_def)
  have get: "keeps (repl_inv E store f root) (repl_get_chunk E root req sub) (chunk_result ?c [key \<mapsto> f] req)"
    if "req \<in> set reqs" "length sub = chunk_len req" for req sub
  proof (rule keeps_repl_get_chunk [OF laws n _ that(2)])
    show "chunk_id req * ?c < length f" using tiled_chunk_below [OF t that(1)] fit by simp
    have "tiled (\<lambda>cid. []) key ?c start len off rs \<Longrightarrow> req \<in> set rs \<Longrightarrow>
        user_key req = key \<and> chunk_start req + chunk_len req \<le> ?c" for off rs
      by (induction rs arbitrary: off) auto
    with t that(1) show "user_key req = key" "chunk_start req + chunk_len req \<le> ?c" by auto
  qed
  show ?thesis
  proof (cases reqs)
    case Nil
    then have "len = 0" using t by simp
    then show ?thesis unfolding Repl_Get_def reqs_def [symmetric] Nil list.case
      by (intro keeps_return) (simp add: range_read_def)
  next
    case (Cons req rest)
    then have eq: "Repl_Get E key start len buf root =
        batch_loop (max_inflight_payload_size (gcfg E)) True (repl_get_chunk E root) reqs 0 [] buf"
      by (simp add: Repl_Get_def reqs_def [symmetric])
    show ?thesis unfolding eq by (rule keeps_batch_loop [OF get t len])
  qed
qed

subsection \<open>Success\<close>

text \<open>A server that holds an entry serves every part of it.\<close>

definition serves :: "'w genv \<Rightarrow> ('w \<Rightarrow> int \<Rightarrow> key \<rightharpoonup> bytes) \<Rightarrow> bool" where
  "serves E store = (\<forall>w conn sid k s l v. store w sid k = Some v \<and> s + l \<le> length v \<longrightarrow>
     fst (w_rpc_get (wld E) False conn sid k s l w) = Some (OK, slice s l v))"

lemma GetEntry_serves:
  assumes "serves E store" and "store (ext s) sid ik = Some v" and "a + l \<le> length v" and "sid \<in> server_map s conn"
  shows "\<exists>w. run_state (GetEntry E conn False sid ik a l) s = ((OK, slice a l v), s\<lparr>ext := w\<rparr>) \<and>
    w = snd (w_rpc_get (wld E) False conn sid ik a l (ext s))"
proof -
  have "fst (w_rpc_get (wld E) False conn sid ik a l (ext s)) = Some (OK, slice a l v)"
    using assms(1,2,3) unfolding serves_def by iprover
  then obtain w where "w_rpc_get (wld E) False conn sid ik a l (ext s) = (Some (OK, slice a l v), w)"
    by (metis prod.collapse)
  then show ?thesis using assms(3,4)
    by (simp add: GetEntry_def add_inflight_def sub_inflight_def GetChannelByServerId_def)
qed

lemma Repl_GetChunk_serves:
  assumes "serves E store" and "store (ext s) sid ik = Some v" and "chunk_start req + chunk_len req \<le> length v"
    and "\<And>conn. sid \<in> server_map s conn" and "write_laws E store" and "length buf = chunk_len req"
  shows "\<exists>s'. run_state (Repl_GetChunkAsync E sid req ik buf) s =
    ((Some OK, slice (chunk_start req) (chunk_len req) v), s')"
proof -
  obtain conn s1 where g: "run_state (GetRpcClient E) s = (conn, s1)" by force
  have s1: "server_map s1 = server_map s" using g by (auto simp: GetRpcClient_def split: prod.splits)
  have "store (ext s1) sid ik = Some v" using GetRpcClient_kept [OF assms(5) g] assms(2) by (simp add: kept_def)
  from GetEntry_serves [OF assms(1) this assms(3), of conn] assms(3,4,6) g s1
  show ?thesis by (auto simp: Repl_GetChunkAsync_def blit_all)
qed

lemma keeps_repl_get_chunk_serves:
  assumes laws: "write_laws E store" and sv: "serves E store" and n: "jreplica root \<noteq> []"
    and fit: "chunk_id req * write_chunk_size (gcfg E) + chunk_start req + chunk_len req \<le> length f"
    and buf: "length buf = chunk_len req" and cl: "chunk_start req + chunk_len req \<le> write_chunk_size (gcfg E)"
    and pos: "0 < chunk_len req"
  shows "keeps (\<lambda>s. repl_inv E store f root s \<and> (\<forall>conn. set (jreplica root) \<subseteq> server_map s conn))
    (repl_get_chunk E root req buf) (\<lambda>r. fst r = Some OK \<and> length (snd r) = chunk_len req)"
  (is "keeps ?I _ _")
proof (rule keepsI)
  fix s a s' assume I: "?I s" and run: "run_state (repl_get_chunk E root req buf) s = (a, s')"
  let ?c = "write_chunk_size (gcfg E)"
  obtain q w where w: "w_lrand48 (wld E) (ext s) = (q, w)" by force
  define i where "i = q mod length (jreplica root)"
  have i: "i < length (jreplica root)" using n by (simp add: i_def)
  have I1: "repl_inv E store f root (s\<lparr>ext := w\<rparr>)" using repl_inv_ext [OF conjunct1 [OF I] law_wrand [OF laws w]] .
  have below: "chunk_id req * ?c < length f" using fit pos by linarith
  have ro: "root_ok ?c (store w) f root" using I1 by (simp add: repl_inv_def)
  obtain ik where ik: "repl_key root (chunk_id req) i = Some ik"
      "store w (jreplica root ! i) ik = Some (chunk_bytes f (chunk_id req) ?c)"
    using ro below i unfolding root_ok_def by blast
  have len: "chunk_start req + chunk_len req \<le> length (chunk_bytes f (chunk_id req) ?c)"
    using fit cl by (simp add: chunk_bytes_def slice_def)
  have reg: "jreplica root ! i \<in> server_map (s\<lparr>ext := w\<rparr>) conn" for conn
    using I i nth_mem by fastforce
  obtain s2 where c: "run_state (Repl_GetChunkAsync E (jreplica root ! i) req ik buf) (s\<lparr>ext := w\<rparr>) =
      ((Some OK, slice (chunk_start req) (chunk_len req) (chunk_bytes f (chunk_id req) ?c)), s2)"
    using Repl_GetChunk_serves [OF sv _ len reg laws buf, of ik] ik(2) by auto
  have "server_map s2 = server_map s"
    using c by (auto simp: Repl_GetChunkAsync_def GetRpcClient_def GetEntry_def add_inflight_def sub_inflight_def
        GetChannelByServerId_def split: prod.splits if_splits)
  moreover have "a = (Some OK, slice (chunk_start req) (chunk_len req) (chunk_bytes f (chunk_id req) ?c)) \<and> s' = s2"
    using run w ik(1) [unfolded i_def] c [unfolded i_def] by (simp add: repl_get_chunk_def Let_def)
  moreover have "repl_inv E store f root s2"
    using Repl_GetChunk_read [OF laws I1 i ik(1) below buf refl c cl] by blast
  ultimately show "?I s' \<and> fst a = Some OK \<and> length (snd a) = chunk_len req" using I len by simp
qed

lemma keeps_batch_loop_ok:
  assumes c: "\<And>req sub. req \<in> set reqs \<Longrightarrow> length sub = chunk_len req \<Longrightarrow>
      keeps I (get_chunk req sub) (\<lambda>r. fst r = Some OK \<and> length (snd r) = chunk_len req)"
  shows "tiled name key c start len off reqs \<Longrightarrow> len \<le> length buf \<Longrightarrow> \<forall>p \<in> set pending. p = Some OK \<Longrightarrow>
    keeps I (batch_loop limit reset get_chunk reqs aggr pending buf) (\<lambda>r. fst r = Some OK)"
  using c
proof (induction reqs arbitrary: off aggr pending buf)
  case Nil
  then show ?case by (auto intro!: keeps_return)
next
  case (Cons req reqs)
  have t: "buffer_off req = off" "tiled name key c start len (off + chunk_len req) reqs" using Cons.prems(1) by auto
  have fit: "off + chunk_len req \<le> len" using tiled_le [OF t(2)] .
  have sub: "length (slice off (chunk_len req) buf) = chunk_len req" using fit Cons.prems(2) by simp
  have ih: "keeps I (batch_loop limit reset get_chunk reqs aggr pend (blit buf off s)) (\<lambda>r. fst r = Some OK)"
    if "\<forall>p \<in> set pend. p = Some OK" "length s = chunk_len req" for aggr pend s
    by (rule Cons.IH [OF t(2)]) (use that fit Cons.prems in auto)
  show ?case
    unfolding batch_loop.simps t(1) Let_def
    by (rule keeps_bind [OF Cons.prems(4)], simp, rule sub, rule keeps_case_prod, intro keeps_if ih)
       (use Cons.prems(3) in auto)
qed

lemma Repl_Get_serves:
  assumes "write_laws E store" and "serves E store" and "0 < write_chunk_size (gcfg E)" and n: "jreplica root \<noteq> []"
    and ok: "root_ok (write_chunk_size (gcfg E)) (store (ext s)) data root"
    and sub: "\<forall>conn. set (jreplica root) \<subseteq> server_map s conn" and "always_answers E"
    and fit: "start + len \<le> length data" "len \<le> length buf"
  shows "\<exists>buf' s'. run_state (Repl_Get E key start len buf root) s = ((Some OK, buf'), s') \<and>
    length buf' = length buf \<and> (\<forall>i < length buf. buf' ! i = (if i < len then data ! (start + i) else buf ! i)) \<and>
    root_ok (write_chunk_size (gcfg E)) (store (ext s')) data root"
proof -
  let ?c = "write_chunk_size (gcfg E)"
  have I: "repl_inv E store data root s"
    unfolding repl_inv_def using ok sub assms(7) by simp
  obtain r buf' s' where run: "run_state (Repl_Get E key start len buf root) s = ((r, buf'), s')" by (metis prod.collapse)
  note R = keepsD [OF keeps_Repl_Get [OF assms(1) n assms(3) fit] I run]
  define reqs where "reqs = Repl_GenerateGetChunkRequestsV2 key start len ?c"
  have t: "tiled (\<lambda>cid. []) key ?c start len 0 reqs"
    using gen_requests_tiled [OF assms(3)] by (simp add: reqs_def Repl_GenerateGetChunkRequestsV2_def)
  have q: "chunk_id req * ?c + chunk_start req + chunk_len req \<le> length data \<and> chunk_start req + chunk_len req \<le> ?c \<and>
      0 < chunk_len req" if "req \<in> set reqs" for req
  proof -
    have "tiled (\<lambda>cid. []) key ?c start len off rs \<Longrightarrow> req \<in> set rs \<Longrightarrow> 0 < chunk_len req \<and>
        chunk_start req + chunk_len req \<le> ?c \<and> chunk_id req * ?c + chunk_start req + chunk_len req \<le> start + len" for off rs
      by (induction rs arbitrary: off) (force dest: tiled_le)+
    from this [OF t that] show ?thesis using fit(1) by simp
  qed
  have ok': "keeps (\<lambda>s. repl_inv E store data root s \<and> (\<forall>conn. set (jreplica root) \<subseteq> server_map s conn))
      (Repl_Get E key start len buf root) (\<lambda>r. fst r = Some OK)"
  proof (cases reqs)
    case Nil
    then show ?thesis unfolding Repl_Get_def reqs_def [symmetric] Nil list.case by (intro keeps_return) simp
  next
    case (Cons req rest)
    then have eq: "Repl_Get E key start len buf root =
        batch_loop (max_inflight_payload_size (gcfg E)) True (repl_get_chunk E root) reqs 0 [] buf"
      by (simp add: Repl_Get_def reqs_def [symmetric])
    show ?thesis
      unfolding eq by (rule keeps_batch_loop_ok [OF keeps_repl_get_chunk_serves [OF assms(1,2) n] t fit(2)]) (use q in auto)
  qed
  have "r = Some OK" using keepsD [OF ok' _ run] I sub by simp
  then show ?thesis using run R by (auto simp: range_read_def repl_inv_def)
qed

subsection \<open>Properties\<close>

text \<open>
  C10: what the replicated write cache has stored it gives back.  After a \<^verbatim>\<open>Put\<close> that returned \<^verbatim>\<open>OK\<close>, and as
  long as the servers lose nothing, can be reached and serve what they hold, a \<^verbatim>\<open>Get\<close> of any range of
  the file with the record of that \<^verbatim>\<open>Put\<close> returns \<^verbatim>\<open>OK\<close>, fills exactly the range with the bytes put,
  whatever replica is drawn for each chunk and wherever the range cuts the chunks.
\<close>

theorem Repl_Put_Get_roundtrip:
  assumes "write_laws E store" and "serves E store" and "0 < write_chunk_size (gcfg E)" and "Repl_GetReplica E key \<noteq> []"
    and "run_state (Repl_Put E key (length data) data headers 0) s = ((OK, root), s1)"
    and "kept store (ext s1) (ext s2)" and "\<forall>conn. set (Repl_GetReplica E key) \<subseteq> server_map s2 conn"
    and "always_answers E" and "start + len \<le> length data" and "len \<le> length buf"
  shows "\<exists>buf' s3. run_state (Repl_Get E key start len buf root) s2 = ((Some OK, buf'), s3) \<and>
    length buf' = length buf \<and> (\<forall>i < length buf. buf' ! i = (if i < len then data ! (start + i) else buf ! i)) \<and>
    root_ok (write_chunk_size (gcfg E)) (store (ext s3)) data root"
proof -
  note P = Repl_Put_stores [OF assms(1,3,5) refl]
  show ?thesis
    by (rule Repl_Get_serves [OF assms(1,2,3) _ root_ok_kept [OF conjunct1 [OF P] assms(6)] _ assms(8,9,10)])
       (use P assms(4,7) in simp_all)
qed

text \<open>
  C20: the failover of the replicated write cache reads the wrong chunk.  It looks the name of the chunk up
  at the number of the server instead of the replica: when the replicas are servers 2 and 3 and server 3
  cannot be reached, the read of the first chunk returns \<^verbatim>\<open>OK\<close> with the bytes of the second chunk.
\<close>

theorem repl_failover_wrong_chunk:
  assumes "write_laws E store" and "serves E store" and "jreplica root = [2, 3]"
    and "root_ok (write_chunk_size (gcfg E)) (store (ext s)) f root" and "2 * write_chunk_size (gcfg E) \<le> length f"
    and "\<And>conn. 2 \<in> server_map s conn" and "chunk_id request = 0"
    and "0 < chunk_len request" "chunk_start request + chunk_len request \<le> write_chunk_size (gcfg E)"
    and "length buf = chunk_len request"
  shows "\<exists>s'. run_state (repl_failover E root 3 request (jreplica root) buf) s =
    ((Some OK, slice (write_chunk_size (gcfg E) + chunk_start request) (chunk_len request) f), s')"
proof -
  let ?c = "write_chunk_size (gcfg E)"
  have "1 * ?c < length f" using assms(5,8,9) by linarith
  then obtain ik where ik: "repl_key root 1 0 = Some ik" "store (ext s) 2 ik = Some (chunk_bytes f 1 ?c)"
    using iffD1 [OF root_ok_def assms(4), THEN spec [of _ 1], THEN spec [of _ 0]] assms(3) by auto
  have k: "repl_key root 0 2 = Some ik" using ik(1) assms(3) by (simp add: repl_key_def)
  have len: "length (chunk_bytes f 1 ?c) = ?c" using assms(5) by (simp add: chunk_bytes_def slice_def)
  obtain s' where "run_state (Repl_GetChunkAsync E 2 request ik buf) s =
      ((Some OK, slice (chunk_start request) (chunk_len request) (chunk_bytes f 1 ?c)), s')"
    using Repl_GetChunk_serves [OF assms(2) ik(2) _ assms(6,1,10)] assms(9) len by auto
  moreover have "slice (chunk_start request) (chunk_len request) (chunk_bytes f 1 ?c) = slice (?c + chunk_start request) (chunk_len request) f"
    using assms(5,9) by (simp add: chunk_bytes_def slice_slice)
  ultimately show ?thesis using assms(3,7) k by simp
qed

subsection \<open>The demonstration servers\<close>

lemma demo_write_laws: "write_laws demo_genv dw_write"
  by (auto simp: write_laws_def wlaw_rand_def wlaw_put_def wlaw_get_def kept_def demo_reply_OK Let_def split: if_splits)

lemma demo_write_serves: "serves demo_genv dw_write"
  by (simp add: serves_def demo_reply_def)

lemma demo_always_answers: "always_answers demo_genv"
  by (auto simp: always_answers_def demo_reply_def split: option.splits)

lemma demo_write_replica: "Repl_GetReplica demo_genv k = [1, 2]"
  by (simp add: Repl_GetReplica_def Write_GetReplica_def placement_loop_def upt_conv_Cons)

lemma demo_repl_requests: "repl_requests 2 [1, 2] ''f'' 0 3 [1, 2, 3] =
   [(1, chunk_name ''f'' 0 2, [1, 2]), (2, chunk_name ''f'' 0 2, [1, 2]),
    (1, chunk_name ''f'' 1 2, [3]), (2, chunk_name ''f'' 1 2, [3])]"
  by (simp add: repl_requests_def slice_def chunks_step chunks_done)

lemma demo_put_region:
  assumes "sid \<in> server_map s 0" and "dw_write (ext s) sid (k @ ''-'' @ to_string (dw_ts (ext s))) = None"
  shows "run_state (PutEntry demo_genv 0 False sid k d (length d)) s =
    ((OK, k @ ''-'' @ to_string (dw_ts (ext s))),
     s\<lparr>ext := (ext s)\<lparr>dw_write := (dw_write (ext s))(sid := (dw_write (ext s) sid)(k @ ''-'' @ to_string (dw_ts (ext s)) \<mapsto> d)),
       dw_ts := dw_ts (ext s) + 1\<rparr>\<rparr>)"
  using assms by (simp add: PutEntry_def add_inflight_def sub_inflight_def GetChannelByServerId_def Let_def)

lemma demo_GetRpcClient: "run_state (GetRpcClient demo_genv) s = (0, s)"
  by (simp add: GetRpcClient_def)

lemma demo_put_run:
  assumes "server_map s = (\<lambda>c. {0, 1, 2})" and "dw_write (ext s) = (\<lambda>sid. Map.empty)"
  shows "\<exists>root s1. run_state (Repl_Put demo_genv ''f'' 3 [1, 2, 3] Map.empty 0) s = ((OK, root), s1) \<and>
    server_map s1 = server_map s"
proof -
  have d: "chunk_name ''f'' 0 2 @ x \<noteq> chunk_name ''f'' (Suc 0) 2 @ y" "chunk_name ''f'' (Suc 0) 2 @ y \<noteq> chunk_name ''f'' 0 2 @ x" for x y
    by (simp_all add: chunk_name_def to_string.simps digit_def)
  show ?thesis
    by (simp add: Repl_Put_def demo_write_replica demo_GetRpcClient demo_repl_requests demo_put_region [of _ _ _ "[_]", simplified]
        demo_put_region [of _ _ _ "[_, _]", simplified] assms d Let_def)
qed

lemma demo_gstate_simps [simp]:
  "server_map demo_gstate = (\<lambda>c. {0, 1, 2})" "dw_write (ext demo_gstate) = (\<lambda>sid. Map.empty)"
  "dw_etcd (ext demo_gstate) = Map.empty" "meta_cache demo_gstate = Map.empty"
  by (simp_all add: demo_gstate_def)

theorem Repl_Put_Get_roundtrip_witness:
  "\<exists>root s1 buf s3. run_state (Repl_Put demo_genv ''f'' 3 [1, 2, 3] Map.empty 0) demo_gstate = ((OK, root), s1) \<and>
     run_state (Repl_Get demo_genv ''f'' 1 2 [0, 0, 9] root) s1 = ((Some OK, buf), s3) \<and> buf = [2, 3, 9]"
proof -
  obtain root s1 where put: "run_state (Repl_Put demo_genv ''f'' 3 [1, 2, 3] Map.empty 0) demo_gstate = ((OK, root), s1)"
    and map: "server_map s1 = server_map demo_gstate" using demo_put_run [of demo_gstate] by auto
  have put': "run_state (Repl_Put demo_genv ''f'' (length [1, 2, 3]) [1, 2, 3] Map.empty 0) demo_gstate = ((OK, root), s1)"
    using put by (simp add: eval_nat_numeral)
  have sub: "\<forall>conn. set (Repl_GetReplica demo_genv ''f'') \<subseteq> server_map s1 conn"
    using map by (simp add: demo_write_replica)
  obtain buf s3 where get: "run_state (Repl_Get demo_genv ''f'' 1 2 [0, 0, 9] root) s1 = ((Some OK, buf), s3)"
      and l: "length buf = length [0, 0, 9 :: 8 word]"
      and b: "\<forall>i < length [0, 0, 9 :: 8 word]. buf ! i = (if i < 2 then [1, 2, 3] ! (1 + i) else [0, 0, 9] ! i)"
    using Repl_Put_Get_roundtrip [OF demo_write_laws demo_write_serves _ _ put' kept_refl sub demo_always_answers,
        of 1 2 "[0, 0, 9]"] by (auto simp: demo_write_replica)
  have "buf = [2, 3, 9]"
    using l b [THEN spec, of 0] b [THEN spec, of 1] b [THEN spec, of 2] by (auto simp: length_Suc_conv nth_Cons')
  then show ?thesis using put get by blast
qed

text \<open>Three servers, two of them holding the two chunks of a file.\<close>

definition demo_root :: json_root where
  "demo_root = \<lparr>jtype = ''replication'', jsize = 4, jreplica = [2, 3], jpath = [''a'', ''b'', ''c'', ''d''], jheaders = Map.empty\<rparr>"

definition demo_failed :: "demo_state gstate" where
  "demo_failed = \<lparr>server_map = (\<lambda>c. {2}), inflight = (\<lambda>c. 0), bg_tasks = [], meta_cache = Map.empty,
     ext = \<lparr>dw_read = (\<lambda>sid. Map.empty), dw_write = (\<lambda>sid. [''a'' \<mapsto> [1, 2], ''b'' \<mapsto> [1, 2], ''c'' \<mapsto> [3, 4], ''d'' \<mapsto> [3, 4]]),
            dw_ts = 4, dw_etcd = Map.empty, dw_base = Map.empty\<rparr>\<rparr>"

lemma demo_root_ok: "root_ok (write_chunk_size (gcfg demo_genv)) (dw_write (ext demo_failed)) [1, 2, 3, 4] demo_root"
  unfolding root_ok_def
proof (intro allI impI)
  fix cid r assume a: "cid * write_chunk_size (gcfg demo_genv) < length [1, 2, 3, 4 :: 8 word] \<and> r < length (jreplica demo_root)"
  then have "cid = 0 \<or> cid = 1" "r = 0 \<or> r = 1" by (auto simp: demo_root_def)
  then show "\<exists>ik. repl_key demo_root cid r = Some ik \<and> dw_write (ext demo_failed) (jreplica demo_root ! r) ik =
      Some (chunk_bytes [1, 2, 3, 4] cid (write_chunk_size (gcfg demo_genv)))"
    by (elim disjE) (simp_all add: demo_root_def repl_key_def demo_failed_def chunk_bytes_def slice_def)
qed

theorem repl_failover_wrong_chunk_witness:
  "\<exists>s'. run_state (repl_failover demo_genv demo_root 3 \<lparr>user_key = ''f'', internal_key = [], chunk_id = 0, chunk_start = 0,
      chunk_len = 2, chunk_granularity = 2, buffer_off = 0\<rparr> [2, 3] [0, 0]) demo_failed = ((Some OK, [3, 4]), s')"
proof -
  let ?r = "\<lparr>user_key = ''f'', internal_key = [], chunk_id = 0, chunk_start = 0, chunk_len = 2, chunk_granularity = 2, buffer_off = 0\<rparr>"
  have r: "jreplica demo_root = [2, 3]" by (simp add: demo_root_def)
  have "2 \<in> server_map demo_failed conn" for conn by (simp add: demo_failed_def)
  from repl_failover_wrong_chunk [OF demo_write_laws demo_write_serves r demo_root_ok _ this, of ?r "[0, 0]"] r
  show ?thesis by (simp add: slice_def)
qed

end
