(* ===== verification/Global_Adaptor.thy ===== *)
theory Global_Adaptor
  imports Repl_Client
begin

section \<open>The global data adaptor (\<^verbatim>\<open>global_cache/GlobalDataAdaptor.cpp\<close>)\<close>

text \<open>
  The adaptor joins the read cache, the write cache, the metadata server and the base adaptor.  Futures
  run where they are created, so an operation is one program; a result \<open>None\<close> is a future that carries an
  exception.  Erasure coding is compiled out (\<^verbatim>\<open>ENABLE_EC\<close> is off), and assertions are (\<^verbatim>\<open>NDEBUG\<close>).
\<close>

subsection \<open>The write caches (\<^verbatim>\<open>write_caches_\<close>)\<close>

definition EC_Put :: "('w, int \<times> json_root) gprog" where
  "EC_Put = State_Monad.return (UNSUPPORTED_OPERATION, empty_root)"

definition EC_Get :: "bytes \<Rightarrow> ('w, int option \<times> bytes) gprog" where
  "EC_Get buf = State_Monad.return (Some UNSUPPORTED_OPERATION, buf)"

definition write_put ::
    "'w genv \<Rightarrow> key \<Rightarrow> nat \<Rightarrow> bytes \<Rightarrow> json_headers \<Rightarrow> nat \<Rightarrow> ('w, int \<times> json_root) gprog" where
  "write_put E key len buf headers off =
     (if write_cache_type (policy E) = REPLICATION then Repl_Put E key len buf headers off else EC_Put)"

definition write_get ::
    "'w genv \<Rightarrow> key \<Rightarrow> nat \<Rightarrow> nat \<Rightarrow> bytes \<Rightarrow> json_root \<Rightarrow> ('w, int option \<times> bytes) gprog" where
  "write_get E key start len buf root =
     (if jtype root = ''replication'' then Repl_Get E key start len buf root
      else if jtype root = ''reed-solomon'' then EC_Get buf
      else State_Monad.return (Some UNSUPPORTED_TYPE, buf))"

subsection \<open>Reading\<close>

text \<open>
  The record of the file is not in the metadata cache.  \<^verbatim>\<open>Head\<close> of the base adaptor writes into the size
  and the headers of the entry whatever it returns.
\<close>

definition DownLoad_lookup ::
    "'w genv \<Rightarrow> MetaCacheEntry \<Rightarrow> key \<Rightarrow> nat \<Rightarrow> nat \<Rightarrow> bytes \<Rightarrow> ('w, int option \<times> bytes) gprog" where
  "DownLoad_lookup E entry key start len buf = do {
     (status, root) \<leftarrow> GetJson E key;
     if status = NOT_FOUND
     then (if use_meta_cache (gcfg E)
           then do {
             (res, sz, headers) \<leftarrow> outside (w_head (wld E) key (msize entry) (mheaders entry));
             set_entry key (\<lambda>e. e\<lparr>msize := sz, mheaders := headers\<rparr>);
             _ \<leftarrow> (if value_or res = OK \<or> value_or res = NOT_FOUND
                   then set_entry key (\<lambda>e. e\<lparr>present := True, existed := (value_or res = OK), write_cached := False\<rparr>)
                   else State_Monad.return ());
             if value_or res = OK then ReadClient_Get E key start len buf
             else State_Monad.return (Some (value_or res), buf)
           }
           else ReadClient_Get E key start len buf)
     else if status \<noteq> OK then State_Monad.return (Some status, buf)
     else do {
       remember E key (\<lambda>e. e\<lparr>present := True, existed := True, write_cached := True, msize := jsize root,
         mheaders := mheaders e ++ jheaders root, mroot := root\<rparr>);
       write_get E key start len buf root
     }
   }"

definition DownLoadFromGlobalCache ::
    "'w genv \<Rightarrow> key \<Rightarrow> nat \<Rightarrow> nat \<Rightarrow> bytes \<Rightarrow> ('w, int option \<times> bytes) gprog" where
  "DownLoadFromGlobalCache E key start len buf = do {
     entry \<leftarrow> GetMetaCacheEntry E key;
     if present entry \<and> \<not> existed entry then State_Monad.return (Some NOT_FOUND, buf)
     else if present entry \<and> start + len > msize entry then State_Monad.return (Some END_OF_FILE, buf)
     else if write_cache_type (policy E) = NOCACHE then ReadClient_Get E key start len buf
     else if \<not> present entry then DownLoad_lookup E entry key start len buf
     else if write_cached entry then write_get E key start len buf (mroot entry)
     else ReadClient_Get E key start len buf
   }"

definition DownLoad :: "'w genv \<Rightarrow> key \<Rightarrow> nat \<Rightarrow> nat \<Rightarrow> bytes \<Rightarrow> ('w, int option \<times> bytes) gprog" where
  "DownLoad E key start len buf = do {
     (res, buf) \<leftarrow> DownLoadFromGlobalCache E key start len buf;
     if value_or res = RPC_FAILED then outside (w_download (wld E) key start len buf)
     else State_Monad.return (Some (value_or res), buf)
   }"

subsection \<open>Writing\<close>

definition DoUpLoad :: "'w genv \<Rightarrow> key \<Rightarrow> nat \<Rightarrow> bytes \<Rightarrow> json_headers \<Rightarrow> ('w, int option) gprog" where
  "DoUpLoad E key len buf headers = do {
     entry \<leftarrow> GetMetaCacheEntry E key;
     set_entry key (\<lambda>e. e\<lparr>present := False, existed := True, msize := len, mheaders := headers\<rparr>);
     pre_op \<leftarrow> ReadClient_Invalidate E key len;
     if write_cache_type (policy E) \<noteq> NOCACHE
     then do {
       (status, root) \<leftarrow> write_put E key len buf headers 0;
       if status \<noteq> OK then State_Monad.return (Some status)
       else do {
         status \<leftarrow> PutJson E key root;
         _ \<leftarrow> (if status = OK then remember E key (\<lambda>e. e\<lparr>mroot := root, write_cached := True, present := True\<rparr>)
               else State_Monad.return ());
         State_Monad.return (Some status)
       }
     }
     else do {
       res \<leftarrow> outside (w_upload (wld E) key len buf headers);
       _ \<leftarrow> (if res = Some OK then remember E key (\<lambda>e. e\<lparr>write_cached := False, present := True\<rparr>)
             else State_Monad.return ());
       State_Monad.return res
     }
   }"

definition DoUpLoadPart ::
    "'w genv \<Rightarrow> key \<Rightarrow> nat \<Rightarrow> nat \<Rightarrow> bytes \<Rightarrow> json_headers \<Rightarrow> json_root \<Rightarrow> ('w, int option \<times> json_root) gprog" where
  "DoUpLoadPart E key off len buf headers root = do {
     pre_op \<leftarrow> ReadClient_Invalidate E key (off + len);
     if write_cache_type (policy E) \<noteq> NOCACHE
     then do {
       (status, new_root) \<leftarrow> write_put E key len buf headers off;
       State_Monad.return (Some status, if status = OK then new_root else root)
     }
     else State_Monad.return (Some UNSUPPORTED_TYPE, root)
   }"

definition Completed :: "'w genv \<Rightarrow> key \<Rightarrow> json_root list \<Rightarrow> nat \<Rightarrow> ('w, int option) gprog" where
  "Completed E key roots len =
     (case roots of
        [] \<Rightarrow> State_Monad.return (Some OK)
      | root # _ \<Rightarrow> do {
          entry \<leftarrow> GetMetaCacheEntry E key;
          set_entry key (\<lambda>e. e\<lparr>present := False\<rparr>);
          st \<leftarrow> PutJson E key (root\<lparr>jpath := concat (map jpath roots), jsize := len\<rparr>);
          State_Monad.return (Some st)
        })"

subsection \<open>Deleting and flushing\<close>

definition Delete :: "'w genv \<Rightarrow> key \<Rightarrow> ('w, int option) gprog" where
  "Delete E key =
     (if write_cache_type (policy E) = NOCACHE
      then do {
        InvalidateMetaCacheEntry key;
        outside (w_delete (wld E) key)
      }
      else do {
        entry \<leftarrow> GetMetaCacheEntry E key;
        (early, len, has_write_cache) \<leftarrow>
          (if \<not> present entry
           then do {
             (status, root) \<leftarrow> GetJson E key;
             if status = OK then State_Monad.return (Some OK, jsize root, True)
             else if status = NOT_FOUND
             then do {
               (ret, sz, headers) \<leftarrow> outside (w_head (wld E) key (msize entry) Map.empty);
               State_Monad.return (ret, sz, False)
             }
             else State_Monad.return (Some status, msize entry, False)
           }
           else State_Monad.return (Some OK, msize entry, False));
        if early \<noteq> Some OK then State_Monad.return early
        else do {
          InvalidateMetaCacheEntry key;
          res \<leftarrow> outside (w_delete (wld E) key);
          inv \<leftarrow> ReadClient_Invalidate E key len;
          if has_write_cache then do { st \<leftarrow> DeleteJson E key; State_Monad.return (Some st) }
          else State_Monad.return (Some inv)
        }
      })"

definition DeepFlush :: "'w genv \<Rightarrow> key \<Rightarrow> ('w, int option) gprog" where
  "DeepFlush E key =
     (if write_cache_type (policy E) = NOCACHE then State_Monad.return (Some OK)
      else do {
        (status, root) \<leftarrow> GetJson E key;
        if status \<noteq> OK then State_Monad.return (Some status)
        else do {
          (res, buf) \<leftarrow> DownLoad E key 0 (jsize root) (fresh_bytes E (jsize root));
          if value_or res \<noteq> OK then State_Monad.return (Some (value_or res))
          else do {
            res \<leftarrow> outside (w_upload (wld E) key (jsize root) buf (jheaders root));
            if value_or res \<noteq> OK then State_Monad.return (Some (value_or res))
            else do {
              InvalidateMetaCacheEntry key;
              st \<leftarrow> DeleteJson E key;
              State_Monad.return (Some st)
            }
          }
        }
      })"

subsection \<open>Garbage collection\<close>

fun gc_query :: "'w genv \<Rightarrow> int list \<Rightarrow> ('w, (int \<times> nat) list) gprog" where
  "gc_query E [] = State_Monad.return []"
| "gc_query E (server_id # ids) = do {
     conn \<leftarrow> GetRpcClient E;
     res \<leftarrow> QueryTsFromWriteCache E conn server_id;
     rest \<leftarrow> gc_query E ids;
     State_Monad.return (res # rest)
   }"

fun gc_flush :: "'w genv \<Rightarrow> key list \<Rightarrow> ('w, unit) gprog" where
  "gc_flush E [] = State_Monad.return ()"
| "gc_flush E (key # ks) = do { res \<leftarrow> DeepFlush E key; gc_flush E ks }"

text \<open>The records of the listed files that can still be read.\<close>

fun gc_roots :: "'w genv \<Rightarrow> key list \<Rightarrow> ('w, json_root list) gprog" where
  "gc_roots E [] = State_Monad.return []"
| "gc_roots E (key # ks) = do {
     (status, root) \<leftarrow> GetJson E key;
     roots \<leftarrow> gc_roots E ks;
     State_Monad.return (if status \<noteq> OK then roots else root # roots)
   }"

text \<open>\<^verbatim>\<open>preserve_chunk_keys_map\<close>: the names to preserve on a server.\<close>

definition preserve_chunk_keys :: "json_root list \<Rightarrow> int \<Rightarrow> string list" where
  "preserve_chunk_keys roots server_id =
     concat (map (\<lambda>root. map ((!) (jpath root))
        (filter (\<lambda>i. jreplica root ! (i mod length (jreplica root)) = server_id) [0..<length (jpath root)])) roots)"

fun gc_delete :: "'w genv \<Rightarrow> string \<Rightarrow> json_root list \<Rightarrow> (int \<times> int \<times> nat) list \<Rightarrow> ('w, unit) gprog" where
  "gc_delete E key_prefix roots [] = State_Monad.return ()"
| "gc_delete E key_prefix roots ((server_id, status, ts) # rest) =
     (if status \<noteq> OK then gc_delete E key_prefix roots rest
      else do {
        conn \<leftarrow> GetRpcClient E;
        rc \<leftarrow> DeleteEntryFromWriteCache E conn server_id key_prefix ts (preserve_chunk_keys roots server_id);
        gc_delete E key_prefix roots rest
      })"

definition gc_recycle :: "'w genv \<Rightarrow> string \<Rightarrow> key list \<Rightarrow> (int \<times> int \<times> nat) list \<Rightarrow> ('w, unit) gprog" where
  "gc_recycle E key_prefix key_list servers = do {
     roots \<leftarrow> gc_roots E key_list;
     gc_delete E key_prefix roots servers
   }"

definition PerformGarbageCollection :: "'w genv \<Rightarrow> string \<Rightarrow> ('w, int) gprog" where
  "PerformGarbageCollection E key_prefix = do {
     let ids = map int [0..<length (server_list E)];
     ts \<leftarrow> gc_query E ids;
     if (\<forall>r \<in> set ts. fst r \<noteq> OK) then State_Monad.return RPC_FAILED
     else do {
       (rc, key_list) \<leftarrow> ListJson E key_prefix;
       if rc \<noteq> OK then State_Monad.return rc
       else do {
         gc_flush E key_list;
         (rc, key_list') \<leftarrow> ListJson E key_prefix;
         if rc \<noteq> OK \<and> rc \<noteq> NOT_FOUND then State_Monad.return rc
         else do {
           gc_recycle E key_prefix (key_list @ key_list') (zip ids ts);
           State_Monad.return OK
         }
       }
     }
   }"

text \<open>An upload that finds the write cache full collects the garbage and tries once more.\<close>

definition UpLoad :: "'w genv \<Rightarrow> key \<Rightarrow> nat \<Rightarrow> bytes \<Rightarrow> json_headers \<Rightarrow> ('w, int option) gprog" where
  "UpLoad E key len buf headers = do {
     res \<leftarrow> DoUpLoad E key len buf headers;
     if res \<noteq> Some NO_ENOUGH_DISKSPACE then State_Monad.return res
     else do {
       rc \<leftarrow> PerformGarbageCollection E [];
       if rc \<noteq> 0 then State_Monad.return (Some rc)
       else DoUpLoad E key len buf headers
     }
   }"

definition UpLoadPart ::
    "'w genv \<Rightarrow> key \<Rightarrow> nat \<Rightarrow> nat \<Rightarrow> bytes \<Rightarrow> json_headers \<Rightarrow> json_root \<Rightarrow> ('w, int option \<times> json_root) gprog" where
  "UpLoadPart E key off len buf headers root = do {
     (res, root) \<leftarrow> DoUpLoadPart E key off len buf headers root;
     if res \<noteq> Some NO_ENOUGH_DISKSPACE then State_Monad.return (res, root)
     else do {
       rc \<leftarrow> PerformGarbageCollection E [];
       if rc \<noteq> 0 then State_Monad.return (Some rc, root)
       else DoUpLoadPart E key off len buf headers root
     }
   }"

subsection \<open>What is relied on\<close>

text \<open>
  \<open>records w\<close> is what the metadata servers hold.  A \<^emph>\<open>quiet\<close> call loses nothing the write cache servers
  store and does not touch the records.
\<close>

definition quiet :: "('w \<Rightarrow> int \<Rightarrow> key \<rightharpoonup> bytes) \<Rightarrow> ('w \<Rightarrow> string \<rightharpoonup> json_root) \<Rightarrow> ('w \<Rightarrow> 'a \<times> 'w) \<Rightarrow> bool" where
  "quiet store records f = (\<forall>w a w'. f w = (a, w') \<longrightarrow> kept store w w' \<and> records w' = records w)"

definition quiet_rpc :: "'w genv \<Rightarrow> ('w \<Rightarrow> int \<Rightarrow> key \<rightharpoonup> bytes) \<Rightarrow> ('w \<Rightarrow> string \<rightharpoonup> json_root) \<Rightarrow> bool" where
  "quiet_rpc E store records =
     (quiet store records (w_lrand48 (wld E)) \<and>
      (\<forall>rd c sid k s l. quiet store records (w_rpc_get (wld E) rd c sid k s l)) \<and>
      (\<forall>rd c sid k d. quiet store records (w_rpc_put (wld E) rd c sid k d)) \<and>
      (\<forall>c sid k n m. quiet store records (w_rpc_del_read (wld E) c sid k n m)))"

definition quiet_base :: "'w genv \<Rightarrow> ('w \<Rightarrow> int \<Rightarrow> key \<rightharpoonup> bytes) \<Rightarrow> ('w \<Rightarrow> string \<rightharpoonup> json_root) \<Rightarrow> bool" where
  "quiet_base E store records =
     ((\<forall>k s l b. quiet store records (w_download (wld E) k s l b)) \<and>
      (\<forall>k l b h. quiet store records (w_upload (wld E) k l b h)) \<and>
      (\<forall>k. quiet store records (w_delete (wld E) k)) \<and>
      (\<forall>k l h. quiet store records (w_head (wld E) k l h)))"

text \<open>The metadata servers return what was put, and a get changes nothing.\<close>

definition etcd_laws :: "'w genv \<Rightarrow> ('w \<Rightarrow> int \<Rightarrow> key \<rightharpoonup> bytes) \<Rightarrow> ('w \<Rightarrow> string \<rightharpoonup> json_root) \<Rightarrow> bool" where
  "etcd_laws E store records =
     ((\<forall>p. quiet store records (w_etcd_get (wld E) p)) \<and>
      (\<forall>p w root. records w p = Some root \<longrightarrow> fst (w_etcd_get (wld E) p w) = Inr (Some root)) \<and>
      (\<forall>p root w w'. w_etcd_put (wld E) p root w = (None, w') \<longrightarrow>
         kept store w w' \<and> records w' = (records w)(p \<mapsto> root)))"

text \<open>From state \<open>w0\<close> on nothing was lost, and the records, the metadata cache and the channels are as they were.\<close>

definition calm :: "('w \<Rightarrow> int \<Rightarrow> key \<rightharpoonup> bytes) \<Rightarrow> ('w \<Rightarrow> string \<rightharpoonup> json_root) \<Rightarrow> 'w gstate \<Rightarrow> 'w gstate \<Rightarrow> bool" where
  "calm store records s0 s = (kept store (ext s0) (ext s) \<and> records (ext s) = records (ext s0) \<and>
     meta_cache s = meta_cache s0 \<and> server_map s = server_map s0)"

lemma calm_refl: "calm store records s s"
  by (simp add: calm_def kept_refl)

lemma root_ok_calm:
  "root_ok c (store (ext s)) f root \<Longrightarrow> calm store records s s' \<Longrightarrow> root_ok c (store (ext s')) f root"
  using root_ok_kept [of c store "ext s" f root "ext s'"] by (simp add: calm_def)

lemma calm_inflight [simp]: "calm store records s0 (s\<lparr>inflight := x\<rparr>) = calm store records s0 s"
  by (simp add: calm_def)

lemma keeps_quiet: "quiet store records f \<Longrightarrow> keeps (calm store records s0) (outside f) (\<lambda>_. True)"
  unfolding quiet_def calm_def by (rule keepsI) (auto split: prod.splits intro: kept_trans)

named_theorems calm_intros \<open>programs that leave records, metadata cache and channels alone\<close>

lemma calm_prims [calm_intros]:
  "keeps (calm store records s0) (add_inflight conn n) (\<lambda>_. True)"
  "keeps (calm store records s0) (sub_inflight conn n) (\<lambda>_. True)"
  "keeps (calm store records s0) (GetChannelByServerId conn sid) (\<lambda>_. True)"
  by (simp_all add: add_inflight_def sub_inflight_def GetChannelByServerId_def holds_intros)

lemma keeps_seq: "keeps I m (\<lambda>_. True) \<Longrightarrow> (\<And>a. keeps I (f a) Q) \<Longrightarrow> keeps I (State_Monad.bind m f) Q"
  by (rule keeps_bind)

lemmas calm_steps = keeps_seq keeps_return keeps_if keeps_case_prod keeps_case_option TrueI

lemma calm_rpc [calm_intros]:
  assumes "quiet_rpc E store records"
  shows "keeps (calm store records s0) (GetRpcClient E) (\<lambda>_. True)"
    and "keeps (calm store records s0) (GetEntry E conn rd sid k start len) (\<lambda>_. True)"
    and "keeps (calm store records s0) (PutEntry E conn rd sid k b len) (\<lambda>_. True)"
    and "keeps (calm store records s0) (DeleteEntryFromReadCache E conn sid k n m) (\<lambda>_. True)"
  using assms unfolding GetRpcClient_def GetEntry_def PutEntry_def DeleteEntryFromReadCache_def quiet_rpc_def
  by (intro calm_steps calm_intros keeps_quiet; blast)+

lemma calm_invalidate_servers: 
  "quiet_rpc E store records \<Longrightarrow> keeps (calm store records s0) (invalidate_servers E k n m sids) (\<lambda>_. True)"
  by (induction sids) (simp_all, (rule calm_steps calm_intros | assumption)+)

lemma calm_Invalidate [calm_intros]:
  "quiet_rpc E store records \<Longrightarrow> keeps (calm store records s0) (ReadClient_Invalidate E k n) (\<lambda>_. True)"
  unfolding ReadClient_Invalidate_def Let_def by (intro calm_steps calm_intros calm_invalidate_servers)

lemma calm_put_regions: 
  "quiet_rpc E store records \<Longrightarrow> keeps (calm store records s0) (put_regions E reqs) (\<lambda>_. True)"
  by (induction reqs rule: put_regions.induct) (simp_all, (rule calm_steps calm_intros | assumption)+)

lemma calm_Repl_Put [calm_intros]:
  "quiet_rpc E store records \<Longrightarrow> keeps (calm store records s0) (Repl_Put E k n b h off) (\<lambda>_. True)"
  unfolding Repl_Put_def Let_def by (intro calm_steps calm_intros calm_put_regions)

lemma calm_GetJson [calm_intros]:
  "etcd_laws E store records \<Longrightarrow> keeps (calm store records s0) (GetJson E k) (\<lambda>_. True)"
  unfolding GetJson_def etcd_laws_def by (intro calm_steps calm_intros keeps_quiet) blast

subsection \<open>Uploading and reading back\<close>

lemma GetMetaCacheEntry_run:
  assumes "run_state (GetMetaCacheEntry E key) s = (e, s')"
  shows "meta_cache s' key = Some e" and "ext s' = ext s" and "server_map s' = server_map s"
    and "(case meta_cache s key of None \<Rightarrow> e = new_entry | Some e0 \<Rightarrow> e = e0 \<and> s' = s)"
  using assms by (auto simp: GetMetaCacheEntry_def split: option.splits)

lemma set_entry_run [simp]: "run_state (set_entry key f) s = ((), s\<lparr>meta_cache := (meta_cache s)(key := map_option f (meta_cache s key))\<rparr>)"
  by (simp add: set_entry_def)

lemma remember_run [simp]: "run_state (remember E key f) s =
    ((), if use_meta_cache (gcfg E) then s\<lparr>meta_cache := (meta_cache s)(key := map_option f (meta_cache s key))\<rparr> else s)"
  by (simp add: remember_def)

text \<open>What a successful upload leaves behind.\<close>

definition uploaded :: "'w genv \<Rightarrow> ('w \<Rightarrow> int \<Rightarrow> key \<rightharpoonup> bytes) \<Rightarrow> ('w \<Rightarrow> string \<rightharpoonup> json_root) \<Rightarrow> key \<Rightarrow> bytes \<Rightarrow>
    json_headers \<Rightarrow> json_root \<Rightarrow> 'w gstate \<Rightarrow> bool" where
  "uploaded E store records key data headers root s =
     (root_ok (write_chunk_size (gcfg E)) (store (ext s)) data root \<and> records (ext s) (etcd_path E key) = Some root \<and>
      jreplica root = Repl_GetReplica E key \<and> jsize root = length data \<and> jtype root = ''replication'' \<and>
      jheaders root = headers \<and>
      (\<forall>e. meta_cache s key = Some e \<and> present e \<longrightarrow>
         existed e \<and> write_cached e \<and> msize e = length data \<and> mheaders e = headers \<and> mroot e = root))"

lemma DoUpLoad_OK:
  assumes laws: "write_laws E store" "quiet_rpc E store records" "etcd_laws E store records"
    and c: "0 < write_chunk_size (gcfg E)" and pol: "write_cache_type (policy E) = REPLICATION"
    and run: "run_state (DoUpLoad E key (length data) data headers) s = (Some OK, s')"
  shows "\<exists>root. uploaded E store records key data headers root s'"
proof -
  obtain e s1 where 1: "run_state (GetMetaCacheEntry E key) s = (e, s1)" by force
  let ?f = "\<lambda>e. e\<lparr>present := False, existed := True, msize := length data, mheaders := headers\<rparr>"
  define s2 where "s2 = s1\<lparr>meta_cache := (meta_cache s1)(key := map_option ?f (meta_cache s1 key))\<rparr>"
  obtain inv s3 where 3: "run_state (ReadClient_Invalidate E key (length data)) s2 = (inv, s3)" by force
  obtain st root s4 where 4: "run_state (Repl_Put E key (length data) data headers 0) s3 = ((st, root), s4)"
    by (metis prod.collapse)
  have st: "st = OK" using run 1 3 4 pol by (auto simp: DoUpLoad_def write_put_def s2_def split: if_splits)
  obtain resp w where 5: "w_etcd_put (wld E) (etcd_path E key) root (ext s4) = (resp, w)" by force
  have s': "resp = None \<and> s' = (let s5 = s4\<lparr>ext := w\<rparr> in if use_meta_cache (gcfg E) then s5\<lparr>meta_cache :=
      (meta_cache s5)(key := map_option (\<lambda>e. e\<lparr>mroot := root, write_cached := True, present := True\<rparr>) (meta_cache s5 key))\<rparr> else s5)"
    using run 1 3 4 5 pol st by (auto simp: DoUpLoad_def write_put_def PutJson_def s2_def split: if_splits option.splits)
  have q3: "calm store records s2 s3" using keepsD [OF calm_Invalidate [OF laws(2)] calm_refl 3] by simp
  have q4: "calm store records s3 s4" using keepsD [OF calm_Repl_Put [OF laws(2)] calm_refl 4] by simp
  have e4: "meta_cache s4 key = Some (?f e)"
    using q3 q4 GetMetaCacheEntry_run(1) [OF 1] by (simp add: calm_def s2_def)
  note P = Repl_Put_stores [OF laws(1) c 4 st]
  have R: "kept store (ext s4) w \<and> records w = (records (ext s4))(etcd_path E key \<mapsto> root)"
    using laws(3) 5 s' unfolding etcd_laws_def by iprover
  have "root_ok (write_chunk_size (gcfg E)) (store w) data root"
    by (rule root_ok_kept) (use P R in blast)+
  then show ?thesis using P R s' e4 by (intro exI [of _ root]) (auto simp: uploaded_def Let_def)
qed

lemma UpLoad_OK:
  assumes "run_state (UpLoad E key len data headers) s = (Some OK, s')"
  shows "\<exists>s0. run_state (DoUpLoad E key len data headers) s0 = (Some OK, s')"
  using assms by (auto simp: UpLoad_def split: prod.splits if_splits)

lemma calm_Repl_GetChunkAsync:
  "quiet_rpc E store records \<Longrightarrow> keeps (calm store records s0) (Repl_GetChunkAsync E sid req ik buf) (\<lambda>_. True)"
  unfolding Repl_GetChunkAsync_def by (intro calm_steps calm_intros)

lemma calm_repl_failover:
  "quiet_rpc E store records \<Longrightarrow> keeps (calm store records s0) (repl_failover E root p req sids buf) (\<lambda>_. True)"
proof (induction sids arbitrary: buf)
  case (Cons sid sids)
  show ?case
    unfolding repl_failover.simps by (intro calm_steps calm_Repl_GetChunkAsync Cons)
qed (simp add: keeps_return)

lemma calm_repl_get_chunk:
  "quiet_rpc E store records \<Longrightarrow> keeps (calm store records s0) (repl_get_chunk E root req buf) (\<lambda>_. True)"
  unfolding repl_get_chunk_def Let_def
  by (intro calm_steps calm_Repl_GetChunkAsync calm_repl_failover keeps_quiet) (simp_all add: quiet_rpc_def)

lemma calm_batch_loop:
  assumes "\<And>req b. keeps I (get_chunk req b) (\<lambda>_. True)"
  shows "keeps I (batch_loop limit reset get_chunk reqs aggr pending buf) (\<lambda>_. True)"
proof (induction reqs arbitrary: aggr pending buf)
  case (Cons req reqs)
  show ?case unfolding batch_loop.simps Let_def by (intro calm_steps assms Cons.IH)
qed (simp add: keeps_return)

lemma calm_Repl_Get [calm_intros]:
  "quiet_rpc E store records \<Longrightarrow> keeps (calm store records s0) (Repl_Get E k start len buf root) (\<lambda>_. True)"
  unfolding Repl_Get_def by (cases "Repl_GenerateGetChunkRequestsV2 k start len (write_chunk_size (gcfg E))")
    (simp_all add: keeps_return calm_batch_loop calm_repl_get_chunk del: batch_loop.simps)

text \<open>A read of an uploaded file, whether its metadata is still cached or not.\<close>

lemma DownLoad_uploaded:
  assumes laws: "write_laws E store" "serves E store" "always_answers E" "etcd_laws E store records"
      "quiet_rpc E store records"
    and c: "0 < write_chunk_size (gcfg E)" and pol: "write_cache_type (policy E) = REPLICATION"
    and n: "Repl_GetReplica E key \<noteq> []" and up: "uploaded E store records key data headers root s"
    and sub: "\<forall>conn. set (Repl_GetReplica E key) \<subseteq> server_map s conn"
    and fit: "start + len \<le> length data" "len \<le> length buf"
  shows "\<exists>buf' s'. run_state (DownLoad E key start len buf) s = ((Some OK, buf'), s') \<and>
    length buf' = length buf \<and> (\<forall>i < length buf. buf' ! i = (if i < len then data ! (start + i) else buf ! i)) \<and>
    kept store (ext s) (ext s') \<and> records (ext s') = records (ext s)"
proof -
  let ?P = "\<lambda>buf'. length buf' = length buf \<and> (\<forall>i < length buf. buf' ! i = (if i < len then data ! (start + i) else buf ! i))"
  have U: "root_ok (write_chunk_size (gcfg E)) (store (ext s)) data root" "records (ext s) (etcd_path E key) = Some root"
    "jreplica root = Repl_GetReplica E key" "jsize root = length data" "jtype root = ''replication''"
    and M: "\<And>e. meta_cache s key = Some e \<Longrightarrow> present e \<Longrightarrow> existed e \<and> write_cached e \<and> msize e = length data \<and> mroot e = root"
    using up by (simp_all add: uploaded_def)
  have get: "\<exists>buf' s'. run_state (write_get E key start len buf root) t = ((Some OK, buf'), s') \<and> ?P buf' \<and>
      kept store (ext s) (ext s') \<and> records (ext s') = records (ext s)"
    if t: "kept store (ext s) (ext t)" "records (ext t) = records (ext s)" "server_map t = server_map s" for t
  proof -
    have "\<forall>conn. set (jreplica root) \<subseteq> server_map t conn" "jreplica root \<noteq> []" using sub t(3) n U(3) by simp_all
    from Repl_Get_serves [OF laws(1,2) c this(2) root_ok_kept [OF U(1) t(1)] this(1) laws(3) fit, of key]
    obtain buf' s' where g: "run_state (Repl_Get E key start len buf root) t = ((Some OK, buf'), s')" "?P buf'" by auto
    have "calm store records t s'" using keepsD [OF calm_Repl_Get [OF laws(5)] calm_refl g(1)] by simp
    then show ?thesis using g t kept_trans [OF t(1)] by (auto simp: write_get_def U(5) calm_def)
  qed
  obtain e s1 where 1: "run_state (GetMetaCacheEntry E key) s = (e, s1)" by force
  note G = GetMetaCacheEntry_run [OF 1]
  have k1: "kept store (ext s) (ext s1)" by (simp add: G(2) kept_refl)
  show ?thesis
  proof (cases "present e")
    case True
    then have "meta_cache s key = Some e" using G(4) by (auto simp: new_entry_def split: option.splits)
    then have e: "existed e" "write_cached e" "msize e = length data" "mroot e = root" using M True by auto
    have "run_state (DownLoadFromGlobalCache E key start len buf) s = run_state (write_get E key start len buf root) s1"
      using 1 True e fit pol by (simp add: DownLoadFromGlobalCache_def)
    then show ?thesis using get [OF k1 _ G(3)] G(2) by (auto simp: DownLoad_def)
  next
    case False
    obtain r w where r: "w_etcd_get (wld E) (etcd_path E key) (ext s1) = (r, w)" by force
    have "r = Inr (Some root)" using laws(4) U(2) r G(2) unfolding etcd_laws_def by (metis fst_conv)
    have q: "kept store (ext s1) w" "records w = records (ext s1)" using laws(4) r unfolding etcd_laws_def quiet_def by blast+
    define s2 where "s2 = snd (run_state (remember E key (\<lambda>e. e\<lparr>present := True, existed := True, write_cached := True,
        msize := jsize root, mheaders := mheaders e ++ jheaders root, mroot := root\<rparr>)) (s1\<lparr>ext := w\<rparr>))"
    have s2: "ext s2 = w" "server_map s2 = server_map s" using G(3) by (simp_all add: s2_def)
    have "run_state (DownLoadFromGlobalCache E key start len buf) s = run_state (write_get E key start len buf root) s2"
      using 1 False pol r \<open>r = _\<close> by (simp add: DownLoadFromGlobalCache_def DownLoad_lookup_def GetJson_def s2_def)
    then show ?thesis using get [of s2] s2 q G(2) by (auto simp: DownLoad_def)
  qed
qed

text \<open>
  C1: read your upload.  After an upload of the global adaptor that returned \<^verbatim>\<open>OK\<close> (perhaps after a garbage
  collection), and as long as the servers keep what they store, can be reached and serve it, the record
  of the file stands, and the entry of the metadata cache is the one the upload left or was evicted, a
  download of any range of the file returns \<^verbatim>\<open>OK\<close> with exactly the bytes uploaded in that range.
\<close>

theorem UpLoad_DownLoad_roundtrip:
  assumes "write_laws E store" and "serves E store" and "always_answers E" and "quiet_rpc E store records"
    and "etcd_laws E store records" and "0 < write_chunk_size (gcfg E)" and "write_cache_type (policy E) = REPLICATION"
    and "Repl_GetReplica E key \<noteq> []"
    and "run_state (UpLoad E key (length data) data headers) s = (Some OK, s1)"
    and "kept store (ext s1) (ext s2)" and "records (ext s2) (etcd_path E key) = records (ext s1) (etcd_path E key)"
    and "meta_cache s2 key = meta_cache s1 key \<or> meta_cache s2 key = None"
    and "\<forall>conn. set (Repl_GetReplica E key) \<subseteq> server_map s2 conn"
    and "start + len \<le> length data" and "len \<le> length buf"
  shows "\<exists>buf' s3. run_state (DownLoad E key start len buf) s2 = ((Some OK, buf'), s3) \<and>
    length buf' = length buf \<and> (\<forall>i < length buf. buf' ! i = (if i < len then data ! (start + i) else buf ! i))"
proof -
  obtain s0 where "run_state (DoUpLoad E key (length data) data headers) s0 = (Some OK, s1)" using UpLoad_OK [OF assms(9)] by blast
  from DoUpLoad_OK [OF assms(1,4,5,6,7) this] obtain root where U: "uploaded E store records key data headers root s1" by blast
  then have "root_ok (write_chunk_size (gcfg E)) (store (ext s1)) data root" by (simp add: uploaded_def)
  from root_ok_kept [OF this assms(10)] have "uploaded E store records key data headers root s2"
    using U assms(11,12) by (auto simp: uploaded_def)
  from DownLoad_uploaded [OF assms(1,2,3,5,4,6,7,8) this assms(13,14,15)] show ?thesis by blast
qed

subsection \<open>Deleting\<close>

text \<open>
  Deleting a file whose metadata is cached leaves its record.  When the metadata cache has the entry of
  a file in the write cache, \<^verbatim>\<open>Delete\<close> never asks for its record to be deleted: whatever it returns, the
  record still stands, so that the next \<^verbatim>\<open>Head\<close> finds the deleted file with its old size.
\<close>

theorem Delete_cached_leaves_record:
  assumes "quiet_rpc E store records" and "quiet_base E store records" and "etcd_laws E store records"
    and "write_cache_type (policy E) \<noteq> NOCACHE" and "meta_cache s key = Some e" and "present e"
    and "records (ext s) (etcd_path E key) = Some root"
    and "run_state (Delete E key) s = (res, s')"
  shows "records (ext s') (etcd_path E key) = Some root \<and>
    (\<exists>headers s''. run_state (Head E key 0 Map.empty) s' = ((Some OK, jsize root, headers), s''))"
proof -
  define s1 where "s1 = s\<lparr>meta_cache := (meta_cache s)(key := None)\<rparr>"
  obtain r w where d: "w_delete (wld E) key (ext s) = (r, w)" by force
  obtain inv s3 where i: "run_state (ReadClient_Invalidate E key (msize e)) (s1\<lparr>ext := w\<rparr>) = (inv, s3)" by force
  have "s' = s3" using assms(4-6,8) d i by (auto simp: Delete_def GetMetaCacheEntry_def InvalidateMetaCacheEntry_def s1_def)
  have "records w = records (ext s)" using assms(2) d unfolding quiet_base_def quiet_def by blast
  moreover have q: "calm store records (s1\<lparr>ext := w\<rparr>) s3" using keepsD [OF calm_Invalidate [OF assms(1)] calm_refl i] by simp
  ultimately have R: "records (ext s') (etcd_path E key) = Some root" "meta_cache s' key = None"
    using assms(7) by (simp_all add: \<open>s' = s3\<close> calm_def s1_def)
  obtain e' s4 where 4: "run_state (GetMetaCacheEntry E key) s' = (e', s4)" by force
  have e': "e' = new_entry" "ext s4 = ext s'" using GetMetaCacheEntry_run [OF 4] R(2) by simp_all
  obtain r' w' where g: "w_etcd_get (wld E) (etcd_path E key) (ext s') = (r', w')" by force
  have "r' = Inr (Some root)" using assms(3) R(1) g unfolding etcd_laws_def by (metis fst_conv)
  then show ?thesis
    using R 4 e' g assms(4) by (simp add: Head_def new_entry_def GetJson_def Let_def)
qed

subsection \<open>Flushing to the base adaptor\<close>

text \<open>
  \<open>base w\<close> is what the base adaptor holds: a successful upload stores its bytes, and deleting a record
  does not touch it.
\<close>

definition base_laws :: "'w genv \<Rightarrow> ('w \<Rightarrow> string \<rightharpoonup> json_root) \<Rightarrow> ('w \<Rightarrow> key \<rightharpoonup> bytes) \<Rightarrow> bool" where
  "base_laws E records base =
     ((\<forall>k l b h w w'. w_upload (wld E) k l b h w = (Some OK, w') \<longrightarrow> base w' k = Some (take l b)) \<and>
      (\<forall>p w r w'. w_etcd_rm (wld E) p w = (r, w') \<longrightarrow> base w' = base w \<and> (r = None \<longrightarrow> records w' p = None)))"

lemma upload_law: "base_laws E records base \<Longrightarrow> w_upload (wld E) k l b h w = (Some OK, w') \<Longrightarrow> base w' k = Some (take l b)"
  unfolding base_laws_def by blast

lemma rm_law: "base_laws E records base \<Longrightarrow> w_etcd_rm (wld E) p w = (r, w') \<Longrightarrow>
    base w' = base w \<and> (r = None \<longrightarrow> records w' p = None)"
  unfolding base_laws_def by blast

lemma DeleteJson_ext: "run_state (DeleteJson E key) s = (st, s') \<Longrightarrow>
    \<exists>r. w_etcd_rm (wld E) (etcd_path E key) (ext s) = (r, ext s')"
  by (auto simp: DeleteJson_def split: prod.splits)

lemma uploaded_kept:
  assumes "uploaded E store records key data headers root s" and "kept store (ext s) w" and "records w = records (ext s)"
  shows "uploaded E store records key data headers root (s\<lparr>ext := w\<rparr>)"
proof -
  have "root_ok (write_chunk_size (gcfg E)) (store (ext s)) data root" using assms(1) by (simp add: uploaded_def)
  from root_ok_kept [OF this assms(2)] show ?thesis using assms(1,3) by (simp add: uploaded_def)
qed

lemma GetJson_record:
  assumes "etcd_laws E store records" and "records (ext s) (etcd_path E key) = Some root"
  shows "\<exists>w. run_state (GetJson E key) s = ((OK, root), s\<lparr>ext := w\<rparr>) \<and> kept store (ext s) w \<and> records w = records (ext s)"
proof -
  obtain r w where g: "w_etcd_get (wld E) (etcd_path E key) (ext s) = (r, w)" by force
  have "r = Inr (Some root)" using assms g unfolding etcd_laws_def by (metis fst_conv)
  moreover have "kept store (ext s) w \<and> records w = records (ext s)" using assms(1) g unfolding etcd_laws_def quiet_def by blast
  ultimately show ?thesis using g by (intro exI [of _ w]) (simp add: GetJson_def)
qed

text \<open>
  C3: flushing does not lose data.  However a \<^verbatim>\<open>DeepFlush\<close> of an uploaded file ends, when the servers of its
  replicas can be reached and serve it, afterwards the base adaptor has exactly the bytes of the file or
  the record of the file still stands: the record is given up only after the base adaptor took the file.
\<close>

theorem DeepFlush_saves:
  assumes "write_laws E store" and "serves E store" and "always_answers E" and "etcd_laws E store records"
    and "quiet_rpc E store records" and "quiet_base E store records" and "base_laws E records base"
    and "0 < write_chunk_size (gcfg E)" and "write_cache_type (policy E) = REPLICATION" and "Repl_GetReplica E key \<noteq> []"
    and "\<And>n. length (fresh_bytes E n) = n"
    and up: "uploaded E store records key data headers root s"
    and sub: "\<forall>conn. set (Repl_GetReplica E key) \<subseteq> server_map s conn"
    and run: "run_state (DeepFlush E key) s = (res, s')"
  shows "base (ext s') key = Some data \<or> records (ext s') (etcd_path E key) = Some root"
proof -
  have R: "records (ext s) (etcd_path E key) = Some root" "jsize root = length data" using up by (simp_all add: uploaded_def)
  obtain w where 1: "run_state (GetJson E key) s = ((OK, root), s\<lparr>ext := w\<rparr>)" "kept store (ext s) w" "records w = records (ext s)"
    using GetJson_record [OF assms(4) R(1)] by blast
  have sub1: "\<forall>conn. set (Repl_GetReplica E key) \<subseteq> server_map (s\<lparr>ext := w\<rparr>) conn" using sub by simp
  obtain buf s2 where 2: "run_state (DownLoad E key 0 (length data) (fresh_bytes E (length data))) (s\<lparr>ext := w\<rparr>) = ((Some OK, buf), s2)"
      and b: "length buf = length data" "\<forall>i < length data. buf ! i = data ! i" and r2: "records (ext s2) = records w"
    using DownLoad_uploaded [OF assms(1-5,8-10) uploaded_kept [OF up 1(2,3)] sub1, of 0 "length data" "fresh_bytes E (length data)"]
      assms(11) by auto
  have buf: "buf = data" using b by (simp add: nth_equalityI)
  obtain ur w3 where 3: "w_upload (wld E) key (length data) buf (jheaders root) (ext s2) = (ur, w3)" by force
  have r3: "records w3 = records (ext s2)" using assms(6) 3 unfolding quiet_base_def quiet_def by blast
  show ?thesis
  proof (cases "ur = Some OK")
    case False
    then have "ext s' = w3" using run 1 2 3 assms(9) by (auto simp: DeepFlush_def R(2))
    then show ?thesis using R(1) r3 r2 1(3) by simp
  next
    case True
    have "base w3 key = Some data" using upload_law [OF assms(7)] 3 True buf by fastforce
    moreover have "base (ext s') = base w3"
    proof -
      obtain st where "run_state (DeleteJson E key) (s2\<lparr>ext := w3, meta_cache := (meta_cache s2)(key := None)\<rparr>) = (st, s')"
        using run 1 2 3 True assms(9) by (auto simp: DeepFlush_def R(2) InvalidateMetaCacheEntry_def split: prod.splits)
      from DeleteJson_ext [OF this] show ?thesis using rm_law [OF assms(7)] by fastforce
    qed
    ultimately show ?thesis by simp
  qed
qed

text \<open>
  C19: flushing an unreachable file replaces it by its old version.  \<^verbatim>\<open>DeepFlush\<close> reads the file through
  \<^verbatim>\<open>DownLoad\<close>, which falls back on the base adaptor when the write cache cannot be reached: what the base
  adaptor held before is uploaded as the file, the record of the new version is deleted, and the call
  returns \<^verbatim>\<open>OK\<close>.
\<close>

theorem DeepFlush_unreachable_loses:
  assumes "write_cache_type (policy E) \<noteq> NOCACHE" and "base_laws E records base"
    and "run_state (GetJson E key) s = ((OK, root), s1)"
    and "run_state (DownLoadFromGlobalCache E key 0 (jsize root) (fresh_bytes E (jsize root))) s1 = ((Some RPC_FAILED, buf), s2)"
    and "w_download (wld E) key 0 (jsize root) buf (ext s2) = ((Some OK, old), w3)"
    and "w_upload (wld E) key (jsize root) old (jheaders root) w3 = (Some OK, w4)"
    and "w_etcd_rm (wld E) (etcd_path E key) w4 = (None, w5)"
  shows "\<exists>s'. run_state (DeepFlush E key) s = (Some OK, s') \<and> base (ext s') key = Some (take (jsize root) old) \<and>
    records (ext s') (etcd_path E key) = None"
proof -
  have "run_state (DownLoad E key 0 (jsize root) (fresh_bytes E (jsize root))) s1 = ((Some OK, old), s2\<lparr>ext := w3\<rparr>)"
    using assms(4,5) by (simp add: DownLoad_def)
  then have "run_state (DeepFlush E key) s = (Some OK, s2\<lparr>ext := w5, meta_cache := (meta_cache s2)(key := None)\<rparr>)"
    using assms(1,3,6,7) by (simp add: DeepFlush_def InvalidateMetaCacheEntry_def DeleteJson_def)
  then show ?thesis using upload_law [OF assms(2,6)] rm_law [OF assms(2,7)] by simp
qed

subsection \<open>Collecting garbage\<close>

text \<open>A server asked to delete keeps the names it is told to preserve; other servers are not concerned.\<close>

definition gc_law :: "'w genv \<Rightarrow> ('w \<Rightarrow> int \<Rightarrow> key \<rightharpoonup> bytes) \<Rightarrow> bool" where
  "gc_law E store = (\<forall>c sid p ts ex w r w' sid' k v. w_rpc_del_write (wld E) c sid p ts ex w = (r, w') \<and>
     store w sid' k = Some v \<and> (sid' \<noteq> sid \<or> k \<in> set ex) \<longrightarrow> store w' sid' k = Some v)"

lemma gc_roots_finds:
  assumes "etcd_laws E store records"
  shows "run_state (gc_roots E ks) s = (roots, s') \<Longrightarrow> calm store records s s' \<and>
    (\<forall>key \<in> set ks. \<forall>root. records (ext s) (etcd_path E key) = Some root \<longrightarrow> root \<in> set roots)"
proof (induction ks arbitrary: s roots s')
  case Nil
  then show ?case by (simp add: calm_refl)
next
  case (Cons k ks)
  obtain st r s1 where 1: "run_state (GetJson E k) s = ((st, r), s1)" by (metis prod.collapse)
  obtain rs s2 where 2: "run_state (gc_roots E ks) s1 = (rs, s2)" by force
  have o: "s' = s2" "roots = (if st \<noteq> OK then rs else r # rs)" using Cons.prems 1 2 by auto
  have c1: "calm store records s s1" using keepsD [OF calm_GetJson [OF assms] calm_refl 1] by simp
  note C2 = Cons.IH [OF 2]
  have "calm store records s s2" using c1 C2 by (auto simp: calm_def intro: kept_trans)
  moreover have "root \<in> set roots" if "records (ext s) (etcd_path E k) = Some root" for root
    using GetJson_record [OF assms that] 1 by (auto simp: o(2))
  ultimately show ?case using C2 c1 by (auto simp: o calm_def)
qed

lemma preserved:
  assumes "root \<in> set roots" and "repl_key root cid r = Some ik" and "r < length (jreplica root)"
  shows "ik \<in> set (preserve_chunk_keys roots (jreplica root ! r))"
proof -
  let ?i = "cid * length (jreplica root) + r"
  have "?i < length (jpath root)" "ik = jpath root ! ?i" using assms(2) by (simp_all add: repl_key_def Let_def split: if_splits)
  moreover have "?i mod length (jreplica root) = r" using assms(3) by simp
  ultimately show ?thesis
    using assms(1) by (force simp: preserve_chunk_keys_def)
qed

lemma gc_delete_keeps:
  assumes laws: "quiet_rpc E store records" "gc_law E store" and root: "root \<in> set roots"
  shows "keeps (\<lambda>s. root_ok c (store (ext s)) f root) (gc_delete E p roots servers) (\<lambda>_. True)"
proof (induction servers)
  case (Cons q servers)
  obtain sid st ts where q: "q = (sid, st, ts)" by (cases q)
  have 1: "keeps (\<lambda>s. root_ok c (store (ext s)) f root) (GetRpcClient E) (\<lambda>_. True)"
  proof (rule keepsI)
    fix s a s' assume r: "root_ok c (store (ext s)) f root" and run: "run_state (GetRpcClient E) s = (a, s')"
    have "calm store records s s'" using keepsD [OF calm_rpc(1) [OF laws(1)] calm_refl run] by simp
    then show "root_ok c (store (ext s')) f root \<and> True" using r by (auto intro: root_ok_calm)
  qed
  have ok: "root_ok c (store w') f root"
    if r: "root_ok c (store w) f root" and d: "w_rpc_del_write (wld E) conn sid p ts (preserve_chunk_keys roots sid) w = (a, w')"
    for w w' conn a
    unfolding root_ok_def
  proof (intro allI impI)
    fix cid i assume b: "cid * c < length f \<and> i < length (jreplica root)"
    then obtain ik where ik: "repl_key root cid i = Some ik" "store w (jreplica root ! i) ik = Some (chunk_bytes f cid c)"
      using r unfolding root_ok_def by iprover
    have "jreplica root ! i \<noteq> sid \<or> ik \<in> set (preserve_chunk_keys roots sid)"
      using preserved [OF root ik(1)] b by auto
    then have "store w' (jreplica root ! i) ik = Some (chunk_bytes f cid c)"
      using laws(2) d ik(2) unfolding gc_law_def by iprover
    then show "\<exists>ik. repl_key root cid i = Some ik \<and> store w' (jreplica root ! i) ik = Some (chunk_bytes f cid c)"
      using ik(1) by blast
  qed
  have 2: "keeps (\<lambda>s. root_ok c (store (ext s)) f root)
      (DeleteEntryFromWriteCache E conn sid p ts (preserve_chunk_keys roots sid)) (\<lambda>_. True)" for conn
    by (rule keepsI) (auto simp: DeleteEntryFromWriteCache_def GetChannelByServerId_def split: if_splits prod.splits intro: ok)
  show ?case unfolding q gc_delete.simps by (intro calm_steps 1 2 Cons.IH)
qed (simp add: keeps_return)

text \<open>
  C5: garbage collection keeps every file that has a record.  When the last two stages of the collection
  run, every listed file whose record can be read and whose replicas are all stored still has all its
  replicas stored afterwards, on every server, whatever the time stamps are and whichever servers are
  skipped.
\<close>

theorem gc_recycle_keeps_referenced:
  assumes "quiet_rpc E store records" and "etcd_laws E store records" and "gc_law E store"
    and "key \<in> set key_list" and "records (ext s) (etcd_path E key) = Some root"
    and "root_ok (write_chunk_size (gcfg E)) (store (ext s)) f root"
    and "run_state (gc_recycle E key_prefix key_list servers) s = ((), s')"
  shows "root_ok (write_chunk_size (gcfg E)) (store (ext s')) f root"
proof -
  obtain roots s1 where 1: "run_state (gc_roots E key_list) s = (roots, s1)" by force
  have 2: "run_state (gc_delete E key_prefix roots servers) s1 = ((), s')" using assms(7) 1 by (simp add: gc_recycle_def)
  note F = gc_roots_finds [OF assms(2) 1]
  have "root \<in> set roots" using F assms(4,5) by blast
  note keepsD [OF gc_delete_keeps [OF assms(1,3) this] _ 2]
  moreover have "root_ok (write_chunk_size (gcfg E)) (store (ext s1)) f root"
    by (rule root_ok_calm) (use assms(6) F in blast)+
  ultimately show ?thesis by blast
qed

text \<open>
  A full write cache without any record cannot be collected.  When an upload finds no space and the
  metadata server has no record (what it answers then is \<^verbatim>\<open>NOT_FOUND\<close>), the collection ends before it deletes
  anything, and the upload returns that \<^verbatim>\<open>NOT_FOUND\<close>; its chunks, left by earlier failures, stay.
\<close>

theorem UpLoad_full_without_records:
  assumes "run_state (DoUpLoad E key len buf headers) s = (Some NO_ENOUGH_DISKSPACE, s1)"
    and "run_state (gc_query E (map int [0..<length (server_list E)])) s1 = (ts, s2)" and "\<exists>r \<in> set ts. fst r = OK"
    and "w_etcd_keys (wld E) (etcd_path E []) (ext s2) = (Inl 100, w)"
  shows "run_state (UpLoad E key len buf headers) s = (Some NOT_FOUND, s2\<lparr>ext := w\<rparr>)"
proof -
  have "run_state (PerformGarbageCollection E []) s1 = (NOT_FOUND, s2\<lparr>ext := w\<rparr>)"
    using assms(2,3,4) by (auto simp: PerformGarbageCollection_def ListJson_def Let_def)
  then show ?thesis using assms(1) by (simp add: UpLoad_def)
qed

subsection \<open>The demonstration servers\<close>

lemma demo_laws:
  "quiet_rpc demo_genv dw_write dw_etcd" "quiet_base demo_genv dw_write dw_etcd" "etcd_laws demo_genv dw_write dw_etcd"
  "base_laws demo_genv dw_etcd dw_base" "gc_law demo_genv dw_write"
proof -
  show "quiet_rpc demo_genv dw_write dw_etcd"
    unfolding quiet_rpc_def quiet_def
    by (intro conjI allI impI) (auto simp: kept_def demo_world_def Let_def split: if_splits)
  show "quiet_base demo_genv dw_write dw_etcd"
    unfolding quiet_base_def quiet_def
    by (intro conjI allI impI; auto simp: kept_def demo_world_def split: option.splits if_splits)
  show "etcd_laws demo_genv dw_write dw_etcd"
    by (auto simp: etcd_laws_def quiet_def kept_def demo_world_def)
  show "base_laws demo_genv dw_etcd dw_base" by (auto simp: base_laws_def demo_world_def)
  show "gc_law demo_genv dw_write" by (auto simp: gc_law_def demo_world_def)
qed

lemma demo_ids: "map int [0..<length (server_list demo_genv)] = [0, 1, 2]"
  by (simp add: numeral_3_eq_3)

lemma demo_del_read: "w_rpc_del_read demo_world c sid k n m w = (Some OK, w)"
  by (simp add: demo_world_def)

lemma demo_Invalidate: "server_map s = (\<lambda>c. {0, 1, 2}) \<Longrightarrow> run_state (ReadClient_Invalidate demo_genv k n) s = (OK, s)"
  by (simp add: ReadClient_Invalidate_def demo_ids [simplified] demo_GetRpcClient DeleteEntryFromReadCache_def GetChannelByServerId_def
      demo_del_read Let_def)

lemma demo_upload_run:
  "\<exists>s1. run_state (DoUpLoad demo_genv ''f'' 3 [1, 2, 3] Map.empty) demo_gstate = (Some OK, s1) \<and>
     server_map s1 = (\<lambda>c. {0, 1, 2})"
proof -
  define s0 where "s0 = demo_gstate\<lparr>meta_cache := [''f'' \<mapsto> new_entry\<lparr>present := False, existed := True, msize := 3, mheaders := Map.empty\<rparr>]\<rparr>"
  obtain root s1 where put: "run_state (Repl_Put demo_genv ''f'' 3 [1, 2, 3] Map.empty 0) s0 = ((OK, root), s1)"
      "server_map s1 = server_map s0" using demo_put_run [of s0] by (auto simp: s0_def)
  have "run_state (DoUpLoad demo_genv ''f'' 3 [1, 2, 3] Map.empty) demo_gstate =
      run_state (do { status \<leftarrow> PutJson demo_genv ''f'' root;
         _ \<leftarrow> (if status = OK then remember demo_genv ''f'' (\<lambda>e. e\<lparr>mroot := root, write_cached := True, present := True\<rparr>)
               else State_Monad.return ());
         State_Monad.return (Some status) }) s1"
    using put(1) demo_Invalidate [of s0 "''f''" 3]
    by (simp add: DoUpLoad_def GetMetaCacheEntry_def restrict_map_def s0_def write_put_def del: run_state_bind) simp
  then show ?thesis using put(2) by (simp add: PutJson_def demo_world_def s0_def)
qed

lemma demo_upload_uploaded:
  assumes "run_state (DoUpLoad demo_genv ''f'' 3 [1, 2, 3] Map.empty) demo_gstate = (Some OK, s1)"
  shows "\<exists>root. uploaded demo_genv dw_write dw_etcd ''f'' [1, 2, 3] Map.empty root s1"
  by (rule DoUpLoad_OK [OF demo_write_laws demo_laws(1,3)]) (use assms in \<open>simp_all add: eval_nat_numeral\<close>)

theorem UpLoad_DownLoad_roundtrip_witness:
  "\<exists>s1 s2 buf. run_state (UpLoad demo_genv ''f'' 3 [1, 2, 3] Map.empty) demo_gstate = (Some OK, s1) \<and>
     run_state (DownLoad demo_genv ''f'' 1 2 [0, 0, 9]) s1 = ((Some OK, buf), s2) \<and> buf = [2, 3, 9]"
proof -
  obtain s1 where up: "run_state (DoUpLoad demo_genv ''f'' 3 [1, 2, 3] Map.empty) demo_gstate = (Some OK, s1)"
    and map: "server_map s1 = (\<lambda>c. {0, 1, 2})" using demo_upload_run by blast
  have up': "run_state (UpLoad demo_genv ''f'' 3 [1, 2, 3] Map.empty) demo_gstate = (Some OK, s1)" using up by (simp add: UpLoad_def)
  then have u3: "run_state (UpLoad demo_genv ''f'' (length [1, 2, 3 :: 8 word]) [1, 2, 3] Map.empty) demo_gstate = (Some OK, s1)"
    by (simp add: eval_nat_numeral)
  have sub: "\<forall>conn. set (Repl_GetReplica demo_genv ''f'') \<subseteq> server_map s1 conn" using map by (simp add: demo_write_replica)
  obtain buf s2 where get: "run_state (DownLoad demo_genv ''f'' 1 2 [0, 0, 9]) s1 = ((Some OK, buf), s2)"
      and l: "length buf = length [0, 0, 9 :: 8 word]"
      and b: "\<forall>i < length [0, 0, 9 :: 8 word]. buf ! i = (if i < 2 then [1, 2, 3] ! (1 + i) else [0, 0, 9] ! i)"
    using UpLoad_DownLoad_roundtrip [OF demo_write_laws demo_write_serves demo_always_answers demo_laws(1,3) _ _ _ u3 kept_refl refl
        disjI1 [OF refl] sub, of 1 2 "[0, 0, 9]"] by (auto simp: demo_write_replica)
  have "buf = [2, 3, 9]"
    using l b [THEN spec, of 0] b [THEN spec, of 1] b [THEN spec, of 2] by (auto simp: length_Suc_conv nth_Cons')
  then show ?thesis using up' get by blast
qed

text \<open>A file of two bytes on server 2, with its record and an older version in the base adaptor.\<close>

definition demo_root1 :: json_root where
  "demo_root1 = \<lparr>jtype = ''replication'', jsize = 2, jreplica = [2], jpath = [''a''], jheaders = Map.empty\<rparr>"

definition demo_recorded :: "demo_state gstate" where
  "demo_recorded = demo_failed\<lparr>server_map := (\<lambda>c. {}),
     ext := (ext demo_failed)\<lparr>dw_etcd := [''/m/f'' \<mapsto> demo_root1], dw_base := [''f'' \<mapsto> [7, 7]]\<rparr>\<rparr>"

lemma demo_path: "etcd_path demo_genv ''f'' = ''/m/f''"
  by (simp add: etcd_path_def PathJoin_def)

lemma demo_recorded_simps [simp]:
  "server_map demo_recorded = (\<lambda>c. {})" "meta_cache demo_recorded = Map.empty"
  "dw_etcd (ext demo_recorded) = [''/m/f'' \<mapsto> demo_root1]" "dw_base (ext demo_recorded) = [''f'' \<mapsto> [7, 7]]"
  "dw_write (ext demo_recorded) = dw_write (ext demo_failed)"
  by (simp_all add: demo_recorded_def demo_failed_def)

theorem Delete_cached_leaves_record_witness:
  "\<exists>headers s'. run_state (Head demo_genv ''f'' 0 Map.empty) (snd (run_state (Delete demo_genv ''f'')
     (demo_recorded\<lparr>meta_cache := [''f'' \<mapsto> new_entry\<lparr>present := True, existed := True, write_cached := True, msize := 2, mroot := demo_root1\<rparr>]\<rparr>)))
     = ((Some OK, 2, headers), s')"
proof -
  let ?e = "new_entry\<lparr>present := True, existed := True, write_cached := True, msize := 2, mroot := demo_root1\<rparr>"
  let ?s = "demo_recorded\<lparr>meta_cache := [''f'' \<mapsto> ?e]\<rparr>"
  obtain res s' where run: "run_state (Delete demo_genv ''f'') ?s = (res, s')" by force
  have "dw_etcd (ext ?s) (etcd_path demo_genv ''f'') = Some demo_root1" by (simp add: demo_path)
  from Delete_cached_leaves_record [OF demo_laws(1-3) _ _ _ this run, of ?e]
  show ?thesis by (simp add: run) (simp add: demo_root1_def)
qed

theorem DeepFlush_saves_witness:
  "\<exists>s res s'. run_state (DeepFlush demo_genv ''f'') s = (res, s') \<and> dw_etcd (ext s) ''/m/f'' \<noteq> None \<and>
     (dw_base (ext s') ''f'' = Some [1, 2, 3] \<or> dw_etcd (ext s') ''/m/f'' = dw_etcd (ext s) ''/m/f'')"
proof -
  obtain s where up: "run_state (DoUpLoad demo_genv ''f'' 3 [1, 2, 3] Map.empty) demo_gstate = (Some OK, s)"
    and map: "server_map s = (\<lambda>c. {0, 1, 2})" using demo_upload_run by blast
  obtain root where U: "uploaded demo_genv dw_write dw_etcd ''f'' [1, 2, 3] Map.empty root s"
    using demo_upload_uploaded [OF up] by blast
  have sub: "\<forall>conn. set (Repl_GetReplica demo_genv ''f'') \<subseteq> server_map s conn" using map by (simp add: demo_write_replica)
  obtain res s' where run: "run_state (DeepFlush demo_genv ''f'') s = (res, s')" by force
  have "dw_base (ext s') ''f'' = Some [1, 2, 3] \<or> dw_etcd (ext s') (etcd_path demo_genv ''f'') = Some root"
    using DeepFlush_saves [OF demo_write_laws demo_write_serves demo_always_answers demo_laws(3,1,2,4) _ _ _ _ U sub run]
    by (simp add: demo_write_replica)
  moreover have "dw_etcd (ext s) ''/m/f'' = Some root" using U by (simp add: uploaded_def demo_path)
  ultimately have "dw_etcd (ext s) ''/m/f'' \<noteq> None \<and>
     (dw_base (ext s') ''f'' = Some [1, 2, 3] \<or> dw_etcd (ext s') ''/m/f'' = dw_etcd (ext s) ''/m/f'')" by (simp add: demo_path)
  then show ?thesis using run by blast
qed

lemma demo_requests2: "Repl_GenerateGetChunkRequestsV2 ''f'' 0 2 2 = [\<lparr>user_key = ''f'', internal_key = [], chunk_id = 0,
     chunk_start = 0, chunk_len = 2, chunk_granularity = 2, buffer_off = 0\<rparr>]"
  by (simp add: Repl_GenerateGetChunkRequestsV2_def gen_requests_def Let_def)

theorem DeepFlush_unreachable_loses_witness:
  "\<exists>s'. run_state (DeepFlush demo_genv ''f'') demo_recorded = (Some OK, s') \<and>
     dw_base (ext s') ''f'' = Some [7, 7] \<and> dw_etcd (ext s') ''/m/f'' = None"
proof -
  have 1: "run_state (GetJson demo_genv ''f'') demo_recorded = ((OK, demo_root1), demo_recorded)"
    by (simp add: GetJson_def demo_path)
  have "\<exists>s2. run_state (DownLoadFromGlobalCache demo_genv ''f'' 0 2 [0, 0]) demo_recorded = ((Some RPC_FAILED, [0, 0]), s2) \<and>
      ext s2 = ext demo_recorded"
    by (simp add: DownLoadFromGlobalCache_def GetMetaCacheEntry_def new_entry_def DownLoad_lookup_def GetJson_def demo_path
        write_get_def demo_root1_def Repl_Get_def demo_requests2 repl_get_chunk_def repl_key_def Repl_GetChunkAsync_def
        demo_GetRpcClient GetEntry_def add_inflight_def GetChannelByServerId_def Let_def slice_def blit_def)
  then obtain s2 where 2: "run_state (DownLoadFromGlobalCache demo_genv ''f'' 0 2 [0, 0]) demo_recorded = ((Some RPC_FAILED, [0, 0]), s2)"
      and e: "ext s2 = ext demo_recorded" by blast
  have s: "jsize demo_root1 = 2" "fresh_bytes demo_genv 2 = [0, 0]" "jheaders demo_root1 = Map.empty"
    by (simp_all add: demo_root1_def eval_nat_numeral)
  have 3: "w_download (wld demo_genv) ''f'' 0 2 [0, 0] (ext s2) = ((Some OK, [7, 7]), ext s2)"
    by (simp add: e demo_world_def slice_def blit_def)
  have 4: "w_upload (wld demo_genv) ''f'' 2 [7, 7] Map.empty (ext s2) = (Some OK, (ext s2)\<lparr>dw_base := [''f'' \<mapsto> [7, 7]]\<rparr>)"
    by (simp add: e demo_world_def)
  have 5: "w_etcd_rm (wld demo_genv) (etcd_path demo_genv ''f'') ((ext s2)\<lparr>dw_base := [''f'' \<mapsto> [7, 7]]\<rparr>) =
      (None, (ext s2)\<lparr>dw_base := [''f'' \<mapsto> [7, 7]], dw_etcd := Map.empty\<rparr>)"
    by (simp add: e demo_world_def demo_path)
  have "\<exists>s'. run_state (DeepFlush demo_genv ''f'') demo_recorded = (Some OK, s') \<and>
      dw_base (ext s') ''f'' = Some (take (jsize demo_root1) [7, 7]) \<and> dw_etcd (ext s') (etcd_path demo_genv ''f'') = None"
    by (rule DeepFlush_unreachable_loses [OF _ demo_laws(4) 1 2 [folded s(1,2)] _ _ 5])
       (use 3 4 s in simp_all)
  then show ?thesis by (simp add: s demo_path)
qed

theorem gc_recycle_keeps_referenced_witness:
  "dw_write (ext demo_failed) 2 ''a'' = Some [1, 2] \<and>
   root_ok 2 (dw_write (ext (snd (run_state (gc_recycle demo_genv [] [''f''] [(0, 0, 0), (1, 0, 0), (2, 0, 0)])
     (demo_failed\<lparr>ext := (ext demo_failed)\<lparr>dw_etcd := [''/m/f'' \<mapsto> demo_root]\<rparr>\<rparr>))))) [1, 2, 3, 4] demo_root"
proof -
  let ?s = "demo_failed\<lparr>ext := (ext demo_failed)\<lparr>dw_etcd := [''/m/f'' \<mapsto> demo_root]\<rparr>\<rparr>"
  obtain s' where run: "run_state (gc_recycle demo_genv [] [''f''] [(0, 0, 0), (1, 0, 0), (2, 0, 0)]) ?s = ((), s')"
    by (cases "run_state (gc_recycle demo_genv [] [''f''] [(0, 0, 0), (1, 0, 0), (2, 0, 0)]) ?s") simp
  have r: "dw_etcd (ext ?s) (etcd_path demo_genv ''f'') = Some demo_root" by (simp add: demo_path)
  have ok: "root_ok (write_chunk_size (gcfg demo_genv)) (dw_write (ext ?s)) [1, 2, 3, 4] demo_root" using demo_root_ok by simp
  show ?thesis
    using gc_recycle_keeps_referenced [OF demo_laws(1,3,5) _ r ok run] by (simp add: run) (simp add: demo_failed_def)
qed

text \<open>Servers without space, and a metadata server without records.\<close>

definition demo_full :: "demo_state genv" where
  "demo_full = demo_genv\<lparr>wld := demo_world\<lparr>w_rpc_put := (\<lambda>rd c sid k d w. (Some (NO_ENOUGH_DISKSPACE, []), w)),
     w_etcd_keys := (\<lambda>p w. (Inl 100, w))\<rparr>\<rparr>"

theorem UpLoad_full_without_records_witness:
  "fst (run_state (UpLoad demo_full ''f'' 1 [1] Map.empty) demo_gstate) = Some NOT_FOUND"
proof -
  have w: "w_lrand48 (wld demo_full) w = (0, w)" "rpc_connections (gcfg demo_full) = 1" "write_cache_type (policy demo_full) = REPLICATION"
     "w_rpc_del_read (wld demo_full) c sid k n m w = (Some OK, w)" "w_rpc_put (wld demo_full) rd c sid k d w = (Some (NO_ENOUGH_DISKSPACE, []), w)"
     "map int [0..<length (server_list demo_full)] = [0, 1, 2]" "write_chunk_size (gcfg demo_full) = 2"
     "Repl_GetReplica demo_full k = [1, 2]" "w_rpc_query (wld demo_full) c sid w = (Some (OK, dw_ts w), w)"
     "w_etcd_keys (wld demo_full) p w = (Inl 100, w)" for w c sid k n m d rd p
    using demo_ids demo_write_replica [of k]
    by (simp_all add: demo_full_def policy_def demo_genv_def demo_gcfg_def demo_policy_def demo_world_def Repl_GetReplica_def)
  have g: "run_state (GetRpcClient demo_full) s = (0, s)" for s by (simp add: GetRpcClient_def w)
  have inv: "run_state (ReadClient_Invalidate demo_full k n) s = (OK, s)" if "server_map s = (\<lambda>c. {0, 1, 2})" for k n s
    using that by (simp add: ReadClient_Invalidate_def w(6) g DeleteEntryFromReadCache_def GetChannelByServerId_def w(4) Let_def)
  have "\<exists>s1. run_state (DoUpLoad demo_full ''f'' 1 [1] Map.empty) demo_gstate = (Some NO_ENOUGH_DISKSPACE, s1) \<and>
      server_map s1 = (\<lambda>c. {0, 1, 2})"
    by (simp add: DoUpLoad_def GetMetaCacheEntry_def inv w(3,7,8) write_put_def Repl_Put_def g repl_requests_def chunks_step chunks_done
        PutEntry_def add_inflight_def sub_inflight_def GetChannelByServerId_def w(5) Let_def)
  then obtain s1 where 1: "run_state (DoUpLoad demo_full ''f'' 1 [1] Map.empty) demo_gstate = (Some NO_ENOUGH_DISKSPACE, s1)"
      "server_map s1 = (\<lambda>c. {0, 1, 2})" by blast
  have 2: "run_state (gc_query demo_full (map int [0..<length (server_list demo_full)])) s1 =
      (replicate 3 (OK, dw_ts (ext s1)), s1)"
    using 1(2) by (simp add: w(6,9) g QueryTsFromWriteCache_def GetChannelByServerId_def numeral_3_eq_3)
  from UpLoad_full_without_records [OF 1(1) 2, of "ext s1"] show ?thesis by (simp add: w(10))
qed

end
