(* ===== verification/Multipart.thy ===== *)
theory Multipart
  imports Global_Adaptor
begin

section \<open>Multi-part uploads of the global adaptor\<close>

text \<open>
  \<^verbatim>\<open>HybridCacheAccessor4S3fs::Flush\<close> sends a large file in parts with \<^verbatim>\<open>UpLoadPart\<close> and then calls
  \<^verbatim>\<open>Completed\<close>, which joins the names of the parts into one record.  Here: the parts store exactly what
  one \<^verbatim>\<open>Put\<close> of the whole file would store, and the file can be read back.
\<close>

subsection \<open>Cutting the parts is cutting the file\<close>

lemma chunks_shift: "map (\<lambda>(x, k). (d + x, k)) (chunks c n a) = chunks c (d + n) (d + a)"
proof (induction c n a rule: chunks.induct)
  case (1 c n a)
  show ?case
  proof (cases "a < n \<and> 0 < c")
    case True
    then show ?thesis using "1.IH" [OF True] by (simp add: chunks_step add.assoc)
  next
    case False
    then show ?thesis by (subst (1 2) chunks.simps) simp
  qed
qed

lemma chunks_append:
  "0 < c \<Longrightarrow> a + k * c \<le> len \<Longrightarrow> chunks c len a = chunks c (a + k * c) a @ chunks c len (a + k * c)"
proof (induction k arbitrary: a)
  case 0
  then show ?case by (simp add: chunks_done)
next
  case (Suc k)
  then have "chunks c len (a + c) = chunks c (a + c + k * c) (a + c) @ chunks c len (a + c + k * c)"
    by (intro Suc.IH) (simp_all add: algebra_simps)
  then show ?case using Suc.prems by (simp add: chunks_step algebra_simps)
qed

lemma chunks_refine:
  assumes "0 < c" and "P = m * c" and "0 < m"
  shows "chunks c len a = concat (map (\<lambda>(off, n). map (\<lambda>(x, k). (off + x, k)) (chunks c n 0)) (chunks P len a))"
  using assms
proof (induction P len a rule: chunks.induct)
  case (1 P len a)
  show ?case
  proof (cases "a < len")
    case False
    then show ?thesis by (simp add: chunks_done)
  next
    case less: True
    have P: "0 < P" using 1 by simp
    have "chunks c len a = chunks c (a + min P (len - a)) a @ chunks c len (a + P)"
    proof (cases "a + P \<le> len")
      case True
      moreover have "min P (len - a) = P" using calculation by linarith
      ultimately show ?thesis using chunks_append [of c a m len] 1 by simp
    next
      case False
      then have "min P (len - a) = len - a" by linarith
      then show ?thesis using False less by (simp add: chunks_done)
    qed
    also have "chunks c len (a + P) = concat (map (\<lambda>(off, n). map (\<lambda>(x, k). (off + x, k)) (chunks c n 0)) (chunks P len (a + P)))"
      using less P 1 by (intro "1.IH") simp_all
    finally show ?thesis using less P chunks_shift [of a c "min P (len - a)" 0] by (simp add: chunks_step)
  qed
qed

lemma concat_map_concat: "concat (map f (concat xss)) = concat (map (\<lambda>xs. concat (map f xs)) xss)"
  by (induction xss) simp_all

lemma multipart_whole:
  assumes "0 < wcs" and "part_size = m * wcs" and "0 < m" and "len = length data"
  shows "concat (map (\<lambda>(off, n). repl_requests wcs replicas key off n (slice off n data)) (chunks part_size len 0)) =
    repl_requests wcs replicas key 0 len data"
proof -
  let ?f = "\<lambda>(offset, region_size). map (\<lambda>sid. (sid, chunk_name key (offset div wcs) wcs, slice offset region_size data)) replicas"
  have part: "repl_requests wcs replicas key off n (slice off n data) =
      concat (map ?f (map (\<lambda>(x, k). (off + x, k)) (chunks wcs n 0)))" if "(off, n) \<in> set (chunks part_size len 0)" for off n
  proof -
    have "slice x k (slice off n data) = slice (off + x) k data" if "(x, k) \<in> set (chunks wcs n 0)" for x k
    proof -
      have "min k (n - x) = k" using chunks_within [OF that] by linarith
      then show ?thesis by (simp add: slice_def drop_take add.commute)
    qed
    then show ?thesis unfolding repl_requests_def map_map comp_def
      by (intro arg_cong [where f = concat] map_cong refl) auto
  qed
  have "concat (map (\<lambda>(off, n). repl_requests wcs replicas key off n (slice off n data)) (chunks part_size len 0)) =
      concat (map (\<lambda>(off, n). concat (map ?f (map (\<lambda>(x, k). (off + x, k)) (chunks wcs n 0)))) (chunks part_size len 0))"
    by (intro arg_cong [where f = concat] map_cong refl) (auto simp: part)
  also have "\<dots> = concat (map ?f (chunks wcs len 0))"
    unfolding chunks_refine [OF assms(1-3), of len 0] by (simp add: concat_map_concat comp_def case_prod_unfold)
  finally show ?thesis by (simp add: repl_requests_def)
qed

text \<open>
  C18: a multi-part upload stores what one upload would store.  When the size of a part is a multiple of
  the chunk size of the write cache, the stores of the parts, one part after the other, are the stores of
  the whole file: the same servers in the same order, the same names and the same bytes.
\<close>

theorem multipart_stores_whole:
  assumes "0 < wcs" and "part_size = m * wcs" and "0 < m" and "len = length data"
  shows "concat (map (\<lambda>(off, n). repl_requests wcs replicas key off n (slice off n data)) (chunks part_size len 0)) =
    repl_requests wcs replicas key 0 len data"
  by (rule multipart_whole [OF assms])

theorem multipart_stores_whole_witness:
  "concat (map (\<lambda>(off, n). repl_requests 2 [1, 2] ''f'' off n (slice off n [1, 2, 3, 4, 5])) (chunks 4 5 0)) =
   repl_requests 2 [1, 2] ''f'' 0 5 [1, 2, 3, 4, 5]"
  by (rule multipart_stores_whole [of 2 4 2]) simp_all

subsection \<open>The parts and their completion\<close>

text \<open>The parts of a file, sent one after the other: the result and the record of each.\<close>

fun upload_parts ::
    "'w genv \<Rightarrow> key \<Rightarrow> bytes \<Rightarrow> json_headers \<Rightarrow> (nat \<times> nat) list \<Rightarrow> ('w, (int option \<times> json_root) list) gprog" where
  "upload_parts E key data headers [] = State_Monad.return []"
| "upload_parts E key data headers ((off, n) # parts) = do {
     r \<leftarrow> DoUpLoadPart E key off n (slice off n data) headers empty_root;
     rs \<leftarrow> upload_parts E key data headers parts;
     State_Monad.return (r # rs)
   }"

text \<open>The stores of a list of requests were made under the given names.\<close>

definition stored :: "('w \<Rightarrow> int \<Rightarrow> key \<rightharpoonup> bytes) \<Rightarrow> 'w \<Rightarrow> (int \<times> key \<times> bytes) list \<Rightarrow> string list \<Rightarrow> bool" where
  "stored store w reqs path = list_all2 (\<lambda>(sid, k, d) ik. store w sid ik = Some d) reqs path"

lemma stored_kept: "stored store w reqs path \<Longrightarrow> kept store w w' \<Longrightarrow> stored store w' reqs path"
  unfolding stored_def by (erule list_all2_mono) (auto simp: kept_def)

lemma stored_append: "stored store w r1 p1 \<Longrightarrow> stored store w r2 p2 \<Longrightarrow> stored store w (r1 @ r2) (p1 @ p2)"
  unfolding stored_def by (rule list_all2_appendI)

lemma Repl_Put_stored:
  assumes laws: "write_laws E store"
    and run: "run_state (Repl_Put E key n buf headers off) s = ((OK, root), s')"
  shows "stored store (ext s') (repl_requests (write_chunk_size (gcfg E)) (Repl_GetReplica E key) key off n buf) (jpath root) \<and>
    kept store (ext s) (ext s') \<and> jreplica root = Repl_GetReplica E key \<and> jtype root = ''replication'' \<and> jheaders root = headers"
proof -
  define reqs where "reqs = repl_requests (write_chunk_size (gcfg E)) (Repl_GetReplica E key) key off n buf"
  obtain conn s1 where g: "run_state (GetRpcClient E) s = (conn, s1)" by force
  obtain outs s2 where p: "run_state (put_regions E reqs) s1 = (outs, s2)" by force
  have r: "first_bad outs = OK" "s' = s2" "root = \<lparr>jtype = ''replication'', jsize = n, jreplica = Repl_GetReplica E key,
      jpath = map snd outs, jheaders = headers\<rparr>"
    using run g p by (auto simp: Repl_Put_def Let_def reqs_def split: if_splits)
  note P = put_regions_stores [OF laws p]
  have "stored store (ext s') reqs (jpath root)"
    unfolding stored_def list_all2_conv_all_nth using P r by auto
  then show ?thesis
    using r P kept_trans [OF GetRpcClient_kept [OF laws g]] by (simp add: reqs_def)
qed

lemma stored_root_ok:
  assumes "0 < c" and "stored store w (repl_requests c (jreplica root) key 0 (length data) data) (jpath root)"
  shows "root_ok c (store w) data root"
  unfolding root_ok_def
proof (intro allI impI)
  fix cid r assume b: "cid * c < length data \<and> r < length (jreplica root)"
  let ?reqs = "repl_requests c (jreplica root) key 0 (length data) data" and ?k = "cid * length (jreplica root) + r"
  have q: "?k < length ?reqs" "?reqs ! ?k = (jreplica root ! r, chunk_name key cid c, chunk_bytes data cid c)"
    using repl_requests_nth [OF assms(1), of cid "length data" r "jreplica root" 0 key data] b by (simp_all add: chunk_bytes_def)
  have "?k < length (jpath root)" "store w (jreplica root ! r) (jpath root ! ?k) = Some (chunk_bytes data cid c)"
    using assms(2) q by (auto simp: stored_def list_all2_conv_all_nth split: prod.splits)
  then show "\<exists>ik. repl_key root cid r = Some ik \<and> store w (jreplica root ! r) ik = Some (chunk_bytes data cid c)"
    by (simp add: repl_key_def Let_def)
qed

lemma DoUpLoadPart_stored:
  assumes laws: "write_laws E store" "quiet_rpc E store records" and pol: "write_cache_type (policy E) = REPLICATION"
    and run: "run_state (DoUpLoadPart E key off n buf headers root0) s = ((Some OK, root), s')"
  shows "stored store (ext s') (repl_requests (write_chunk_size (gcfg E)) (Repl_GetReplica E key) key off n buf) (jpath root) \<and>
    kept store (ext s) (ext s') \<and> jreplica root = Repl_GetReplica E key \<and> jtype root = ''replication'' \<and> jheaders root = headers"
proof -
  obtain inv s1 where 1: "run_state (ReadClient_Invalidate E key (off + n)) s = (inv, s1)" by force
  obtain st r s2 where 2: "run_state (Repl_Put E key n buf headers off) s1 = ((st, r), s2)" by (metis prod.collapse)
  have o: "st = OK" "root = r" "s' = s2" using run 1 2 pol by (auto simp: DoUpLoadPart_def write_put_def split: if_splits)
  have k: "kept store (ext s) (ext s1)" using keepsD [OF calm_Invalidate [OF laws(2)] calm_refl 1] by (simp add: calm_def)
  show ?thesis using Repl_Put_stored [OF laws(1) 2 [unfolded o(1)]] kept_trans [OF k] by (simp add: o)
qed

lemma upload_parts_stored:
  assumes laws: "write_laws E store" "quiet_rpc E store records" and pol: "write_cache_type (policy E) = REPLICATION"
  shows "run_state (upload_parts E key data headers parts) s = (outs, s') \<Longrightarrow> (\<forall>r \<in> set outs. fst r = Some OK) \<Longrightarrow>
    stored store (ext s') (concat (map (\<lambda>(off, n). repl_requests (write_chunk_size (gcfg E)) (Repl_GetReplica E key) key off n
        (slice off n data)) parts)) (concat (map (\<lambda>r. jpath (snd r)) outs)) \<and> kept store (ext s) (ext s') \<and> length outs = length parts \<and>
    (\<forall>r \<in> set outs. jreplica (snd r) = Repl_GetReplica E key \<and> jtype (snd r) = ''replication'' \<and> jheaders (snd r) = headers)"
proof (induction parts arbitrary: s outs s')
  case Nil
  then show ?case by (simp add: stored_def kept_refl)
next
  case (Cons p parts)
  obtain off n where p: "p = (off, n)" by (cases p)
  obtain res root s1 where 1: "run_state (DoUpLoadPart E key off n (slice off n data) headers empty_root) s = ((res, root), s1)"
    by (metis prod.collapse)
  obtain rs s2 where 2: "run_state (upload_parts E key data headers parts) s1 = (rs, s2)" by force
  have o: "outs = (res, root) # rs" "s' = s2" using Cons.prems(1) 1 2 by (simp_all add: p)
  have "res = Some OK" using Cons.prems(2) by (simp add: o(1))
  note D = DoUpLoadPart_stored [OF laws pol 1 [unfolded this]]
  note I = Cons.IH [OF 2]
  have ih: "stored store (ext s2) (concat (map (\<lambda>(off, n). repl_requests (write_chunk_size (gcfg E)) (Repl_GetReplica E key) key off n
        (slice off n data)) parts)) (concat (map (\<lambda>r. jpath (snd r)) rs))" "kept store (ext s1) (ext s2)" "length rs = length parts"
    "\<forall>r \<in> set rs. jreplica (snd r) = Repl_GetReplica E key \<and> jtype (snd r) = ''replication'' \<and> jheaders (snd r) = headers"
    using I Cons.prems(2) o(1) by auto
  have "stored store (ext s2) (repl_requests (write_chunk_size (gcfg E)) (Repl_GetReplica E key) key off n (slice off n data)) (jpath root)"
    using stored_kept [OF conjunct1 [OF D] ih(2)] .
  from stored_append [OF this ih(1)] show ?case
    using D ih kept_trans [of store "ext s" "ext s1" "ext s2"] by (simp add: o p)
qed

text \<open>
  C2: a file uploaded in parts can be read back.  When every part of a non-empty file was uploaded with the
  result \<^verbatim>\<open>OK\<close> and \<^verbatim>\<open>Completed\<close> returned \<^verbatim>\<open>OK\<close>, the record it wrote finds every byte: a download of any range
  returns \<^verbatim>\<open>OK\<close> with the bytes of the file, across the borders of the parts.
\<close>

theorem upload_parts_Completed_DownLoad:
  assumes "write_laws E store" and "serves E store" and "always_answers E" and "quiet_rpc E store records"
    and "etcd_laws E store records" and "0 < write_chunk_size (gcfg E)" and "write_cache_type (policy E) = REPLICATION"
    and "Repl_GetReplica E key \<noteq> []" and "part_size = m * write_chunk_size (gcfg E)" and "0 < m" and "data \<noteq> []"
    and "run_state (upload_parts E key data headers (chunks part_size (length data) 0)) s = (outs, s1)"
    and "\<forall>r \<in> set outs. fst r = Some OK"
    and "run_state (Completed E key (map snd outs) (length data)) s1 = (Some OK, s2)"
    and "\<forall>conn. set (Repl_GetReplica E key) \<subseteq> server_map s2 conn"
    and "start + len \<le> length data" and "len \<le> length buf"
  shows "\<exists>buf' s3. run_state (DownLoad E key start len buf) s2 = ((Some OK, buf'), s3) \<and>
    length buf' = length buf \<and> (\<forall>i < length buf. buf' ! i = (if i < len then data ! (start + i) else buf ! i))"
proof -
  let ?c = "write_chunk_size (gcfg E)"
  note S = upload_parts_stored [OF assms(1,4,7,12,13)]
  have "chunks part_size (length data) 0 \<noteq> []" using assms(6,9,10,11) by (simp add: chunks_step)
  then obtain o1 os where outs: "outs = o1 # os" using S by (cases outs) auto
  define root where "root = (snd o1)\<lparr>jpath := concat (map (\<lambda>r. jpath (snd r)) outs), jsize := length data\<rparr>"
  obtain e s3 where 3: "run_state (GetMetaCacheEntry E key) s1 = (e, s3)" by force
  obtain r w where 4: "w_etcd_put (wld E) (etcd_path E key) root (ext s3) = (r, w)" by force
  have o: "r = None" "s2 = s3\<lparr>meta_cache := (meta_cache s3)(key := map_option (\<lambda>e. e\<lparr>present := False\<rparr>) (meta_cache s3 key)), ext := w\<rparr>"
    using assms(14) 3 4 by (auto simp: Completed_def outs root_def PutJson_def comp_def split: option.splits)
  have R: "kept store (ext s3) w \<and> records w = (records (ext s3))(etcd_path E key \<mapsto> root)"
    using assms(5) 4 o(1) unfolding etcd_laws_def by iprover
  have "stored store (ext s1) (repl_requests ?c (jreplica root) key 0 (length data) data) (jpath root)"
    using S multipart_whole [OF assms(6,9,10) refl] by (simp add: root_def outs)
  then have "root_ok ?c (store (ext s1)) data root" by (rule stored_root_ok [OF assms(6)])
  moreover have "kept store (ext s1) (ext s2)" using R GetMetaCacheEntry_run(2) [OF 3] o(2) by simp
  ultimately have "root_ok ?c (store (ext s2)) data root" by (rule root_ok_kept)
  then have "uploaded E store records key data headers root s2"
    using S R by (auto simp: uploaded_def o(2) root_def outs)
  from DownLoad_uploaded [OF assms(1,2,3,5,4,6,7,8) this assms(15,16,17)] show ?thesis by blast
qed

lemma demo_part_requests:
  "repl_requests 2 [1, 2] ''f'' 0 2 [1, 2] = [(1, chunk_name ''f'' 0 2, [1, 2]), (2, chunk_name ''f'' 0 2, [1, 2])]"
  "repl_requests 2 [1, 2] ''f'' 2 (Suc 0) [3] = [(1, chunk_name ''f'' (Suc 0) 2, [3]), (2, chunk_name ''f'' (Suc 0) 2, [3])]"
  by (simp_all add: repl_requests_def slice_def chunks_step chunks_done)

lemma demo_names: "chunk_name ''f'' 0 2 @ x \<noteq> chunk_name ''f'' (Suc 0) 2 @ y" "chunk_name ''f'' (Suc 0) 2 @ y \<noteq> chunk_name ''f'' 0 2 @ x"
  by (simp_all add: chunk_name_def to_string.simps digit_def)

lemma demo_part1:
  assumes "server_map s = (\<lambda>c. {0, 1, 2})" and "dw_write (ext s) = (\<lambda>sid. Map.empty)"
  shows "\<exists>root s1. run_state (DoUpLoadPart demo_genv ''f'' 0 2 [1, 2] Map.empty r0) s = ((Some OK, root), s1) \<and>
    server_map s1 = (\<lambda>c. {0, 1, 2}) \<and> (\<forall>sid y. dw_write (ext s1) sid (chunk_name ''f'' 1 2 @ y) = None)"
  using assms
  by (simp add: DoUpLoadPart_def demo_Invalidate write_put_def Repl_Put_def demo_write_replica demo_GetRpcClient
      demo_part_requests demo_put_region [of _ _ _ "[_, _]", simplified] demo_names Let_def)

lemma demo_part2:
  assumes "server_map s = (\<lambda>c. {0, 1, 2})" and "\<forall>sid y. dw_write (ext s) sid (chunk_name ''f'' 1 2 @ y) = None"
  shows "\<exists>root s1. run_state (DoUpLoadPart demo_genv ''f'' 2 1 [3] Map.empty r0) s = ((Some OK, root), s1) \<and>
    server_map s1 = (\<lambda>c. {0, 1, 2})"
  using assms
  by (simp add: DoUpLoadPart_def demo_Invalidate write_put_def Repl_Put_def demo_write_replica demo_GetRpcClient
      demo_part_requests demo_put_region [of _ _ _ "[_]", simplified] Let_def)

lemma demo_Completed:
  assumes "server_map s = (\<lambda>c. {0, 1, 2})"
  shows "\<exists>s1. run_state (Completed demo_genv ''f'' (r # rs) n) s = (Some OK, s1) \<and> server_map s1 = (\<lambda>c. {0, 1, 2})"
proof -
  obtain e s1 where g: "run_state (GetMetaCacheEntry demo_genv ''f'') s = (e, s1)" by force
  have "server_map s1 = (\<lambda>c. {0, 1, 2})" using GetMetaCacheEntry_run(3) [OF g] assms by simp
  moreover have "w_etcd_put demo_world p r w = (None, w\<lparr>dw_etcd := (dw_etcd w)(p \<mapsto> r)\<rparr>)" for p r w by (simp add: demo_world_def)
  ultimately show ?thesis by (simp add: Completed_def g PutJson_def)
qed

lemma demo_parts_run:
  "\<exists>outs s1 s2. run_state (upload_parts demo_genv ''f'' [1, 2, 3] Map.empty (chunks 2 3 0)) demo_gstate = (outs, s1) \<and>
     (\<forall>r \<in> set outs. fst r = Some OK) \<and>
     run_state (Completed demo_genv ''f'' (map snd outs) 3) s1 = (Some OK, s2) \<and> server_map s2 = (\<lambda>c. {0, 1, 2})"
proof -
  have c: "chunks 2 3 0 = [(0, 2), (2, 1)]" by (simp add: chunks_step chunks_done)
  obtain r1 s1 where 1: "run_state (DoUpLoadPart demo_genv ''f'' 0 2 [1, 2] Map.empty empty_root) demo_gstate = ((Some OK, r1), s1)"
      "server_map s1 = (\<lambda>c. {0, 1, 2})" "\<forall>sid y. dw_write (ext s1) sid (chunk_name ''f'' 1 2 @ y) = None"
    using demo_part1 [OF demo_gstate_simps(1,2)] by blast
  obtain r2 s2 where 2: "run_state (DoUpLoadPart demo_genv ''f'' 2 1 [3] Map.empty empty_root) s1 = ((Some OK, r2), s2)"
      "server_map s2 = (\<lambda>c. {0, 1, 2})" using demo_part2 [OF 1(2,3)] by blast
  obtain s3 where 3: "run_state (Completed demo_genv ''f'' [r1, r2] 3) s2 = (Some OK, s3)" "server_map s3 = (\<lambda>c. {0, 1, 2})"
    using demo_Completed [OF 2(2)] by blast
  have "run_state (upload_parts demo_genv ''f'' [1, 2, 3] Map.empty (chunks 2 3 0)) demo_gstate =
      ([(Some OK, r1), (Some OK, r2)], s2)"
    using 1(1) 2(1) by (simp add: c slice_def)
  then show ?thesis using 3 by (intro exI conjI) auto
qed

theorem upload_parts_Completed_DownLoad_witness:
  "\<exists>outs s1 s2 s3 buf. run_state (upload_parts demo_genv ''f'' [1, 2, 3] Map.empty (chunks 2 3 0)) demo_gstate = (outs, s1) \<and>
     run_state (Completed demo_genv ''f'' (map snd outs) 3) s1 = (Some OK, s2) \<and>
     run_state (DownLoad demo_genv ''f'' 1 2 [0, 0, 9]) s2 = ((Some OK, buf), s3) \<and> buf = [2, 3, 9]"
proof -
  obtain outs s1 s2 where parts: "run_state (upload_parts demo_genv ''f'' [1, 2, 3] Map.empty (chunks 2 3 0)) demo_gstate = (outs, s1)"
      and ok: "\<forall>r \<in> set outs. fst r = Some OK"
      and fin: "run_state (Completed demo_genv ''f'' (map snd outs) 3) s1 = (Some OK, s2)" and map: "server_map s2 = (\<lambda>c. {0, 1, 2})"
    using demo_parts_run by blast
  have l: "length [1, 2, 3 :: 8 word] = 3" by simp
  have sub: "\<forall>conn. set (Repl_GetReplica demo_genv ''f'') \<subseteq> server_map s2 conn" using map by (simp add: demo_write_replica)
  have "\<exists>buf s3. run_state (DownLoad demo_genv ''f'' 1 2 [0, 0, 9]) s2 = ((Some OK, buf), s3) \<and>
      length buf = length [0, 0, 9 :: 8 word] \<and>
      (\<forall>i < length [0, 0, 9 :: 8 word]. buf ! i = (if i < 2 then [1, 2, 3] ! (1 + i) else [0, 0, 9] ! i))"
    by (rule upload_parts_Completed_DownLoad [OF demo_write_laws demo_write_serves demo_always_answers demo_laws(1,3) _ _ _ _ _ _
        parts [folded l] ok fin [folded l] sub, of 1]) (simp_all add: demo_write_replica)
  then obtain buf s3 where get: "run_state (DownLoad demo_genv ''f'' 1 2 [0, 0, 9]) s2 = ((Some OK, buf), s3)"
      and l: "length buf = length [0, 0, 9 :: 8 word]"
      and b: "\<forall>i < length [0, 0, 9 :: 8 word]. buf ! i = (if i < 2 then [1, 2, 3] ! (1 + i) else [0, 0, 9] ! i)" by blast
  have "buf = [2, 3, 9]"
    using l b [THEN spec, of 0] b [THEN spec, of 1] b [THEN spec, of 2] by (auto simp: length_Suc_conv nth_Cons')
  then show ?thesis using parts fin get by blast
qed

end
