(* ===== verification/Write_Servers.thy ===== *)
theory Write_Servers
  imports Config Global_State
begin

section \<open>The engines of a write cache server (\<^verbatim>\<open>global_cache/WriteCache.cpp\<close>)\<close>

text \<open>
  A server stores every put under a fresh name, the key with an object number, and deletes by prefix and
  number.  Numbers, offsets and lengths are 64-bit words.  RocksDB is a parameter: a get, a put, a
  delete and the keys an iterator gives from \<^verbatim>\<open>Seek\<close> on, in order, as they were when it was made.
\<close>

subsection \<open>Names and numbers\<close>

lemma unat_inc: "(a :: 64 word) \<noteq> - 1 \<Longrightarrow> unat (a + 1) = unat a + 1"
  using unatSuc [of a] eq_neg_iff_add_eq_0 [of a 1] by (simp add: add.commute)

lemma unat_max: "unat (- 1 :: 64 word) = 2 ^ 64 - 1"
  by (simp add: unsigned_minus_1_eq_mask mask_eq_exp_minus_1)

lemma unat_less: "unat (w :: 64 word) < 2 ^ 64"
  using unsigned_less [of w, where ?'a = nat] by simp

definition HasPrefix :: "string \<Rightarrow> string \<Rightarrow> bool" where
  "HasPrefix key key_prefix = (take (length key_prefix) key = key_prefix)"

definition last_piece :: "string \<Rightarrow> string" where
  "last_piece key = rev (takeWhile (\<lambda>c. c \<noteq> CHR ''-'') (rev key))"

text \<open>
  \<^verbatim>\<open>istringstream >> number\<close>: nothing but blanks leaves the (uninitialised) number alone, text without a
  number stores 0, a number too large the largest value.
\<close>

definition extract_u64 :: "64 word \<Rightarrow> string \<Rightarrow> 64 word" where
  "extract_u64 uninit s =
     (case dropWhile isspace s of
        [] \<Rightarrow> uninit
      | c # cs \<Rightarrow> (let n = read_nat (if c = CHR ''+'' then cs else c # cs)
                 in if n < 2 ^ 64 then of_nat n else - 1))"

text \<open>
  The test after the extraction looks at \<^verbatim>\<open>std::cin\<close>, which nobody reads, and not at the stream: it never
  fails.
\<close>

definition ParseTS :: "64 word \<Rightarrow> string \<Rightarrow> 64 word" where
  "ParseTS uninit key = (if CHR ''-'' \<in> set key then extract_u64 uninit (last_piece key) else - 1)"

lemma last_piece_join: "CHR ''-'' \<notin> set y \<Longrightarrow> last_piece (x @ CHR ''-'' # y) = y"
  using takeWhile_append2 [of "rev y" "\<lambda>c. c \<noteq> CHR ''-''" "CHR ''-'' # rev x"] by (force simp: last_piece_def)

lemma digit_not_special: "is_digit c \<Longrightarrow> \<not> isspace c \<and> c \<noteq> CHR ''+'' \<and> c \<noteq> CHR ''-''"
  by (auto simp: is_digit_def isspace_def)

definition internal_name :: "key \<Rightarrow> 64 word \<Rightarrow> string" where
  "internal_name key oid = key @ ''-'' @ to_string (unat oid)"

lemma ParseTS_internal_name [simp]: "ParseTS uninit (internal_name key oid) = oid"
proof -
  let ?d = "to_string (unat oid)"
  have d: "CHR ''-'' \<notin> set ?d" using to_string_digits digit_not_special by blast
  obtain c cs where c: "?d = c # cs" by (cases ?d) simp_all
  then have "is_digit c" using to_string_digits [of c "unat oid"] by simp
  with c have "extract_u64 uninit ?d = oid"
    using digit_not_special [of c] unat_less [of oid] read_to_string [of "unat oid"] by (simp add: extract_u64_def)
  then show ?thesis using last_piece_join [OF d, of key] by (simp add: ParseTS_def internal_name_def)
qed

subsection \<open>The interface of an engine\<close>

text \<open>Puts one after the other.\<close>

primrec put_all :: "(key \<Rightarrow> bytes \<Rightarrow> 's \<Rightarrow> (int \<times> string) \<times> 's) \<Rightarrow> (key \<times> bytes) list \<Rightarrow> 's \<Rightarrow> (int \<times> string) list \<times> 's" where
  "put_all eput [] s = ([], s)"
| "put_all eput (kd # kds) s =
     (case eput (fst kd) (snd kd) s of (r, s1) \<Rightarrow> case put_all eput kds s1 of (rs, s2) \<Rightarrow> (r # rs, s2))"

text \<open>
  \<open>entry s\<close> is what is stored, \<open>stamp s\<close> the next object number.  A put that succeeds stores its bytes
  under a new name that is numbered at least \<open>stamp s\<close>, and loses nothing; a delete keeps what is
  excepted, has another prefix or is numbered from the bound on, and removes the rest when it succeeds.
\<close>

locale write_engine =
  fixes inv :: "'s \<Rightarrow> bool"
    and entry :: "'s \<Rightarrow> string \<rightharpoonup> bytes"
    and stamp :: "'s \<Rightarrow> 64 word"
    and num :: "string \<Rightarrow> 64 word"
    and eput :: "key \<Rightarrow> bytes \<Rightarrow> 's \<Rightarrow> (int \<times> string) \<times> 's"
    and edel :: "string \<Rightarrow> 64 word \<Rightarrow> string list \<Rightarrow> 's \<Rightarrow> int \<times> 's"
  assumes put_law: "inv s \<Longrightarrow> stamp s \<noteq> - 1 \<Longrightarrow> eput k d s = ((r, ik), s') \<Longrightarrow>
      inv s' \<and> stamp s' = stamp s + 1 \<and> (\<forall>k' v. entry s k' = Some v \<longrightarrow> entry s' k' = Some v) \<and>
      (r = OK \<longrightarrow> entry s ik = None \<and> entry s' ik = Some d \<and> stamp s \<le> num ik)"
    and del_law: "inv s \<Longrightarrow> edel p ts ex s = (r, s') \<Longrightarrow>
      inv s' \<and> stamp s' = stamp s \<and>
      (\<forall>k v. entry s k = Some v \<and> (k \<in> set ex \<or> \<not> HasPrefix k p \<or> ts \<le> num k) \<longrightarrow> entry s' k = Some v) \<and>
      (r = OK \<longrightarrow> (\<forall>k. HasPrefix k p \<and> num k < ts \<and> k \<notin> set ex \<longrightarrow> entry s' k = None))"
begin

lemma no_wrap: "(a :: 64 word) \<noteq> - 1 \<Longrightarrow> a \<le> a + 1"
  by (simp add: word_le_nat_alt unat_inc)

lemma put_all_spec:
  "inv s \<Longrightarrow> unat (stamp s) + length kds < 2 ^ 64 \<Longrightarrow> put_all eput kds s = (rs, s') \<Longrightarrow>
   inv s' \<and> (\<forall>k v. entry s k = Some v \<longrightarrow> entry s' k = Some v) \<and> length rs = length kds \<and>
   (\<forall>i < length kds. fst (rs ! i) = OK \<longrightarrow> entry s' (snd (rs ! i)) = Some (snd (kds ! i)) \<and> stamp s \<le> num (snd (rs ! i)))"
proof (induction kds arbitrary: s rs s')
  case Nil
  then show ?case by simp
next
  case (Cons kd kds)
  obtain r ik s1 where 1: "eput (fst kd) (snd kd) s = ((r, ik), s1)" by (metis prod.collapse)
  obtain rs1 s2 where 2: "put_all eput kds s1 = (rs1, s2)" by force
  have o: "rs = (r, ik) # rs1" "s' = s2" using Cons.prems(3) 1 2 by simp_all
  have ne: "stamp s \<noteq> - 1"
  proof
    assume "stamp s = - 1"
    then have "unat (stamp s) = 2 ^ 64 - 1" by (simp only: unat_max)
    then show False using Cons.prems(2) by simp
  qed
  note P = put_law [OF Cons.prems(1) ne 1]
  have "unat (stamp s1) = unat (stamp s) + 1" using P unat_inc [OF ne] by simp
  then have "unat (stamp s1) + length kds < 2 ^ 64" using Cons.prems(2) by simp
  note I = Cons.IH [OF conjunct1 [OF P] this 2]
  have le: "stamp s \<le> stamp s1" using no_wrap [OF ne] P by simp
  show ?case
  proof (intro conjI allI impI)
    fix i assume i: "i < length (kd # kds)" and ok: "fst (rs ! i) = OK"
    show "entry s' (snd (rs ! i)) = Some (snd ((kd # kds) ! i))"
      using i ok P I by (cases i) (auto simp: o)
    show "stamp s \<le> num (snd (rs ! i))"
      using i ok P I le by (cases i) (auto simp: o intro: order_trans)
  qed (use P I o in auto)
qed

text \<open>Garbage is collected up to a number that was read before: what is put after that is kept.\<close>

lemma delete_keeps_later_puts:
  assumes "inv s" and "unat (stamp s) + length kds < 2 ^ 64" and "put_all eput kds s = (rs, s1)"
    and "edel p (stamp s) ex s1 = (r, s2)" and "i < length kds" and "fst (rs ! i) = OK"
  shows "entry s2 (snd (rs ! i)) = Some (snd (kds ! i))"
proof -
  note P = put_all_spec [OF assms(1-3)]
  then have "inv s1" by simp
  from del_law [OF this assms(4)] P assms(5,6) show ?thesis by blast
qed

end

subsection \<open>The RocksDB engine\<close>

datatype rk_status = RkOk | RkNotFound | RkError

record 'd rocks =
  rk_get :: "string \<Rightarrow> 'd \<Rightarrow> rk_status \<times> bytes"
  rk_put :: "string \<Rightarrow> bytes \<Rightarrow> 'd \<Rightarrow> rk_status \<times> 'd"
  rk_delete :: "string \<Rightarrow> 'd \<Rightarrow> rk_status \<times> 'd"
  rk_seek :: "string \<Rightarrow> 'd \<Rightarrow> string list"

record 'd rocks_cache =
  next_object_id :: "64 word"
  rocks_db :: 'd

text \<open>A read that leaves the value, which is undefined in the code, is the result \<open>None\<close>.\<close>

definition RocksDB_Get :: "'d rocks \<Rightarrow> string \<Rightarrow> 64 word \<Rightarrow> 64 word \<Rightarrow> 'd rocks_cache \<Rightarrow> (int \<times> bytes) option" where
  "RocksDB_Get rk ikey start len s =
     (case rk_get rk ikey (rocks_db s) of
        (RkNotFound, v) \<Rightarrow> Some (NOT_FOUND, [])
      | (RkError, v) \<Rightarrow> Some (IO_ERROR, [])
      | (RkOk, v) \<Rightarrow>
          if len = 0 \<or> start + len > of_nat (length v) then Some (INVALID_ARGUMENT, [])
          else if unat start + unat len \<le> length v then Some (OK, slice (unat start) (unat len) v)
          else None)"

definition RocksDB_Put :: "'d rocks \<Rightarrow> key \<Rightarrow> bytes \<Rightarrow> 'd rocks_cache \<Rightarrow> (int \<times> string) \<times> 'd rocks_cache" where
  "RocksDB_Put rk key buf s =
     (let oid = next_object_id s;
          s = s\<lparr>next_object_id := oid + 1\<rparr>;
          ikey = internal_name key oid;
          (status, db) = rk_put rk ikey buf (rocks_db s);
          s = s\<lparr>rocks_db := db\<rparr>
      in if status \<noteq> RkOk then ((IO_ERROR, ''<undefined>''), s) else ((OK, ikey), s))"

fun rocks_delete_loop ::
    "'d rocks \<Rightarrow> 64 word \<Rightarrow> string \<Rightarrow> 64 word \<Rightarrow> string list \<Rightarrow> string list \<Rightarrow> 'd \<Rightarrow> int \<times> 'd" where
  "rocks_delete_loop rk uninit key_prefix ts except_keys [] db = (OK, db)"
| "rocks_delete_loop rk uninit key_prefix ts except_keys (key # ks) db =
     (if \<not> HasPrefix key key_prefix then (OK, db)
      else if ParseTS uninit key \<ge> ts \<or> key \<in> set except_keys
      then rocks_delete_loop rk uninit key_prefix ts except_keys ks db
      else (case rk_delete rk key db of (status, db) \<Rightarrow>
              if status = RkError then (IO_ERROR, db)
              else rocks_delete_loop rk uninit key_prefix ts except_keys ks db))"

definition RocksDB_Delete ::
    "'d rocks \<Rightarrow> 64 word \<Rightarrow> string \<Rightarrow> 64 word \<Rightarrow> string list \<Rightarrow> 'd rocks_cache \<Rightarrow> int \<times> 'd rocks_cache" where
  "RocksDB_Delete rk uninit key_prefix ts except_keys s =
     (case rocks_delete_loop rk uninit key_prefix ts except_keys (rk_seek rk key_prefix (rocks_db s)) (rocks_db s) of
        (r, db) \<Rightarrow> (r, s\<lparr>rocks_db := db\<rparr>))"

subsection \<open>Its correctness\<close>

text \<open>
  What RocksDB documents: \<open>content db\<close> is the map of the database; a get reads it, a put and a delete
  change one key or, when they fail, none; an iterator visits the keys from \<^verbatim>\<open>Seek\<close> on in increasing order.
\<close>

definition rk_get_law :: "'d rocks \<Rightarrow> ('d \<Rightarrow> string \<rightharpoonup> bytes) \<Rightarrow> bool" where
  "rk_get_law rk content = (\<forall>k db st v. rk_get rk k db = (st, v) \<longrightarrow>
     (st = RkOk \<longrightarrow> content db k = Some v) \<and> (st = RkNotFound \<longrightarrow> content db k = None))"

definition rk_put_law :: "'d rocks \<Rightarrow> ('d \<Rightarrow> string \<rightharpoonup> bytes) \<Rightarrow> bool" where
  "rk_put_law rk content = (\<forall>k v db st db'. rk_put rk k v db = (st, db') \<longrightarrow>
     content db' = (if st = RkOk then (content db)(k \<mapsto> v) else content db))"

definition rk_delete_law :: "'d rocks \<Rightarrow> ('d \<Rightarrow> string \<rightharpoonup> bytes) \<Rightarrow> bool" where
  "rk_delete_law rk content = (\<forall>k db st db'. rk_delete rk k db = (st, db') \<longrightarrow>
     content db' = (if st = RkError then content db else (content db)(k := None)))"

definition rk_seek_law :: "'d rocks \<Rightarrow> ('d \<Rightarrow> string \<rightharpoonup> bytes) \<Rightarrow> bool" where
  "rk_seek_law rk content = (\<forall>p db. sorted (rk_seek rk p db) \<and> (\<forall>k \<in> set (rk_seek rk p db). p \<le> k) \<and>
     (\<forall>k. content db k \<noteq> None \<and> p \<le> k \<longrightarrow> k \<in> set (rk_seek rk p db)))"

definition rocks_inv :: "'d rocks \<Rightarrow> ('d \<Rightarrow> string \<rightharpoonup> bytes) \<Rightarrow> 64 word \<Rightarrow> 'd rocks_cache \<Rightarrow> bool" where
  "rocks_inv rk content uninit s =
     (rk_get_law rk content \<and> rk_put_law rk content \<and> rk_delete_law rk content \<and> rk_seek_law rk content \<and>
      (\<forall>k. content (rocks_db s) k \<noteq> None \<longrightarrow> ParseTS uninit k < next_object_id s))"

lemma HasPrefix_append: "HasPrefix k p \<longleftrightarrow> (\<exists>x. k = p @ x)"
  by (auto simp: HasPrefix_def) (metis append_take_drop_id)

lemma prefix_le: "HasPrefix k p \<Longrightarrow> p \<le> k"
proof (induction p arbitrary: k)
  case (Cons c p)
  then show ?case by (cases k) (auto simp: HasPrefix_def)
qed simp

text \<open>The keys with a prefix follow each other.\<close>

lemma prefix_contiguous: "p \<le> k' \<Longrightarrow> k' \<le> p @ x \<Longrightarrow> HasPrefix k' (p :: string)"
proof (induction p arbitrary: k')
  case Nil
  then show ?case by (simp add: HasPrefix_def)
next
  case (Cons c p)
  then obtain c' r where "k' = c' # r" by (cases k') auto
  then show ?case using Cons by (auto simp: HasPrefix_def)
qed

lemma delete_loop_keeps:
  assumes "rk_delete_law rk content"
  shows "rocks_delete_loop rk uninit p ts ex ks db = (r, db') \<Longrightarrow>
    (\<forall>k v. content db k = Some v \<and> (k \<in> set ex \<or> \<not> HasPrefix k p \<or> ts \<le> ParseTS uninit k) \<longrightarrow> content db' k = Some v) \<and>
    (\<forall>k. content db k = None \<longrightarrow> content db' k = None)"
proof (induction ks arbitrary: db)
  case Nil
  then show ?case by simp
next
  case (Cons key ks)
  obtain st db1 where 1: "rk_delete rk key db = (st, db1)" by force
  have c: "content db1 = (if st = RkError then content db else (content db)(key := None))"
    using assms 1 unfolding rk_delete_law_def by blast
  show ?case
  proof (cases "HasPrefix key p \<and> \<not> ts \<le> ParseTS uninit key \<and> key \<notin> set ex \<and> st \<noteq> RkError")
    case True
    then have "rocks_delete_loop rk uninit p ts ex ks db1 = (r, db')" using Cons.prems 1 by auto
    note I = Cons.IH [OF this]
    have ne: "k \<noteq> key" if "k \<in> set ex \<or> \<not> HasPrefix k p \<or> ts \<le> ParseTS uninit k" for k using True that by auto
    show ?thesis using I c True ne by (auto dest: ne)
  next
    case False
    then show ?thesis using Cons.prems Cons.IH 1 c by (auto split: if_splits)
  qed
qed

lemma delete_loop_removes:
  assumes "rk_delete_law rk content"
  shows "rocks_delete_loop rk uninit p ts ex ks db = (OK, db') \<Longrightarrow> sorted ks \<Longrightarrow> (\<forall>k \<in> set ks. p \<le> k) \<Longrightarrow>
    k \<in> set ks \<Longrightarrow> HasPrefix k p \<Longrightarrow> ParseTS uninit k < ts \<Longrightarrow> k \<notin> set ex \<Longrightarrow> content db' k = None"
proof (induction ks arbitrary: db)
  case Nil
  then show ?case by simp
next
  case (Cons key ks)
  obtain x where x: "k = p @ x" using Cons.prems(5) by (auto simp: HasPrefix_append)
  have "key \<le> k" using Cons.prems(2,4) by auto
  then have pre: "HasPrefix key p" using prefix_contiguous [of p key x] Cons.prems(3) x by simp
  obtain st db1 where 1: "rk_delete rk key db = (st, db1)" by force
  have c: "content db1 = (if st = RkError then content db else (content db)(key := None))"
    using assms 1 unfolding rk_delete_law_def by blast
  show ?case
  proof (cases "k = key")
    case True
    then have st: "st \<noteq> RkError" and run: "rocks_delete_loop rk uninit p ts ex ks db1 = (OK, db')"
      using Cons.prems pre 1 by (auto simp: not_le split: if_splits)
    have "content db1 k = None" using c st True by simp
    then show ?thesis using delete_loop_keeps [OF assms run] by blast
  next
    case False
    then have "k \<in> set ks" "sorted ks" "\<forall>k \<in> set ks. p \<le> k" using Cons.prems by auto
    then show ?thesis
      using Cons.prems(1,5,6,7) Cons.IH pre 1 by (auto split: if_splits)
  qed
qed

lemma RocksDB_Put_law:
  assumes I: "rocks_inv rk content uninit s" and n: "next_object_id s \<noteq> - 1"
    and run: "RocksDB_Put rk key d s = ((r, ik), s')"
  shows "rocks_inv rk content uninit s' \<and> next_object_id s' = next_object_id s + 1 \<and>
    (\<forall>k' v. content (rocks_db s) k' = Some v \<longrightarrow> content (rocks_db s') k' = Some v) \<and>
    (r = OK \<longrightarrow> content (rocks_db s) ik = None \<and> content (rocks_db s') ik = Some d \<and> next_object_id s \<le> ParseTS uninit ik)"
proof -
  let ?oid = "next_object_id s" and ?ik = "internal_name key (next_object_id s)"
  obtain st db where p: "rk_put rk ?ik d (rocks_db s) = (st, db)" by force
  have s': "s' = s\<lparr>next_object_id := ?oid + 1, rocks_db := db\<rparr>" "(r, ik) = (if st \<noteq> RkOk then (IO_ERROR, ''<undefined>'') else (OK, ?ik))"
    using run p by (auto simp: RocksDB_Put_def Let_def split: if_splits)
  have laws: "rk_get_law rk content" "rk_put_law rk content" "rk_delete_law rk content" "rk_seek_law rk content"
    and old: "\<And>k. content (rocks_db s) k \<noteq> None \<Longrightarrow> ParseTS uninit k < ?oid" using I by (simp_all add: rocks_inv_def)
  have c: "content db = (if st = RkOk then (content (rocks_db s))(?ik \<mapsto> d) else content (rocks_db s))"
    using laws(2) p unfolding rk_put_law_def by blast
  have fresh: "content (rocks_db s) ?ik = None" using old [of ?ik] by fastforce
  have less: "?oid < ?oid + 1" using n by (simp add: word_less_nat_alt unat_inc)
  have "ParseTS uninit k < ?oid + 1" if "content db k \<noteq> None" for k
    using that old [of k] less by (auto simp: c split: if_splits intro: order.strict_trans)
  then have "rocks_inv rk content uninit s'" using laws by (simp add: rocks_inv_def s'(1))
  then show ?thesis using s' c fresh by (auto split: if_splits)
qed

lemma RocksDB_Delete_law:
  assumes I: "rocks_inv rk content uninit s" and run: "RocksDB_Delete rk uninit p ts ex s = (r, s')"
  shows "rocks_inv rk content uninit s' \<and> next_object_id s' = next_object_id s \<and>
    (\<forall>k v. content (rocks_db s) k = Some v \<and> (k \<in> set ex \<or> \<not> HasPrefix k p \<or> ts \<le> ParseTS uninit k) \<longrightarrow>
       content (rocks_db s') k = Some v) \<and>
    (r = OK \<longrightarrow> (\<forall>k. HasPrefix k p \<and> ParseTS uninit k < ts \<and> k \<notin> set ex \<longrightarrow> content (rocks_db s') k = None))"
proof -
  obtain db where d: "rocks_delete_loop rk uninit p ts ex (rk_seek rk p (rocks_db s)) (rocks_db s) = (r, db)"
    "s' = s\<lparr>rocks_db := db\<rparr>" using run by (auto simp: RocksDB_Delete_def split: prod.splits)
  have laws: "rk_get_law rk content" "rk_put_law rk content" "rk_delete_law rk content" "rk_seek_law rk content"
    and old: "\<And>k. content (rocks_db s) k \<noteq> None \<Longrightarrow> ParseTS uninit k < next_object_id s" using I by (simp_all add: rocks_inv_def)
  note K = delete_loop_keeps [OF laws(3) d(1)]
  have "ParseTS uninit k < next_object_id s" if "content db k \<noteq> None" for k using K old [of k] that by fastforce
  then have inv: "rocks_inv rk content uninit s'" using laws by (simp add: rocks_inv_def d(2))
  have seek: "sorted (rk_seek rk p (rocks_db s))" "\<forall>k \<in> set (rk_seek rk p (rocks_db s)). p \<le> k"
    "\<And>k. content (rocks_db s) k \<noteq> None \<Longrightarrow> p \<le> k \<Longrightarrow> k \<in> set (rk_seek rk p (rocks_db s))"
    using laws(4) unfolding rk_seek_law_def by blast+
  have "content db k = None" if "r = OK" "HasPrefix k p" "ParseTS uninit k < ts" "k \<notin> set ex" for k
  proof (cases "content (rocks_db s) k")
    case None
    then show ?thesis using K by blast
  next
    case (Some v)
    then have "k \<in> set (rk_seek rk p (rocks_db s))" using seek(3) prefix_le that(2) by simp
    from delete_loop_removes [OF laws(3) d(1) [unfolded that(1)] seek(1,2) this that(2-4)] show ?thesis .
  qed
  then show ?thesis using inv K by (simp add: d(2))
qed

interpretation rocks: write_engine "rocks_inv rk content uninit" "\<lambda>s. content (rocks_db s)" next_object_id "ParseTS uninit"
  "RocksDB_Put rk" "RocksDB_Delete rk uninit"
  by unfold_locales (rule RocksDB_Put_law RocksDB_Delete_law; assumption)+

subsection \<open>Properties\<close>

text \<open>
  C9: garbage collection does not race with writes.  When the object number is read first, any puts follow
  and then everything under some prefix up to that number is deleted, every put that returned \<^verbatim>\<open>OK\<close>
  is still stored under the name it returned, whatever the prefix, the exceptions and the result of the
  deletion; as long as the numbers do not run out.
\<close>

theorem RocksDB_gc_keeps_later_puts:
  assumes "rocks_inv rk content uninit s" and "unat (next_object_id s) + length kds < 2 ^ 64"
    and "put_all (RocksDB_Put rk) kds s = (rs, s1)"
    and "RocksDB_Delete rk uninit key_prefix (next_object_id s) except_keys s1 = (r, s2)"
    and "i < length kds" and "fst (rs ! i) = OK"
  shows "content (rocks_db s2) (snd (rs ! i)) = Some (snd (kds ! i))"
  by (rule rocks.delete_keeps_later_puts [OF assms])

text \<open>A database that is an association list.\<close>

definition demo_rocks :: "(string \<times> bytes) list rocks" where
  "demo_rocks = \<lparr>rk_get = (\<lambda>k db. case map_of db k of None \<Rightarrow> (RkNotFound, []) | Some v \<Rightarrow> (RkOk, v)),
     rk_put = (\<lambda>k v db. (RkOk, (k, v) # db)),
     rk_delete = (\<lambda>k db. (RkOk, filter (\<lambda>kv. fst kv \<noteq> k) db)),
     rk_seek = (\<lambda>p db. sort (filter (\<lambda>k. p \<le> k) (map fst db)))\<rparr>"

lemma map_of_delete: "map_of (filter (\<lambda>kv. fst kv \<noteq> k) db) = (map_of db)(k := None)"
  by (induction db) auto

lemma demo_rocks_inv: "rocks_inv demo_rocks map_of 0 \<lparr>next_object_id = n, rocks_db = []\<rparr>"
proof -
  have "rk_get_law demo_rocks map_of" by (auto simp: rk_get_law_def demo_rocks_def split: option.splits)
  moreover have "rk_put_law demo_rocks map_of" by (auto simp: rk_put_law_def demo_rocks_def)
  moreover have "rk_delete_law demo_rocks map_of" by (auto simp: rk_delete_law_def demo_rocks_def map_of_delete)
  moreover have "rk_seek_law demo_rocks map_of"
    by (auto simp: rk_seek_law_def demo_rocks_def) (metis domIff dom_map_of_conv_image_fst image_eqI fst_conv option.distinct(1))
  ultimately show ?thesis by (simp add: rocks_inv_def)
qed

theorem RocksDB_gc_keeps_later_puts_witness:
  "\<exists>s1 s2 r. put_all (RocksDB_Put demo_rocks) [(''f'', [1, 2])] \<lparr>next_object_id = 7, rocks_db = []\<rparr> = ([(OK, ''f-7'')], s1) \<and>
     RocksDB_Delete demo_rocks 0 [] 7 [] s1 = (r, s2) \<and> map_of (rocks_db s2) ''f-7'' = Some [1, 2]"
proof -
  let ?s = "\<lparr>next_object_id = 7, rocks_db = []\<rparr> :: (string \<times> bytes) list rocks_cache"
  have "internal_name ''f'' 7 = ''f-7''" by code_simp
  then obtain s1 where 1: "put_all (RocksDB_Put demo_rocks) [(''f'', [1, 2])] ?s = ([(OK, ''f-7'')], s1)"
    by (simp add: RocksDB_Put_def demo_rocks_def Let_def)
  obtain r s2 where 2: "RocksDB_Delete demo_rocks 0 [] (next_object_id ?s) [] s1 = (r, s2)" by force
  have "map_of (rocks_db s2) (snd ([(OK, ''f-7'')] ! 0)) = Some (snd ([(''f'', [1, 2])] ! 0))"
    by (rule RocksDB_gc_keeps_later_puts [OF demo_rocks_inv _ 1 2]) simp_all
  then show ?thesis using 1 2 by auto
qed

text \<open>
  When a RocksDB read leaves the value.  The bounds check adds two 64-bit numbers: for a value of fewer
  than \<open>2 ^ 64\<close> bytes the read leaves the value exactly when the length is not zero and the sum of offset
  and length wraps around to a number that is not above the size of the value.
\<close>

theorem RocksDB_Get_out_of_bounds:
  assumes "rk_get rk ikey (rocks_db s) = (RkOk, v)" and "length v < 2 ^ 64"
  shows "RocksDB_Get rk ikey start len s = None \<longleftrightarrow>
    len \<noteq> 0 \<and> 2 ^ 64 \<le> unat start + unat len \<and> unat start + unat len - 2 ^ 64 \<le> length v"
proof -
  have v: "unat (of_nat (length v) :: 64 word) = length v" using assms(2) by (simp add: unat_of_nat take_bit_nat_eq_self)
  have lt: "unat start < 2 ^ 64" "unat len < 2 ^ 64" by (rule unat_less)+
  have "unat (start + len) = (unat start + unat len) mod 2 ^ 64" by (simp add: unat_word_ariths)
  also have "\<dots> = (if unat start + unat len < 2 ^ 64 then unat start + unat len else unat start + unat len - 2 ^ 64)"
    using lt by (simp add: mod_if)
  finally have sum: "unat (start + len) = \<dots>" .
  show ?thesis
    using assms lt by (auto simp: RocksDB_Get_def word_less_nat_alt v sum split: if_splits)
qed

theorem RocksDB_Get_out_of_bounds_witness:
  "RocksDB_Get demo_rocks ''k'' (- 1) 2 \<lparr>next_object_id = 0, rocks_db = [(''k'', [1, 2, 3])]\<rparr> = None"
  using RocksDB_Get_out_of_bounds [of demo_rocks "''k''" "\<lparr>next_object_id = 0, rocks_db = [(''k'', [1, 2, 3])]\<rparr>" "[1, 2, 3]" "- 1" 2]
  by (simp add: demo_rocks_def unat_max)

text \<open>
  A name whose last piece is not a number is meant to be kept by the deletion (\<^verbatim>\<open>UINT64_MAX\<close>), but counts as
  number 0.
\<close>

lemma ParseTS_not_a_number: "\<not> isspace c \<Longrightarrow> \<not> is_digit c \<Longrightarrow> c \<noteq> CHR ''+'' \<Longrightarrow> CHR ''-'' \<notin> set (c # cs) \<Longrightarrow>
    ParseTS uninit (key @ CHR ''-'' # c # cs) = 0"
  using last_piece_join [of "c # cs" key] by (simp add: ParseTS_def extract_u64_def read_nat_def)

end
