(* ===== verification/File_Adaptor.thy ===== *)
theory File_Adaptor
  imports Write_Servers
begin

section \<open>Files as a data source (\<^verbatim>\<open>global_cache/FileSystemDataAdaptor.h\<close>) and the disk engines\<close>

text \<open>
  The system calls are a parameter: \<^verbatim>\<open>access\<close>, \<^verbatim>\<open>open\<close>, \<^verbatim>\<open>pread\<close>, \<^verbatim>\<open>pwrite\<close>, \<^verbatim>\<open>ftruncate64\<close>, \<^verbatim>\<open>fsync\<close>, \<^verbatim>\<open>close\<close>,
  \<^verbatim>\<open>remove\<close>, \<^verbatim>\<open>stat\<close> and \<^verbatim>\<open>create_directories\<close> on a state \<open>'f\<close>.  A call that fails gives its \<^verbatim>\<open>errno\<close>.  The loops
  that retry on \<^verbatim>\<open>EAGAIN\<close> may run forever, so they and what uses them give an option: \<open>None\<close> is not returning.
\<close>

subsection \<open>System calls\<close>

abbreviation EAGAIN :: int where "EAGAIN \<equiv> 11"
abbreviation ENOENT :: int where "ENOENT \<equiv> 2"
abbreviation BAD_READ :: int where "BAD_READ \<equiv> -1000"

record 'f posix =
  px_access :: "string \<Rightarrow> 'f \<Rightarrow> int"
  px_open :: "bool \<Rightarrow> string \<Rightarrow> 'f \<Rightarrow> int option \<times> 'f"
  px_pread :: "int \<Rightarrow> nat \<Rightarrow> nat \<Rightarrow> 'f \<Rightarrow> (int + bytes) \<times> 'f"
  px_pwrite :: "int \<Rightarrow> bytes \<Rightarrow> nat \<Rightarrow> 'f \<Rightarrow> (int + nat) \<times> 'f"
  px_ftruncate :: "int \<Rightarrow> nat \<Rightarrow> 'f \<Rightarrow> bool \<times> 'f"
  px_fsync :: "int \<Rightarrow> 'f \<Rightarrow> bool \<times> 'f"
  px_close :: "int \<Rightarrow> 'f \<Rightarrow> 'f"
  px_remove :: "string \<Rightarrow> 'f \<Rightarrow> int \<times> 'f"
  px_stat :: "string \<Rightarrow> 'f \<Rightarrow> nat option"
  px_mkdirs :: "string \<Rightarrow> 'f \<Rightarrow> 'f"

text \<open>The base adaptor is an abstract class; its four operations are a parameter.\<close>

record 'f base_adaptor =
  b_download :: "key \<Rightarrow> nat \<Rightarrow> nat \<Rightarrow> bytes \<Rightarrow> 'f \<Rightarrow> (int \<times> bytes) \<times> 'f"
  b_upload :: "key \<Rightarrow> nat \<Rightarrow> bytes \<Rightarrow> json_headers \<Rightarrow> 'f \<Rightarrow> int \<times> 'f"
  b_delete :: "key \<Rightarrow> 'f \<Rightarrow> int \<times> 'f"
  b_head :: "key \<Rightarrow> 'f \<Rightarrow> (int \<times> nat \<times> json_headers) \<times> 'f"

subsection \<open>Reading and writing in full\<close>

partial_function (option) fully_pread ::
    "'f posix \<Rightarrow> int \<Rightarrow> nat \<Rightarrow> nat \<Rightarrow> nat \<Rightarrow> bytes \<Rightarrow> 'f \<Rightarrow> ((int \<times> bytes) \<times> 'f) option" where
  "fully_pread px fd n total_read offset buf s =
     (if total_read < n
      then (case px_pread px fd (n - total_read) offset s of
          (Inl errno, s) \<Rightarrow>
            if errno = EAGAIN then fully_pread px fd n total_read offset buf s else Some ((- 1, buf), s)
        | (Inr dat, s) \<Rightarrow>
            if dat = [] then Some ((int total_read, buf), s)
            else fully_pread px fd n (total_read + length dat) (offset + length dat) (blit buf total_read dat) s)
      else Some ((int total_read, buf), s))"

partial_function (option) fully_pwrite ::
    "'f posix \<Rightarrow> int \<Rightarrow> bytes \<Rightarrow> nat \<Rightarrow> nat \<Rightarrow> nat \<Rightarrow> 'f \<Rightarrow> (int \<times> 'f) option" where
  "fully_pwrite px fd buf n total_written offset s =
     (if total_written < n
      then (case px_pwrite px fd (slice total_written (n - total_written) buf) offset s of
          (Inl errno, s) \<Rightarrow>
            if errno = EAGAIN then fully_pwrite px fd buf n total_written offset s else Some (- 1, s)
        | (Inr k, s) \<Rightarrow>
            if k = 0 then Some (int total_written, s)
            else fully_pwrite px fd buf n (total_written + k) (offset + k) s)
      else Some (int total_written, s))"

subsection \<open>The adaptor\<close>

record 'f fs_adaptor =
  fs_prefix :: string
  fs_base :: "'f base_adaptor option"
  use_optimized_path :: bool
  fsync_required :: bool
  fs_hash :: "string \<Rightarrow> 64 word"
  fs_fresh :: "nat \<Rightarrow> bytes"

definition BuildPath :: "'f fs_adaptor \<Rightarrow> string \<Rightarrow> key \<Rightarrow> string" where
  "BuildPath A prefix key =
     (if use_optimized_path A
      then (let h1 = unat (fs_hash A key)
            in PathJoin prefix (to_string (h1 mod 256) @ ''/'' @ to_string (h1 mod 65536) @ ''/'' @ key))
      else PathJoin prefix key)"

definition CreateParentDirectories :: "'f posix \<Rightarrow> string \<Rightarrow> 'f \<Rightarrow> 'f" where
  "CreateParentDirectories px path s =
     (if CHR ''/'' \<in> set path then px_mkdirs px (rev (tl (dropWhile (\<lambda>c. c \<noteq> CHR ''/'') (rev path)))) s else s)"

text \<open>A copy out of the downloaded file that leaves it is the status \<open>BAD_READ\<close>, which no code returns.\<close>

definition FS_DownLoad ::
    "'f posix \<Rightarrow> 'f fs_adaptor \<Rightarrow> key \<Rightarrow> nat \<Rightarrow> nat \<Rightarrow> bytes \<Rightarrow> 'f \<Rightarrow> ((int \<times> bytes) \<times> 'f) option" where
  "FS_DownLoad px A key start len buf s =
     (if length buf < len then Some ((INVALID_ARGUMENT, buf), s)
      else let path = BuildPath A (fs_prefix A) key; errno = px_access px path s
      in if errno \<noteq> 0
         then (case fs_base A of
             Some b \<Rightarrow>
               (case b_head b key s of ((rc, full_size, headers), s) \<Rightarrow>
                  if rc \<noteq> 0 then Some ((IO_ERROR, buf), s)
                  else (case b_download b key 0 full_size (fs_fresh A full_size) s of ((rc, tmp), s) \<Rightarrow>
                     if rc \<noteq> 0 then Some ((IO_ERROR, buf), s)
                     else if start + len \<le> length tmp then Some ((OK, blit buf 0 (slice start len tmp)), s)
                     else Some ((BAD_READ, buf), s)))
           | None \<Rightarrow> Some ((if errno = ENOENT then NOT_FOUND else IO_ERROR, buf), s))
         else (case px_open px False path s of
             (None, s) \<Rightarrow> Some ((IO_ERROR, buf), s)
           | (Some fd, s) \<Rightarrow>
               (case fully_pread px fd len 0 start buf s of
                  None \<Rightarrow> None
                | Some ((nbytes, buf), s) \<Rightarrow>
                    Some ((if nbytes \<noteq> int len then IO_ERROR else OK, buf), px_close px fd s))))"

definition FS_UpLoad ::
    "'f posix \<Rightarrow> 'f fs_adaptor \<Rightarrow> key \<Rightarrow> nat \<Rightarrow> bytes \<Rightarrow> json_headers \<Rightarrow> 'f \<Rightarrow> (int \<times> 'f) option" where
  "FS_UpLoad px A key len buf headers s =
     (if length buf < len then Some (INVALID_ARGUMENT, s)
      else let path = BuildPath A (fs_prefix A) key; s = CreateParentDirectories px path s
      in (case px_open px True path s of
            (None, s) \<Rightarrow> Some (IO_ERROR, s)
          | (Some fd, s) \<Rightarrow>
              (case fully_pwrite px fd buf len 0 0 s of
                 None \<Rightarrow> None
               | Some (nbytes, s) \<Rightarrow>
                   if nbytes \<noteq> int len then Some (IO_ERROR, px_close px fd s)
                   else (case px_ftruncate px fd len s of (ok, s) \<Rightarrow>
                     if \<not> ok then Some (IO_ERROR, px_close px fd s)
                     else (case (if fsync_required A then px_fsync px fd s else (True, s)) of (ok, s) \<Rightarrow>
                       if \<not> ok then Some (IO_ERROR, px_close px fd s)
                       else (let s = px_close px fd s
                             in (case fs_base A of
                                   Some b \<Rightarrow> Some (b_upload b key len buf headers s)
                                 | None \<Rightarrow> Some (OK, s))))))))"

definition FS_Delete :: "'f posix \<Rightarrow> 'f fs_adaptor \<Rightarrow> key \<Rightarrow> 'f \<Rightarrow> int \<times> 'f" where
  "FS_Delete px A key s =
     (case px_remove px (BuildPath A (fs_prefix A) key) s of (errno, s) \<Rightarrow>
        if errno \<noteq> 0 then (if errno = ENOENT then NOT_FOUND else IO_ERROR, s)
        else (case fs_base A of Some b \<Rightarrow> b_delete b key s | None \<Rightarrow> (OK, s)))"

text \<open>The size is left alone when the file cannot be found, and the headers are never set without a base.\<close>

definition FS_Head :: "'f posix \<Rightarrow> 'f fs_adaptor \<Rightarrow> key \<Rightarrow> nat \<Rightarrow> json_headers \<Rightarrow> 'f \<Rightarrow> (int \<times> nat \<times> json_headers) \<times> 'f" where
  "FS_Head px A key size0 headers0 s =
     (case fs_base A of
        Some b \<Rightarrow> b_head b key s
      | None \<Rightarrow>
          (let path = BuildPath A (fs_prefix A) key; errno = px_access px path s
           in if errno \<noteq> 0 then ((if errno = ENOENT then NOT_FOUND else IO_ERROR, size0, headers0), s)
              else (case px_stat px path s of
                  None \<Rightarrow> ((IO_ERROR, size0, headers0), s)
                | Some n \<Rightarrow> ((OK, n, headers0), s))))"

subsection \<open>The disk engine of the write cache (\<^verbatim>\<open>WriteCache4Disk\<close>)\<close>

record 'f disk_cache =
  disk_next_object_id :: "64 word"
  disk_fs :: 'f

definition kMinDiskFreeSpace :: "64 word" where
  "kMinDiskFreeSpace = 1024 * 1024 * 512"

definition Disk_Get :: "'f posix \<Rightarrow> 'f fs_adaptor \<Rightarrow> string \<Rightarrow> nat \<Rightarrow> nat \<Rightarrow> 'f disk_cache \<Rightarrow> ((int \<times> bytes) \<times> 'f disk_cache) option" where
  "Disk_Get px A ikey start len s =
     (case FS_DownLoad px A ikey start len (fs_fresh A len) (disk_fs s) of
        None \<Rightarrow> None
      | Some ((res, buf), f) \<Rightarrow> Some ((res, if res = OK then buf else []), s\<lparr>disk_fs := f\<rparr>))"

text \<open>\<open>avail\<close> is \<^verbatim>\<open>ReportAvailableDiskSpace\<close>: the product of two fields of \<^verbatim>\<open>statvfs\<close>, 0 when it fails.\<close>

definition Disk_Put ::
    "'f posix \<Rightarrow> 'f fs_adaptor \<Rightarrow> ('f \<Rightarrow> 64 word) \<Rightarrow> key \<Rightarrow> 64 word \<Rightarrow> bytes \<Rightarrow> 'f disk_cache \<Rightarrow>
     ((int \<times> string) \<times> 'f disk_cache) option" where
  "Disk_Put px A avail key len buf s =
     (let oid = disk_next_object_id s;
          s = s\<lparr>disk_next_object_id := oid + 1\<rparr>;
          ikey = internal_name key oid
      in if avail (disk_fs s) < max len kMinDiskFreeSpace then Some ((NO_ENOUGH_DISKSPACE, ''<undefined>''), s)
         else (case FS_UpLoad px A ikey (unat len) buf Map.empty (disk_fs s) of
            None \<Rightarrow> None
          | Some (res, f) \<Rightarrow>
              (let s = s\<lparr>disk_fs := f\<rparr>
               in if res \<noteq> 0 then Some ((IO_ERROR, ''<undefined>''), s) else Some ((OK, ikey), s))))"

text \<open>
  The directory below the cache directory, in the order \<^verbatim>\<open>readdir\<close> gives it (without \<^verbatim>\<open>.\<close> and \<^verbatim>\<open>..\<close>): a
  directory that cannot be opened is one without entries; \<open>Skipped\<close> is neither file nor directory.
\<close>

datatype dir_entry = Reg string | Sub string "dir_entry list" | Skipped string

definition disk_key :: "string \<Rightarrow> string \<Rightarrow> string" where
  "disk_key rootPath fullPath =
     (let key = drop (length rootPath) fullPath
      in if key \<noteq> [] \<and> hd key = CHR ''/'' then tl key else key)"

fun listFilesRecursively ::
    "64 word \<Rightarrow> string \<Rightarrow> string \<Rightarrow> 64 word \<Rightarrow> string list \<Rightarrow> string \<Rightarrow> dir_entry list \<Rightarrow> string list" where
  "listFilesRecursively uninit rootPath key_prefix ts except_keys directoryPath [] = []"
| "listFilesRecursively uninit rootPath key_prefix ts except_keys directoryPath (Reg name # es) =
     (let fullPath = PathJoin directoryPath name;
          key = disk_key rootPath fullPath;
          rest = listFilesRecursively uninit rootPath key_prefix ts except_keys directoryPath es
      in if \<not> HasPrefix key key_prefix \<or> key \<in> set except_keys \<or> ParseTS uninit key \<ge> ts then rest
         else fullPath # rest)"
| "listFilesRecursively uninit rootPath key_prefix ts except_keys directoryPath (Sub name ds # es) =
     listFilesRecursively uninit rootPath key_prefix ts except_keys (PathJoin directoryPath name) ds @
     listFilesRecursively uninit rootPath key_prefix ts except_keys directoryPath es"
| "listFilesRecursively uninit rootPath key_prefix ts except_keys directoryPath (Skipped name # es) =
     listFilesRecursively uninit rootPath key_prefix ts except_keys directoryPath es"

fun remove_all :: "'f posix \<Rightarrow> string list \<Rightarrow> 'f \<Rightarrow> int \<times> 'f" where
  "remove_all px [] s = (OK, s)"
| "remove_all px (path # paths) s =
     (case px_remove px path s of (errno, s) \<Rightarrow> if errno \<noteq> 0 then (IO_ERROR, s) else remove_all px paths s)"

definition Disk_Delete ::
    "'f posix \<Rightarrow> ('f \<Rightarrow> dir_entry list) \<Rightarrow> string \<Rightarrow> 64 word \<Rightarrow> string \<Rightarrow> 64 word \<Rightarrow> string list \<Rightarrow> 'f disk_cache \<Rightarrow>
     int \<times> 'f disk_cache" where
  "Disk_Delete px dir_tree write_cache_dir uninit key_prefix ts except_keys s =
     (case remove_all px (listFilesRecursively uninit write_cache_dir key_prefix ts except_keys write_cache_dir
          (dir_tree (disk_fs s))) (disk_fs s) of (r, f) \<Rightarrow> (r, s\<lparr>disk_fs := f\<rparr>))"

subsection \<open>What the system calls promise\<close>

text \<open>
  \<open>files s\<close> maps paths to contents, \<open>fdp s\<close> descriptors to paths, and \<open>again s\<close> is how often calls will
  still answer \<^verbatim>\<open>EAGAIN\<close>, which ends some time.  A read gives a part of the file from the offset on, empty
  only at its end; a write puts a part of its bytes at the offset.
\<close>

definition overwrite :: "bytes \<Rightarrow> nat \<Rightarrow> bytes \<Rightarrow> bytes" where
  "overwrite d off x = take off (d @ replicate (off - length d) 0) @ x @ drop (off + length x) d"

definition pread_law :: "'f posix \<Rightarrow> ('f \<Rightarrow> string \<rightharpoonup> bytes) \<Rightarrow> ('f \<Rightarrow> int \<rightharpoonup> string) \<Rightarrow> ('f \<Rightarrow> nat) \<Rightarrow> bool" where
  "pread_law px files fdp again = (\<forall>fd n off s r s' p d. px_pread px fd n off s = (r, s') \<and> 0 < n \<and>
     fdp s fd = Some p \<and> files s p = Some d \<longrightarrow> files s' = files s \<and> fdp s' = fdp s \<and>
     (case r of Inl e \<Rightarrow> e = EAGAIN \<longrightarrow> again s' < again s
      | Inr x \<Rightarrow> again s' \<le> again s \<and> length x \<le> n \<and> (if x = [] then length d \<le> off
                 else off + length x \<le> length d \<and> x = slice off (length x) d)))"

definition pwrite_law :: "'f posix \<Rightarrow> ('f \<Rightarrow> string \<rightharpoonup> bytes) \<Rightarrow> ('f \<Rightarrow> int \<rightharpoonup> string) \<Rightarrow> ('f \<Rightarrow> nat) \<Rightarrow> bool" where
  "pwrite_law px files fdp again = (\<forall>fd x off s r s' p d. px_pwrite px fd x off s = (r, s') \<and> x \<noteq> [] \<and>
     fdp s fd = Some p \<and> files s p = Some d \<longrightarrow> fdp s' = fdp s \<and>
     (case r of Inl e \<Rightarrow> files s' = files s \<and> (e = EAGAIN \<longrightarrow> again s' < again s)
      | Inr k \<Rightarrow> again s' \<le> again s \<and> k \<le> length x \<and> files s' = (files s)(p \<mapsto> overwrite d off (take k x))))"

definition open_law :: "'f posix \<Rightarrow> ('f \<Rightarrow> string \<rightharpoonup> bytes) \<Rightarrow> ('f \<Rightarrow> int \<rightharpoonup> string) \<Rightarrow> bool" where
  "open_law px files fdp = (\<forall>w p s r s'. px_open px w p s = (r, s') \<longrightarrow>
     (case r of None \<Rightarrow> files s' = files s
      | Some fd \<Rightarrow> fdp s' fd = Some p \<and>
          (if w then files s' = (files s)(p \<mapsto> (case files s p of None \<Rightarrow> [] | Some d \<Rightarrow> d))
           else files s' = files s \<and> files s p \<noteq> None)))"

definition access_law :: "'f posix \<Rightarrow> ('f \<Rightarrow> string \<rightharpoonup> bytes) \<Rightarrow> bool" where
  "access_law px files = (\<forall>p s. px_access px p s = 0 \<longrightarrow> files s p \<noteq> None)"

definition truncate_law :: "'f posix \<Rightarrow> ('f \<Rightarrow> string \<rightharpoonup> bytes) \<Rightarrow> ('f \<Rightarrow> int \<rightharpoonup> string) \<Rightarrow> bool" where
  "truncate_law px files fdp = (\<forall>fd n s b s' p d. px_ftruncate px fd n s = (b, s') \<and> fdp s fd = Some p \<and> files s p = Some d \<longrightarrow>
     files s' = (if b then (files s)(p \<mapsto> take n d @ replicate (n - length d) 0) else files s))"

definition sync_law :: "'f posix \<Rightarrow> ('f \<Rightarrow> string \<rightharpoonup> bytes) \<Rightarrow> bool" where
  "sync_law px files = (\<forall>fd s ok s'. px_fsync px fd s = (ok, s') \<longrightarrow> files s' = files s)"

definition close_law :: "'f posix \<Rightarrow> ('f \<Rightarrow> string \<rightharpoonup> bytes) \<Rightarrow> bool" where
  "close_law px files = (\<forall>fd s. files (px_close px fd s) = files s)"

definition mkdirs_law :: "'f posix \<Rightarrow> ('f \<Rightarrow> string \<rightharpoonup> bytes) \<Rightarrow> bool" where
  "mkdirs_law px files = (\<forall>p s. files (px_mkdirs px p s) = files s)"

definition other_laws :: "'f posix \<Rightarrow> ('f \<Rightarrow> string \<rightharpoonup> bytes) \<Rightarrow> ('f \<Rightarrow> int \<rightharpoonup> string) \<Rightarrow> bool" where
  "other_laws px files fdp = (access_law px files \<and> truncate_law px files fdp \<and> sync_law px files \<and> close_law px files \<and>
     mkdirs_law px files)"

lemma pread_lawD:
  assumes "pread_law px files fdp again" and "px_pread px fd n off s = (r, s')" and "0 < n" and "fdp s fd = Some p" and "files s p = Some d"
  shows "files s' = files s \<and> fdp s' = fdp s \<and> (case r of Inl e \<Rightarrow> e = EAGAIN \<longrightarrow> again s' < again s
      | Inr x \<Rightarrow> again s' \<le> again s \<and> length x \<le> n \<and> (if x = [] then length d \<le> off
                 else off + length x \<le> length d \<and> x = slice off (length x) d))"
  using assms unfolding pread_law_def by iprover

lemma pwrite_lawD:
  assumes "pwrite_law px files fdp again" and "px_pwrite px fd x off s = (r, s')" and "x \<noteq> []" and "fdp s fd = Some p" and "files s p = Some d"
  shows "fdp s' = fdp s \<and> (case r of Inl e \<Rightarrow> files s' = files s \<and> (e = EAGAIN \<longrightarrow> again s' < again s)
      | Inr k \<Rightarrow> again s' \<le> again s \<and> k \<le> length x \<and> files s' = (files s)(p \<mapsto> overwrite d off (take k x)))"
  using assms unfolding pwrite_law_def by iprover

definition no_hard_error :: "'f posix \<Rightarrow> bool" where
  "no_hard_error px = (\<forall>fd n off s e s'. px_pread px fd n off s = (Inl e, s') \<longrightarrow> e = EAGAIN)"

text \<open>A call that has read \<open>got\<close> bytes from \<open>start\<close> on reads the rest, as far as the file goes.\<close>

lemma fully_pread_spec:
  assumes law: "pread_law px files fdp again"
  shows "fdp s fd = Some p \<Longrightarrow> files s p = Some d \<Longrightarrow> got \<le> n \<Longrightarrow> n \<le> length buf \<Longrightarrow>
    take got buf = slice start got d \<Longrightarrow> (0 < got \<longrightarrow> start + got \<le> length d) \<Longrightarrow>
    \<exists>r buf' s'. fully_pread px fd n got (start + got) buf s = Some ((r, buf'), s') \<and> files s' = files s \<and>
      length buf' = length buf \<and> drop n buf' = drop n buf \<and>
      (no_hard_error px \<longrightarrow> r \<noteq> -1) \<and>
      (r = -1 \<or> r = int (max got (min n (length d - start))) \<and> take (nat r) buf' = slice start (nat r) d)"
proof (induction "n - got + again s" arbitrary: got buf s rule: less_induct)
  case less
  show ?case
  proof (cases "got < n")
    case False
    then show ?thesis using less.prems by (subst fully_pread.simps) (auto simp: max_def min_def)
  next
    case lt: True
    obtain x s1 where 1: "px_pread px fd (n - got) (start + got) s = (x, s1)" by force
    have L: "files s1 = files s" "fdp s1 = fdp s" "case x of Inl e \<Rightarrow> e = EAGAIN \<longrightarrow> again s1 < again s
      | Inr x \<Rightarrow> again s1 \<le> again s \<and> length x \<le> n - got \<and> (if x = [] then length d \<le> start + got
                 else start + got + length x \<le> length d \<and> x = slice (start + got) (length x) d)"
      using pread_lawD [OF law 1 _ less.prems(1,2)] lt by simp_all
    show ?thesis
    proof (cases x)
      case (Inl e)
      show ?thesis
      proof (cases "e = EAGAIN")
        case True
        then have "n - got + again s1 < n - got + again s" using L Inl by simp
        from less.hyps [OF this] show ?thesis
          using less.prems L lt 1 Inl True by (subst fully_pread.simps) simp
      next
        case False
        then have "\<not> no_hard_error px" using 1 Inl unfolding no_hard_error_def by blast
        then show ?thesis using False lt 1 Inl L by (subst fully_pread.simps) simp
      qed
    next
      case (Inr y)
      show ?thesis
      proof (cases "y = []")
        case True
        then have "length d \<le> start + got" using L Inr by simp
        then have "max got (min n (length d - start)) = got" by linarith
        then show ?thesis using lt 1 Inr True L less.prems by (subst fully_pread.simps) simp
      next
        case False
        have y: "again s1 \<le> again s" "got + length y \<le> n" "start + (got + length y) \<le> length d" "y = slice (start + got) (length y) d"
          using L Inr False lt by auto
        let ?b = "blit buf got y"
        have m: "n - (got + length y) + again s1 < n - got + again s" using y lt False by (cases y) auto
        have "take (got + length y) ?b = take got buf @ y" using y less.prems(4) by (simp add: blit_def)
        also have "\<dots> = slice start (got + length y) d"
          using less.prems(5) y(4) by (simp add: slice_def take_add add.commute)
        finally have t: "take (got + length y) ?b = slice start (got + length y) d" .
        have lb: "length ?b = length buf" "drop n ?b = drop n buf" using y less.prems(4) by (simp_all add: blit_def)
        have mx: "max (got + length y) (min n (length d - start)) = max got (min n (length d - start))" using y by linarith
        from less.hyps [OF m, of ?b] show ?thesis
          using lt 1 Inr False L less.prems t y lb unfolding mx
          by (subst fully_pread.simps) (simp add: add.assoc)
      qed
    qed
  qed
qed

lemma fully_pwrite_spec:
  assumes law: "pwrite_law px files fdp again"
  shows "fdp s fd = Some p \<Longrightarrow> files s p = Some d \<Longrightarrow> wrt \<le> n \<Longrightarrow> n \<le> length buf \<Longrightarrow> wrt \<le> length d \<Longrightarrow>
    take wrt d = take wrt buf \<Longrightarrow>
    \<exists>r s' d'. fully_pwrite px fd buf n wrt wrt s = Some (r, s') \<and> fdp s' = fdp s \<and>
      files s' = (files s)(p \<mapsto> d') \<and> (r = int n \<longrightarrow> n \<le> length d' \<and> take n d' = take n buf)"
proof (induction "n - wrt + again s" arbitrary: wrt s d rule: less_induct)
  case less
  show ?case
  proof (cases "wrt < n")
    case False
    then show ?thesis using less.prems by (subst fully_pwrite.simps) (auto simp: fun_upd_idem intro!: exI [of _ d])
  next
    case lt: True
    define x where "x = slice wrt (n - wrt) buf"
    have x: "x \<noteq> []" "length x = n - wrt" using lt less.prems(4) by (auto simp: x_def slice_def)
    obtain r s1 where 1: "px_pwrite px fd x wrt s = (r, s1)" by force
    note L = pwrite_lawD [OF law 1 x(1) less.prems(1,2)]
    show ?thesis
    proof (cases r)
      case (Inl e)
      show ?thesis
      proof (cases "e = EAGAIN")
        case True
        then have "n - wrt + again s1 < n - wrt + again s" using L Inl by simp
        from less.hyps [OF this] show ?thesis
          using less.prems L lt 1 Inl True by (subst fully_pwrite.simps) (simp add: x_def)
      next
        case False
        then show ?thesis using lt 1 Inl L less.prems by (subst fully_pwrite.simps) (auto simp: x_def fun_upd_idem intro!: exI [of _ d])
      qed
    next
      case (Inr k)
      show ?thesis
      proof (cases "k = 0")
        case True
        then show ?thesis using lt 1 Inr L by (subst fully_pwrite.simps) (auto simp: x_def)
      next
        case False
        have k: "again s1 \<le> again s" "wrt + k \<le> n" using L Inr x lt by auto
        let ?d = "overwrite d wrt (take k x)"
        have d: "?d = take wrt buf @ take k x @ drop (wrt + k) d"
          using less.prems(5,6) k x lt by (simp add: overwrite_def min_absorb2)
        have lx: "length (take wrt buf @ take k x) = wrt + k" using less.prems(3,4) k x lt by simp
        have f1: "files s1 p = Some ?d" "wrt + k \<le> length ?d" using L Inr d lx by (auto simp del: length_append) (simp add: lx)
        have "take (wrt + k) ?d = take wrt buf @ take k x" using d lx by (metis append_assoc append_eq_conv_conj)
        also have "\<dots> = take (wrt + k) buf" using k x by (simp add: x_def slice_def take_add min_def)
        finally have t: "take (wrt + k) ?d = take (wrt + k) buf" .
        have m: "n - (wrt + k) + again s1 < n - wrt + again s" using k lt False by simp
        have fd: "fdp s1 fd = Some p" using L less.prems(1) by simp
        from less.hyps [OF m fd f1(1) k(2) less.prems(4) f1(2) t] show ?thesis
          using lt 1 Inr False L by (subst fully_pwrite.simps) (auto simp: x_def)
      qed
    qed
  qed
qed

subsection \<open>Uploading and downloading a file\<close>

definition posix_laws :: "'f posix \<Rightarrow> ('f \<Rightarrow> string \<rightharpoonup> bytes) \<Rightarrow> ('f \<Rightarrow> int \<rightharpoonup> string) \<Rightarrow> ('f \<Rightarrow> nat) \<Rightarrow> bool" where
  "posix_laws px files fdp again =
     (pread_law px files fdp again \<and> pwrite_law px files fdp again \<and> open_law px files fdp \<and> other_laws px files fdp)"

lemma open_lawD:
  assumes "open_law px files fdp" and "px_open px w p s = (r, s')"
  shows "case r of None \<Rightarrow> files s' = files s
      | Some fd \<Rightarrow> fdp s' fd = Some p \<and>
          (if w then files s' = (files s)(p \<mapsto> (case files s p of None \<Rightarrow> [] | Some d \<Rightarrow> d))
           else files s' = files s \<and> files s p \<noteq> None)"
  using assms unfolding open_law_def by iprover

lemma other_lawsD:
  assumes "other_laws px files fdp"
  shows "px_access px p s = 0 \<Longrightarrow> files s p \<noteq> None"
    and "px_ftruncate px fd n s = (b, s') \<Longrightarrow> fdp s fd = Some p \<Longrightarrow> files s p = Some d \<Longrightarrow>
      files s' = (if b then (files s)(p \<mapsto> take n d @ replicate (n - length d) 0) else files s)"
    and "px_fsync px fd s = (b, s') \<Longrightarrow> files s' = files s"
    and "files (px_close px fd s) = files s" and "files (px_mkdirs px p s) = files s"
proof -
  have L: "access_law px files" "truncate_law px files fdp" "sync_law px files" "close_law px files" "mkdirs_law px files"
    using assms by (simp_all add: other_laws_def)
  show "px_access px p s = 0 \<Longrightarrow> files s p \<noteq> None" using L(1) unfolding access_law_def by iprover
  show "px_ftruncate px fd n s = (b, s') \<Longrightarrow> fdp s fd = Some p \<Longrightarrow> files s p = Some d \<Longrightarrow>
      files s' = (if b then (files s)(p \<mapsto> take n d @ replicate (n - length d) 0) else files s)"
    using L(2) unfolding truncate_law_def by iprover
  show "px_fsync px fd s = (b, s') \<Longrightarrow> files s' = files s" using L(3) unfolding sync_law_def by iprover
  show "files (px_close px fd s) = files s" using L(4) by (simp add: close_law_def)
  show "files (px_mkdirs px p s) = files s" using L(5) by (simp add: mkdirs_law_def)
qed

lemma CreateParentDirectories_files: "other_laws px files fdp \<Longrightarrow> files (CreateParentDirectories px path s) = files s"
  by (simp add: CreateParentDirectories_def other_lawsD(5))

lemma FS_UpLoad_spec:
  assumes laws: "posix_laws px files fdp again" and base: "fs_base A = None"
  shows "\<exists>r s'. FS_UpLoad px A key len buf headers s = Some (r, s') \<and>
    (\<forall>p. p \<noteq> BuildPath A (fs_prefix A) key \<longrightarrow> files s' p = files s p) \<and>
    (r = OK \<longrightarrow> len \<le> length buf \<and> files s' (BuildPath A (fs_prefix A) key) = Some (take len buf))"
proof (cases "length buf < len")
  case True
  then show ?thesis by (simp add: FS_UpLoad_def)
next
  case ge: False
  let ?p = "BuildPath A (fs_prefix A) key"
  have L: "pwrite_law px files fdp again" "open_law px files fdp" "other_laws px files fdp" using laws by (simp_all add: posix_laws_def)
  define s0 where "s0 = CreateParentDirectories px ?p s"
  have s0: "files s0 = files s" by (simp add: s0_def CreateParentDirectories_files [OF L(3)])
  obtain r s1 where 1: "px_open px True ?p s0 = (r, s1)" by force
  note O = open_lawD [OF L(2) 1]
  show ?thesis
  proof (cases r)
    case None
    then show ?thesis using 1 O ge s0 by (simp add: FS_UpLoad_def s0_def [symmetric] Let_def)
  next
    case (Some fd)
    let ?d = "case files s0 ?p of None \<Rightarrow> [] | Some d \<Rightarrow> d"
    have o: "fdp s1 fd = Some ?p" "files s1 = (files s0)(?p \<mapsto> ?d)" using O Some by simp_all
    have "files s1 ?p = Some ?d" by (simp add: o(2))
    from fully_pwrite_spec [where fd = fd and n = len and buf = buf and wrt = 0, OF L(1) o(1) this] ge
    obtain n s2 d' where w: "fully_pwrite px fd buf len 0 0 s1 = Some (n, s2)" "fdp s2 = fdp s1" "files s2 = (files s1)(?p \<mapsto> d')"
      "n = int len \<longrightarrow> len \<le> length d' \<and> take len d' = take len buf" by auto
    have f2: "files s2 = (files s)(?p \<mapsto> d')" using w(3) o(2) s0 by simp
    show ?thesis
    proof (cases "n = int len")
      case False
      then show ?thesis using 1 Some w(1) ge f2 other_lawsD(4) [OF L(3)] by (simp add: FS_UpLoad_def s0_def [symmetric] Let_def)
    next
      case True
      obtain ok s3 where t: "px_ftruncate px fd len s2 = (ok, s3)" by force
      obtain ok' s4 where y: "(if fsync_required A then px_fsync px fd s3 else (True, s3)) = (ok', s4)" by force
      have run: "FS_UpLoad px A key len buf headers s =
          Some (if ok \<and> ok' then OK else IO_ERROR, px_close px fd (if ok then s4 else s3))"
        using 1 Some w(1) ge t y True base by (simp add: FS_UpLoad_def s0_def [symmetric] Let_def split: prod.splits)
      have f4: "files s4 = files s3" using y other_lawsD(3) [OF L(3)] by (auto split: if_splits)
      have f3: "files s3 = (if ok then (files s)(?p \<mapsto> take len buf) else files s2)"
        using other_lawsD(2) [OF L(3) t, of ?p d'] o(1) w(2,4) f2 True by simp
      have "files (px_close px fd (if ok then s4 else s3)) q = files s q" if "q \<noteq> ?p" for q
        using that f2 f3 f4 other_lawsD(4) [OF L(3)] by simp
      moreover have "files (px_close px fd (if ok then s4 else s3)) ?p = Some (take len buf)" if ok
        using that f3 f4 other_lawsD(4) [OF L(3)] by simp
      ultimately show ?thesis using run ge by simp
    qed
  qed
qed

text \<open>
  C17: a full read ends and reads the file.  Although the loop starts again on \<^verbatim>\<open>EAGAIN\<close> and after every short
  read, \<^verbatim>\<open>fully_pread\<close> returns as long as \<^verbatim>\<open>EAGAIN\<close> ends some time; unless a call failed, it returns the number
  of bytes the file has from the offset on, at most the number asked, with exactly these bytes in the
  buffer, and it leaves the buffer behind them alone.
\<close>

theorem fully_pread_returns:
  assumes "pread_law px files fdp again" and "fdp s fd = Some p" and "files s p = Some d" and "n \<le> length buf"
  shows "\<exists>r buf' s'. fully_pread px fd n 0 start buf s = Some ((r, buf'), s') \<and> files s' = files s \<and>
    length buf' = length buf \<and> drop n buf' = drop n buf \<and>
    (no_hard_error px \<longrightarrow> r \<noteq> -1) \<and>
    (r = -1 \<or> r = int (min n (length d - start)) \<and> take (nat r) buf' = slice start (nat r) d)"
  using fully_pread_spec [OF assms(1), of s fd p d 0 n buf start] assms(2-4) by (simp add: slice_def)

text \<open>Files that can be found, opened and read.\<close>

definition readable :: "'f posix \<Rightarrow> ('f \<Rightarrow> string \<rightharpoonup> bytes) \<Rightarrow> bool" where
  "readable px files = ((\<forall>p s. files s p \<noteq> None \<longrightarrow> px_access px p s = 0) \<and>
     (\<forall>p s. files s p \<noteq> None \<longrightarrow> fst (px_open px False p s) \<noteq> None) \<and>
     no_hard_error px)"

text \<open>
  C16: what the file adaptor has uploaded it downloads.  Without a base adaptor, \<^verbatim>\<open>UpLoad\<close> returns; when it
  returned \<^verbatim>\<open>OK\<close>, a later \<^verbatim>\<open>DownLoad\<close> of any range inside the file, while the file is as it was left,
  returns as well: with exactly the bytes of the range, the buffer behind them untouched, or with an error,
  and with no error when files can be read.  No other file is touched by the upload.
\<close>

theorem FS_UpLoad_DownLoad_roundtrip:
  assumes laws: "posix_laws px files fdp again" and base: "fs_base A = None"
    and path: "path = BuildPath A (fs_prefix A) key"
  shows "\<exists>r s1. FS_UpLoad px A key len data headers s = Some (r, s1) \<and> (\<forall>p. p \<noteq> path \<longrightarrow> files s1 p = files s p) \<and>
    (\<forall>s2 start n buf. r = OK \<and> files s2 path = files s1 path \<and> start + n \<le> len \<and> n \<le> length buf \<longrightarrow>
       (\<exists>r' buf' s3. FS_DownLoad px A key start n buf s2 = Some ((r', buf'), s3) \<and> (readable px files \<longrightarrow> r' = OK) \<and>
          (r' = OK \<longrightarrow> length buf' = length buf \<and> take n buf' = slice start n data \<and> drop n buf' = drop n buf)))"
proof -
  have L: "pread_law px files fdp again" "open_law px files fdp" "other_laws px files fdp" using laws by (simp_all add: posix_laws_def)
  obtain r s1 where up: "FS_UpLoad px A key len data headers s = Some (r, s1)" "\<forall>p. p \<noteq> path \<longrightarrow> files s1 p = files s p"
    "r = OK \<longrightarrow> len \<le> length data \<and> files s1 path = Some (take len data)"
    using FS_UpLoad_spec [OF laws base] path by blast
  have "\<exists>r' buf' s3. FS_DownLoad px A key start n buf s2 = Some ((r', buf'), s3) \<and> (readable px files \<longrightarrow> r' = OK) \<and>
          (r' = OK \<longrightarrow> length buf' = length buf \<and> take n buf' = slice start n data \<and> drop n buf' = drop n buf)"
    if ok: "r = OK" and f: "files s2 path = files s1 path" and fit: "start + n \<le> len" "n \<le> length buf" for s2 start n buf
  proof (cases "px_access px path s2 = 0")
    case False
    then have "\<not> readable px files" using up(3) ok f unfolding readable_def by fastforce
    then show ?thesis using False fit base by (simp add: FS_DownLoad_def path [symmetric] Let_def)
  next
    case acc: True
    obtain o' s3 where 1: "px_open px False path s2 = (o', s3)" by force
    show ?thesis
    proof (cases o')
      case None
      then have "\<not> readable px files" using up(3) ok f 1 unfolding readable_def by (metis fst_conv option.distinct(1))
      then show ?thesis using acc None 1 fit by (simp add: FS_DownLoad_def path [symmetric] Let_def)
    next
      case (Some fd)
      have o: "fdp s3 fd = Some path" "files s3 path = Some (take len data)"
        using open_lawD [OF L(2) 1] Some f up(3) ok by auto
      obtain m buf' s4 where rd: "fully_pread px fd n 0 start buf s3 = Some ((m, buf'), s4)" "length buf' = length buf"
          "drop n buf' = drop n buf" "no_hard_error px \<longrightarrow> m \<noteq> -1"
          "m = -1 \<or> m = int (min n (length (take len data) - start)) \<and> take (nat m) buf' = slice start (nat m) (take len data)"
        using fully_pread_spec [OF L(1) o, of 0 n buf start] fit(2) by (auto simp: slice_def)
      have run: "FS_DownLoad px A key start n buf s2 = Some ((if m \<noteq> int n then IO_ERROR else OK, buf'), px_close px fd s4)"
        using acc Some 1 fit rd(1) by (simp add: FS_DownLoad_def path [symmetric] Let_def)
      have "min n (length (take len data) - start) = n" using fit up(3) ok by simp
      then have m: "m = -1 \<or> m = int n \<and> take n buf' = slice start n (take len data)" using rd(5) by auto
      have "slice start n (take len data) = slice start n data" using fit by (simp add: slice_def drop_take min_def)
      then show ?thesis using run m rd by (auto simp: readable_def)
    qed
  qed
  then show ?thesis using up by blast
qed

subsection \<open>The names of the files\<close>

lemma first_sep_unique: "s \<notin> set xs \<Longrightarrow> s \<notin> set xs' \<Longrightarrow> xs @ s # ys = xs' @ s # ys' \<Longrightarrow> xs = xs' \<and> ys = ys'"
  by (induction xs arbitrary: xs') (auto simp: Cons_eq_append_conv append_eq_Cons_conv)

lemma PathJoin_inj: "PathJoin p x = PathJoin p y \<longleftrightarrow> x = y"
  by (simp add: PathJoin_def)

text \<open>
  Two keys never share a file.  Under one prefix, with or without the two levels of directories the
  hash selects, and whatever the hash function is, the path determines the key.
\<close>

theorem BuildPath_inj: "BuildPath A prefix k = BuildPath A prefix k' \<longleftrightarrow> k = k'"
proof -
  have d: "CHR ''/'' \<notin> set (to_string n)" for n using to_string_digits [of "CHR ''/''" n] by (auto simp: is_digit_def)
  have "k = k'" if "to_string a @ ''/'' @ to_string b @ ''/'' @ k = to_string a' @ ''/'' @ to_string b' @ ''/'' @ k'" for a b a' b'
    using first_sep_unique [OF d d, of a "to_string b @ ''/'' @ k" a' "to_string b' @ ''/'' @ k'"]
      first_sep_unique [OF d d, of b k b' k'] that by simp
  then show ?thesis by (auto simp: BuildPath_def PathJoin_inj Let_def)
qed

text \<open>The files of a directory, and what the deletion of the disk engine selects among them.\<close>

fun all_files :: "string \<Rightarrow> dir_entry list \<Rightarrow> string list" where
  "all_files dir [] = []"
| "all_files dir (Reg name # es) = PathJoin dir name # all_files dir es"
| "all_files dir (Sub name ds # es) = all_files (PathJoin dir name) ds @ all_files dir es"
| "all_files dir (Skipped name # es) = all_files dir es"

lemma listFilesRecursively_filter:
  "listFilesRecursively uninit root key_prefix ts except_keys dir es =
   filter (\<lambda>path. HasPrefix (disk_key root path) key_prefix \<and> disk_key root path \<notin> set except_keys \<and>
      ParseTS uninit (disk_key root path) < ts) (all_files dir es)"
  by (induction dir es rule: all_files.induct) (auto simp: Let_def not_le)

subsection \<open>A file system\<close>

text \<open>One descriptor, reads and writes of two bytes at a time, and some \<^verbatim>\<open>EAGAIN\<close>s first.\<close>

record demo_fs =
  df_files :: "string \<rightharpoonup> bytes"
  df_fd :: "int \<rightharpoonup> string"
  df_again :: nat

definition demo_content_of :: "int \<Rightarrow> demo_fs \<Rightarrow> bytes" where
  "demo_content_of fd s = (case df_fd s fd of None \<Rightarrow> [] | Some p \<Rightarrow> (case df_files s p of None \<Rightarrow> [] | Some d \<Rightarrow> d))"

definition demo_set :: "int \<Rightarrow> bytes \<Rightarrow> demo_fs \<Rightarrow> demo_fs" where
  "demo_set fd d s = (case df_fd s fd of None \<Rightarrow> s | Some p \<Rightarrow> s\<lparr>df_files := (df_files s)(p \<mapsto> d)\<rparr>)"

definition demo_posix :: "demo_fs posix" where
  "demo_posix = \<lparr>px_access = (\<lambda>p s. if df_files s p = None then 2 else 0),
     px_open = (\<lambda>w p s. (if \<not> w \<and> df_files s p = None then (None, s)
        else (Some 3, s\<lparr>df_fd := [3 \<mapsto> p], df_files := (if w then (df_files s)(p \<mapsto> (case df_files s p of None \<Rightarrow> [] | Some d \<Rightarrow> d))
                                                        else df_files s)\<rparr>))),
     px_pread = (\<lambda>fd n off s. if 0 < df_again s then (Inl EAGAIN, s\<lparr>df_again := df_again s - 1\<rparr>)
        else (Inr (slice off (min 2 n) (demo_content_of fd s)), s)),
     px_pwrite = (\<lambda>fd x off s. if 0 < df_again s then (Inl EAGAIN, s\<lparr>df_again := df_again s - 1\<rparr>)
        else (Inr (min 2 (length x)), demo_set fd (overwrite (demo_content_of fd s) off (take 2 x)) s)),
     px_ftruncate = (\<lambda>fd n s. (True, demo_set fd (take n (demo_content_of fd s) @ replicate (n - length (demo_content_of fd s)) 0) s)),
     px_fsync = (\<lambda>fd s. (True, s)), px_close = (\<lambda>fd s. s),
     px_remove = (\<lambda>p s. if df_files s p = None then (2, s) else (0, s\<lparr>df_files := (df_files s)(p := None)\<rparr>)),
     px_stat = (\<lambda>p s. map_option length (df_files s p)), px_mkdirs = (\<lambda>p s. s)\<rparr>"

lemma demo_posix_laws: "posix_laws demo_posix df_files df_fd df_again"
proof -
  have "pread_law demo_posix df_files df_fd df_again"
    by (auto simp: pread_law_def demo_posix_def demo_content_of_def slice_def min_def)
  moreover have "pwrite_law demo_posix df_files df_fd df_again"
    by (auto simp: pwrite_law_def demo_posix_def demo_content_of_def demo_set_def min_def)
  moreover have "open_law demo_posix df_files df_fd"
    by (auto simp: open_law_def demo_posix_def)
  moreover have "truncate_law demo_posix df_files df_fd"
    by (auto simp: truncate_law_def demo_posix_def demo_content_of_def demo_set_def)
  ultimately show ?thesis
    by (simp add: posix_laws_def other_laws_def access_law_def sync_law_def close_law_def mkdirs_law_def) (simp add: demo_posix_def)
qed

theorem fully_pread_returns_witness:
  "\<exists>buf s. fully_pread demo_posix 3 4 0 1 [0, 0, 0, 0, 9] \<lparr>df_files = [''f'' \<mapsto> [1, 2, 3, 4, 5, 6]], df_fd = [3 \<mapsto> ''f''], df_again = 2\<rparr> =
     Some ((4, buf), s) \<and> take 4 buf = [2, 3, 4, 5] \<and> drop 4 buf = [9]"
proof -
  let ?s = "\<lparr>df_files = [''f'' \<mapsto> [1, 2, 3, 4, 5, 6]], df_fd = [3 \<mapsto> ''f''], df_again = 2\<rparr> :: demo_fs"
  have law: "pread_law demo_posix df_files df_fd df_again" using demo_posix_laws by (simp add: posix_laws_def)
  have hard: "no_hard_error demo_posix" by (simp add: no_hard_error_def demo_posix_def)
  obtain r buf s where run: "fully_pread demo_posix 3 4 0 1 [0, 0, 0, 0, 9] ?s = Some ((r, buf), s)"
      and b: "drop 4 buf = drop 4 [0, 0, 0, 0, 9]" "r \<noteq> -1"
        "r = -1 \<or> r = int (min 4 (length [1, 2, 3, 4, 5, 6 :: byte] - 1)) \<and> take (nat r) buf = slice 1 (nat r) [1, 2, 3, 4, 5, 6]"
    using fully_pread_returns [OF law, of ?s 3 "''f''" "[1, 2, 3, 4, 5, 6]" 4 "[0, 0, 0, 0, 9]" 1] hard by auto
  have r: "r = 4" using b(2,3) by simp
  then have "take 4 buf = [2, 3, 4, 5]" using b(3) by (simp add: slice_def)
  then show ?thesis using run b(1) r by simp
qed

lemma demo_upload: "\<exists>s1. FS_UpLoad demo_posix \<lparr>fs_prefix = ''d'', fs_base = None, use_optimized_path = False, fsync_required = True,
     fs_hash = (\<lambda>k. 0), fs_fresh = (\<lambda>n. replicate n 0)\<rparr> ''k'' 3 [1, 2, 3] Map.empty
     \<lparr>df_files = [''x'' \<mapsto> [5]], df_fd = Map.empty, df_again = 1\<rparr> = Some (OK, s1)"
  by (simp add: FS_UpLoad_def BuildPath_def PathJoin_def CreateParentDirectories_def fully_pwrite.simps demo_posix_def demo_set_def
      demo_content_of_def overwrite_def slice_def Let_def)

theorem FS_UpLoad_DownLoad_roundtrip_witness:
  "\<exists>A s1 buf s2. FS_UpLoad demo_posix A ''k'' 3 [1, 2, 3] Map.empty
       \<lparr>df_files = [''x'' \<mapsto> [5]], df_fd = Map.empty, df_again = 1\<rparr> = Some (OK, s1) \<and>
     FS_DownLoad demo_posix A ''k'' 1 2 [0, 0, 9] s1 = Some ((OK, buf), s2) \<and> buf = [2, 3, 9]"
proof -
  let ?A = "\<lparr>fs_prefix = ''d'', fs_base = None, use_optimized_path = False, fsync_required = True,
     fs_hash = (\<lambda>k. 0), fs_fresh = (\<lambda>n. replicate n 0)\<rparr> :: demo_fs fs_adaptor"
  let ?s = "\<lparr>df_files = [''x'' \<mapsto> [5]], df_fd = Map.empty, df_again = 1\<rparr> :: demo_fs"
  obtain s1 where up: "FS_UpLoad demo_posix ?A ''k'' 3 [1, 2, 3] Map.empty ?s = Some (OK, s1)" using demo_upload by blast
  have rd: "readable demo_posix df_files" by (simp add: readable_def no_hard_error_def demo_posix_def)
  have base: "fs_base ?A = None" by simp
  have "\<exists>r' buf' s3. FS_DownLoad demo_posix ?A ''k'' 1 2 [0, 0, 9] s1 = Some ((r', buf'), s3) \<and> (readable demo_posix df_files \<longrightarrow> r' = OK) \<and>
      (r' = OK \<longrightarrow> length buf' = length [0, 0, 9 :: byte] \<and> take 2 buf' = slice 1 2 [1, 2, 3] \<and> drop 2 buf' = drop 2 [0, 0, 9])"
  proof -
    from FS_UpLoad_DownLoad_roundtrip [OF demo_posix_laws base refl, of "''k''" 3 "[1, 2, 3]" Map.empty ?s] up
    have F: "\<forall>s2 start n buf. df_files s2 (BuildPath ?A (fs_prefix ?A) ''k'') = df_files s1 (BuildPath ?A (fs_prefix ?A) ''k'') \<and>
        start + n \<le> 3 \<and> n \<le> length buf \<longrightarrow>
       (\<exists>r' buf' s3. FS_DownLoad demo_posix ?A ''k'' start n buf s2 = Some ((r', buf'), s3) \<and> (readable demo_posix df_files \<longrightarrow> r' = OK) \<and>
          (r' = OK \<longrightarrow> length buf' = length buf \<and> take n buf' = slice start n [1, 2, 3] \<and> drop n buf' = drop n buf))"
      by (simp only: option.inject prod.inject simp_thms ex_simps) blast
    show ?thesis
      using F [THEN spec [of _ s1], THEN spec [of _ 1], THEN spec [of _ 2], THEN spec [of _ "[0, 0, 9]"]] by simp
  qed
  then obtain buf s2 where "FS_DownLoad demo_posix ?A ''k'' 1 2 [0, 0, 9] s1 = Some ((OK, buf), s2)"
      "take 2 buf = [2, 3]" "drop 2 buf = [9]" using rd by (auto simp: slice_def)
  moreover from this have "buf = [2, 3, 9]" using append_take_drop_id [of 2 buf] by simp
  ultimately show ?thesis using up by blast
qed

end
