(* ===== verification/Global_Servers.thy ===== *)
theory Global_Servers
  imports File_Adaptor
begin

section \<open>The servers, their configuration and the S3 adaptor\<close>

text \<open>
  \<^verbatim>\<open>global_cache/Common.cpp\<close> (the configuration), \<^verbatim>\<open>ReadCache.cpp\<close> (the engines of the read cache),
  \<^verbatim>\<open>GlobalCacheServer.cpp\<close> (the handlers) and \<^verbatim>\<open>S3DataAdaptor.cpp\<close>, with the AWS client as parameter.
\<close>

subsection \<open>Configuration (\<^verbatim>\<open>InitGlobalConfig\<close>)\<close>

definition SAFE_ASSIGN :: "int \<Rightarrow> int \<Rightarrow> int \<Rightarrow> int" where
  "SAFE_ASSIGN flag min_val max_val = (if flag < min_val \<or> flag > max_val then max_val else flag)"

record Flags =
  FLAGS_rpc_timeout :: int
  FLAGS_rpc_threads :: int
  FLAGS_rpc_connections :: int
  FLAGS_folly_threads :: int
  FLAGS_use_rdma :: bool
  FLAGS_write_chunk_size :: nat
  FLAGS_read_chunk_size :: int
  FLAGS_read_replication_factor :: int
  FLAGS_use_meta_cache :: bool
  FLAGS_meta_cache_max_size :: nat
  FLAGS_meta_cache_clear_size :: nat
  FLAGS_read_cache_dir :: string
  FLAGS_write_cache_dir :: string
  FLAGS_etcd_prefix :: string
  FLAGS_max_inflight_payload_size :: nat
  FLAGS_write_cache_type :: string
  FLAGS_write_replication_factor :: int
  FLAGS_write_data_blocks :: int
  FLAGS_write_parity_blocks :: int
  FLAGS_s3_bucket :: string
  FLAGS_read_normal_flow_limit :: nat
  FLAGS_read_burst_flow_limit :: nat
  FLAGS_read_capacity_mb :: nat
  FLAGS_read_page_body_size :: nat
  FLAGS_read_page_meta_size :: nat
  FLAGS_read_cas :: bool
  FLAGS_read_nvm_cache :: bool

text \<open>
  Signed numbers stored in a \<^verbatim>\<open>size_t\<close> wrap.  The replication factor and the numbers of blocks are only
  set for their type of write cache.
\<close>

record InitConfig =
  g_rpc_timeout :: int
  g_rpc_threads :: int
  g_rpc_connections :: int
  g_folly_threads :: int
  g_use_rdma :: bool
  g_write_chunk_size :: nat
  g_read_chunk_size :: "64 word"
  g_read_replication_factor :: "64 word"
  g_use_meta_cache :: bool
  g_meta_cache_max_size :: nat
  g_meta_cache_clear_size :: nat
  g_read_cache_dir :: string
  g_write_cache_dir :: string
  g_etcd_prefix :: string
  g_max_inflight_payload_size :: nat
  g_write_cache_type :: WriteCacheType
  g_write_replication_factor :: "64 word option"
  g_write_blocks :: "(64 word \<times> 64 word) option"
  g_s3_bucket :: string
  g_read_cache :: ReadCacheConfig
  g_socket_max_unwritten_bytes :: nat

text \<open>An unknown type of write cache ends the process (\<open>None\<close>).\<close>

definition InitGlobalConfig :: "Flags \<Rightarrow> InitConfig option" where
  "InitGlobalConfig F =
     (let read_cache = \<lparr>ReadCacheCfg_CacheCfg = \<lparr>CacheName = ''Read'',
            MaxCacheSize = FLAGS_read_capacity_mb F * 1024 * 1024, PageBodySize = FLAGS_read_page_body_size F,
            PageMetaSize = FLAGS_read_page_meta_size F, EnableCAS = FLAGS_read_cas F, SafeMode = True,
            CacheLibCfg = \<lparr>EnableNvmCache = FLAGS_read_nvm_cache F, RaidPath = [], RaidFileNum = 0, RaidFileSize = 0,
              DataChecksum = False\<rparr>\<rparr>,
          DownloadNormalFlowLimit = FLAGS_read_normal_flow_limit F, DownloadBurstFlowLimit = FLAGS_read_burst_flow_limit F\<rparr>;
        cfg = (\<lambda>ty repl blocks. \<lparr>
          g_rpc_timeout = SAFE_ASSIGN (FLAGS_rpc_timeout F) 0 60000,
          g_rpc_threads = SAFE_ASSIGN (FLAGS_rpc_threads F) 0 256,
          g_rpc_connections = SAFE_ASSIGN (FLAGS_rpc_connections F) 0 64,
          g_folly_threads = SAFE_ASSIGN (FLAGS_folly_threads F) 0 256,
          g_use_rdma = FLAGS_use_rdma F, g_write_chunk_size = FLAGS_write_chunk_size F,
          g_read_chunk_size = word_of_int (FLAGS_read_chunk_size F),
          g_read_replication_factor = word_of_int (FLAGS_read_replication_factor F),
          g_use_meta_cache = FLAGS_use_meta_cache F, g_meta_cache_max_size = FLAGS_meta_cache_max_size F,
          g_meta_cache_clear_size = FLAGS_meta_cache_clear_size F, g_read_cache_dir = FLAGS_read_cache_dir F,
          g_write_cache_dir = FLAGS_write_cache_dir F, g_etcd_prefix = FLAGS_etcd_prefix F,
          g_max_inflight_payload_size = FLAGS_max_inflight_payload_size F, g_write_cache_type = ty,
          g_write_replication_factor = repl, g_write_blocks = blocks, g_s3_bucket = FLAGS_s3_bucket F,
          g_read_cache = read_cache, g_socket_max_unwritten_bytes = FLAGS_max_inflight_payload_size F * 2\<rparr>)
      in if FLAGS_write_cache_type F = ''nocache'' then Some (cfg NOCACHE None None)
         else if FLAGS_write_cache_type F = ''replication''
         then Some (cfg REPLICATION (Some (word_of_int (FLAGS_write_replication_factor F))) None)
         else if FLAGS_write_cache_type F = ''reed-solomon''
         then Some (cfg REED_SOLOMON None
            (Some (word_of_int (FLAGS_write_data_blocks F), word_of_int (FLAGS_write_parity_blocks F))))
         else None)"

text \<open>
  The numbers of threads and connections end up in their ranges.  The range of the connections contains
  0, with which \<^verbatim>\<open>GetRpcClient\<close> divides by zero, and a negative number becomes the largest.
\<close>

lemma InitGlobalConfig_ranges:
  assumes "InitGlobalConfig F = Some c"
  shows "g_rpc_timeout c \<in> {0..60000}" and "g_rpc_threads c \<in> {0..256}" and "g_rpc_connections c \<in> {0..64}"
    and "g_folly_threads c \<in> {0..256}"
    and "FLAGS_rpc_connections F = 0 \<Longrightarrow> g_rpc_connections c = 0"
    and "FLAGS_rpc_connections F < 0 \<Longrightarrow> g_rpc_connections c = 64"
proof -
  have "g_rpc_timeout c = SAFE_ASSIGN (FLAGS_rpc_timeout F) 0 60000" "g_rpc_threads c = SAFE_ASSIGN (FLAGS_rpc_threads F) 0 256"
    "g_rpc_connections c = SAFE_ASSIGN (FLAGS_rpc_connections F) 0 64" "g_folly_threads c = SAFE_ASSIGN (FLAGS_folly_threads F) 0 256"
    using assms unfolding InitGlobalConfig_def Let_def by (auto split: if_splits)
  then show "g_rpc_timeout c \<in> {0..60000}" and "g_rpc_threads c \<in> {0..256}" and "g_rpc_connections c \<in> {0..64}"
    and "g_folly_threads c \<in> {0..256}" and "FLAGS_rpc_connections F = 0 \<Longrightarrow> g_rpc_connections c = 0"
    and "FLAGS_rpc_connections F < 0 \<Longrightarrow> g_rpc_connections c = 64"
    by (simp_all add: SAFE_ASSIGN_def)
qed

subsection \<open>Deleting the chunks of a file from a read cache server\<close>

text \<open>Both engines delete the chunks in order with their own deletion of one name, and stop at a failure.\<close>

fun delete_chunks_loop :: "(key \<Rightarrow> 's \<Rightarrow> int \<times> 's) \<Rightarrow> key \<Rightarrow> nat \<Rightarrow> nat list \<Rightarrow> 's \<Rightarrow> int \<times> 's" where
  "delete_chunks_loop del key chunk_size [] s = (OK, s)"
| "delete_chunks_loop del key chunk_size (cid # ids) s =
     (case del (chunk_name key cid chunk_size) s of (ret, s) \<Rightarrow>
        if ret \<noteq> 0 then (ret, s) else delete_chunks_loop del key chunk_size ids s)"

definition ReadCacheCachelib_Delete :: "(key \<Rightarrow> 's \<Rightarrow> int \<times> 's) \<Rightarrow> key \<Rightarrow> nat \<Rightarrow> nat \<Rightarrow> 's \<Rightarrow> int \<times> 's" where
  "ReadCacheCachelib_Delete impl_delete key chunk_size max_chunk_id s =
     delete_chunks_loop impl_delete key chunk_size [0..<max_chunk_id] s"

definition ReadCacheDisk_Delete :: "'f posix \<Rightarrow> 'f fs_adaptor \<Rightarrow> key \<Rightarrow> nat \<Rightarrow> nat \<Rightarrow> 'f \<Rightarrow> int \<times> 'f" where
  "ReadCacheDisk_Delete px A key chunk_size max_chunk_id s =
     delete_chunks_loop (FS_Delete px A) key chunk_size [0..<max_chunk_id] s"

definition ReadCacheDisk_Put :: "'f posix \<Rightarrow> 'f fs_adaptor \<Rightarrow> key \<Rightarrow> nat \<Rightarrow> bytes \<Rightarrow> 'f \<Rightarrow> (int \<times> 'f) option" where
  "ReadCacheDisk_Put px A key len buf s = FS_UpLoad px A key len buf Map.empty s"

definition ReadCacheDisk_Get :: "'f posix \<Rightarrow> 'f fs_adaptor \<Rightarrow> key \<Rightarrow> nat \<Rightarrow> nat \<Rightarrow> 'f \<Rightarrow> ((int \<times> bytes) \<times> 'f) option" where
  "ReadCacheDisk_Get px A key start len s =
     (case FS_DownLoad px A key start len (fs_fresh A len) s of
        None \<Rightarrow> None
      | Some ((res, buf), s) \<Rightarrow> Some ((res, if res = OK then buf else []), s))"

text \<open>
  Invalidating a file on a disk engine stops at the first chunk the server has not got.  The chunks are
  files, and the deletion of a file that does not exist is a failure: when chunk 0 of a file was never
  stored, the invalidation returns \<^verbatim>\<open>NOT_FOUND\<close> and changes nothing, so every later chunk is still served
  with its old bytes.
\<close>

theorem ReadCacheDisk_Delete_stops_at_gap:
  assumes "px_remove px (BuildPath A (fs_prefix A) (chunk_name key 0 chunk_size)) s = (ENOENT, s)" and "0 < max_chunk_id"
  shows "ReadCacheDisk_Delete px A key chunk_size max_chunk_id s = (NOT_FOUND, s)"
  using assms by (simp add: ReadCacheDisk_Delete_def FS_Delete_def upt_conv_Cons)

theorem ReadCacheDisk_Delete_stops_at_gap_witness:
  "\<exists>A s. df_files s ''d/f-1-4'' = Some [7] \<and> ReadCacheDisk_Delete demo_posix A ''f'' 4 2 s = (NOT_FOUND, s)"
proof -
  let ?A = "\<lparr>fs_prefix = ''d'', fs_base = None, use_optimized_path = False, fsync_required = True,
     fs_hash = (\<lambda>k. 0), fs_fresh = (\<lambda>n. replicate n 0)\<rparr> :: demo_fs fs_adaptor"
  let ?s = "\<lparr>df_files = [''d/f-1-4'' \<mapsto> [7]], df_fd = Map.empty, df_again = 0\<rparr> :: demo_fs"
  have "BuildPath ?A (fs_prefix ?A) (chunk_name ''f'' 0 4) = ''d/f-0-4''" by code_simp
  then have "px_remove demo_posix (BuildPath ?A (fs_prefix ?A) (chunk_name ''f'' 0 4)) ?s = (ENOENT, ?s)"
    by (simp add: demo_posix_def)
  from ReadCacheDisk_Delete_stops_at_gap [OF this, of 2] show ?thesis by (intro exI [of _ ?A] exI [of _ ?s]) simp
qed

text \<open>An engine whose deletion of one name does not fail removes every chunk.\<close>

lemma delete_chunks_loop_all:
  assumes "\<And>k s. del k s = (0, rm k s)"
  shows "delete_chunks_loop del key c ids s = (OK, fold rm (map (\<lambda>cid. chunk_name key cid c) ids) s)"
  using assms by (induction ids arbitrary: s) simp_all

subsection \<open>The handlers (\<^verbatim>\<open>GlobalCacheServer.cpp\<close>)\<close>

record DeleteEntryRequest =
  rq_key :: key
  rq_chunk_size :: "nat option"
  rq_max_chunk_id :: "nat option"

definition svc_DeleteEntryFromReadCache ::
    "(key \<Rightarrow> 's \<Rightarrow> int \<times> 's) \<Rightarrow> (key \<Rightarrow> nat \<Rightarrow> nat \<Rightarrow> 's \<Rightarrow> int \<times> 's) \<Rightarrow> DeleteEntryRequest \<Rightarrow> 's \<Rightarrow> int \<times> 's" where
  "svc_DeleteEntryFromReadCache del1 deln rq s =
     (case (rq_chunk_size rq, rq_max_chunk_id rq) of
        (Some chunk_size, Some max_chunk_id) \<Rightarrow> deln (rq_key rq) chunk_size max_chunk_id s
      | _ \<Rightarrow> del1 (rq_key rq) s)"

definition svc_DeleteEntryFromWriteCache ::
    "(string \<Rightarrow> 64 word \<Rightarrow> string list \<Rightarrow> 's \<Rightarrow> int \<times> 's) \<Rightarrow> string \<Rightarrow> 64 word \<Rightarrow> string list \<Rightarrow> 's \<Rightarrow> int \<times> 's" where
  "svc_DeleteEntryFromWriteCache del key_prefix max_ts except_keys s =
     del key_prefix max_ts (remdups except_keys) s"

definition svc_QueryTsFromWriteCache :: "('s \<Rightarrow> 64 word) \<Rightarrow> 's \<Rightarrow> int \<times> 64 word" where
  "svc_QueryTsFromWriteCache query s = (OK, query s)"

subsection \<open>The S3 adaptor (\<^verbatim>\<open>S3DataAdaptor.cpp\<close>)\<close>

abbreviation S3_INTERNAL_ERROR :: int where "S3_INTERNAL_ERROR \<equiv> -5"

datatype 'a s3_outcome = IsSuccess 'a | NoSuchKey | OtherError

text \<open>
  The client calls take the bucket and the key; a get takes the text of the range and fills a buffer
  through the stream it is given, as far as the buffer goes.
\<close>

record 's s3_client =
  GetObject :: "string \<Rightarrow> key \<Rightarrow> string \<Rightarrow> bytes \<Rightarrow> 's \<Rightarrow> (unit s3_outcome \<times> bytes) \<times> 's"
  PutObject :: "string \<Rightarrow> key \<Rightarrow> json_headers \<Rightarrow> bytes \<Rightarrow> 's \<Rightarrow> unit s3_outcome \<times> 's"
  DeleteObject :: "string \<Rightarrow> key \<Rightarrow> 's \<Rightarrow> unit s3_outcome \<times> 's"
  HeadObject :: "string \<Rightarrow> key \<Rightarrow> 's \<Rightarrow> (json_headers \<times> nat) s3_outcome \<times> 's"

fun s3_status :: "'a s3_outcome \<Rightarrow> int" where
  "s3_status (IsSuccess a) = OK"
| "s3_status NoSuchKey = NOT_FOUND"
| "s3_status OtherError = S3_INTERNAL_ERROR"

definition GetObjectRequestRange :: "nat \<Rightarrow> nat \<Rightarrow> string" where
  "GetObjectRequestRange offset len = ''bytes='' @ to_string offset @ ''-'' @ to_string (offset + len)"

definition S3_DownLoad :: "'s s3_client \<Rightarrow> string \<Rightarrow> key \<Rightarrow> nat \<Rightarrow> nat \<Rightarrow> bytes \<Rightarrow> 's \<Rightarrow> (int \<times> bytes) \<times> 's" where
  "S3_DownLoad c bucket key start len buf s =
     (case GetObject c bucket key (GetObjectRequestRange start len) buf s of
        ((outcome, buf), s) \<Rightarrow> ((s3_status outcome, buf), s))"

text \<open>An upload sends the whole buffer, whatever the size is.\<close>

definition S3_UpLoad :: "'s s3_client \<Rightarrow> string \<Rightarrow> key \<Rightarrow> nat \<Rightarrow> bytes \<Rightarrow> json_headers \<Rightarrow> 's \<Rightarrow> int \<times> 's" where
  "S3_UpLoad c bucket key len buf headers s =
     (case PutObject c bucket key headers buf s of
        (outcome, s) \<Rightarrow> (case outcome of IsSuccess _ \<Rightarrow> OK | _ \<Rightarrow> S3_INTERNAL_ERROR, s))"

definition S3_Delete :: "'s s3_client \<Rightarrow> string \<Rightarrow> key \<Rightarrow> 's \<Rightarrow> int \<times> 's" where
  "S3_Delete c bucket key s = (case DeleteObject c bucket key s of (outcome, s) \<Rightarrow> (s3_status outcome, s))"

definition S3_Head ::
    "'s s3_client \<Rightarrow> string \<Rightarrow> key \<Rightarrow> nat \<Rightarrow> json_headers \<Rightarrow> 's \<Rightarrow> (int \<times> nat \<times> json_headers) \<times> 's" where
  "S3_Head c bucket key size0 headers0 s =
     (case HeadObject c bucket key s of
        (outcome, s) \<Rightarrow>
          (case outcome of IsSuccess (headers, len) \<Rightarrow> ((OK, len, headers), s)
           | _ \<Rightarrow> ((s3_status outcome, size0, headers0), s)))"

text \<open>
  The two numbers of an HTTP byte range are its first and its last byte: the range asks for one byte more
  than the caller wants, so the callers allocate their buffers with padding.
\<close>

definition byte_range_length :: "nat \<Rightarrow> nat \<Rightarrow> nat" where
  "byte_range_length first_byte last_byte = last_byte + 1 - first_byte"

lemma GetObjectRequestRange_one_more:
  "\<exists>a b. GetObjectRequestRange offset len = ''bytes='' @ to_string a @ ''-'' @ to_string b \<and> byte_range_length a b = len + 1"
  by (intro exI [of _ offset] exI [of _ "offset + len"]) (simp add: GetObjectRequestRange_def byte_range_length_def)

end
