(* ===== verification/Fd_Page.thy ===== *)
theory Fd_Page
  imports Prelude
begin

section \<open>The page list of a cached file (\<^verbatim>\<open>s3fs/fdcache_page.h\<close>, \<^verbatim>\<open>fdcache_page.cpp\<close>)\<close>

text \<open>
  \<^verbatim>\<open>PageList\<close> says of every byte of a cached file whether it is loaded and whether it is modified.  It is
  a vector of areas; its methods cut, extend and merge them in place, here functions from list to list.
  What the list means is \<open>spread\<close>: the two flags of every byte, in order.  \<open>tiled a\<close> says that the areas
  follow each other from \<open>a\<close> without gaps; \<open>page_list_ok\<close>, that the list tiles the file and has no empty
  area, except as the whole list of an empty file.  Each method is shown to keep it and to do to the flags
  of the bytes what its caller expects.  Offsets are \<^verbatim>\<open>off_t\<close>, 63 bits and a sign, taken as \<open>int\<close>: sums
  of two offsets of a file do not reach the bound.
\<close>

record fdpage =
  offset :: int
  bytes :: int
  loaded :: bool
  modified :: bool

definition fdpage :: "int \<Rightarrow> int \<Rightarrow> bool \<Rightarrow> bool \<Rightarrow> fdpage" where
  "fdpage start n is_loaded is_modified = \<lparr>offset = start, bytes = n, loaded = is_loaded, modified = is_modified\<rparr>"

definition page_next :: "fdpage \<Rightarrow> int" where
  "page_next p = offset p + bytes p"

definition page_end :: "fdpage \<Rightarrow> int" where
  "page_end p = (if 0 < bytes p then offset p + bytes p - 1 else 0)"

record PageList =
  pages :: "fdpage list"
  is_shrink :: bool

datatype page_status = NOT_LOAD_MODIFIED | LOADED | MODIFIED | LOAD_MODIFIED

lemma fdpage_sel [simp]:
  "offset (fdpage s n l m) = s" "bytes (fdpage s n l m) = n" "loaded (fdpage s n l m) = l" "modified (fdpage s n l m) = m"
  by (simp_all add: fdpage_def)

subsection \<open>The methods\<close>

definition PL_Clear :: "PageList \<Rightarrow> PageList" where
  "PL_Clear pl = pl\<lparr>pages := [], is_shrink := False\<rparr>"

definition PL_Init :: "int \<Rightarrow> bool \<Rightarrow> bool \<Rightarrow> PageList \<Rightarrow> PageList" where
  "PL_Init n is_loaded is_modified pl =
     (let pl = PL_Clear pl
      in if 0 \<le> n then pl\<lparr>pages := pages pl @ [fdpage 0 n is_loaded is_modified]\<rparr> else pl)"

definition PL_Size :: "PageList \<Rightarrow> int" where
  "PL_Size pl = (if pages pl = [] then 0 else page_next (last (pages pl)))"

text \<open>
  \<^verbatim>\<open>Compress\<close>: \<open>last\<close> is the area \<^verbatim>\<open>lastpage\<close> points to, the list what follows it.  A gap becomes an area
  with both flags false, or part of the area before it when that has none set.
\<close>

fun compress_from :: "fdpage \<Rightarrow> fdpage list \<Rightarrow> fdpage list" where
  "compress_from lastp [] = [lastp]"
| "compress_from lastp (p # ps) =
     (if page_next lastp \<noteq> offset p
      then (if loaded lastp \<or> modified lastp
            then (let tmp = fdpage (page_next lastp) (offset p - page_next lastp) False False
                  in lastp # (if loaded tmp = loaded p \<and> modified tmp = modified p
                              then compress_from (tmp\<lparr>bytes := bytes tmp + bytes p\<rparr>) ps
                              else tmp # compress_from p ps))
            else (let lastp = lastp\<lparr>bytes := offset p - offset lastp\<rparr>
                  in if loaded lastp = loaded p \<and> modified lastp = modified p
                     then compress_from (lastp\<lparr>bytes := bytes lastp + bytes p\<rparr>) ps
                     else lastp # compress_from p ps))
      else (if loaded lastp = loaded p \<and> modified lastp = modified p
            then compress_from (lastp\<lparr>bytes := bytes lastp + bytes p\<rparr>) ps
            else lastp # compress_from p ps))"

fun compress_pages :: "fdpage list \<Rightarrow> fdpage list" where
  "compress_pages [] = []"
| "compress_pages (p # ps) = compress_from p ps"

definition PL_Compress :: "PageList \<Rightarrow> PageList" where
  "PL_Compress pl = pl\<lparr>pages := compress_pages (pages pl)\<rparr>"

fun parse_pages :: "int \<Rightarrow> fdpage list \<Rightarrow> bool \<times> fdpage list" where
  "parse_pages new_pos [] = (False, [])"
| "parse_pages new_pos (p # ps) =
     (if new_pos = offset p then (True, p # ps)
      else if offset p < new_pos \<and> new_pos < page_next p
      then (True, fdpage (offset p) (new_pos - offset p) (loaded p) (modified p) #
                  p\<lparr>bytes := bytes p - (new_pos - offset p), offset := new_pos\<rparr> # ps)
      else (case parse_pages new_pos ps of (found, ps) \<Rightarrow> (found, p # ps)))"

definition PL_Parse :: "int \<Rightarrow> PageList \<Rightarrow> PageList" where
  "PL_Parse new_pos pl = pl\<lparr>pages := snd (parse_pages new_pos (pages pl))\<rparr>"

text \<open>\<^verbatim>\<open>Resize\<close> to less cuts: an area is looked at again after it was shortened, and then kept.\<close>

fun cut_pages :: "int \<Rightarrow> fdpage list \<Rightarrow> fdpage list" where
  "cut_pages n [] = []"
| "cut_pages n (p # ps) =
     (if page_next p \<le> n then p # cut_pages n ps
      else if n \<le> offset p then cut_pages n ps
      else p\<lparr>bytes := n - offset p\<rparr> # cut_pages n ps)"

definition PL_Resize :: "int \<Rightarrow> bool \<Rightarrow> bool \<Rightarrow> PageList \<Rightarrow> PageList" where
  "PL_Resize n is_loaded is_modified pl =
     (let total = PL_Size pl;
          pl = (if total = 0 then (PL_Init n is_loaded is_modified pl)\<lparr>is_shrink := is_shrink pl\<rparr>
                else if total < n then pl\<lparr>pages := pages pl @ [fdpage total (n - total) is_loaded is_modified]\<rparr>
                else if n < total
                then pl\<lparr>pages := cut_pages n (pages pl), is_shrink := (if is_modified then True else is_shrink pl)\<rparr>
                else pl)
      in PL_Compress pl)"

definition PageList_new :: "int \<Rightarrow> bool \<Rightarrow> bool \<Rightarrow> bool \<Rightarrow> PageList" where
  "PageList_new n is_loaded is_modified shrinked = PL_Init n is_loaded is_modified \<lparr>pages = [], is_shrink = shrinked\<rparr>"

fun mark_pages :: "int \<Rightarrow> int \<Rightarrow> bool \<Rightarrow> bool \<Rightarrow> fdpage list \<Rightarrow> fdpage list" where
  "mark_pages start n is_loaded is_modified [] = []"
| "mark_pages start n is_loaded is_modified (p # ps) =
     (if page_end p < start then p # mark_pages start n is_loaded is_modified ps
      else if start + n \<le> offset p then p # ps
      else p\<lparr>loaded := is_loaded, modified := is_modified\<rparr> # mark_pages start n is_loaded is_modified ps)"

definition PL_SetPageLoadedStatus :: "int \<Rightarrow> int \<Rightarrow> page_status \<Rightarrow> bool \<Rightarrow> PageList \<Rightarrow> PageList" where
  "PL_SetPageLoadedStatus start n pstatus is_compress pl =
     (let now_size = PL_Size pl;
          is_loaded = (pstatus = LOAD_MODIFIED \<or> pstatus = LOADED);
          is_modified = (pstatus = LOAD_MODIFIED \<or> pstatus = MODIFIED);
          pl = (if now_size \<le> start
                then PL_Resize (start + n) is_loaded is_modified
                       (if now_size < start then PL_Resize start False is_modified pl else pl)
                else if now_size \<le> start + n
                then PL_Resize (start + n) is_loaded is_modified (PL_Resize start False False pl)
                else (let pl = PL_Parse (start + n) (PL_Parse start pl)
                      in pl\<lparr>pages := mark_pages start n is_loaded is_modified (pages pl)\<rparr>))
      in if is_compress then PL_Compress pl else pl)"

definition PL_BytesModified :: "PageList \<Rightarrow> int" where
  "PL_BytesModified pl = fold (\<lambda>p total. if modified p then total + bytes p else total) (pages pl) 0"

definition PL_IsModified :: "PageList \<Rightarrow> bool" where
  "PL_IsModified pl = (is_shrink pl \<or> (\<exists>p \<in> set (pages pl). modified p))"

definition PL_ClearAllModified :: "PageList \<Rightarrow> PageList" where
  "PL_ClearAllModified pl =
     PL_Compress (pl\<lparr>is_shrink := False, pages := map (\<lambda>p. if modified p then p\<lparr>modified := False\<rparr> else p) (pages pl)\<rparr>)"

subsection \<open>What a page list means\<close>

definition flags :: "fdpage \<Rightarrow> bool \<times> bool" where
  "flags p = (loaded p, modified p)"

fun spread :: "fdpage list \<Rightarrow> (bool \<times> bool) list" where
  "spread [] = []"
| "spread (p # ps) = replicate (nat (bytes p)) (flags p) @ spread ps"

fun tiled :: "int \<Rightarrow> fdpage list \<Rightarrow> bool" where
  "tiled a [] = True"
| "tiled a (p # ps) = (offset p = a \<and> 0 \<le> bytes p \<and> tiled (page_next p) ps)"

definition all_positive :: "fdpage list \<Rightarrow> bool" where
  "all_positive ps = (\<forall>p \<in> set ps. 0 < bytes p)"

definition page_list_ok :: "PageList \<Rightarrow> bool" where
  "page_list_ok pl = (tiled 0 (pages pl) \<and>
     (all_positive (pages pl) \<or> (\<exists>p. pages pl = [p] \<and> bytes p = 0)))"

lemma spread_append [simp]: "spread (xs @ ys) = spread xs @ spread ys"
  by (induction xs) auto

lemma tiled_append [simp]: "tiled a (xs @ ys) = (tiled a xs \<and> tiled (a + int (length (spread xs))) ys)"
  by (induction xs arbitrary: a) (auto simp: page_next_def ac_simps)

lemma all_positive_simps [simp]:
  "all_positive []" "all_positive (p # ps) = (0 < bytes p \<and> all_positive ps)"
  "all_positive (xs @ ys) = (all_positive xs \<and> all_positive ys)"
  by (auto simp: all_positive_def)

lemma tiled_last: "tiled a ps \<Longrightarrow> ps \<noteq> [] \<Longrightarrow> page_next (last ps) = a + int (length (spread ps))"
  by (induction ps arbitrary: a) (auto simp: page_next_def)

lemma tiled_within: "tiled a ps \<Longrightarrow> p \<in> set ps \<Longrightarrow> a \<le> offset p \<and> page_next p \<le> a + int (length (spread ps))"
proof (induction ps arbitrary: a)
  case (Cons q ps)
  then show ?case by (cases "p = q") (fastforce simp: page_next_def)+
qed simp

lemma Size_spread: "tiled 0 (pages pl) \<Longrightarrow> PL_Size pl = int (length (spread (pages pl)))"
  by (simp add: PL_Size_def tiled_last)

lemma nth_spread_Cons:
  "spread (p # ps) ! i = (if i < nat (bytes p) then flags p else spread ps ! (i - nat (bytes p)))"
  by (simp add: nth_append)

subsection \<open>Compress\<close>

lemma compress_from_law:
  "tiled a (lastp # ps) \<Longrightarrow>
     tiled a (compress_from lastp ps) \<and> spread (compress_from lastp ps) = spread (lastp # ps) \<and>
     distinct_adj (map flags (compress_from lastp ps)) \<and> flags (hd (compress_from lastp ps)) = flags lastp \<and>
     compress_from lastp ps \<noteq> []"
proof (induction lastp ps arbitrary: a rule: compress_from.induct)
  case (2 lastp p ps)
  let ?m = "lastp\<lparr>bytes := bytes lastp + bytes p\<rparr>"
  from "2.prems" have o: "page_next lastp = offset p" and t: "tiled a (?m # ps)" "tiled (page_next lastp) (p # ps)"
    by (auto simp: page_next_def ac_simps)
  show ?case
  proof (cases "loaded lastp = loaded p \<and> modified lastp = modified p")
    case True
    have "replicate (nat (bytes lastp + bytes p)) (flags p) = replicate (nat (bytes lastp)) (flags p) @ replicate (nat (bytes p)) (flags p)"
      using "2.prems" by (simp add: nat_add_distrib replicate_add)
    with True "2.IH" (5) [of a] o t(1) show ?thesis by (simp add: flags_def)
  next
    case False
    with "2.IH" (6) [of "page_next lastp"] o t(2) "2.prems" show ?thesis
      by (auto simp: flags_def distinct_adj_Cons hd_map)
  qed
qed simp

lemma compress_from_positive:
  "tiled a (lastp # ps) \<Longrightarrow> 0 < bytes lastp \<Longrightarrow> all_positive ps \<Longrightarrow> all_positive (compress_from lastp ps)"
proof (induction lastp ps arbitrary: a rule: compress_from.induct)
  case (2 lastp p ps)
  from "2.prems" have o: "page_next lastp = offset p" and t: "tiled a (lastp\<lparr>bytes := bytes lastp + bytes p\<rparr> # ps)"
    by (auto simp: page_next_def ac_simps)
  then show ?case using "2.prems" "2.IH" (5) [of a] "2.IH" (6) [of "page_next lastp"] by auto
qed simp

lemma compress_pages_law:
  "tiled a ps \<Longrightarrow> tiled a (compress_pages ps) \<and> spread (compress_pages ps) = spread ps \<and>
     distinct_adj (map flags (compress_pages ps)) \<and> (all_positive ps \<longrightarrow> all_positive (compress_pages ps))"
  using compress_from_law compress_from_positive by (cases ps) auto

lemma page_list_okI: "tiled 0 (pages pl) \<Longrightarrow> all_positive (pages pl) \<Longrightarrow> page_list_ok pl"
  by (simp add: page_list_ok_def)

lemma Compress_law:
  assumes "page_list_ok pl"
  shows "page_list_ok (PL_Compress pl) \<and> spread (pages (PL_Compress pl)) = spread (pages pl) \<and>
    distinct_adj (map flags (pages (PL_Compress pl))) \<and> is_shrink (PL_Compress pl) = is_shrink pl"
proof -
  have t: "tiled 0 (pages pl)" using assms by (simp add: page_list_ok_def)
  show ?thesis using compress_pages_law [OF t] assms by (auto simp: PL_Compress_def page_list_ok_def)
qed

subsection \<open>Cutting at a position\<close>

definition boundary :: "int \<Rightarrow> fdpage list \<Rightarrow> bool" where
  "boundary pos ps = (\<forall>p \<in> set ps. page_next p \<le> pos \<or> pos \<le> offset p)"

lemma boundary_simps [simp]:
  "boundary pos []" "boundary pos (p # ps) = ((page_next p \<le> pos \<or> pos \<le> offset p) \<and> boundary pos ps)"
  by (auto simp: boundary_def)

lemma boundary_before: "tiled a ps \<Longrightarrow> pos \<le> a \<Longrightarrow> boundary pos ps"
  by (auto simp: boundary_def dest: tiled_within)

lemma parse_pages_law:
  assumes "tiled a ps" and "all_positive ps"
  shows "tiled a (snd (parse_pages pos ps)) \<and> all_positive (snd (parse_pages pos ps)) \<and>
    spread (snd (parse_pages pos ps)) = spread ps \<and> boundary pos (snd (parse_pages pos ps)) \<and>
    (boundary b ps \<longrightarrow> boundary b (snd (parse_pages pos ps)))"
  using assms
proof (induction ps arbitrary: a)
  case (Cons p ps)
  note IH = Cons.IH [of "page_next p"]
  consider "pos = offset p" | "offset p < pos" "pos < page_next p" | "pos \<noteq> offset p" "\<not> (offset p < pos \<and> pos < page_next p)" by blast
  then show ?case
  proof cases
    case 1
    with Cons.prems show ?thesis by (auto simp: page_next_def intro: boundary_before)
  next
    case 2
    have "replicate (nat (bytes p)) (flags p) =
        replicate (nat (pos - offset p)) (flags p) @ replicate (nat (bytes p - (pos - offset p))) (flags p)"
      using 2 by (simp add: page_next_def flip: replicate_add nat_add_distrib)
    moreover have "boundary pos ps" using Cons.prems 2 by (auto intro: boundary_before)
    ultimately show ?thesis using Cons.prems 2 by (auto simp: page_next_def flags_def add.commute)
  next
    case 3
    with IH Cons.prems show ?thesis by (auto split: prod.splits)
  qed
qed simp

lemma cut_pages_after: "tiled b ps \<Longrightarrow> n < b \<Longrightarrow> cut_pages n ps = []"
proof (induction ps arbitrary: b)
  case (Cons q qs)
  then have "tiled (page_next q) qs" "n < page_next q" "\<not> page_next q \<le> n" "n \<le> offset q" by (auto simp: page_next_def)
  with Cons.IH show ?case by simp
qed simp

lemma cut_pages_law:
  assumes "tiled a ps" and "all_positive ps"
  shows "tiled a (cut_pages n ps) \<and> all_positive (cut_pages n ps) \<and> spread (cut_pages n ps) = take (nat (n - a)) (spread ps)"
  using assms
proof (induction ps arbitrary: a)
  case (Cons p ps)
  note IH = Cons.IH [of "page_next p"]
  consider "page_next p \<le> n" | "n < page_next p" "n \<le> offset p" | "n < page_next p" "offset p < n" by linarith
  then show ?case
  proof cases
    case 1
    have "nat (n - page_next p) = nat (n - a) - nat (bytes p)" "nat (bytes p) \<le> nat (n - a)"
      using 1 Cons.prems by (auto simp: page_next_def)
    with 1 IH Cons.prems show ?thesis by simp
  next
    case 2
    with Cons.prems have "cut_pages n ps = []" by (auto intro: cut_pages_after)
    with 2 Cons.prems show ?thesis by simp
  next
    case 3
    with Cons.prems have "cut_pages n ps = []" by (auto intro: cut_pages_after)
    moreover have "nat (n - a) \<le> nat (bytes p)" using 3 Cons.prems by (auto simp: page_next_def)
    ultimately show ?thesis using 3 Cons.prems by (simp add: flags_def)
  qed
qed simp

subsection \<open>Resize\<close>

lemma page_list_ok_cases:
  assumes "page_list_ok pl"
  obtains (empty) "spread (pages pl) = []" "PL_Size pl = 0" | (pos) "all_positive (pages pl)" "tiled 0 (pages pl)" "0 < PL_Size pl"
proof (cases "spread (pages pl) = []")
  case True
  then show ?thesis using assms Size_spread [of pl] empty by (simp add: page_list_ok_def)
next
  case False
  then have "all_positive (pages pl)" using assms by (auto simp: page_list_ok_def)
  then show ?thesis using False assms Size_spread [of pl] pos by (simp add: page_list_ok_def)
qed

lemma Size_ok: "page_list_ok pl \<Longrightarrow> PL_Size pl = int (length (spread (pages pl)))"
  by (simp add: page_list_ok_def Size_spread)

definition resize_flags :: "nat \<Rightarrow> bool \<times> bool \<Rightarrow> (bool \<times> bool) list \<Rightarrow> (bool \<times> bool) list" where
  "resize_flags n f xs = take n xs @ replicate (n - length xs) f"

lemma length_resize_flags [simp]: "length (resize_flags n f xs) = n"
  by (simp add: resize_flags_def min_def)

lemma nth_resize_flags: "i < n \<Longrightarrow> resize_flags n f xs ! i = (if i < length xs then xs ! i else f)"
  by (auto simp: resize_flags_def nth_append min_def)

lemma Init_law:
  "0 \<le> n \<Longrightarrow> page_list_ok (PL_Init n l m pl) \<and> spread (pages (PL_Init n l m pl)) = replicate (nat n) (l, m)"
  by (auto simp: PL_Init_def PL_Clear_def page_list_ok_def flags_def all_positive_def Let_def)

lemma ok_shrink_update [simp]: "page_list_ok (pl\<lparr>is_shrink := b\<rparr>) = page_list_ok pl"
  by (simp add: page_list_ok_def)

lemma Resize_law:
  assumes ok: "page_list_ok pl" and n: "0 \<le> n"
  shows "page_list_ok (PL_Resize n l m pl) \<and>
    spread (pages (PL_Resize n l m pl)) = resize_flags (nat n) (l, m) (spread (pages pl)) \<and>
    is_shrink (PL_Resize n l m pl) = (is_shrink pl \<or> n < PL_Size pl \<and> m) \<and>
    distinct_adj (map flags (pages (PL_Resize n l m pl)))"
  using ok
proof (cases rule: page_list_ok_cases)
  case empty
  define pl' where "pl' = (PL_Init n l m pl)\<lparr>is_shrink := is_shrink pl\<rparr>"
  have "PL_Resize n l m pl = PL_Compress pl'" using empty by (simp add: PL_Resize_def pl'_def Let_def)
  moreover have "page_list_ok pl'" "spread (pages pl') = replicate (nat n) (l, m)" "is_shrink pl' = is_shrink pl"
    using Init_law [OF n] by (simp_all add: pl'_def)
  ultimately show ?thesis using Compress_law [of pl'] empty n by (simp add: resize_flags_def)
next
  case pos
  define pl' where "pl' = (if PL_Size pl < n then pl\<lparr>pages := pages pl @ [fdpage (PL_Size pl) (n - PL_Size pl) l m]\<rparr>
                else if n < PL_Size pl
                then pl\<lparr>pages := cut_pages n (pages pl), is_shrink := (if m then True else is_shrink pl)\<rparr> else pl)"
  have r: "PL_Resize n l m pl = PL_Compress pl'" using pos by (simp add: PL_Resize_def pl'_def Let_def)
  have z: "PL_Size pl = int (length (spread (pages pl)))" by (rule Size_ok [OF ok])
  have "tiled 0 (pages pl') \<and> all_positive (pages pl') \<and> spread (pages pl') = resize_flags (nat n) (l, m) (spread (pages pl)) \<and>
      is_shrink pl' = (is_shrink pl \<or> n < PL_Size pl \<and> m)"
  proof (cases "PL_Size pl < n")
    case True
    have "nat (n - int k) = nat n - k" for k using n by (simp add: nat_diff_distrib)
    with True pos z show ?thesis by (simp add: pl'_def resize_flags_def flags_def)
  next
    case False
    then show ?thesis using cut_pages_law [of 0 "pages pl" n] pos z by (auto simp: pl'_def resize_flags_def)
  qed
  with r Compress_law [OF page_list_okI, of pl'] show ?thesis by simp
qed

subsection \<open>Setting the flags of an area\<close>

lemma mark_pages_law:
  assumes "tiled a ps" and "all_positive ps" and "boundary start ps" and "boundary (start + n) ps" and "0 \<le> n"
  shows "tiled a (mark_pages start n l m ps) \<and> all_positive (mark_pages start n l m ps) \<and>
    length (spread (mark_pages start n l m ps)) = length (spread ps) \<and>
    (\<forall>i < length (spread ps). spread (mark_pages start n l m ps) ! i =
       (if start \<le> a + int i \<and> a + int i < start + n then (l, m) else spread ps ! i))"
  using assms
proof (induction ps arbitrary: a)
  case (Cons p ps)
  let ?q = "p\<lparr>loaded := l, modified := m\<rparr>"
  have IH: "tiled (page_next p) (mark_pages start n l m ps)" "all_positive (mark_pages start n l m ps)"
    "length (spread (mark_pages start n l m ps)) = length (spread ps)"
    "\<And>i. i < length (spread ps) \<Longrightarrow> spread (mark_pages start n l m ps) ! i =
       (if start \<le> page_next p + int i \<and> page_next p + int i < start + n then (l, m) else spread ps ! i)"
    using Cons.IH [of "page_next p"] Cons.prems by auto
  have tail: "spread (mark_pages start n l m ps) ! (i - nat (bytes p)) =
       (if start \<le> a + int i \<and> a + int i < start + n then (l, m) else spread ps ! (i - nat (bytes p)))"
    if "i < nat (bytes p) + length (spread ps)" "nat (bytes p) \<le> i" for i
  proof -
    have "page_next p + int (i - nat (bytes p)) = a + int i" using Cons.prems that by (simp add: page_next_def)
    then show ?thesis using that IH(4) [of "i - nat (bytes p)"] by simp
  qed
  consider "page_end p < start" | "start \<le> page_end p" "start + n \<le> offset p" | "start \<le> page_end p" "offset p < start + n" by linarith
  then show ?case
  proof cases
    case 1
    then have "\<not> start \<le> a + int i" if "i < nat (bytes p)" for i
      using Cons.prems that by (auto simp: page_end_def)
    with 1 IH(1-3) tail Cons.prems show ?thesis by (simp add: nth_append)
  next
    case 2
    with Cons.prems show ?thesis by auto
  next
    case 3
    then have "start \<le> offset p" "page_next p \<le> start + n" using Cons.prems by (auto simp: page_end_def page_next_def)
    then have "start \<le> a + int i \<and> a + int i < start + n" if "i < nat (bytes p)" for i
      using Cons.prems that by (auto simp: page_next_def)
    with 3 IH(1-3) tail Cons.prems show ?thesis by (simp add: nth_append flags_def page_next_def)
  qed
qed simp

definition status_flags :: "page_status \<Rightarrow> bool \<times> bool" where
  "status_flags st = (st = LOAD_MODIFIED \<or> st = LOADED, st = LOAD_MODIFIED \<or> st = MODIFIED)"

text \<open>The flags expected: \<open>f\<close> in the area, and between the old end and the area not loaded.\<close>

definition set_flags :: "nat \<Rightarrow> nat \<Rightarrow> bool \<times> bool \<Rightarrow> (bool \<times> bool) list \<Rightarrow> (bool \<times> bool) list" where
  "set_flags start n f xs = blit (xs @ replicate (start - length xs) (False, snd f)) start (replicate n f)"

lemma length_set_flags [simp]: "length (set_flags start n f xs) = max (length xs) (start + n)"
  by (auto simp: set_flags_def blit_def max_def)

lemma nth_set_flags:
  "i < max (length xs) (start + n) \<Longrightarrow> set_flags start n f xs ! i =
     (if start \<le> i \<and> i < start + n then f else if i < length xs then xs ! i else (False, snd f))"
  by (auto simp: set_flags_def blit_def nth_append max_def split: if_splits)

lemma set_flags_grow:
  "length xs \<le> start + n \<Longrightarrow> set_flags start n f xs = resize_flags (start + n) f (resize_flags start (False, snd f) xs)"
  by (rule nth_equalityI) (auto simp: nth_set_flags nth_resize_flags)

lemma SetPageLoadedStatus_law:
  assumes ok: "page_list_ok pl" and nn: "0 \<le> start" "0 \<le> n"
  shows "page_list_ok (PL_SetPageLoadedStatus start n st c pl) \<and>
    spread (pages (PL_SetPageLoadedStatus start n st c pl)) =
      set_flags (nat start) (nat n) (status_flags st) (spread (pages pl)) \<and>
    (c \<longrightarrow> distinct_adj (map flags (pages (PL_SetPageLoadedStatus start n st c pl)))) \<and>
    (is_shrink pl \<longrightarrow> is_shrink (PL_SetPageLoadedStatus start n st c pl))"
proof -
  obtain l m where f: "status_flags st = (l, m)" by (rule prod.exhaust)
  then have lm: "(st = LOAD_MODIFIED \<or> st = LOADED) = l" "(st = LOAD_MODIFIED \<or> st = MODIFIED) = m" by (auto simp: status_flags_def)
  let ?xs = "spread (pages pl)"
  have z: "PL_Size pl = int (length ?xs)" by (rule Size_ok [OF ok])
  have sum: "nat (start + n) = nat start + nat n" using nn by (simp add: nat_add_distrib)
  define pl' where "pl' = (if PL_Size pl \<le> start
                then PL_Resize (start + n) l m (if PL_Size pl < start then PL_Resize start False m pl else pl)
                else if PL_Size pl \<le> start + n
                then PL_Resize (start + n) l m (PL_Resize start False False pl)
                else (let pl = PL_Parse (start + n) (PL_Parse start pl)
                      in pl\<lparr>pages := mark_pages start n l m (pages pl)\<rparr>))"
  have r: "PL_SetPageLoadedStatus start n st c pl = (if c then PL_Compress pl' else pl')"
    by (simp only: PL_SetPageLoadedStatus_def Let_def lm pl'_def)
  have "page_list_ok pl' \<and> spread (pages pl') = set_flags (nat start) (nat n) (l, m) ?xs \<and> (is_shrink pl \<longrightarrow> is_shrink pl')"
  proof (cases "PL_Size pl \<le> start + n")
    case True
    define pl0 where "pl0 = (if PL_Size pl < start then PL_Resize start False m pl else if PL_Size pl = start then pl
      else PL_Resize start False False pl)"
    have "pl' = PL_Resize (start + n) l m pl0" using True by (auto simp: pl'_def pl0_def)
    moreover have "page_list_ok pl0 \<and> spread (pages pl0) = resize_flags (nat start) (False, m) ?xs \<and> (is_shrink pl \<longrightarrow> is_shrink pl0)"
      using Resize_law [OF ok nn(1), of False m] Resize_law [OF ok nn(1), of False False] ok z
      by (auto simp: pl0_def resize_flags_def)
    moreover have "length ?xs \<le> nat start + nat n" using True z nn by linarith
    ultimately show ?thesis using Resize_law [of pl0 "start + n" l m] nn by (simp add: sum set_flags_grow)
  next
    case False
    have pos: "all_positive (pages pl)" "tiled 0 (pages pl)" using ok False nn by (cases rule: page_list_ok_cases; linarith)+
    define ps where "ps = snd (parse_pages (start + n) (snd (parse_pages start (pages pl))))"
    have ps: "tiled 0 ps" "all_positive ps" "spread ps = ?xs" "boundary start ps" "boundary (start + n) ps"
      using parse_pages_law [OF pos(2,1), of start start]
        parse_pages_law [of 0 "snd (parse_pages start (pages pl))" "start + n" start] by (simp_all add: ps_def)
    have "pl' = pl\<lparr>pages := mark_pages start n l m ps\<rparr>" using False nn by (simp add: pl'_def PL_Parse_def ps_def Let_def)
    moreover note M = mark_pages_law [OF ps(1,2,4,5) nn(2), of l m]
    moreover have "spread (mark_pages start n l m ps) = set_flags (nat start) (nat n) (l, m) ?xs"
      using M ps(3) False z nn by (intro nth_equalityI) (auto simp: nth_set_flags nat_le_iff zless_nat_eq_int_zless)
    ultimately show ?thesis by (simp add: page_list_ok_def)
  qed
  then show ?thesis using Compress_law [of pl'] r f by (cases c) simp_all
qed

subsection \<open>The modified bytes\<close>

lemma BytesModified_spread:
  assumes "tiled a (pages pl)"
  shows "PL_BytesModified pl = int (length (filter snd (spread (pages pl))))"
proof -
  have "fold (\<lambda>p total. if modified p then total + bytes p else total) ps t = t + int (length (filter snd (spread ps)))"
    if "tiled a ps" for ps t
    using that by (induction ps arbitrary: a t) (auto simp: flags_def filter_replicate)
  then show ?thesis using assms by (simp add: PL_BytesModified_def)
qed

lemma spread_map_flags:
  assumes "\<And>p. bytes (f p) = bytes p" and "\<And>p. flags (f p) = g (flags p)"
  shows "spread (map f ps) = map g (spread ps)"
  by (induction ps) (simp_all add: assms)

lemma tiled_map:
  assumes "\<And>p. bytes (f p) = bytes p" and "\<And>p. offset (f p) = offset p"
  shows "tiled a (map f ps) = tiled a ps"
  by (induction ps arbitrary: a) (simp_all add: assms page_next_def)

lemma all_positive_map: "(\<And>p. bytes (f p) = bytes p) \<Longrightarrow> all_positive (map f ps) = all_positive ps"
  by (simp add: all_positive_def)

definition unmodified :: "fdpage list \<Rightarrow> bool" where
  "unmodified ps = (\<forall>p \<in> set ps. \<not> modified p)"

lemma unmodified_simps [simp]: "unmodified []" "unmodified (p # ps) = (\<not> modified p \<and> unmodified ps)"
  by (auto simp: unmodified_def)

lemma compress_from_unmodified:
  "tiled a (lastp # ps) \<Longrightarrow> unmodified (lastp # ps) \<Longrightarrow> unmodified (compress_from lastp ps)"
proof (induction lastp ps arbitrary: a rule: compress_from.induct)
  case (2 lastp p ps)
  from "2.prems" have o: "page_next lastp = offset p" and t: "tiled a (lastp\<lparr>bytes := bytes lastp + bytes p\<rparr> # ps)"
    by (auto simp: page_next_def ac_simps)
  then show ?case using "2.prems" "2.IH" (5) [of a] "2.IH" (6) [of "page_next lastp"] by auto
qed simp

lemma ClearAllModified_law:
  assumes "page_list_ok pl"
  shows "page_list_ok (PL_ClearAllModified pl) \<and>
    spread (pages (PL_ClearAllModified pl)) = map (\<lambda>(l, m). (l, False)) (spread (pages pl)) \<and>
    \<not> PL_IsModified (PL_ClearAllModified pl)"
proof -
  define f :: "fdpage \<Rightarrow> fdpage" where "f p = (if modified p then p\<lparr>modified := False\<rparr> else p)" for p
  define pl' where "pl' = pl\<lparr>is_shrink := False, pages := map f (pages pl)\<rparr>"
  have f: "bytes (f p) = bytes p" "offset (f p) = offset p" "flags (f p) = (case flags p of (l, m) \<Rightarrow> (l, False))" for p
    by (simp_all add: f_def flags_def)
  have "tiled 0 (pages pl') = tiled 0 (pages pl)" "all_positive (pages pl') = all_positive (pages pl)"
    by (simp_all add: pl'_def tiled_map f all_positive_map)
  then have ok: "page_list_ok pl'" using assms f(1) by (auto simp: page_list_ok_def pl'_def)
  have c: "PL_ClearAllModified pl = PL_Compress pl'" by (simp add: PL_ClearAllModified_def pl'_def f_def [abs_def])
  have "unmodified (compress_pages (pages pl'))" if "unmodified (pages pl')"
    using compress_from_unmodified [of 0] ok that by (cases "pages pl'") (auto simp: page_list_ok_def)
  moreover have "unmodified (pages pl')" by (auto simp: pl'_def f_def unmodified_def)
  ultimately have "\<not> PL_IsModified (PL_Compress pl')"
    by (simp add: PL_IsModified_def PL_Compress_def unmodified_def) (simp add: pl'_def)
  then show ?thesis using Compress_law [OF ok] c spread_map_flags [OF f(1,3), of "pages pl"] by (simp add: pl'_def)
qed

subsection \<open>Every page list the methods can make\<close>

inductive page_list_made :: "PageList \<Rightarrow> bool" where
  made_new: "0 \<le> n \<Longrightarrow> page_list_made (PageList_new n l m shrinked)"
| made_init: "page_list_made pl \<Longrightarrow> 0 \<le> n \<Longrightarrow> page_list_made (PL_Init n l m pl)"
| made_resize: "page_list_made pl \<Longrightarrow> 0 \<le> n \<Longrightarrow> page_list_made (PL_Resize n l m pl)"
| made_set: "page_list_made pl \<Longrightarrow> 0 \<le> start \<Longrightarrow> 0 \<le> n \<Longrightarrow> page_list_made (PL_SetPageLoadedStatus start n st c pl)"
| made_clear: "page_list_made pl \<Longrightarrow> page_list_made (PL_ClearAllModified pl)"
| made_compress: "page_list_made pl \<Longrightarrow> page_list_made (PL_Compress pl)"

text \<open>
  C38: whatever sequence of constructions, resizings, markings, clearings and compressions made a page list,
  its areas tile the file from offset 0 without gap, overlap or empty area (but for the one area of an
  empty file), and its size is the number of bytes it has flags for.
\<close>
theorem page_list_made_ok:
  assumes "page_list_made pl"
  shows "page_list_ok pl \<and> PL_Size pl = int (length (spread (pages pl)))"
proof -
  have "page_list_ok pl"
    using assms
  proof (induction rule: page_list_made.induct)
    case (made_new n l m shrinked)
    then show ?case using Init_law [of n l m] by (simp add: PageList_new_def)
  next
    case (made_init pl n l m)
    then show ?case using Init_law [of n l m pl] by simp
  next
    case (made_resize pl n l m)
    then show ?case using Resize_law [of pl n l m] by simp
  next
    case (made_set pl start n st c)
    then show ?case using SetPageLoadedStatus_law [of pl start n st c] by simp
  next
    case (made_clear pl)
    then show ?case using ClearAllModified_law [of pl] by simp
  next
    case (made_compress pl)
    then show ?case using Compress_law [of pl] by simp
  qed
  then show ?thesis using Size_ok [of pl] by simp
qed

definition demo_pages :: PageList where
  "demo_pages = PL_SetPageLoadedStatus 2 3 MODIFIED True (PL_SetPageLoadedStatus 4 6 LOADED True (PageList_new 8 False False False))"

lemma demo_pages_eq: "demo_pages = \<lparr>pages = [fdpage 0 2 False False, fdpage 2 3 False True, fdpage 5 5 True False], is_shrink = False\<rparr>"
  by code_simp

theorem page_list_made_ok_witness: "page_list_ok demo_pages \<and> PL_Size demo_pages = int (length (spread (pages demo_pages)))"
  by (rule page_list_made_ok) (simp add: demo_pages_def page_list_made.intros)

text \<open>
  C33: marking an area sets the flags of exactly the bytes of the area; the file grows to the end of the area
  when it ended before, and what lies between its old end and the area is then not loaded, and modified
  when the area is.
\<close>
theorem SetPageLoadedStatus_sets:
  assumes "page_list_ok pl" and "0 \<le> start" and "0 \<le> n"
    and "spread (pages pl) = xs" and "spread (pages (PL_SetPageLoadedStatus start n st c pl)) = ys"
  shows "length ys = max (length xs) (nat start + nat n) \<and>
    (\<forall>i < length ys. ys ! i =
       (if nat start \<le> i \<and> i < nat start + nat n then status_flags st
        else if i < length xs then xs ! i else (False, snd (status_flags st))))"
  using SetPageLoadedStatus_law [OF assms(1-3), of st c] assms(4,5) by (auto simp: nth_set_flags)

theorem SetPageLoadedStatus_sets_witness:
  "spread (pages (PL_SetPageLoadedStatus 1 2 LOADED True demo_pages)) ! 2 = (True, False)"
  using SetPageLoadedStatus_sets [where pl = demo_pages and start = 1 and n = 2 and st = LOADED and c = True, OF _ _ _ refl refl]
  by (simp add: demo_pages_eq page_list_ok_def page_next_def status_flags_def)

end
