(* ===== verification/Fd_Query.thy ===== *)
theory Fd_Query
  imports Fd_Page
begin

section \<open>Questions to a page list (\<^verbatim>\<open>s3fs/fdcache_page.cpp\<close>)\<close>

text \<open>
  What is loaded, what has still to be loaded and how many bytes that is, what has no local change.  The
  first group of lemmas says that the loops over the areas answer for exactly the bytes asked for; the
  last part is \<^verbatim>\<open>GetNoDataPageLists\<close>, whose compression of a list with gaps puts the gaps back in.
\<close>

subsection \<open>The methods\<close>

fun loaded_loop :: "int \<Rightarrow> int \<Rightarrow> fdpage list \<Rightarrow> bool" where
  "loaded_loop start n [] = True"
| "loaded_loop start n (p # ps) =
     (if page_end p < start then loaded_loop start n ps
      else if \<not> loaded p then False
      else if n \<noteq> 0 \<and> start + n \<le> page_next p then True
      else loaded_loop start n ps)"

definition PL_IsPageLoaded :: "int \<Rightarrow> int \<Rightarrow> PageList \<Rightarrow> bool" where
  "PL_IsPageLoaded start n pl = loaded_loop start n (pages pl)"

definition PL_FindUnloadedPage :: "int \<Rightarrow> PageList \<Rightarrow> (int \<times> int) option" where
  "PL_FindUnloadedPage start pl =
     map_option (\<lambda>p. (offset p, bytes p)) (find (\<lambda>p. start \<le> page_end p \<and> \<not> loaded p \<and> \<not> modified p) (pages pl))"

definition to_end :: "int \<Rightarrow> int \<Rightarrow> PageList \<Rightarrow> int" where
  "to_end start n pl = (if n = 0 \<and> start < PL_Size pl then PL_Size pl - start else n)"

fun unloaded_total :: "int \<Rightarrow> int \<Rightarrow> int \<Rightarrow> fdpage list \<Rightarrow> int \<Rightarrow> int" where
  "unloaded_total start nxt limit [] restsize = restsize"
| "unloaded_total start nxt limit (p # ps) restsize =
     (if page_next p \<le> start then unloaded_total start nxt limit ps restsize
      else if nxt \<le> offset p then restsize
      else if loaded p \<or> modified p then unloaded_total start nxt limit ps restsize
      else (let tmpsize = (if offset p \<le> start
                           then (if page_next p \<le> nxt then page_next p - start else nxt - start)
                           else (if page_next p \<le> nxt then page_next p - offset p else nxt - offset p))
            in unloaded_total start nxt limit ps
                 (if limit = 0 \<or> tmpsize < limit then restsize + tmpsize else restsize)))"

definition PL_GetTotalUnloadedPageSize :: "int \<Rightarrow> int \<Rightarrow> int \<Rightarrow> PageList \<Rightarrow> int" where
  "PL_GetTotalUnloadedPageSize start n limit_size pl =
     unloaded_total start (start + to_end start n pl) limit_size (pages pl) 0"

definition add_unloaded :: "int \<Rightarrow> int \<Rightarrow> fdpage list \<Rightarrow> fdpage list" where
  "add_unloaded page_start page_size acc =
     (if acc \<noteq> [] \<and> page_next (last acc) = page_start
      then butlast acc @ [(last acc)\<lparr>bytes := bytes (last acc) + page_size\<rparr>]
      else acc @ [fdpage page_start page_size False False])"

fun unloaded_loop :: "int \<Rightarrow> int \<Rightarrow> fdpage list \<Rightarrow> fdpage list \<Rightarrow> fdpage list" where
  "unloaded_loop start nxt [] acc = acc"
| "unloaded_loop start nxt (p # ps) acc =
     (if page_next p \<le> start then unloaded_loop start nxt ps acc
      else if nxt \<le> offset p then acc
      else if loaded p \<or> modified p then unloaded_loop start nxt ps acc
      else (let page_start = max (offset p) start; page_nxt = min (page_next p) nxt
            in unloaded_loop start nxt ps (add_unloaded page_start (page_nxt - page_start) acc)))"

definition PL_GetUnloadedPages :: "fdpage list \<Rightarrow> int \<Rightarrow> int \<Rightarrow> PageList \<Rightarrow> nat \<times> fdpage list" where
  "PL_GetUnloadedPages unloaded_list start n pl =
     (let acc = unloaded_loop start (start + to_end start n pl) (pages pl) unloaded_list in (length acc, acc))"

subsection \<open>The bytes of a list of areas\<close>

definition area :: "fdpage list \<Rightarrow> int set" where
  "area ps = (\<Union>p \<in> set ps. {offset p..<page_next p})"

lemma area_simps [simp]:
  "area [] = {}" "area (p # ps) = {offset p..<page_next p} \<union> area ps" "area (xs @ ys) = area xs \<union> area ys"
  by (auto simp: area_def)

text \<open>The bytes of a page list that have given flags.\<close>

definition bytes_with :: "(bool \<times> bool \<Rightarrow> bool) \<Rightarrow> PageList \<Rightarrow> int set" where
  "bytes_with P pl = {i. 0 \<le> i \<and> i < PL_Size pl \<and> P (spread (pages pl) ! nat i)}"

lemma bytes_with_pages:
  assumes "tiled 0 (pages pl)"
  shows "bytes_with P pl = area (filter (P \<circ> flags) (pages pl))"
proof -
  have "{i. a \<le> i \<and> i < a + int (length (spread ps)) \<and> P (spread ps ! nat (i - a))} = area (filter (P \<circ> flags) ps)"
    if "tiled a ps" for a ps
    using that
  proof (induction ps arbitrary: a)
    case (Cons p ps)
    have split: "{i. a \<le> i \<and> i < a + int (length (spread (p # ps))) \<and> P (spread (p # ps) ! nat (i - a))} =
        {i. offset p \<le> i \<and> i < page_next p \<and> P (flags p)} \<union>
        {i. page_next p \<le> i \<and> i < page_next p + int (length (spread ps)) \<and> P (spread ps ! nat (i - page_next p))}"
    proof (rule set_eqI)
      fix i
      have o: "offset p = a" "0 \<le> bytes p" using Cons.prems by auto
      show "i \<in> {i. a \<le> i \<and> i < a + int (length (spread (p # ps))) \<and> P (spread (p # ps) ! nat (i - a))} \<longleftrightarrow>
        i \<in> {i. offset p \<le> i \<and> i < page_next p \<and> P (flags p)} \<union>
        {i. page_next p \<le> i \<and> i < page_next p + int (length (spread ps)) \<and> P (spread ps ! nat (i - page_next p))}"
      proof (cases "i < page_next p")
        case True
        then have "nat (i - a) < nat (bytes p)" if "a \<le> i" using that o by (simp add: page_next_def)
        with True o show ?thesis unfolding nth_spread_Cons by (auto simp: page_next_def)
      next
        case False
        then have "nat (i - a) - nat (bytes p) = nat (i - page_next p)" "\<not> nat (i - a) < nat (bytes p)" "a \<le> i"
          using o by (simp_all add: page_next_def nat_diff_distrib')
        with False o show ?thesis unfolding nth_spread_Cons by (simp add: page_next_def add.assoc)
      qed
    qed
    show ?case unfolding split using Cons by auto
  qed simp
  from this [OF assms] show ?thesis using Size_spread [OF assms] by (simp add: bytes_with_def)
qed

text \<open>Neither loaded nor modified.\<close>

definition missing :: "bool \<times> bool \<Rightarrow> bool" where
  "missing f = (\<not> fst f \<and> \<not> snd f)"

lemma area_lower: "tiled a ps \<Longrightarrow> i \<in> area (filter Q ps) \<Longrightarrow> a \<le> i"
  by (auto simp: area_def dest: tiled_within)

subsection \<open>What has to be loaded\<close>

lemma area_add_unloaded:
  assumes "all_positive acc" and "0 < n"
  shows "area (add_unloaded s n acc) = area acc \<union> {s..<s + n} \<and> all_positive (add_unloaded s n acc)"
proof (cases "acc = []")
  case False
  then obtain xs l where a: "acc = xs @ [l]" by (metis rev_exhaust)
  have "{offset l..<s} \<union> {s..<s + n} = {offset l..<s + n}" if "page_next l = s"
    using that assms a by (auto simp: page_next_def)
  then show ?thesis using assms a by (auto simp: add_unloaded_def page_next_def)
qed (use assms in \<open>auto simp: add_unloaded_def page_next_def\<close>)

lemma unloaded_loop_area:
  assumes "tiled a ps" and "all_positive ps" and "all_positive acc" and "start < nxt"
  shows "area (unloaded_loop start nxt ps acc) = area acc \<union> (area (filter (missing \<circ> flags) ps) \<inter> {start..<nxt}) \<and>
    all_positive (unloaded_loop start nxt ps acc)"
  using assms
proof (induction ps arbitrary: a acc)
  case (Cons p ps)
  have t: "tiled (page_next p) ps" "all_positive ps" "offset p = a" "0 < bytes p" using Cons.prems by auto
  consider "page_next p \<le> start" | "start < page_next p" "nxt \<le> offset p"
    | "start < page_next p" "offset p < nxt" "loaded p \<or> modified p"
    | "start < page_next p" "offset p < nxt" "\<not> loaded p" "\<not> modified p" by linarith
  then show ?case
  proof cases
    case 1
    then have "{offset p..<page_next p} \<inter> {start..<nxt} = {}" by auto
    with 1 show ?thesis using Cons.IH [OF t(1,2) Cons.prems(3,4)] by (simp add: Int_Un_distrib2)
  next
    case 2
    have "\<not> i < nxt" if "i \<in> area (filter (missing \<circ> flags) (p # ps))" for i
      using area_lower [OF Cons.prems(1) that] 2 t(3) by linarith
    then have "area (filter (missing \<circ> flags) (p # ps)) \<inter> {start..<nxt} = {}"
      unfolding disjoint_iff atLeastLessThan_iff by blast
    moreover have "unloaded_loop start nxt (p # ps) acc = acc" using 2 by simp
    ultimately show ?thesis using Cons.prems(3) by (simp only: Un_empty_right simp_thms)
  next
    case 3
    then have "\<not> missing (flags p)" by (auto simp: missing_def flags_def)
    then show ?thesis using Cons.IH [OF t(1,2) Cons.prems(3,4)] 3 by simp
  next
    case 4
    let ?s = "max (offset p) start" and ?n = "min (page_next p) nxt - max (offset p) start"
    have n: "0 < ?n" using 4 t Cons.prems(4) by (auto simp: page_next_def)
    have eq: "{?s..<?s + ?n} = {offset p..<page_next p} \<inter> {start..<nxt}" by auto
    note A = area_add_unloaded [OF Cons.prems(3) n, of ?s]
    note IH = Cons.IH [OF t(1,2) conjunct2 [OF A] Cons.prems(4)]
    have "unloaded_loop start nxt (p # ps) acc = unloaded_loop start nxt ps (add_unloaded ?s ?n acc)"
      using 4 by (simp add: Let_def)
    moreover have "area (filter (missing \<circ> flags) (p # ps)) \<inter> {start..<nxt} =
        {?s..<?s + ?n} \<union> (area (filter (missing \<circ> flags) ps) \<inter> {start..<nxt})"
      using 4 eq by (simp add: missing_def flags_def Int_Un_distrib2)
    ultimately show ?thesis using A IH by (simp only: Un_assoc simp_thms)
  qed
qed simp

text \<open>The areas collected so far are in order, do not touch, are marked as not there, and end at or before \<open>a\<close>.\<close>

definition merged_to :: "int \<Rightarrow> fdpage list \<Rightarrow> bool" where
  "merged_to a ps = (sorted_wrt (\<lambda>p q. page_next p < offset q) ps \<and> all_positive ps \<and>
     (\<forall>p \<in> set ps. \<not> loaded p \<and> \<not> modified p \<and> page_next p \<le> a))"

lemma merged_to_mono: "merged_to a ps \<Longrightarrow> a \<le> b \<Longrightarrow> merged_to b ps"
  by (auto simp: merged_to_def)

lemma merged_to_add:
  assumes m: "merged_to s acc" and "0 < n"
  shows "merged_to (s + n) (add_unloaded s n acc)"
proof (cases "acc = []")
  case True
  then show ?thesis using assms by (simp add: merged_to_def add_unloaded_def page_next_def)
next
  case False
  then obtain xs l where a: "acc = xs @ [l]" by (metis rev_exhaust)
  have l: "page_next l \<le> s" "0 < bytes l" and x: "\<And>x. x \<in> set xs \<Longrightarrow> page_next x < offset l"
    using m by (auto simp: a merged_to_def sorted_wrt_append)
  have lt: "page_next x < s" if "x \<in> set xs" for x using x [OF that] l by (simp add: page_next_def)
  show ?thesis
  proof (cases "page_next l = s")
    case True
    then have "add_unloaded s n acc = xs @ [l\<lparr>bytes := bytes l + n\<rparr>]" by (simp add: add_unloaded_def a)
    then show ?thesis using m x lt True assms(2)
      by (fastforce simp: merged_to_def a sorted_wrt_append page_next_def)
  next
    case False
    then have "add_unloaded s n acc = xs @ [l, fdpage s n False False]" by (simp add: add_unloaded_def a)
    then show ?thesis using m x lt False l assms(2)
      by (fastforce simp: merged_to_def a sorted_wrt_append page_next_def)
  qed
qed

lemma unloaded_loop_merged:
  assumes "tiled a ps" and "all_positive ps" and "merged_to a acc" and "start < nxt"
  shows "\<exists>b. merged_to b (unloaded_loop start nxt ps acc)"
  using assms
proof (induction ps arbitrary: a acc)
  case (Cons p ps)
  have t: "tiled (page_next p) ps" "all_positive ps" "offset p = a" "0 < bytes p" using Cons.prems by auto
  have nx: "merged_to (page_next p) acc" by (rule merged_to_mono [OF Cons.prems(3)]) (use t in \<open>simp add: page_next_def\<close>)
  show ?case
  proof (cases "start < page_next p \<and> offset p < nxt \<and> \<not> loaded p \<and> \<not> modified p")
    case True
    let ?s = "max (offset p) start" and ?n = "min (page_next p) nxt - max (offset p) start"
    have n: "0 < ?n" using True t Cons.prems(4) by (auto simp: page_next_def)
    have "merged_to ?s acc" by (rule merged_to_mono [OF Cons.prems(3)]) (use t in simp)
    from merged_to_add [OF this n] have "merged_to (page_next p) (add_unloaded ?s ?n acc)"
      by (rule merged_to_mono) simp
    from Cons.IH [OF t(1,2) this Cons.prems(4)] True show ?thesis by (simp add: Let_def)
  next
    case False
    then show ?thesis using Cons.IH [OF t(1,2) nx Cons.prems(4)] Cons.prems(3) by auto
  qed
qed auto

text \<open>
  C37: the areas \<^verbatim>\<open>GetUnloadedPages\<close> asks to download are exactly the bytes of the range (to the end of the file when
  the size is 0) that are neither loaded nor modified, so a download never overwrites a local change.  They are
  in the order of the file, none of them is empty, neighbours are merged (a loaded or modified byte lies between any
  two), and they are marked as neither loaded nor modified.
\<close>

theorem GetUnloadedPages_exact:
  assumes "page_list_ok pl" and "0 \<le> start" and "0 \<le> n" and "0 < PL_Size pl"
    and "PL_GetUnloadedPages [] start n pl = (k, ups)"
  shows "area ups = bytes_with missing pl \<inter> {i. start \<le> i \<and> (n \<noteq> 0 \<longrightarrow> i < start + n)} \<and>
    k = length ups \<and> all_positive ups \<and> sorted_wrt (\<lambda>p q. page_next p < offset q) ups \<and>
    (\<forall>p \<in> set ups. \<not> loaded p \<and> \<not> modified p)"
proof -
  let ?nxt = "start + to_end start n pl"
  have t: "tiled 0 (pages pl)" and p: "all_positive (pages pl)"
    using assms(1,4) by (cases rule: page_list_ok_cases; simp)+
  have r: "ups = unloaded_loop start ?nxt (pages pl) []" "k = length ups"
    using assms(5) by (auto simp: PL_GetUnloadedPages_def Let_def)
  have past: "unloaded_loop start start ps [] = []" if "\<forall>p \<in> set ps. page_next p \<le> start" for ps
    using that by (induction ps) auto
  show ?thesis
  proof (cases "start < ?nxt")
    case True
    have "i \<in> bytes_with missing pl \<Longrightarrow> i < PL_Size pl" for i by (simp add: bytes_with_def)
    moreover have "merged_to 0 []" by (simp add: merged_to_def)
    from unloaded_loop_merged [OF t p this True]
    have "sorted_wrt (\<lambda>p q. page_next p < offset q) ups \<and> (\<forall>p \<in> set ups. \<not> loaded p \<and> \<not> modified p)"
      using r(1) by (auto simp: merged_to_def)
    moreover note unloaded_loop_area [OF t p _ True, of "[]"]
    ultimately show ?thesis using r True assms(2,3)
      by (fastforce simp: bytes_with_pages [OF t] to_end_def split: if_splits)
  next
    case False
    then have "?nxt = start" "n = 0" "PL_Size pl \<le> start" using assms by (auto simp: to_end_def split: if_splits)
    then show ?thesis using r past [of "pages pl"] tiled_within [OF t] Size_spread [OF t] by (fastforce simp: bytes_with_def)
  qed
qed

theorem GetUnloadedPages_exact_witness:
  "area (snd (PL_GetUnloadedPages [] 1 0 demo_pages)) = bytes_with missing demo_pages \<inter> {i. 1 \<le> i}"
  using GetUnloadedPages_exact [OF _ _ _ _ prod.collapse [symmetric], of demo_pages 1 0]
  by (simp add: demo_pages_eq page_list_ok_def page_next_def PL_Size_def)

text \<open>With no limit, \<^verbatim>\<open>GetTotalUnloadedPageSize\<close> counts the same bytes.\<close>

lemma unloaded_total_card:
  assumes "tiled a ps" and "all_positive ps" and "start < nxt"
  shows "unloaded_total start nxt 0 ps r = r + int (card (area (filter (missing \<circ> flags) ps) \<inter> {start..<nxt}))"
  using assms
proof (induction ps arbitrary: a r)
  case (Cons p ps)
  have t: "tiled (page_next p) ps" "all_positive ps" "offset p = a" "0 < bytes p" using Cons.prems by auto
  note IH = Cons.IH [OF t(1,2) Cons.prems(3)]
  have fin: "finite (area xs)" for xs by (simp add: area_def)
  consider "page_next p \<le> start" | "start < page_next p" "nxt \<le> offset p"
    | "start < page_next p" "offset p < nxt" "\<not> missing (flags p)"
    | "start < page_next p" "offset p < nxt" "missing (flags p)" by linarith
  then show ?case
  proof cases
    case 1
    then have "{offset p..<page_next p} \<inter> {start..<nxt} = {}" by auto
    with 1 IH show ?thesis by (simp add: Int_Un_distrib2)
  next
    case 2
    have "\<not> i < nxt" if "i \<in> area (filter (missing \<circ> flags) (p # ps))" for i
      using area_lower [OF Cons.prems(1) that] 2 t(3) by linarith
    then have "area (filter (missing \<circ> flags) (p # ps)) \<inter> {start..<nxt} = {}"
      unfolding disjoint_iff atLeastLessThan_iff by blast
    moreover have "unloaded_total start nxt 0 (p # ps) r = r" using 2 by simp
    ultimately show ?thesis by (simp only: card.empty of_nat_0 add_0_right)
  next
    case 3
    then show ?thesis using IH by (auto simp: missing_def flags_def)
  next
    case 4
    let ?X = "{offset p..<page_next p} \<inter> {start..<nxt}" and ?Y = "area (filter (missing \<circ> flags) ps) \<inter> {start..<nxt}"
    have "?X \<inter> ?Y = {}" using area_lower [OF t(1)] by fastforce
    then have c: "int (card (?X \<union> ?Y)) = int (card ?X) + int (card ?Y)" using fin by (simp add: card_Un_disjoint)
    have x: "int (card ?X) = min (page_next p) nxt - max (offset p) start"
      using 4 t Cons.prems(3) by (simp add: page_next_def)
    have "unloaded_total start nxt 0 (p # ps) r = unloaded_total start nxt 0 ps (r + int (card ?X))"
      unfolding x using 4 by (auto simp: Let_def missing_def flags_def max_def min_def)
    moreover have "area (filter (missing \<circ> flags) (p # ps)) \<inter> {start..<nxt} = ?X \<union> ?Y"
      using 4 by (simp add: Int_Un_distrib2)
    ultimately show ?thesis using IH c by (simp only: add.assoc)
  qed
qed simp

lemma unloaded_total_past: "\<forall>p \<in> set ps. page_next p \<le> start \<Longrightarrow> unloaded_total start nxt limit ps r = r"
  by (induction ps) auto

lemma GetTotalUnloadedPageSize_counts:
  assumes "page_list_ok pl" and "0 \<le> start" and "0 < n"
  shows "PL_GetTotalUnloadedPageSize start n 0 pl = int (card (bytes_with missing pl \<inter> {start..<start + n}))"
proof -
  have t: "tiled 0 (pages pl)" using assms(1) by (simp add: page_list_ok_def)
  show ?thesis using assms(1)
  proof (cases rule: page_list_ok_cases)
    case pos
    then show ?thesis using unloaded_total_card [OF t, of start "start + n" 0] assms
      by (simp add: PL_GetTotalUnloadedPageSize_def to_end_def bytes_with_pages [OF t])
  next
    case empty
    then have "\<forall>p \<in> set (pages pl). page_next p \<le> start" using tiled_within [OF t] assms(2) by fastforce
    then have "unloaded_total start (start + n) 0 (pages pl) 0 = 0"
      by (rule unloaded_total_past)
    moreover have "bytes_with missing pl = {}" using empty by (auto simp: bytes_with_def)
    ultimately show ?thesis using empty assms by (simp add: PL_GetTotalUnloadedPageSize_def to_end_def)
  qed
qed

subsection \<open>What is loaded\<close>

lemma loaded_loop_area:
  assumes "tiled a ps" and "all_positive ps" and "n = 0 \<or> 0 < n \<and> a < start + n"
  shows "loaded_loop start n ps \<longleftrightarrow>
    (\<forall>i \<in> area (filter (\<lambda>p. \<not> loaded p) ps). start \<le> i \<longrightarrow> n \<noteq> 0 \<and> start + n \<le> i)"
  using assms
proof (induction ps arbitrary: a)
  case (Cons p ps)
  have t: "tiled (page_next p) ps" "all_positive ps" "offset p = a" "0 < bytes p" using Cons.prems by auto
  have e: "page_end p = page_next p - 1" using t by (simp add: page_end_def page_next_def)
  consider "page_end p < start" | "start \<le> page_end p" "\<not> loaded p"
    | "start \<le> page_end p" "loaded p" "n \<noteq> 0" "start + n \<le> page_next p"
    | "start \<le> page_end p" "loaded p" "n = 0 \<or> page_next p < start + n" by linarith
  then show ?case
  proof cases
    case 1
    then have "n = 0 \<or> 0 < n \<and> page_next p < start + n" using Cons.prems(3) e by linarith
    from Cons.IH [OF t(1,2) this] 1 e show ?thesis by auto
  next
    case 2
    have "max (offset p) start \<in> {offset p..<page_next p}" "n \<noteq> 0 \<longrightarrow> max (offset p) start < start + n"
      using 2 e t Cons.prems(3) by (auto simp: page_next_def)
    then have "\<not> (\<forall>i \<in> area (filter (\<lambda>p. \<not> loaded p) (p # ps)). start \<le> i \<longrightarrow> n \<noteq> 0 \<and> start + n \<le> i)"
      using 2 by (auto intro!: bexI [of _ "max (offset p) start"])
    moreover have "\<not> loaded_loop start n (p # ps)" using 2 by simp
    ultimately show ?thesis by blast
  next
    case 3
    then have "\<forall>i \<in> area (filter (\<lambda>p. \<not> loaded p) ps). start + n \<le> i" using area_lower [OF t(1)] by fastforce
    with 3 show ?thesis by auto
  next
    case 4
    then have "n = 0 \<or> 0 < n \<and> page_next p < start + n" using Cons.prems(3) by linarith
    from Cons.IH [OF t(1,2) this] 4 show ?thesis by auto
  qed
qed simp

lemma IsPageLoaded_exact:
  assumes "page_list_ok pl" and "0 < PL_Size pl" and "0 \<le> start" and "0 \<le> n"
  shows "PL_IsPageLoaded start n pl \<longleftrightarrow>
    (\<forall>i. start \<le> i \<and> i < PL_Size pl \<and> (n = 0 \<or> i < start + n) \<longrightarrow> fst (spread (pages pl) ! nat i))"
proof -
  have t: "tiled 0 (pages pl)" and p: "all_positive (pages pl)"
    using assms(1,2) by (cases rule: page_list_ok_cases; simp)+
  have f: "(\<lambda>p. \<not> loaded p) = (Not \<circ> fst) \<circ> flags" by (auto simp: flags_def)
  show ?thesis
  proof (cases "n = 0 \<or> 0 < start + n")
    case True
    then have "n = 0 \<or> 0 < n \<and> 0 < start + n" using assms(4) by linarith
    from loaded_loop_area [OF t p this] show ?thesis
      unfolding PL_IsPageLoaded_def f bytes_with_pages [OF t, symmetric] using assms(3)
      by (auto simp: bytes_with_def) (metis linorder_not_le order.trans)+
  next
    case False
    then show ?thesis using assms(3,4) by simp
  qed
qed

end
