(* ===== verification/String_Util.thy ===== *)
theory String_Util
  imports Prelude
begin

section \<open>Text utilities (\<^verbatim>\<open>s3fs/string_util.cpp\<close>)\<close>

text \<open>
  The conversions s3fs makes between names, headers and numbers.  A \<^verbatim>\<open>std::string\<close> is a list of characters;
  functions that take a \<^verbatim>\<open>const char*\<close> see it up to its first NUL (\<open>c_str\<close>).  Unsigned characters and code
  points are natural numbers, which the masks and shifts of the code keep below 22 bits.  Each encoding is
  followed by the proof that its decoding gives the text back.
\<close>

abbreviation uc :: "char \<Rightarrow> nat" where
  "uc \<equiv> of_char"

definition c_str :: "string \<Rightarrow> string" where
  "c_str s = takeWhile (\<lambda>c. uc c \<noteq> 0) s"

subsection \<open>Numbers\<close>

definition LLONG_MAX :: int where "LLONG_MAX = 2 ^ 63 - 1"
definition LLONG_MIN :: int where "LLONG_MIN = - (2 ^ 63)"

definition digit_value :: "char \<Rightarrow> nat" where
  "digit_value c =
     (let n = uc c in if 48 \<le> n \<and> n \<le> 57 then n - 48
      else if 97 \<le> n \<and> n \<le> 122 then n - 87
      else if 65 \<le> n \<and> n \<le> 90 then n - 55 else 36)"

fun scan_digits :: "nat \<Rightarrow> nat \<Rightarrow> string \<Rightarrow> nat \<times> string" where
  "scan_digits base acc [] = (acc, [])"
| "scan_digits base acc (c # cs) =
     (if digit_value c < base then scan_digits base (acc * base + digit_value c) cs else (acc, c # cs))"

definition is_space :: "char \<Rightarrow> bool" where
  "is_space c = (uc c = 32 \<or> 9 \<le> uc c \<and> uc c \<le> 13)"

text \<open>
  \<^verbatim>\<open>strtoll\<close>: blanks, a sign, the prefix of base 16, and digits; base 0 takes the base from the prefix.  The
  value is not bounded here; the end is \<^verbatim>\<open>None\<close> when nothing was converted.
\<close>

definition strtoll :: "string \<Rightarrow> nat \<Rightarrow> (int \<times> string) option" where
  "strtoll s base =
     (let s = dropWhile is_space s;
          neg = (s \<noteq> [] \<and> hd s = CHR ''-'');
          s = (if s \<noteq> [] \<and> (hd s = CHR ''-'' \<or> hd s = CHR ''+'') then tl s else s);
          hex = ((base = 0 \<or> base = 16) \<and> length s > 2 \<and> s ! 0 = CHR ''0'' \<and> (s ! 1 = CHR ''x'' \<or> s ! 1 = CHR ''X'') \<and>
                 digit_value (s ! 2) < 16);
          base = (if base = 0 then (if hex then 16 else if s \<noteq> [] \<and> hd s = CHR ''0'' then 8 else 10) else base);
          s = (if hex then drop 2 s else s)
      in if s = [] \<or> \<not> digit_value (hd s) < base then None
         else (case scan_digits base 0 s of (n, rest) \<Rightarrow> Some (if neg then - int n else int n, rest)))"

definition s3fs_strtoofft :: "string option \<Rightarrow> nat \<Rightarrow> int option" where
  "s3fs_strtoofft str base =
     (case str of None \<Rightarrow> None
      | Some s \<Rightarrow> (case strtoll (c_str s) base of
            None \<Rightarrow> None
          | Some (result, temp) \<Rightarrow>
              if temp \<noteq> [] \<or> result < LLONG_MIN \<or> LLONG_MAX < result then None else Some result))"

definition cvt_strtoofft :: "string \<Rightarrow> nat \<Rightarrow> int" where
  "cvt_strtoofft s base = (case s3fs_strtoofft (Some s) base of None \<Rightarrow> 0 | Some r \<Rightarrow> r)"

text \<open>\<^verbatim>\<open>str(timespec)\<close>: the nanoseconds, when there are any, with nine digits.\<close>

definition str_timespec :: "nat \<Rightarrow> nat \<Rightarrow> string" where
  "str_timespec tv_sec tv_nsec =
     to_string tv_sec @ (if tv_nsec \<noteq> 0
       then ''.'' @ replicate (9 - length (to_string tv_nsec)) (CHR ''0'') @ to_string tv_nsec else [])"

subsection \<open>Cutting and matching\<close>

definition lower :: "string \<Rightarrow> string" where
  "lower s = map (\<lambda>c. if 65 \<le> uc c \<and> uc c \<le> 90 then char_of (uc c + 32) else c) s"

definition SPACES :: string where
  "SPACES = [CHR '' '', CHR 0x09, CHR 0x0D, CHR 0x0A]"

definition trim_left :: "string \<Rightarrow> string \<Rightarrow> string" where
  "trim_left d t = dropWhile (\<lambda>c. c \<in> set t) d"

definition trim_right :: "string \<Rightarrow> string \<Rightarrow> string" where
  "trim_right d t = rev (dropWhile (\<lambda>c. c \<in> set t) (rev d))"

definition trim :: "string \<Rightarrow> string \<Rightarrow> string" where
  "trim s t = trim_left (trim_right s t) t"

definition peeloff :: "string \<Rightarrow> string" where
  "peeloff s = (if length s < 2 \<or> hd s \<noteq> CHR 0x22 \<or> last s \<noteq> CHR 0x22 then s else butlast (tl s))"

text \<open>\<^verbatim>\<open>takeout_str_dquart\<close>: the result, and the string it leaves.\<close>

definition takeout_str_dquart :: "string \<Rightarrow> bool \<times> string" where
  "takeout_str_dquart s =
     (if CHR 0x22 \<notin> set s then (True, s)
      else (let s = tl (dropWhile (\<lambda>c. c \<noteq> CHR 0x22) s)
            in if CHR 0x22 \<notin> set s then (False, s)
               else (let s = rev (tl (dropWhile (\<lambda>c. c \<noteq> CHR 0x22) (rev s)))
                     in (CHR 0x22 \<notin> set s, s))))"

text \<open>\<^verbatim>\<open>std::string::find\<close> of a string: what follows its first occurrence.\<close>

fun find_str :: "string \<Rightarrow> string \<Rightarrow> string option" where
  "find_str pat s = (if take (length pat) s = pat then Some (drop (length pat) s)
                     else (case s of [] \<Rightarrow> None | c # cs \<Rightarrow> find_str pat cs))"

declare find_str.simps [simp del]

definition get_keyword_value :: "string \<Rightarrow> string option \<Rightarrow> string option" where
  "get_keyword_value target keyword =
     (case keyword of None \<Rightarrow> None
      | Some keyword \<Rightarrow> (case find_str (c_str keyword) target of
            None \<Rightarrow> None
          | Some rest \<Rightarrow> (case rest of
                [] \<Rightarrow> None
              | c # value \<Rightarrow> if c \<noteq> CHR ''='' then None else Some (takeWhile (\<lambda>c. c \<noteq> CHR ''&'') value))))"

subsection \<open>Hexadecimal and URL encoding\<close>

definition s3fs_hex :: "string \<Rightarrow> string \<Rightarrow> string" where
  "s3fs_hex input hexAlphabet = concat (map (\<lambda>c. [hexAlphabet ! (uc c div 16), hexAlphabet ! (uc c mod 16)]) input)"

definition s3fs_hex_lower :: "string \<Rightarrow> string" where
  "s3fs_hex_lower input = s3fs_hex input ''0123456789abcdef''"

definition s3fs_hex_upper :: "string \<Rightarrow> string" where
  "s3fs_hex_upper input = s3fs_hex input ''0123456789ABCDEF''"

text \<open>\<^verbatim>\<open>strchr\<close> also finds the NUL that ends the list of exceptions.\<close>

definition url_plain :: "string \<Rightarrow> char \<Rightarrow> bool" where
  "url_plain except_chars c =
     (c \<in> set except_chars \<or> uc c = 0 \<or> 97 \<le> uc c \<and> uc c \<le> 122 \<or> 65 \<le> uc c \<and> uc c \<le> 90 \<or> 48 \<le> uc c \<and> uc c \<le> 57)"

definition rawUrlEncode :: "string \<Rightarrow> string \<Rightarrow> string" where
  "rawUrlEncode s except_chars =
     concat (map (\<lambda>c. if url_plain except_chars c then [c] else CHR ''%'' # s3fs_hex_upper [c]) s)"

definition urlEncodeGeneral :: "string \<Rightarrow> string" where
  "urlEncodeGeneral s = rawUrlEncode s ''.-_~''"

definition urlEncodePath :: "string \<Rightarrow> string" where
  "urlEncodePath s = rawUrlEncode s ''.-_~/''"

definition urlEncodeQuery :: "string \<Rightarrow> string" where
  "urlEncodeQuery s = rawUrlEncode s ''.-_~=&%''"

definition hex_value :: "char \<Rightarrow> nat" where
  "hex_value c =
     (if 48 \<le> uc c \<and> uc c \<le> 57 then uc c - 48
      else if 65 \<le> uc c \<and> uc c \<le> 70 then uc c - 65 + 10
      else if 97 \<le> uc c \<and> uc c \<le> 102 then uc c - 97 + 10 else 0)"

fun urlDecode :: "string \<Rightarrow> string" where
  "urlDecode [] = []"
| "urlDecode (c # s) =
     (if c \<noteq> CHR ''%'' then c # urlDecode s
      else (case s of
              a # b # s' \<Rightarrow> char_of (hex_value a * 16 + hex_value b) # urlDecode s'
            | _ \<Rightarrow> []))"

subsection \<open>Base 64\<close>

definition base64_chars :: string where
  "base64_chars = ''ABCDEFGHIJKLMNOPQRSTUVWXYZabcdefghijklmnopqrstuvwxyz0123456789+/=''"

fun s3fs_base64 :: "string \<Rightarrow> string" where
  "s3fs_base64 [] = []"
| "s3fs_base64 (a # s) =
     (let next1 = (case s of [] \<Rightarrow> 0 | b # _ \<Rightarrow> uc b);
          next2 = (case s of _ # c # _ \<Rightarrow> uc c | _ \<Rightarrow> 0);
          p0 = drop_bit 2 (uc a AND 0xfc);
          p1 = push_bit 4 (uc a AND 0x03) OR drop_bit 4 (next1 AND 0xf0);
          p2 = (if s \<noteq> [] then push_bit 2 (next1 AND 0x0f) OR drop_bit 6 (next2 AND 0xc0) else 0x40);
          p3 = (if length s > 1 then next2 AND 0x3f else 0x40)
      in [base64_chars ! p0, base64_chars ! p1, base64_chars ! p2, base64_chars ! p3] @ s3fs_base64 (drop 2 s))"

definition char_decode64 :: "char \<Rightarrow> nat" where
  "char_decode64 ch =
     (if 65 \<le> uc ch \<and> uc ch \<le> 90 then uc ch - 65
      else if 97 \<le> uc ch \<and> uc ch \<le> 122 then uc ch - 97 + 26
      else if 48 \<le> uc ch \<and> uc ch \<le> 57 then uc ch - 48 + 52
      else if ch = CHR ''+'' then 62 else if ch = CHR ''/'' then 63 else if ch = CHR ''='' then 64 else 255)"

fun s3fs_decode64 :: "string \<Rightarrow> string" where
  "s3fs_decode64 [] = []"
| "s3fs_decode64 (a # s) =
     (let p0 = char_decode64 a;
          p1 = (if length s > 0 then char_decode64 (s ! 0) else 64);
          p2 = (if length s > 1 then char_decode64 (s ! 1) else 64);
          p3 = (if length s > 2 then char_decode64 (s ! 2) else 64)
      in char_of ((push_bit 2 p0 AND 0xfc) OR (drop_bit 4 p1 AND 0x03)) #
         (if p2 = 64 then []
          else char_of ((push_bit 4 p1 AND 0xf0) OR (drop_bit 2 p2 AND 0x0f)) #
               (if p3 = 64 then []
                else char_of ((push_bit 6 p2 AND 0xc0) OR (p3 AND 0x3f)) # s3fs_decode64 (drop 3 s))))"

subsection \<open>Bytes that are no UTF-8\<close>

definition byte_at :: "string \<Rightarrow> nat \<Rightarrow> nat" where
  "byte_at s i = (if i < length s then uc (s ! i) else 0)"

definition escape_base :: nat where "escape_base = 0xe000"

text \<open>The length of the valid sequence that starts with byte \<open>c\<close> and goes on with \<open>s\<close>, 0 when there is none.\<close>

definition utf8_length :: "nat \<Rightarrow> string \<Rightarrow> nat" where
  "utf8_length c s =
     (let s1 = byte_at s 0; s2 = byte_at s 1; s3 = byte_at s 2
      in if c \<le> 0x7f then 1
         else if \<not> (0xc2 \<le> c \<and> c \<le> 0xf5) then 0
         else if c AND 0xe0 = 0xc0 \<and> s1 AND 0xc0 = 0x80 then 2
         else if c AND 0xf0 = 0xe0 \<and> s1 AND 0xc0 = 0x80 \<and> s2 AND 0xc0 = 0x80 \<and>
                 (let code = push_bit 12 (c AND 0x0f) OR push_bit 6 (s1 AND 0x3f) OR (s2 AND 0x3f)
                  in 0x800 \<le> code \<and> \<not> (0xd800 \<le> code \<and> code \<le> 0xd8ff)) then 3
         else if c AND 0xf8 = 0xf0 \<and> s1 AND 0xc0 = 0x80 \<and> s2 AND 0xc0 = 0x80 \<and> s3 AND 0xc0 = 0x80 \<and>
                 (let code = push_bit 18 (c AND 0x07) OR push_bit 12 (s1 AND 0x3f) OR push_bit 6 (s2 AND 0x3f) OR (s3 AND 0x3f)
                  in 0x10000 \<le> code \<and> code \<le> 0x10ffff) then 4
         else 0)"

definition wtf8_escape :: "nat \<Rightarrow> string" where
  "wtf8_escape c =
     (let escape = escape_base + c
      in [char_of (0xe0 OR (drop_bit 12 escape AND 0x0f)), char_of (0x80 OR (drop_bit 6 escape AND 0x3f)),
          char_of (0x80 OR (drop_bit 0 escape AND 0x3f))])"

fun wtf8_encode_loop :: "string \<Rightarrow> bool \<times> string" where
  "wtf8_encode_loop [] = (False, [])"
| "wtf8_encode_loop (c # s) =
     (let k = utf8_length (uc c) s
      in if k = 0
         then (case wtf8_encode_loop s of (invalid, result) \<Rightarrow> (True, wtf8_escape (uc c) @ result))
         else (case wtf8_encode_loop (drop (k - 1) s) of (invalid, result) \<Rightarrow> (invalid, c # take (k - 1) s @ result)))"

definition s3fs_wtf8_encode :: "string \<Rightarrow> bool \<times> string" where
  "s3fs_wtf8_encode s = wtf8_encode_loop (c_str s)"

text \<open>
  The call with a null \<^verbatim>\<open>result\<close>: the bytes of a valid sequence are skipped only where they are copied, so without a
  result every byte is looked at as the start of a sequence.
\<close>

fun wtf8_check_loop :: "string \<Rightarrow> bool" where
  "wtf8_check_loop [] = False"
| "wtf8_check_loop (c # s) = (utf8_length (uc c) s = 0 \<or> wtf8_check_loop s)"

definition s3fs_wtf8_encode_null :: "string \<Rightarrow> bool" where
  "s3fs_wtf8_encode_null s = wtf8_check_loop (c_str s)"

definition is_escape :: "nat \<Rightarrow> string \<Rightarrow> nat option" where
  "is_escape c s =
     (if c AND 0xf0 = 0xe0 \<and> byte_at s 0 AND 0xc0 = 0x80 \<and> byte_at s 1 AND 0xc0 = 0x80
      then (let code = push_bit 12 (c AND 0x0f) OR push_bit 6 (byte_at s 0 AND 0x3f) OR push_bit 0 (byte_at s 1 AND 0x3f)
            in if escape_base \<le> code \<and> code \<le> escape_base + 0xff then Some (code - escape_base) else None)
      else None)"

fun wtf8_decode_loop :: "string \<Rightarrow> bool \<times> string" where
  "wtf8_decode_loop [] = (False, [])"
| "wtf8_decode_loop (c # s) =
     (case is_escape (uc c) s of
        Some code \<Rightarrow> (case wtf8_decode_loop (drop 2 s) of (encoded, result) \<Rightarrow> (True, char_of code # result))
      | None \<Rightarrow> (case wtf8_decode_loop s of (encoded, result) \<Rightarrow> (encoded, c # result)))"

definition s3fs_wtf8_decode :: "string \<Rightarrow> bool \<times> string" where
  "s3fs_wtf8_decode s = wtf8_decode_loop (c_str s)"

subsection \<open>Carriage returns\<close>

function cr_encode :: "string \<Rightarrow> string" where
  "cr_encode s =
     (let pre = takeWhile (\<lambda>c. c \<noteq> CHR ''%'' \<and> c \<noteq> CHR 0x0D) s
      in (case drop (length pre) s of
            [] \<Rightarrow> pre
          | c # rest \<Rightarrow> pre @ (if c = CHR ''%'' then ''%45'' else ''%0D'') @ cr_encode rest))"
  by pat_completeness auto
termination
proof (relation "measure length")
  fix s pre c rest
  assume "pre = takeWhile (\<lambda>c. c \<noteq> CHR ''%'' \<and> c \<noteq> CHR 0x0D) s" "drop (length pre) s = c # rest"
  then have "length (drop (length pre) s) = Suc (length rest)" by simp
  then show "(rest, s) \<in> measure length" by simp
qed simp

definition get_encoded_cr_code :: "string option \<Rightarrow> string" where
  "get_encoded_cr_code pbase = (case pbase of None \<Rightarrow> [] | Some s \<Rightarrow> cr_encode (c_str s))"

function cr_decode :: "string \<Rightarrow> string" where
  "cr_decode s =
     (let pre = takeWhile (\<lambda>c. c \<noteq> CHR ''%'') s
      in (case drop (length pre) s of
            [] \<Rightarrow> pre
          | c # rest \<Rightarrow>
              (if take 2 rest = ''45'' then pre @ CHR ''%'' # cr_decode (drop 2 rest)
               else if take 2 rest = ''0D'' then pre @ CHR 0x0D # cr_decode (drop 2 rest)
               else if take 1 rest = ''%'' then pre @ CHR ''%'' # cr_decode (drop 1 rest)
               else pre @ CHR ''%'' # cr_decode rest)))"
  by pat_completeness auto
termination
proof (relation "measure length", goal_cases)
  case 1
  then show ?case by simp
next
  case (2 s pre c rest)
  then have "length (drop (length pre) s) = Suc (length rest)" by simp
  then show ?case by simp
next
  case (3 s pre c rest)
  then have "length (drop (length pre) s) = Suc (length rest)" by simp
  then show ?case by simp
next
  case (4 s pre c rest)
  then have "length (drop (length pre) s) = Suc (length rest)" by simp
  then show ?case by simp
next
  case (5 s pre c rest)
  then have "length (drop (length pre) s) = Suc (length rest)" by simp
  then show ?case by simp
qed

declare cr_encode.simps [simp del] cr_decode.simps [simp del]

definition get_decoded_cr_code :: "string option \<Rightarrow> string" where
  "get_decoded_cr_code pencode = (case pencode of None \<Rightarrow> [] | Some s \<Rightarrow> cr_decode (c_str s))"

subsection \<open>Durations\<close>

text \<open>Seconds of each unit, in the order they may appear.\<close>

definition unit_of :: "char \<Rightarrow> (nat \<times> int) option" where
  "unit_of c =
     (if c = CHR ''Y'' then Some (1, 60 * 60 * 24 * 365)
      else if c = CHR ''M'' then Some (2, 60 * 60 * 24 * 30)
      else if c = CHR ''D'' then Some (3, 60 * 60 * 24)
      else if c = CHR ''h'' then Some (4, 60 * 60)
      else if c = CHR ''m'' then Some (5, 60)
      else if c = CHR ''s'' then Some (6, 1) else None)"

fun unixtime_loop :: "string \<Rightarrow> bool \<Rightarrow> nat \<Rightarrow> int \<Rightarrow> int \<Rightarrow> int option" where
  "unixtime_loop [] is_last_number last_unit_type tmptime unixtime = (if is_last_number then None else Some unixtime)"
| "unixtime_loop (c # cs) is_last_number last_unit_type tmptime unixtime =
     (if is_digit c then unixtime_loop cs True last_unit_type (tmptime * 10 + int (digit_val c)) unixtime
      else if is_last_number
      then (case unit_of c of
              None \<Rightarrow> None
            | Some (k, secs) \<Rightarrow> if last_unit_type < k then unixtime_loop cs False k 0 (unixtime + tmptime * secs) else None)
      else None)"

definition convert_unixtime_from_option_arg :: "string option \<Rightarrow> int option" where
  "convert_unixtime_from_option_arg argv =
     (case argv of None \<Rightarrow> None | Some s \<Rightarrow> unixtime_loop (c_str s) True 0 0 0)"

subsection \<open>Numbers read back\<close>

lemma digit_value_digit: "d < 10 \<Longrightarrow> digit_value (digit d) = d"
  by (simp add: digit_value_def of_char_digit Let_def)

lemma digit_value_is_digit: "is_digit c \<Longrightarrow> digit_value c = digit_val c \<and> digit_val c < 10"
  by (auto simp: is_digit_def digit_value_def digit_val_def Let_def)

lemma scan_digits_all: "\<forall>c \<in> set s. is_digit c \<Longrightarrow> scan_digits 10 acc s = (read_digits acc s, [])"
  by (induction s arbitrary: acc) (auto simp: digit_value_is_digit)

lemma digit_no_space: "is_digit c \<Longrightarrow> \<not> is_space c \<and> c \<noteq> CHR ''-'' \<and> c \<noteq> CHR ''+'' \<and> uc c \<noteq> 0"
  by (auto simp: is_digit_def is_space_def)

lemma strtoll_digits:
  assumes "\<forall>c \<in> set s. is_digit c" and "s \<noteq> []"
  shows "strtoll s 10 = Some (int (read_nat s), [])"
proof -
  have h: "is_digit (hd s)" using assms by (cases s) auto
  have d: "dropWhile is_space s = s" using assms digit_no_space by (cases s) auto
  show ?thesis using h assms(2) scan_digits_all [OF assms(1), of 0] digit_no_space [OF h] digit_value_is_digit [OF h]
    by (simp add: strtoll_def Let_def d read_nat_def)
qed

lemma c_str_id: "\<forall>c \<in> set s. uc c \<noteq> 0 \<Longrightarrow> c_str s = s"
  by (simp add: c_str_def)

lemma cvt_to_string: "int n \<le> LLONG_MAX \<Longrightarrow> cvt_strtoofft (to_string n) 10 = int n"
proof -
  assume n: "int n \<le> LLONG_MAX"
  have d: "\<forall>c \<in> set (to_string n). is_digit c" using to_string_digits by blast
  then have "c_str (to_string n) = to_string n" using digit_no_space by (intro c_str_id) blast
  then show ?thesis using n strtoll_digits [OF d] by (simp add: cvt_strtoofft_def s3fs_strtoofft_def LLONG_MIN_def)
qed

subsection \<open>URL encoding read back\<close>

lemma hex_digit_value: "d < 16 \<Longrightarrow> hex_value (''0123456789ABCDEF'' ! d) = d"
proof -
  have "list_all (\<lambda>d. hex_value (''0123456789ABCDEF'' ! d) = d) [0..<16]"
    by (simp add: upt_rec hex_value_def)
  then show "d < 16 \<Longrightarrow> ?thesis" by (simp add: list_all_iff)
qed

lemma uc_less: "uc c < 256"
  by simp

lemma hex_value_upper:
  "hex_value (''0123456789ABCDEF'' ! (uc c div 16)) * 16 + hex_value (''0123456789ABCDEF'' ! (uc c mod 16)) = uc c"
  using uc_less [of c] hex_digit_value [of "uc c div 16"] hex_digit_value [of "uc c mod 16"] div_mult_mod_eq [of "uc c" 16]
  by (simp add: div_less_iff_less_mult)

text \<open>
  Decoding a URL-encoded name gives the name back, for the general and for the path encoding and whatever bytes
  the name has.
\<close>
theorem urlDecode_encode: "urlDecode (urlEncodeGeneral s) = s \<and> urlDecode (urlEncodePath s) = s"
proof -
  have "urlDecode (rawUrlEncode s except_chars) = s" if "CHR ''%'' \<notin> set except_chars" for except_chars
  proof (induction s)
    case (Cons c s)
    show ?case
    proof (cases "url_plain except_chars c")
      case True
      then have "c \<noteq> CHR ''%''" using that by (auto simp: url_plain_def)
      with True Cons show ?thesis by (simp add: rawUrlEncode_def)
    next
      case False
      then show ?thesis using Cons hex_value_upper [of c]
        by (simp add: rawUrlEncode_def s3fs_hex_upper_def s3fs_hex_def)
    qed
  qed (simp add: rawUrlEncode_def)
  then show ?thesis by (simp add: urlEncodeGeneral_def urlEncodePath_def)
qed

subsection \<open>Base 64 read back\<close>

lemma decode64_char: "n \<le> 64 \<Longrightarrow> char_decode64 (base64_chars ! n) = n"
proof -
  have "list_all (\<lambda>n. char_decode64 (base64_chars ! n) = n) [0..<65]"
    by (simp add: upt_rec base64_chars_def char_decode64_def)
  then show "n \<le> 64 \<Longrightarrow> char_decode64 (base64_chars ! n) = n" by (simp add: list_all_iff)
qed

lemma high_bit: "m < 2 ^ j \<Longrightarrow> j \<le> k \<Longrightarrow> \<not> bit (m :: nat) k"
proof -
  assume m: "m < 2 ^ j" and "j \<le> k"
  then have "(2 :: nat) ^ j \<le> 2 ^ k" by (simp add: power_increasing)
  with m have "m div 2 ^ k = 0" by (intro div_less) linarith
  then show ?thesis by (simp add: bit_iff_odd)
qed

lemma less_by_bits: "(\<And>k. j \<le> k \<Longrightarrow> \<not> bit (m :: nat) k) \<Longrightarrow> m < 2 ^ j"
proof -
  assume h: "\<And>k. j \<le> k \<Longrightarrow> \<not> bit m k"
  have "take_bit j m = m" by (rule bit_eqI) (use h in \<open>auto simp: bit_take_bit_iff not_less intro: leI\<close>)
  then show "m < 2 ^ j" by (simp add: take_bit_nat_eq_self_iff)
qed

text \<open>Bytes are equal when their eight bits are.\<close>

lemma byte_eqI:
  assumes "m < 2 ^ 8" and "n < 2 ^ 8" and "bit (m :: nat) 0 = bit n 0" and "bit m 1 = bit n 1" and "bit m 2 = bit n 2"
    and "bit m 3 = bit n 3" and "bit m 4 = bit n 4" and "bit m 5 = bit n 5" and "bit m 6 = bit n 6" and "bit m 7 = bit n 7"
  shows "m = n"
proof (rule bit_eqI)
  fix k
  show "bit m k = bit n k"
  proof (cases "k < 8")
    case True
    then have "k \<in> {0, 1, 2, 3, 4, 5, 6, 7}" by auto
    then show ?thesis using assms(3-10) by blast
  next
    case False
    then have "8 \<le> k" by simp
    then show ?thesis using high_bit assms(1,2) by metis
  qed
qed

lemmas bit_arith = bit_and_iff bit_or_iff bit_push_bit_iff bit_drop_bit_eq bit_Suc_0_iff

lemma parts64_less:
  fixes a b c :: nat
  shows "drop_bit 2 (a AND 0xfc) < 64" "push_bit 4 (a AND 0x03) OR drop_bit 4 (b AND 0xf0) < 64"
    "push_bit 2 (b AND 0x0f) OR drop_bit 6 (c AND 0xc0) < 64" "c AND 0x3f < 64"
proof -
  have m: "\<not> bit (63 :: nat) k" "\<not> bit (60 :: nat) k" "\<not> bit (48 :: nat) k" "\<not> bit (15 :: nat) k" "\<not> bit (3 :: nat) k"
    if "6 \<le> k" for k using that by (simp_all add: high_bit [of _ 6])
  have "drop_bit 2 (a AND 0xfc) < 2 ^ 6" "push_bit 4 (a AND 0x03) OR drop_bit 4 (b AND 0xf0) < 2 ^ 6"
    "push_bit 2 (b AND 0x0f) OR drop_bit 6 (c AND 0xc0) < 2 ^ 6" "c AND 0x3f < 2 ^ 6"
    by (rule less_by_bits, simp add: bit_arith m)+
  then show "drop_bit 2 (a AND 0xfc) < 64" "push_bit 4 (a AND 0x03) OR drop_bit 4 (b AND 0xf0) < 64"
    "push_bit 2 (b AND 0x0f) OR drop_bit 6 (c AND 0xc0) < 64" "c AND 0x3f < 64" by simp_all
qed

lemma parts64_bytes:
  fixes a b c :: nat
  defines "p0 \<equiv> drop_bit 2 (a AND 0xfc)" and "p1 \<equiv> push_bit 4 (a AND 0x03) OR drop_bit 4 (b AND 0xf0)"
    and "p2 \<equiv> push_bit 2 (b AND 0x0f) OR drop_bit 6 (c AND 0xc0)" and "p3 \<equiv> c AND 0x3f"
  shows "a < 256 \<Longrightarrow> (push_bit 2 p0 AND 0xfc) OR (drop_bit 4 p1 AND 0x03) = a"
    "b < 256 \<Longrightarrow> (push_bit 4 p1 AND 0xf0) OR (drop_bit 2 p2 AND 0x0f) = b"
    "c < 256 \<Longrightarrow> (push_bit 6 p2 AND 0xc0) OR (p3 AND 0x3f) = c"
proof -
  have m: "\<not> bit (252 :: nat) k" "\<not> bit (240 :: nat) k" "\<not> bit (192 :: nat) k" "\<not> bit (63 :: nat) k" "\<not> bit (15 :: nat) k"
    "\<not> bit (3 :: nat) k" if "8 \<le> k" for k using that by (simp_all add: high_bit [of _ 8])
  have small: "(push_bit 2 p0 AND 0xfc) OR (drop_bit 4 p1 AND 0x03) < 2 ^ 8"
    "(push_bit 4 p1 AND 0xf0) OR (drop_bit 2 p2 AND 0x0f) < 2 ^ 8" "(push_bit 6 p2 AND 0xc0) OR (p3 AND 0x3f) < 2 ^ 8"
    by (rule less_by_bits, simp add: bit_arith m)+
  show "(push_bit 2 p0 AND 0xfc) OR (drop_bit 4 p1 AND 0x03) = a" if "a < 256"
    by (rule byte_eqI [OF small(1)]) (use that in \<open>simp_all add: bit_arith p0_def p1_def\<close>)
  show "(push_bit 4 p1 AND 0xf0) OR (drop_bit 2 p2 AND 0x0f) = b" if "b < 256"
    by (rule byte_eqI [OF small(2)]) (use that in \<open>simp_all add: bit_arith p1_def p2_def\<close>)
  show "(push_bit 6 p2 AND 0xc0) OR (p3 AND 0x3f) = c" if "c < 256"
    by (rule byte_eqI [OF small(3)]) (use that in \<open>simp_all add: bit_arith p2_def p3_def\<close>)
qed

text \<open>
  Decoding the base 64 text of any bytes gives the bytes back, whatever their number leaves of the last group
  of three.
\<close>
theorem base64_decode_encode: "s3fs_decode64 (s3fs_base64 s) = s"
proof (induction s rule: s3fs_base64.induct)
  case (2 a s)
  have dec: "char_decode64 (base64_chars ! n) = n" "n \<noteq> 64" if "n < 64" for n
    using that by (simp_all add: decode64_char)
  have pad: "char_decode64 (base64_chars ! 64) = 64" by (simp add: decode64_char)
  define p0 where "p0 = drop_bit 2 (uc a AND 0xfc)"
  define p1 where "p1 b = push_bit 4 (uc a AND 0x03) OR drop_bit 4 (b AND 0xf0)" for b
  define p2 where "p2 b c = push_bit 2 (b AND 0x0f) OR drop_bit 6 (c AND 0xc0)" for b c :: nat
  define p3 where "p3 c = c AND 0x3f" for c :: nat
  have p: "p0 < 64" "p1 b < 64" "p2 b c < 64" "p3 c < 64" for b c
    using parts64_less by (simp_all only: p0_def p1_def p2_def p3_def)
  have q: "(push_bit 2 p0 AND 0xfc) OR (drop_bit 4 (p1 b) AND 0x03) = uc a"
    "b < 256 \<Longrightarrow> (push_bit 4 (p1 b) AND 0xf0) OR (drop_bit 2 (p2 b c) AND 0x0f) = b"
    "c < 256 \<Longrightarrow> (push_bit 6 (p2 b c) AND 0xc0) OR (p3 c AND 0x3f) = c" for b c
    using parts64_bytes uc_less by (simp_all only: p0_def p1_def p2_def p3_def)
  consider (one) "s = []" | (two) b where "s = [b]" | (three) b c rest where "s = b # c # rest"
    by (metis neq_Nil_conv)
  then show ?case
  proof cases
    case one
    have "s3fs_base64 [a] = [base64_chars ! p0, base64_chars ! p1 0, base64_chars ! 64, base64_chars ! 64]"
      by (simp only: s3fs_base64.simps list.case Let_def p0_def p1_def) simp
    then show ?thesis using one q(1) by (simp only: s3fs_decode64.simps) (simp add: dec p pad Let_def)
  next
    case two
    have "s3fs_base64 [a, b] = [base64_chars ! p0, base64_chars ! p1 (uc b), base64_chars ! p2 (uc b) 0, base64_chars ! 64]"
      by (simp only: s3fs_base64.simps list.case Let_def p0_def p1_def p2_def) simp
    then show ?thesis using two q(1,2) by (simp only: s3fs_decode64.simps) (simp add: dec p pad Let_def)
  next
    case three
    have "s3fs_decode64 (s3fs_base64 rest) = rest" using "2.IH" three by simp
    moreover have "s3fs_base64 (a # b # c # rest) = [base64_chars ! p0, base64_chars ! p1 (uc b), base64_chars ! p2 (uc b) (uc c),
        base64_chars ! p3 (uc c)] @ s3fs_base64 rest"
      by (subst s3fs_base64.simps) (simp only: list.case Let_def p0_def p1_def p2_def p3_def, simp)
    ultimately show ?thesis using three q by (simp only: s3fs_decode64.simps append.simps) (simp add: dec p pad Let_def)
  qed
qed simp

subsection \<open>The private encoding read back\<close>

lemma mask_part: "n AND m = v \<Longrightarrow> m AND k = k \<Longrightarrow> n AND k = v AND k" for n m v k :: nat
  by (metis and.assoc)

lemma no_lead:
  "n \<le> 0x7f \<Longrightarrow> n AND 0xf0 \<noteq> (0xe0 :: nat)" "n AND 0xc0 = 0x80 \<Longrightarrow> n AND 0xf0 \<noteq> (0xe0 :: nat)"
  "n AND 0xe0 = 0xc0 \<Longrightarrow> n AND 0xf0 \<noteq> (0xe0 :: nat)" "n AND 0xf8 = 0xf0 \<Longrightarrow> n AND 0xf0 \<noteq> (0xe0 :: nat)"
proof -
  show "n AND 0xf0 \<noteq> 0xe0" if "n \<le> 0x7f"
  proof
    assume "n AND 0xf0 = 0xe0"
    then have "bit (n AND 0xf0) 7" by (simp add: bit_Suc_0_iff)
    then have "bit n 7" by (simp add: bit_and_iff)
    then show False using high_bit [of n 7 7] that by simp
  qed
  show "n AND 0xf0 \<noteq> 0xe0" if "n AND 0xc0 = 0x80"
    using mask_part [of n 240 224 192] that by auto
  show "n AND 0xf0 \<noteq> 0xe0" if "n AND 0xe0 = 0xc0"
    using mask_part [of n 240 224 224] that by auto
  show "n AND 0xf0 \<noteq> 0xe0" if "n AND 0xf8 = 0xf0"
    using mask_part [of n 248 240 240] that by auto
qed

lemma decode_plain:
  "uc c AND 0xf0 \<noteq> 0xe0 \<Longrightarrow> wtf8_decode_loop (c # s) = (fst (wtf8_decode_loop s), c # snd (wtf8_decode_loop s))"
  by (simp add: is_escape_def split: prod.splits)

lemma decode_escape:
  assumes "128 \<le> uc c"
  shows "wtf8_decode_loop (wtf8_escape (uc c) @ s) = (True, c # snd (wtf8_decode_loop s))"
proof -
  have "list_all (\<lambda>n. (let escape = escape_base + n; b0 = 0xe0 OR (drop_bit 12 escape AND 0x0f);
      b1 = 0x80 OR (drop_bit 6 escape AND 0x3f); b2 = 0x80 OR (drop_bit 0 escape AND 0x3f);
      code = push_bit 12 (b0 AND 0x0f) OR push_bit 6 (b1 AND 0x3f) OR (b2 AND 0x3f)
    in b0 < 256 \<and> b1 < 256 \<and> b2 < 256 \<and> b0 AND 0xf0 = 0xe0 \<and> b1 AND 0xc0 = 0x80 \<and> b2 AND 0xc0 = 0x80 \<and> code = escape_base + n)) [128..<256]"
    by (simp add: upt_rec escape_base_def Let_def flip: numeral_3_eq_3)
  then have *: "(let escape = escape_base + uc c; b0 = 0xe0 OR (drop_bit 12 escape AND 0x0f);
      b1 = 0x80 OR (drop_bit 6 escape AND 0x3f); b2 = 0x80 OR (drop_bit 0 escape AND 0x3f);
      code = push_bit 12 (b0 AND 0x0f) OR push_bit 6 (b1 AND 0x3f) OR (b2 AND 0x3f)
    in b0 < 256 \<and> b1 < 256 \<and> b2 < 256 \<and> b0 AND 0xf0 = 0xe0 \<and> b1 AND 0xc0 = 0x80 \<and> b2 AND 0xc0 = 0x80 \<and> code = escape_base + uc c)"
    using assms uc_less [of c] by (simp only: list_all_iff set_upt atLeastLessThan_iff)
  obtain b0 b1 b2 where b: "wtf8_escape (uc c) = [char_of b0, char_of b1, char_of b2]" "b0 < 256" "b1 < 256" "b2 < 256"
      "b0 AND 0xf0 = 0xe0" "b1 AND 0xc0 = 0x80" "b2 AND 0xc0 = 0x80"
      "push_bit 12 (b0 AND 0x0f) OR push_bit 6 (b1 AND 0x3f) OR (b2 AND 0x3f) = escape_base + uc c"
    using * unfolding wtf8_escape_def Let_def by blast
  have u: "uc (char_of b0) = b0" "uc (char_of b1) = b1" "uc (char_of b2) = b2" using b(2-4) by simp_all
  have le: "uc c \<le> 255" using uc_less [of c] by linarith
  have "is_escape b0 (char_of b1 # char_of b2 # s) = Some (uc c)"
    using b(5-8) u le by (simp add: is_escape_def byte_at_def Let_def)
  then show ?thesis using b(1) u(1) by (simp split: prod.splits)
qed

text \<open>A valid sequence decodes to itself, unless it is one of the private range, which decodes to a single byte.\<close>

lemma decode_valid:
  assumes "utf8_length (uc c) s = Suc k" and n: "is_escape (uc c) s = None"
  shows "fst (wtf8_decode_loop (drop k s)) = fst (wtf8_decode_loop (c # s))" "k \<le> length s"
    "snd (wtf8_decode_loop (c # take k s @ x)) = c # take k s @ snd (wtf8_decode_loop x)"
proof -
  have D: "fst (wtf8_decode_loop (c # s)) = fst (wtf8_decode_loop s)" using n by (auto split: prod.splits)
  consider (1) "k = 0" "uc c \<le> 0x7f"
    | (2) "k = 1" "uc c AND 0xe0 = 0xc0" "byte_at s 0 AND 0xc0 = 0x80"
    | (3) "k = 2" "byte_at s 0 AND 0xc0 = 0x80" "byte_at s 1 AND 0xc0 = 0x80"
    | (4) "k = 3" "uc c AND 0xf8 = 0xf0" "byte_at s 0 AND 0xc0 = 0x80" "byte_at s 1 AND 0xc0 = 0x80" "byte_at s 2 AND 0xc0 = 0x80"
    using assms(1) by (auto simp: utf8_length_def Let_def split: if_splits)
  then have "k \<le> length s \<and> fst (wtf8_decode_loop (drop k s)) = fst (wtf8_decode_loop (c # s)) \<and>
    snd (wtf8_decode_loop (c # take k s @ x)) = c # take k s @ snd (wtf8_decode_loop x)"
  proof cases
    case 1
    then show ?thesis using D decode_plain [OF no_lead(1)] by simp
  next
    case 2
    then obtain a t where s: "s = a # t" by (cases s) (auto simp: byte_at_def)
    then have "uc a AND 0xf0 \<noteq> 0xe0" "uc c AND 0xf0 \<noteq> 0xe0" using 2 no_lead(2,3) by (auto simp: byte_at_def)
    then show ?thesis using 2 s D decode_plain by auto
  next
    case 3
    then obtain a b t where s: "s = a # b # t" by (cases s; cases "tl s") (auto simp: byte_at_def)
    then have nl: "uc a AND 0xf0 \<noteq> 0xe0" "uc b AND 0xf0 \<noteq> 0xe0" using 3 no_lead(2) by (auto simp: byte_at_def)
    have "is_escape (uc c) (a # b # x) = is_escape (uc c) s" for x by (simp add: is_escape_def byte_at_def s)
    then have "snd (wtf8_decode_loop (c # a # b # x)) = c # snd (wtf8_decode_loop (a # b # x))"
      using n by (simp del: wtf8_decode_loop.simps(2) add: wtf8_decode_loop.simps(2) [of c] split: prod.splits)
    then show ?thesis using 3 s nl D decode_plain by auto
  next
    case 4
    then obtain a b d t where s: "s = a # b # d # t"
      by (cases s; cases "tl s"; cases "tl (tl s)") (auto simp: byte_at_def)
    then have "uc a AND 0xf0 \<noteq> 0xe0" "uc b AND 0xf0 \<noteq> 0xe0" "uc d AND 0xf0 \<noteq> 0xe0" "uc c AND 0xf0 \<noteq> 0xe0"
      using 4 no_lead(2,4) by (auto simp: byte_at_def)
    then show ?thesis using 4 s D decode_plain by auto
  qed
  then show "k \<le> length s" "fst (wtf8_decode_loop (drop k s)) = fst (wtf8_decode_loop (c # s))"
    "snd (wtf8_decode_loop (c # take k s @ x)) = c # take k s @ snd (wtf8_decode_loop x)" by blast+
qed

lemma escape_is_valid:
  assumes "is_escape (uc c) s = Some code"
  shows "utf8_length (uc c) s = 3" "\<exists>a b t. s = a # b # t"
    "snd (wtf8_decode_loop (c # take 2 s @ x)) = char_of code # snd (wtf8_decode_loop x)"
proof -
  have e: "uc c AND 0xf0 = 0xe0" "byte_at s 0 AND 0xc0 = 0x80" "byte_at s 1 AND 0xc0 = 0x80"
    "0xe000 \<le> push_bit 12 (uc c AND 0x0f) OR push_bit 6 (byte_at s 0 AND 0x3f) OR (byte_at s 1 AND 0x3f)"
    using assms by (auto simp: is_escape_def escape_base_def Let_def split: if_splits)
  show st: "\<exists>a b t. s = a # b # t"
    using e(2,3) by (cases s; cases "tl s") (auto simp: byte_at_def)
  have r: "\<not> uc c \<le> 0x7f" "uc c AND 0xe0 \<noteq> 0xc0"
    using no_lead(1,3) e(1) by blast+
  have "list_all (\<lambda>n :: nat. n AND 0xf0 = 0xe0 \<longrightarrow> 0xc2 \<le> n \<and> n \<le> 0xf5) [128..<256]"
    by (simp add: upt_rec flip: numeral_3_eq_3)
  then have "n AND 0xf0 = 0xe0 \<longrightarrow> 0xc2 \<le> n \<and> n \<le> 0xf5" if "n \<in> {128..<256}" for n :: nat
    using that unfolding list_all_iff set_upt by blast
  from this [of "uc c"] have "0xc2 \<le> uc c \<and> uc c \<le> 0xf5" using uc_less [of c] e(1) r(1) by simp
  then show "utf8_length (uc c) s = 3"
    using e r by (auto simp: utf8_length_def Let_def)
  obtain a b t where s: "s = a # b # t" using st by blast
  have "is_escape (uc c) (a # b # x) = is_escape (uc c) s" by (simp add: is_escape_def byte_at_def s)
  then show "snd (wtf8_decode_loop (c # take 2 s @ x)) = char_of code # snd (wtf8_decode_loop x)"
    using assms by (simp add: s split: prod.splits)
qed

lemma decode_encode_loop:
  "(\<not> fst (wtf8_decode_loop s) \<longrightarrow> snd (wtf8_decode_loop (snd (wtf8_encode_loop s))) = s) \<and>
   (if fst (wtf8_decode_loop s) then length (snd (wtf8_decode_loop (snd (wtf8_encode_loop s)))) < length s
    else length (snd (wtf8_decode_loop (snd (wtf8_encode_loop s)))) \<le> length s)"
proof (induction s rule: wtf8_encode_loop.induct)
  case (2 c s)
  show ?case
  proof (cases "is_escape (uc c) s")
    case (Some code)
    note E = escape_is_valid [OF Some]
    obtain a b t where s: "s = a # b # t" using E(2) by blast
    have "snd (wtf8_encode_loop (c # s)) = c # take 2 s @ snd (wtf8_encode_loop (drop 2 s))"
      using E(1) by (simp add: Let_def split: prod.splits)
    moreover have "fst (wtf8_decode_loop (c # s))" using Some by (simp split: prod.splits)
    ultimately show ?thesis using "2.IH"(2) [OF refl] E(1,3) by (simp add: s split: if_splits)
  next
    case None
    show ?thesis
    proof (cases "utf8_length (uc c) s")
      case 0
      then have "128 \<le> uc c" by (auto simp: utf8_length_def Let_def split: if_splits)
      moreover have "wtf8_encode_loop (c # s) = (True, wtf8_escape (uc c) @ snd (wtf8_encode_loop s))"
        using 0 by (simp add: Let_def split: prod.splits)
      moreover have "fst (wtf8_decode_loop (c # s)) = fst (wtf8_decode_loop s)" using None by (auto split: prod.splits)
      ultimately show ?thesis using "2.IH"(1) [OF refl 0] decode_escape by simp
    next
      case (Suc k)
      note V = decode_valid [OF Suc None]
      have "snd (wtf8_encode_loop (c # s)) = c # take k s @ snd (wtf8_encode_loop (drop k s))"
        using Suc by (simp add: Let_def split: prod.splits)
      then show ?thesis using V "2.IH"(2) [OF refl] Suc by (simp del: wtf8_decode_loop.simps split: if_splits)
    qed
  qed
qed simp

lemma encode_no_nul:
  "\<forall>c \<in> set s. uc c \<noteq> 0 \<Longrightarrow> \<forall>c \<in> set (snd (wtf8_encode_loop s)). uc c \<noteq> 0"
proof (induction s rule: wtf8_encode_loop.induct)
  case (2 c s)
  show ?case
  proof (cases "utf8_length (uc c) s")
    case 0
    have "0xe0 OR (n AND 0x0f) \<noteq> 0" "0x80 OR (n AND 0x3f) \<noteq> 0" for n :: nat by (simp_all add: or_eq_0_iff)
    have small: "0xe0 OR (n AND 0x0f) < 2 ^ 8" "0x80 OR (n AND 0x3f) < 2 ^ 8" for n :: nat
      by (rule less_by_bits, simp add: bit_arith high_bit [of _ 8])+
    have "\<forall>x \<in> set (wtf8_escape (uc c)). uc x \<noteq> 0"
      using small by (auto simp: wtf8_escape_def Let_def or_eq_0_iff simp del: neq0_conv bot_nat_0.not_eq_extremum)
    then show ?thesis using "2.IH"(1) [OF refl 0] "2.prems" 0 by (auto simp: Let_def split: prod.splits)
  next
    case (Suc k)
    have "set (take k s) \<subseteq> set s" "set (drop k s) \<subseteq> set s" by (rule set_take_subset, rule set_drop_subset)
    then show ?thesis using "2.IH"(2) [OF refl] "2.prems" Suc by (auto simp: Let_def split: prod.splits) blast+
  qed
qed simp

text \<open>
  C39: a name of any bytes, valid UTF-8 or not, is given back by encoding and decoding it exactly when it has no
  code of the private range itself (decoding reports nothing to decode); with such a code the name comes back shorter.
\<close>
theorem wtf8_decode_encode:
  assumes "\<forall>c \<in> set s. uc c \<noteq> 0"
  shows "if fst (s3fs_wtf8_decode s) then length (snd (s3fs_wtf8_decode (snd (s3fs_wtf8_encode s)))) < length s
    else snd (s3fs_wtf8_decode (snd (s3fs_wtf8_encode s))) = s"
proof -
  have "c_str s = s" using assms(1) by (rule c_str_id)
  moreover have "c_str (snd (wtf8_encode_loop s)) = snd (wtf8_encode_loop s)"
    using encode_no_nul [OF assms(1)] by (rule c_str_id)
  ultimately show ?thesis using decode_encode_loop [of s] by (simp add: s3fs_wtf8_decode_def s3fs_wtf8_encode_def)
qed

text \<open>Without a result a valid name that is not ASCII is reported as one to transform, which it is not with one.\<close>

lemma wtf8_encode_null_differs:
  "s3fs_wtf8_encode_null [CHR 0xC3, CHR 0xA9]" "\<not> fst (s3fs_wtf8_encode [CHR 0xC3, CHR 0xA9])"
  by (simp_all add: s3fs_wtf8_encode_null_def s3fs_wtf8_encode_def c_str_def utf8_length_def byte_at_def Let_def)

text \<open>The check for surrogates stops at D8FF: the others pass as valid.\<close>

lemma wtf8_passes_surrogate:
  "s3fs_wtf8_encode [CHR 0xED, CHR 0xA4, CHR 0x80] = (False, [CHR 0xED, CHR 0xA4, CHR 0x80])"
  by (simp add: s3fs_wtf8_encode_def c_str_def utf8_length_def byte_at_def Let_def)

theorem wtf8_decode_encode_witness:
  "snd (s3fs_wtf8_decode (snd (s3fs_wtf8_encode [CHR ''a'', CHR 0xC3, CHR 0xA9, CHR 0xFF]))) = [CHR ''a'', CHR 0xC3, CHR 0xA9, CHR 0xFF]"
  using wtf8_decode_encode [of "[CHR ''a'', CHR 0xC3, CHR 0xA9, CHR 0xFF]"]
  by (simp add: s3fs_wtf8_decode_def [of "[CHR ''a'', CHR 0xC3, CHR 0xA9, CHR 0xFF]"] c_str_def is_escape_def)

subsection \<open>Carriage returns read back\<close>

definition cr_escape :: "char \<Rightarrow> string" where
  "cr_escape c = (if c = CHR ''%'' then ''%45'' else if c = CHR 0x0D then ''%0D'' else [c])"

lemma cr_encode_Nil: "cr_encode [] = []"
  by (subst cr_encode.simps) simp

lemma cr_encode_Cons: "cr_encode (c # s) = cr_escape c @ cr_encode s"
proof (cases "c = CHR ''%'' \<or> c = CHR 0x0D")
  case True
  then show ?thesis by (subst cr_encode.simps) (auto simp: cr_escape_def)
next
  case False
  then show ?thesis
    by (simp add: cr_encode.simps [of "c # s"] cr_encode.simps [of s] cr_escape_def Let_def split: list.splits)
qed

lemma cr_decode_Nil: "cr_decode [] = []"
  by (subst cr_decode.simps) simp

lemma cr_decode_other: "c \<noteq> CHR ''%'' \<Longrightarrow> cr_decode (c # s) = c # cr_decode s"
  by (simp add: cr_decode.simps [of "c # s"] cr_decode.simps [of s] Let_def split: list.splits)

lemma cr_decode_escape: "cr_decode (cr_escape c @ s) = c # cr_decode s"
proof -
  consider "c = CHR ''%''" | "c = CHR 0x0D" | "c \<noteq> CHR ''%''" "c \<noteq> CHR 0x0D" by blast
  then show ?thesis
  proof cases
    case 1
    then show ?thesis by (subst cr_decode.simps) (simp add: cr_escape_def)
  next
    case 2
    then show ?thesis by (subst cr_decode.simps) (simp add: cr_escape_def)
  next
    case 3
    then show ?thesis by (simp add: cr_escape_def cr_decode_other)
  qed
qed

lemma cr_decode_encode: "cr_decode (cr_encode s) = s"
  by (induction s) (simp_all add: cr_encode_Nil cr_encode_Cons cr_decode_Nil cr_decode_escape)

lemma cr_encode_set: "\<forall>c \<in> set s. uc c \<noteq> 0 \<Longrightarrow> \<forall>c \<in> set (cr_encode s). uc c \<noteq> 0 \<and> c \<noteq> CHR 0x0D"
  by (induction s) (auto simp: cr_encode_Nil cr_encode_Cons cr_escape_def)

text \<open>
  The text given to the XML parser has no carriage return left for it to change, and decoding what was encoded
  gives the names back, with their percent signs and carriage returns.
\<close>
theorem cr_code_roundtrip:
  assumes "\<forall>c \<in> set s. uc c \<noteq> 0"
  shows "get_decoded_cr_code (Some (get_encoded_cr_code (Some s))) = s \<and> CHR 0x0D \<notin> set (get_encoded_cr_code (Some s))"
proof -
  have "c_str s = s" "c_str (cr_encode s) = cr_encode s" using c_str_id assms cr_encode_set [OF assms] by blast+
  then show ?thesis using cr_encode_set [OF assms] cr_decode_encode by (auto simp: get_decoded_cr_code_def get_encoded_cr_code_def)
qed

theorem cr_code_roundtrip_witness:
  "get_decoded_cr_code (Some (get_encoded_cr_code (Some [CHR ''a'', CHR 0x0D, CHR ''%'']))) = [CHR ''a'', CHR 0x0D, CHR ''%'']"
  using cr_code_roundtrip [of "[CHR ''a'', CHR 0x0D, CHR ''%'']"] by simp

subsection \<open>Trimming\<close>

lemma trim_ends:
  "trim s t = [] \<or> hd (trim s t) \<notin> set t \<and> last (trim s t) \<notin> set t"
proof (cases "trim s t = []")
  case False
  define r where "r = trim_right s t"
  have "hd (trim s t) \<notin> set t"
    using False hd_dropWhile [of "\<lambda>c. c \<in> set t" r] by (simp add: trim_def trim_left_def r_def)
  moreover have "last (trim s t) = last r"
    using False takeWhile_dropWhile_id [of "\<lambda>c. c \<in> set t" r] last_appendR unfolding trim_def trim_left_def r_def by metis
  moreover have "r \<noteq> []" using False by (auto simp: trim_def trim_left_def r_def)
  then have "last r \<notin> set t"
    using hd_dropWhile [of "\<lambda>c. c \<in> set t" "rev s"] by (simp add: r_def trim_right_def last_rev)
  ultimately show ?thesis by simp
qed simp

end
