(* ===== verification/Fd_Stat.thy ===== *)
theory Fd_Stat
  imports Fd_Query String_Util
begin

section \<open>The page list on disk (\<^verbatim>\<open>s3fs/fdcache_page.cpp\<close>: \<^verbatim>\<open>Serialize\<close> and the comparison with the sparse file)\<close>

text \<open>
  A page list is stored as text beside the cache file and read back when the file is opened again; at start the
  areas are compared with the holes of the cache file.  The file with the text is a record of what its system
  calls answer, the cache file the functions \<^verbatim>\<open>lseek\<close> and \<^verbatim>\<open>pread\<close> as parameters.
\<close>

subsection \<open>Serialize\<close>

record stat_file =
  sf_open :: bool
  sf_ftruncate :: bool
  sf_pwrite :: "string \<Rightarrow> int"
  sf_size :: "int option"
  sf_pread :: "string option"

definition str_off :: "int \<Rightarrow> string" where
  "str_off i = (if i < 0 then CHR ''-'' # to_string (nat (- i)) else to_string (nat i))"

definition page_line :: "fdpage \<Rightarrow> string" where
  "page_line p = str_off (offset p) @ '':'' @ str_off (bytes p) @ '':'' @
     (if loaded p then ''1'' else ''0'') @ '':'' @ (if modified p then ''1'' else ''0'')"

definition serialize_text :: "nat \<Rightarrow> PageList \<Rightarrow> string" where
  "serialize_text inode pl =
     to_string inode @ '':'' @ str_off (PL_Size pl) @ concat (map (\<lambda>p. CHR 0x0A # page_line p) (pages pl))"

text \<open>The result of writing, and the text written.\<close>

definition Serialize_output :: "stat_file \<Rightarrow> nat \<Rightarrow> PageList \<Rightarrow> bool \<times> string option" where
  "Serialize_output file inode pl =
     (if \<not> sf_open file then (False, None)
      else if \<not> sf_ftruncate file then (False, None)
      else (let strall = serialize_text inode pl
            in if sf_pwrite file strall \<le> 0 then (False, None) else (True, Some strall)))"

definition parse_head :: "string \<Rightarrow> (int \<times> int) option" where
  "parse_head oneline =
     (case getlines (CHR '':'') oneline of
        [] \<Rightarrow> None
      | [strhead1] \<Rightarrow> Some (cvt_strtoofft strhead1 10, 0)
      | strhead1 # strhead2 # _ \<Rightarrow>
          (let cache_inode = cvt_strtoofft strhead1 10
           in if cache_inode = 0 then None else Some (cvt_strtoofft strhead2 10, cache_inode)))"

definition status_of :: "bool \<Rightarrow> bool \<Rightarrow> page_status" where
  "status_of is_loaded is_modified =
     (if is_loaded then (if is_modified then LOAD_MODIFIED else LOADED)
      else (if is_modified then MODIFIED else NOT_LOAD_MODIFIED))"

fun load_lines :: "string list \<Rightarrow> PageList \<Rightarrow> bool \<times> PageList" where
  "load_lines [] pl = (False, pl)"
| "load_lines (oneline # ls) pl =
     (case getlines (CHR '':'') oneline of
        off # n # l # rest \<Rightarrow>
          (let is_modified = (case rest of [] \<Rightarrow> False | m # _ \<Rightarrow> cvt_strtoofft m 10 = 1)
           in load_lines ls (PL_SetPageLoadedStatus (cvt_strtoofft off 10) (cvt_strtoofft n 10)
                               (status_of (cvt_strtoofft l 10 = 1) is_modified) True pl))
      | _ \<Rightarrow> (True, pl))"

definition Serialize_input :: "stat_file \<Rightarrow> nat \<Rightarrow> PageList \<Rightarrow> bool \<times> PageList" where
  "Serialize_input file inode pl =
     (if \<not> sf_open file then (False, pl)
      else (case sf_size file of
          None \<Rightarrow> (False, pl)
        | Some st_size \<Rightarrow>
            if st_size \<le> 0 then (True, PL_Init 0 False False pl)
            else (case sf_pread file of
                None \<Rightarrow> (False, pl)
              | Some text \<Rightarrow>
                  (let pl = PL_Clear pl
                   in (case getlines (CHR 0x0A) (c_str text) of
                         [] \<Rightarrow> (False, pl)
                       | oneline # ls \<Rightarrow>
                           (case parse_head oneline of
                              None \<Rightarrow> (False, pl)
                            | Some (total_size, cache_inode) \<Rightarrow>
                                if cache_inode \<noteq> 0 \<and> cache_inode \<noteq> int inode then (False, pl)
                                else (case load_lines ls pl of (is_err, pl) \<Rightarrow>
                                        if is_err then (False, PL_Clear pl)
                                        else if total_size \<noteq> PL_Size pl then (False, PL_Clear pl)
                                        else (True, pl))))))))"

subsection \<open>Comparison with the holes of the cache file\<close>

text \<open>\<open>seek data pos\<close> is \<^verbatim>\<open>lseek(fd, pos, SEEK_DATA)\<close> or, for \<open>data\<close> false, \<^verbatim>\<open>SEEK_HOLE\<close>; it may go on for ever.\<close>

partial_function (option) sparse_loop ::
    "(bool \<Rightarrow> int \<Rightarrow> int) \<Rightarrow> int \<Rightarrow> int \<Rightarrow> bool \<Rightarrow> fdpage list \<Rightarrow> fdpage list option" where
  "sparse_loop seek file_size cur_pos is_hole sparse_list =
     (if 0 \<le> cur_pos
      then (let next_pos = seek is_hole cur_pos
            in sparse_loop seek file_size next_pos (\<not> is_hole)
                 (sparse_list @ [fdpage cur_pos (if next_pos = -1 then file_size - cur_pos else next_pos - cur_pos) (\<not> is_hole) False]))
      else Some sparse_list)"

definition GetSparseFilePages :: "(bool \<Rightarrow> int \<Rightarrow> int) \<Rightarrow> int \<Rightarrow> (bool \<times> fdpage list) option" where
  "GetSparseFilePages seek file_size =
     (if file_size = 0 then Some (True, [])
      else (let hole_pos = seek False 0; data_pos = seek True 0
            in if hole_pos = -1 \<and> data_pos = -1 then Some (False, [])
               else (let is_hole = (if hole_pos = -1 then False else if data_pos = -1 then True
                                    else if hole_pos < data_pos then True else False)
                     in Option.bind (sparse_loop seek file_size 0 is_hole []) (\<lambda>ps. Some (True, ps)))))"

definition CHECK_CACHEFILE_PART_SIZE :: nat where "CHECK_CACHEFILE_PART_SIZE = 1024 * 16"

partial_function (option) CheckZeroArea_loop ::
    "(int \<Rightarrow> nat \<Rightarrow> Prelude.bytes option) \<Rightarrow> int \<Rightarrow> nat \<Rightarrow> nat \<Rightarrow> bool option" where
  "CheckZeroArea_loop pread start n comp_bytes =
     (if comp_bytes < n
      then (let check_bytes = min CHECK_CACHEFILE_PART_SIZE (n - comp_bytes)
            in (case pread (start + int comp_bytes) check_bytes of
                  None \<Rightarrow> Some False
                | Some readbuff \<Rightarrow>
                    if \<exists>b \<in> set readbuff. b \<noteq> 0 then Some False
                    else CheckZeroArea_loop pread start n (comp_bytes + length readbuff)))
      else Some True)"

definition CheckZeroAreaInFile :: "(int \<Rightarrow> nat \<Rightarrow> Prelude.bytes option) \<Rightarrow> int \<Rightarrow> nat \<Rightarrow> bool option" where
  "CheckZeroAreaInFile pread start n = CheckZeroArea_loop pread start n 0"

text \<open>The part of the area under check that an area of the sparse file covers, by the cases of the source.\<close>

definition check_area :: "fdpage \<Rightarrow> fdpage \<Rightarrow> int \<times> int" where
  "check_area checkpage it =
     (if offset it < offset checkpage \<and> page_next it < page_next checkpage
      then (offset checkpage, bytes it - (offset checkpage - offset it))
      else if page_next checkpage < page_next it
      then (offset it, bytes checkpage - (offset it - offset checkpage))
      else if offset checkpage < offset it \<and> page_next it < page_next checkpage
      then (offset it, bytes it)
      else (offset checkpage, bytes checkpage))"

fun CheckAreaInSparseFile ::
    "(int \<Rightarrow> nat \<Rightarrow> Prelude.bytes option) \<Rightarrow> fdpage \<Rightarrow> fdpage list \<Rightarrow> bool \<Rightarrow> fdpage list \<Rightarrow> fdpage list \<Rightarrow>
     (bool \<times> fdpage list \<times> fdpage list) option" where
  "CheckAreaInSparseFile pread checkpage [] result errs warns = Some (result, errs, warns)"
| "CheckAreaInSparseFile pread checkpage (it # sparse) result errs warns =
     (if page_next it \<le> offset checkpage then CheckAreaInSparseFile pread checkpage sparse result errs warns
      else if page_next checkpage \<le> offset it then Some (result, errs, warns)
      else (case check_area checkpage it of (check_start, check_bytes) \<Rightarrow>
              if loaded checkpage \<or> modified checkpage
              then (if \<not> loaded it
                    then CheckAreaInSparseFile pread checkpage sparse False
                           (errs @ [fdpage check_start check_bytes False False]) warns
                    else CheckAreaInSparseFile pread checkpage sparse result errs warns)
              else if loaded it
              then (case CheckZeroAreaInFile pread check_start (nat check_bytes) of
                      None \<Rightarrow> None
                    | Some zero \<Rightarrow>
                        if \<not> zero
                        then CheckAreaInSparseFile pread checkpage sparse False errs
                               (warns @ [fdpage check_start check_bytes True False])
                        else CheckAreaInSparseFile pread checkpage sparse result errs warns)
              else CheckAreaInSparseFile pread checkpage sparse result errs warns))"

fun compare_pages ::
    "(int \<Rightarrow> nat \<Rightarrow> Prelude.bytes option) \<Rightarrow> fdpage list \<Rightarrow> fdpage list \<Rightarrow> bool \<Rightarrow> fdpage list \<Rightarrow> fdpage list \<Rightarrow>
     (bool \<times> fdpage list \<times> fdpage list) option" where
  "compare_pages pread sparse [] result errs warns = Some (result, errs, warns)"
| "compare_pages pread sparse (p # ps) result errs warns =
     (case CheckAreaInSparseFile pread p sparse True errs warns of
        None \<Rightarrow> None
      | Some (r, errs, warns) \<Rightarrow> compare_pages pread sparse ps (if \<not> r then False else result) errs warns)"

definition PL_CompareSparseFile ::
    "(bool \<Rightarrow> int \<Rightarrow> int) \<Rightarrow> (int \<Rightarrow> nat \<Rightarrow> Prelude.bytes option) \<Rightarrow> int \<Rightarrow> PageList \<Rightarrow>
     (bool \<times> fdpage list \<times> fdpage list) option" where
  "PL_CompareSparseFile seek pread file_size pl =
     (case GetSparseFilePages seek file_size of
        None \<Rightarrow> None
      | Some (ok, sparse) \<Rightarrow>
          if \<not> ok then Some (False, [fdpage 0 file_size False False], [])
          else if sparse = [] \<and> pages pl = [] then Some (True, [], [])
          else compare_pages pread sparse (pages pl) True [] [])"

subsection \<open>What was written is read back\<close>

lemma cvt_str_off: "0 \<le> i \<Longrightarrow> i \<le> LLONG_MAX \<Longrightarrow> cvt_strtoofft (str_off i) 10 = i"
  using cvt_to_string [of "nat i"] by (simp add: str_off_def)

lemma str_off_chars: "0 \<le> i \<Longrightarrow> c \<in> set (str_off i) \<Longrightarrow> is_digit c"
  using to_string_digits by (auto simp: str_off_def)

lemma str_off_not_Nil [simp]: "str_off i \<noteq> []"
  by (simp add: str_off_def)

lemma digit_sep: "is_digit c \<Longrightarrow> c \<noteq> CHR '':'' \<and> c \<noteq> CHR 0x0A \<and> uc c \<noteq> 0"
  by (auto simp: is_digit_def)

definition line_chars :: "string \<Rightarrow> bool" where
  "line_chars s = (\<forall>c \<in> set s. is_digit c \<or> c = CHR '':'')"

lemma line_chars_simps [simp]:
  "line_chars []" "line_chars (c # s) = ((is_digit c \<or> c = CHR '':'') \<and> line_chars s)"
  "line_chars (s @ t) = (line_chars s \<and> line_chars t)"
  by (auto simp: line_chars_def)

lemma line_chars_off: "0 \<le> i \<Longrightarrow> line_chars (str_off i)"
  using str_off_chars by (auto simp: line_chars_def)

lemma line_chars_page: "0 \<le> offset p \<Longrightarrow> 0 \<le> bytes p \<Longrightarrow> line_chars (page_line p)"
  by (simp add: page_line_def line_chars_off is_digit_def)

lemma getlines_pages:
  "line_chars s \<Longrightarrow> s \<noteq> [] \<Longrightarrow> \<forall>p \<in> set ps. line_chars (page_line p) \<Longrightarrow>
     getlines (CHR 0x0A) (s @ concat (map (\<lambda>p. CHR 0x0A # page_line p) ps)) = s # map page_line ps"
proof (induction ps arbitrary: s)
  case Nil
  then have "CHR 0x0A \<notin> set s" using digit_sep by (auto simp: line_chars_def)
  then show ?case using Nil by (simp add: getlines_one)
next
  case (Cons p ps)
  then have "CHR 0x0A \<notin> set s" using digit_sep by (auto simp: line_chars_def)
  moreover have "page_line p \<noteq> []" by (simp add: page_line_def)
  ultimately show ?case using Cons by (simp add: getlines_split)
qed

lemma getlines_page_line:
  assumes "0 \<le> offset p" and "0 \<le> bytes p"
  shows "getlines (CHR '':'') (page_line p) =
    [str_off (offset p), str_off (bytes p), if loaded p then ''1'' else ''0'', if modified p then ''1'' else ''0'']"
proof -
  have "CHR '':'' \<notin> set (str_off (offset p))" "CHR '':'' \<notin> set (str_off (bytes p))"
    using str_off_chars assms digit_sep by blast+
  then show ?thesis by (auto simp: page_line_def getlines_split getlines_one)
qed

lemma cvt_flag: "cvt_strtoofft ''1'' 10 = 1" "cvt_strtoofft ''0'' 10 = 0"
  by (simp_all add: cvt_strtoofft_def s3fs_strtoofft_def strtoll_def c_str_def is_space_def digit_value_def LLONG_MAX_def
      LLONG_MIN_def Let_def)

lemma set_flags_append: "set_flags (length xs) n f xs = xs @ replicate n f"
  by (rule nth_equalityI) (auto simp: nth_set_flags nth_append)

lemma status_flags_of: "status_flags (status_of l m) = (l, m)"
  by (auto simp: status_flags_def status_of_def)

lemma load_lines_pages:
  assumes "page_list_ok pl" and "tiled (PL_Size pl) ps" and "PL_Size pl + int (length (spread ps)) \<le> LLONG_MAX"
  shows "\<exists>pl'. load_lines (map page_line ps) pl = (False, pl') \<and> page_list_ok pl' \<and>
    spread (pages pl') = spread (pages pl) @ spread ps"
  using assms
proof (induction ps arbitrary: pl)
  case (Cons p ps)
  have z: "PL_Size pl = int (length (spread (pages pl)))" by (rule Size_ok [OF Cons.prems(1)])
  have p: "offset p = PL_Size pl" "0 \<le> bytes p" "0 \<le> offset p" "offset p \<le> LLONG_MAX" "bytes p \<le> LLONG_MAX"
    using Cons.prems(2,3) z by auto
  define pl1 where "pl1 = PL_SetPageLoadedStatus (offset p) (bytes p) (status_of (loaded p) (modified p)) True pl"
  have "page_list_ok pl1 \<and> spread (pages pl1) = set_flags (nat (offset p)) (nat (bytes p)) (flags p) (spread (pages pl))"
    unfolding pl1_def using SetPageLoadedStatus_law [OF Cons.prems(1) p(3,2)] by (simp add: status_flags_of flags_def)
  then have s: "page_list_ok pl1" "spread (pages pl1) = spread (pages pl) @ replicate (nat (bytes p)) (flags p)"
    using p(1) z by (simp_all add: set_flags_append)
  have z1: "PL_Size pl1 = page_next p" using Size_ok [OF s(1)] s(2) z p by (simp add: page_next_def)
  have "load_lines (map page_line (p # ps)) pl = load_lines (map page_line ps) pl1"
    using p by (simp add: getlines_page_line cvt_str_off cvt_flag pl1_def Let_def)
  moreover have "tiled (PL_Size pl1) ps" "PL_Size pl1 + int (length (spread ps)) \<le> LLONG_MAX"
    using Cons.prems(2,3) z1 p by (auto simp: page_next_def)
  ultimately show ?case using Cons.IH [OF s(1)] s(2) by auto
qed simp

lemma tiled_bytes: "tiled a ps \<Longrightarrow> p \<in> set ps \<Longrightarrow> 0 \<le> bytes p"
  by (induction ps arbitrary: a) auto

text \<open>
  C36: a page list that was stored and read back, by the same inode, has the same size and the same two flags for
  every byte.
\<close>
theorem Serialize_roundtrip:
  assumes "page_list_ok pl" and "PL_Size pl \<le> LLONG_MAX" and "0 < inode" and "int inode \<le> LLONG_MAX"
    and "Serialize_output file inode pl = (True, Some strall)"
    and "sf_open file'" and "sf_size file' = Some (int (length strall))" and "sf_pread file' = Some strall"
  shows "\<exists>pl'. Serialize_input file' inode pl0 = (True, pl') \<and> page_list_ok pl' \<and> spread (pages pl') = spread (pages pl)"
proof -
  have t: "tiled 0 (pages pl)" using assms(1) by (simp add: page_list_ok_def)
  have z: "PL_Size pl = int (length (spread (pages pl)))" by (rule Size_ok [OF assms(1)])
  have str: "strall = serialize_text inode pl" using assms(5) by (auto simp: Serialize_output_def Let_def split: if_splits)
  define head where "head = to_string inode @ '':'' @ str_off (PL_Size pl)"
  have s: "strall = head @ concat (map (\<lambda>p. CHR 0x0A # page_line p) (pages pl))" by (simp add: str serialize_text_def head_def)
  have "0 \<le> offset p \<and> 0 \<le> bytes p" if "p \<in> set (pages pl)" for p
    using tiled_within [OF t that] tiled_bytes [OF t that] by simp
  then have pages_lines: "\<forall>p \<in> set (pages pl). line_chars (page_line p)" using line_chars_page by blast
  have hl: "line_chars head" "head \<noteq> []"
    using to_string_digits z line_chars_off [of "PL_Size pl"] by (auto simp: line_chars_def head_def)
  have "uc c \<noteq> 0" if "c \<in> set strall" for c
  proof -
    have "is_digit c \<or> c = CHR '':'' \<or> c = CHR 0x0A"
      using that hl(1) pages_lines unfolding s by (auto simp: line_chars_def split: if_splits)
    then show ?thesis using digit_sep by auto
  qed
  then have c: "c_str strall = strall" by (intro c_str_id) blast
  have g: "getlines (CHR 0x0A) (c_str strall) = head # map page_line (pages pl)"
    unfolding c unfolding s by (rule getlines_pages [OF hl pages_lines])
  have "0 \<le> PL_Size pl" using z by simp
  then have nosep: "CHR '':'' \<notin> set (to_string inode)" "CHR '':'' \<notin> set (str_off (PL_Size pl))"
    using to_string_digits str_off_chars digit_sep by blast+
  have h: "parse_head head = Some (PL_Size pl, int inode)"
    using nosep assms(2-4) z cvt_to_string [of inode]
    by (simp add: parse_head_def head_def getlines_split getlines_one cvt_str_off Let_def)
  define pl1 where "pl1 = PL_Clear pl0"
  have e: "page_list_ok pl1" "PL_Size pl1 = 0" "spread (pages pl1) = []"
    by (simp_all add: pl1_def PL_Clear_def page_list_ok_def PL_Size_def)
  from load_lines_pages [OF e(1), of "pages pl"] t z assms(2) e obtain pl' where
    l: "load_lines (map page_line (pages pl)) pl1 = (False, pl')" "page_list_ok pl'" "spread (pages pl') = spread (pages pl)"
    by auto
  have "PL_Size pl' = PL_Size pl" using Size_ok [OF l(2)] l(3) z by simp
  moreover have "strall \<noteq> []" using hl(2) s by simp
  ultimately have "Serialize_input file' inode pl0 = (True, pl')"
    using assms(6-8) g h l(1) by (simp add: Serialize_input_def pl1_def [symmetric] Let_def)
  then show ?thesis using l by blast
qed

definition demo_stat :: "string \<Rightarrow> stat_file" where
  "demo_stat s = \<lparr>sf_open = True, sf_ftruncate = True, sf_pwrite = (\<lambda>s. int (length s)), sf_size = Some (int (length s)),
     sf_pread = Some s\<rparr>"

theorem Serialize_roundtrip_witness:
  "\<exists>strall pl'. Serialize_output (demo_stat []) 7 demo_pages = (True, Some strall) \<and>
     Serialize_input (demo_stat strall) 7 demo_pages = (True, pl') \<and> spread (pages pl') = spread (pages demo_pages)"
proof -
  have o: "Serialize_output (demo_stat []) 7 demo_pages = (True, Some (serialize_text 7 demo_pages))"
    by (simp add: Serialize_output_def demo_stat_def serialize_text_def)
  show ?thesis
    using Serialize_roundtrip [OF _ _ _ _ o, of "demo_stat (serialize_text 7 demo_pages)" demo_pages] o
    by (auto simp: demo_stat_def demo_pages_eq page_list_ok_def page_next_def PL_Size_def LLONG_MAX_def)
qed

subsection \<open>Where the comparison goes wrong\<close>

text \<open>
  An area of the sparse file that covers the whole checked area and ends behind it falls under case 3, which takes
  the part to check from the start of the former: bytes before the checked area are read, and reported.
\<close>

lemma check_area_before:
  "offset it < offset p \<Longrightarrow> page_next p < page_next it \<Longrightarrow> check_area p it = (offset it, page_next p - offset it)"
  by (simp add: check_area_def page_next_def)

lemma CompareSparseFile_false_warning:
  "compare_pages (\<lambda>off n. Some (take n (drop (nat off) [1, 1, 1, 0, 0, 1]))) [fdpage 0 6 True False]
     [fdpage 0 3 True False, fdpage 3 2 False False, fdpage 5 1 True False] True [] [] =
   Some (False, [], [fdpage 0 5 True False])"
proof -
  have "CheckZeroAreaInFile (\<lambda>off n. Some (take n (drop (nat off) [1, 1, 1, 0, 0, 1]))) 0 5 = Some False"
    by (subst CheckZeroAreaInFile_def, subst CheckZeroArea_loop.simps) (simp add: CHECK_CACHEFILE_PART_SIZE_def Let_def)
  then show ?thesis by (simp add: page_next_def check_area_def)
qed

text \<open>Behind the end of the file \<^verbatim>\<open>pread\<close> answers 0 bytes, and the loop does not advance.\<close>

lemma CheckZeroArea_loop_end:
  assumes "CheckZeroArea_loop pread start n comp_bytes = Some y"
  shows "\<not> ((\<forall>off m. eof \<le> off \<longrightarrow> pread off m = Some []) \<and> comp_bytes < n \<and> eof \<le> start + int comp_bytes)"
  by (rule CheckZeroArea_loop.raw_induct [where P = "\<lambda>pread start n comp_bytes y.
      \<not> ((\<forall>off m. eof \<le> off \<longrightarrow> pread off m = Some []) \<and> comp_bytes < n \<and> eof \<le> start + int comp_bytes)", OF _ assms])
     (auto simp: Let_def, blast)

lemma CheckZeroAreaInFile_hangs:
  assumes "\<forall>off m. eof \<le> off \<longrightarrow> pread off m = Some []" and "comp_bytes < n" and "eof \<le> start + int comp_bytes"
  shows "CheckZeroArea_loop pread start n comp_bytes = None"
  using CheckZeroArea_loop_end [of pread start n comp_bytes _ eof] assms by (cases "CheckZeroArea_loop pread start n comp_bytes") blast+

end
