(* ===== verification/Untreated.thy ===== *)
theory Untreated
  imports Prelude
begin

section \<open>What was written and not uploaded (\<^verbatim>\<open>s3fs/fdcache_untreated.cpp\<close>, \<^verbatim>\<open>types.h\<close>)\<close>

text \<open>
  While a file is uploaded as it is written, \<^verbatim>\<open>UntreatedParts\<close> keeps the areas written and not yet uploaded,
  each with the tag of the write that changed it last.  The list is sorted and neighbours are merged, so that it is
  the set of its bytes (\<open>parts_bytes\<close>); adding is union and clearing is difference, but for one case of
  clearing, where the code is wrong.  The contract is a locale, and interpreted on the code.
\<close>

record untreatedpart =
  up_start :: int
  up_size :: int
  up_tag :: int

record UntreatedParts =
  untreated_list :: "untreatedpart list"
  last_tag :: int

definition untreatedpart :: "int \<Rightarrow> int \<Rightarrow> int \<Rightarrow> untreatedpart" where
  "untreatedpart part_start part_size part_tag =
     (if part_start < 0 \<or> part_size \<le> 0 then \<lparr>up_start = 0, up_size = 0, up_tag = 0\<rparr>
      else \<lparr>up_start = part_start, up_size = part_size, up_tag = part_tag\<rparr>)"

definition check_overlap :: "int \<Rightarrow> int \<Rightarrow> untreatedpart \<Rightarrow> bool" where
  "check_overlap chk_start chk_size p =
     (\<not> (chk_start < 0 \<or> chk_size \<le> 0 \<or> up_start p < 0 \<or> up_size p \<le> 0 \<or> chk_start + chk_size < up_start p \<or>
         up_start p + up_size p < chk_start))"

definition stretch :: "int \<Rightarrow> int \<Rightarrow> int \<Rightarrow> untreatedpart \<Rightarrow> untreatedpart option" where
  "stretch add_start add_size tag p =
     (if \<not> check_overlap add_start add_size p then None
      else (let new_start = min (up_start p) add_start;
                new_next_start = max (up_start p + up_size p) (add_start + add_size)
            in Some \<lparr>up_start = new_start, up_size = new_next_start - new_start, up_tag = tag\<rparr>))"

subsection \<open>The methods\<close>

definition UT_empty :: "UntreatedParts \<Rightarrow> bool" where
  "UT_empty ut = (untreated_list ut = [])"

text \<open>The part just stretched takes in the parts after it that it now touches.\<close>

fun absorb :: "int \<Rightarrow> untreatedpart \<Rightarrow> untreatedpart list \<Rightarrow> untreatedpart list" where
  "absorb tag p [] = [p]"
| "absorb tag p (q # qs) =
     (case stretch (up_start q) (up_size q) tag p of
        None \<Rightarrow> p # q # qs
      | Some p \<Rightarrow> absorb tag p qs)"

fun add_loop :: "int \<Rightarrow> int \<Rightarrow> int \<Rightarrow> untreatedpart list \<Rightarrow> untreatedpart list" where
  "add_loop start n tag [] = [untreatedpart start n tag]"
| "add_loop start n tag (p # ps) =
     (case stretch start n tag p of
        Some p \<Rightarrow> absorb tag p ps
      | None \<Rightarrow> if start + n < up_start p then untreatedpart start n tag # p # ps
                else p # add_loop start n tag ps)"

definition UT_AddPart :: "int \<Rightarrow> int \<Rightarrow> UntreatedParts \<Rightarrow> bool \<times> UntreatedParts" where
  "UT_AddPart start n ut =
     (if start < 0 \<or> n \<le> 0 then (False, ut)
      else (let ut = ut\<lparr>last_tag := last_tag ut + 1\<rparr>
            in (True, ut\<lparr>untreated_list := add_loop start n (last_tag ut) (untreated_list ut)\<rparr>)))"

fun row_get_loop :: "int \<Rightarrow> int \<Rightarrow> bool \<Rightarrow> int \<Rightarrow> untreatedpart list \<Rightarrow> (int \<times> int) option" where
  "row_get_loop max_size min_size lastpart tag [] = None"
| "row_get_loop max_size min_size lastpart tag (p # ps) =
     (if \<not> lastpart \<or> up_tag p = tag
      then (if min_size \<le> up_size p
            then Some (up_start p, if up_size p \<le> max_size then up_size p else max_size)
            else if lastpart then None
            else row_get_loop max_size min_size lastpart tag ps)
      else row_get_loop max_size min_size lastpart tag ps)"

definition UT_RowGetPart :: "int \<Rightarrow> int \<Rightarrow> bool \<Rightarrow> UntreatedParts \<Rightarrow> (int \<times> int) option" where
  "UT_RowGetPart max_size min_size lastpart ut =
     (if max_size \<le> 0 \<or> min_size < 0 \<or> max_size < min_size then None
      else row_get_loop max_size min_size lastpart (last_tag ut) (untreated_list ut))"

definition UT_GetLastUpdatedPart :: "int \<Rightarrow> int \<Rightarrow> UntreatedParts \<Rightarrow> (int \<times> int) option" where
  "UT_GetLastUpdatedPart max_size min_size ut = UT_RowGetPart max_size min_size True ut"

text \<open>
  \<^verbatim>\<open>ClearParts\<close>: when the area lies inside a part the size of the rest is taken from the part after it was
  shortened, and is negative; the part made of it is the empty one.
\<close>

fun clear_loop :: "int \<Rightarrow> int \<Rightarrow> untreatedpart list \<Rightarrow> untreatedpart list" where
  "clear_loop start n [] = []"
| "clear_loop start n (p # ps) =
     (if n \<noteq> 0 \<and> start + n \<le> up_start p then p # ps
      else if start \<le> up_start p
      then (if n \<noteq> 0 \<and> start + n \<le> up_start p + up_size p
            then (let p = p\<lparr>up_size := up_start p + up_size p - (start + n), up_start := start + n\<rparr>
                  in if up_size p = 0 then clear_loop start n ps else p # ps)
            else clear_loop start n ps)
      else if start < up_start p + up_size p
      then (if n = 0 \<or> up_start p + up_size p \<le> start + n
            then p\<lparr>up_size := start - up_start p\<rparr> # clear_loop start n ps
            else (let p = p\<lparr>up_size := start - up_start p\<rparr>;
                      next_start = start + n;
                      next_size = up_start p + up_size p - (start + n)
                  in p # untreatedpart next_start next_size (up_tag p) # clear_loop start n ps))
      else p # clear_loop start n ps)"

definition UT_ClearParts :: "int \<Rightarrow> int \<Rightarrow> UntreatedParts \<Rightarrow> bool \<times> UntreatedParts" where
  "UT_ClearParts start n ut =
     (if start < 0 \<or> n < 0 then (False, ut)
      else if untreated_list ut = [] then (True, ut)
      else (True, ut\<lparr>untreated_list := clear_loop start n (untreated_list ut)\<rparr>))"

definition UT_ClearAll :: "UntreatedParts \<Rightarrow> bool \<times> UntreatedParts" where
  "UT_ClearAll ut = UT_ClearParts 0 0 ut"

definition UT_GetLastUpdatePart :: "UntreatedParts \<Rightarrow> (int \<times> int) option" where
  "UT_GetLastUpdatePart ut =
     map_option (\<lambda>p. (up_start p, up_size p)) (find (\<lambda>p. up_tag p = last_tag ut) (untreated_list ut))"

fun replace_loop :: "int \<Rightarrow> int \<Rightarrow> int \<Rightarrow> untreatedpart list \<Rightarrow> bool \<times> untreatedpart list" where
  "replace_loop start n tag [] = (False, [])"
| "replace_loop start n tag (p # ps) =
     (if up_tag p = tag then (True, if 0 < n then p\<lparr>up_start := start, up_size := n\<rparr> # ps else ps)
      else (case replace_loop start n tag ps of (r, ps) \<Rightarrow> (r, p # ps)))"

definition UT_ReplaceLastUpdatePart :: "int \<Rightarrow> int \<Rightarrow> UntreatedParts \<Rightarrow> bool \<times> UntreatedParts" where
  "UT_ReplaceLastUpdatePart start n ut =
     (case replace_loop start n (last_tag ut) (untreated_list ut) of (r, ps) \<Rightarrow> (r, ut\<lparr>untreated_list := ps\<rparr>))"

fun remove_loop :: "int \<Rightarrow> untreatedpart list \<Rightarrow> bool \<times> untreatedpart list" where
  "remove_loop tag [] = (False, [])"
| "remove_loop tag (p # ps) =
     (if up_tag p = tag then (True, ps) else (case remove_loop tag ps of (r, ps) \<Rightarrow> (r, p # ps)))"

definition UT_RemoveLastUpdatePart :: "UntreatedParts \<Rightarrow> bool \<times> UntreatedParts" where
  "UT_RemoveLastUpdatePart ut =
     (case remove_loop (last_tag ut) (untreated_list ut) of (r, ps) \<Rightarrow> (r, ut\<lparr>untreated_list := ps\<rparr>))"

definition UT_Duplicate :: "UntreatedParts \<Rightarrow> untreatedpart list" where
  "UT_Duplicate ut = untreated_list ut"

subsection \<open>The parts as a set of bytes\<close>

definition parts_bytes :: "untreatedpart list \<Rightarrow> int set" where
  "parts_bytes ps = (\<Union>p \<in> set ps. {up_start p..<up_start p + up_size p})"

lemma parts_bytes_simps [simp]:
  "parts_bytes [] = {}" "parts_bytes (p # ps) = {up_start p..<up_start p + up_size p} \<union> parts_bytes ps"
  by (auto simp: parts_bytes_def)

text \<open>Sorted, not empty, with at least one byte between neighbours; the first starts at \<open>lo\<close> or later.\<close>

fun parts_ok :: "int \<Rightarrow> untreatedpart list \<Rightarrow> bool" where
  "parts_ok lo [] = True"
| "parts_ok lo (p # ps) = (lo \<le> up_start p \<and> 0 < up_size p \<and> parts_ok (up_start p + up_size p + 1) ps)"

lemma parts_ok_weaken: "parts_ok lo ps \<Longrightarrow> lo' \<le> lo \<Longrightarrow> parts_ok lo' ps"
  by (cases ps) auto

lemma parts_lower: "parts_ok lo ps \<Longrightarrow> i \<in> parts_bytes ps \<Longrightarrow> lo \<le> i"
proof (induction ps arbitrary: lo)
  case (Cons p ps)
  then show ?case by (auto dest: Cons.IH [rotated])
qed simp

lemma absorb_law:
  assumes "parts_ok (up_start p + 1) ps" and "0 \<le> up_start p" and "0 < up_size p" and "up_tag p = tag"
  shows "parts_ok (up_start p) (absorb tag p ps) \<and>
    parts_bytes (absorb tag p ps) = {up_start p..<up_start p + up_size p} \<union> parts_bytes ps"
  using assms
proof (induction ps arbitrary: p)
  case (Cons q qs)
  show ?case
  proof (cases "check_overlap (up_start q) (up_size q) p")
    case False
    then have "up_start p + up_size p < up_start q" using Cons.prems by (auto simp: check_overlap_def)
    then show ?thesis using False Cons.prems by (auto simp: stretch_def intro: parts_ok_weaken)
  next
    case True
    let ?p = "\<lparr>up_start = up_start p, up_size = max (up_start p + up_size p) (up_start q + up_size q) - up_start p, up_tag = tag\<rparr>"
    have s: "stretch (up_start q) (up_size q) tag p = Some ?p"
      using True Cons.prems by (simp add: stretch_def Let_def min_def)
    have "parts_ok (up_start ?p + 1) qs" using Cons.prems by (auto intro: parts_ok_weaken)
    from Cons.IH [OF this] Cons.prems have IH: "parts_ok (up_start p) (absorb tag ?p qs)"
      "parts_bytes (absorb tag ?p qs) = {up_start p..<max (up_start p + up_size p) (up_start q + up_size q)} \<union> parts_bytes qs"
      by auto
    have "{up_start p..<max (up_start p + up_size p) (up_start q + up_size q)} =
        {up_start p..<up_start p + up_size p} \<union> {up_start q..<up_start q + up_size q}"
      using True Cons.prems by (auto simp: check_overlap_def)
    then show ?thesis using s IH by auto
  qed
qed simp

lemma add_loop_law:
  assumes "parts_ok lo ps" and "0 \<le> lo" and "0 \<le> start" and "0 < n"
  shows "parts_ok (min lo start) (add_loop start n tag ps) \<and>
    parts_bytes (add_loop start n tag ps) = parts_bytes ps \<union> {start..<start + n}"
  using assms
proof (induction ps arbitrary: lo)
  case Nil
  then show ?case by (simp add: untreatedpart_def)
next
  case (Cons p ps)
  consider (hit) "check_overlap start n p" | (before) "\<not> check_overlap start n p" "start + n < up_start p"
    | (after) "\<not> check_overlap start n p" "\<not> start + n < up_start p" by blast
  then show ?case
  proof cases
    case hit
    define q where "q = \<lparr>up_start = min (up_start p) start,
      up_size = max (up_start p + up_size p) (start + n) - min (up_start p) start, up_tag = tag\<rparr>"
    have s: "stretch start n tag p = Some q" using hit by (simp add: stretch_def q_def Let_def)
    have "parts_ok (up_start q + 1) ps" using Cons.prems by (auto simp: q_def intro: parts_ok_weaken)
    from absorb_law [OF this, of tag] Cons.prems have A: "parts_ok (up_start q) (absorb tag q ps)"
      "parts_bytes (absorb tag q ps) = {up_start q..<up_start q + up_size q} \<union> parts_bytes ps"
      by (auto simp: q_def)
    have "{up_start q..<up_start q + up_size q} = {up_start p..<up_start p + up_size p} \<union> {start..<start + n}"
      using hit Cons.prems by (auto simp: q_def check_overlap_def)
    moreover have "min lo start \<le> up_start q" using Cons.prems by (auto simp: q_def)
    ultimately show ?thesis using s A by (auto intro: parts_ok_weaken)
  next
    case before
    then have "stretch start n tag p = None" by (simp add: stretch_def)
    then show ?thesis using before Cons.prems by (auto simp: untreatedpart_def)
  next
    case after
    then have "up_start p + up_size p < start" using Cons.prems by (auto simp: check_overlap_def)
    moreover have "stretch start n tag p = None" using after by (simp add: stretch_def)
    ultimately show ?thesis
      using after Cons.prems Cons.IH [of "up_start p + up_size p + 1"] by (auto simp: min_def split: if_splits)
  qed
qed

definition untreated_ok :: "UntreatedParts \<Rightarrow> bool" where
  "untreated_ok ut = parts_ok 0 (untreated_list ut)"

definition untreated_bytes :: "UntreatedParts \<Rightarrow> int set" where
  "untreated_bytes ut = parts_bytes (untreated_list ut)"

lemma AddPart_law:
  assumes "untreated_ok ut" and "0 \<le> start" and "0 < n" and "UT_AddPart start n ut = (r, ut')"
  shows "r \<and> untreated_ok ut' \<and> untreated_bytes ut' = untreated_bytes ut \<union> {start..<start + n}"
  using assms add_loop_law [of 0 "untreated_list ut" start n "last_tag ut + 1"]
  by (auto simp: UT_AddPart_def untreated_ok_def untreated_bytes_def Let_def)

text \<open>The bytes from \<open>start\<close> to the end of the area, which is the end of all when the size is 0.\<close>

definition cleared :: "int \<Rightarrow> int \<Rightarrow> int set" where
  "cleared start n = {i. start \<le> i \<and> (n = 0 \<or> i < start + n)}"

text \<open>No part has bytes on both sides of the area.\<close>

definition not_inside :: "int \<Rightarrow> int \<Rightarrow> untreatedpart list \<Rightarrow> bool" where
  "not_inside start n ps = (\<forall>p \<in> set ps. n = 0 \<or> start \<le> up_start p \<or> up_start p + up_size p \<le> start + n)"

lemma not_inside_Cons [simp]:
  "not_inside start n (p # ps) =
     ((n = 0 \<or> start \<le> up_start p \<or> up_start p + up_size p \<le> start + n) \<and> not_inside start n ps)"
  by (auto simp: not_inside_def)

lemma clear_loop_law:
  assumes "parts_ok lo ps" and "0 \<le> n" and "not_inside start n ps"
  shows "parts_ok lo (clear_loop start n ps) \<and> parts_bytes (clear_loop start n ps) = parts_bytes ps - cleared start n"
  using assms
proof (induction ps arbitrary: lo)
  case (Cons p ps)
  let ?e = "up_start p + up_size p"
  have p: "lo \<le> up_start p" "0 < up_size p" "parts_ok (?e + 1) ps" "not_inside start n ps" using Cons.prems by auto
  have IH: "parts_ok (?e + 1) (clear_loop start n ps)" "parts_bytes (clear_loop start n ps) = parts_bytes ps - cleared start n"
    using Cons.IH [OF p(3) Cons.prems(2) p(4)] by auto
  have rest: "\<And>i. i \<in> parts_bytes ps \<Longrightarrow> ?e + 1 \<le> i" using parts_lower [OF p(3)] .
  consider (front) "n \<noteq> 0" "start + n \<le> up_start p"
    | (head) "n \<noteq> 0" "up_start p < start + n" "start \<le> up_start p" "start + n < ?e"
    | (whole) "start \<le> up_start p" "n = 0 \<or> ?e \<le> start + n"
    | (tail) "up_start p < start" "start < ?e" "n = 0 \<or> ?e \<le> start + n"
    | (behind) "up_start p < start" "?e \<le> start"
    using Cons.prems(2,3) p(2) by force
  then show ?case
  proof cases
    case front
    have "parts_bytes (p # ps) \<inter> cleared start n = {}" using front rest p(2) by (fastforce simp: cleared_def)
    then show ?thesis using front Cons.prems(1) by auto
  next
    case head
    have "parts_bytes ps \<inter> cleared start n = {}" using head rest by (fastforce simp: cleared_def)
    moreover have "{up_start p..<?e} - cleared start n = {start + n..<?e}" using head by (auto simp: cleared_def)
    ultimately show ?thesis using head p by auto
  next
    case whole
    then have "clear_loop start n (p # ps) = clear_loop start n ps" using p(2) by auto
    moreover have "{up_start p..<?e} - cleared start n = {}" using whole by (auto simp: cleared_def)
    moreover have "parts_ok lo (clear_loop start n ps)" using IH(1) p by (auto intro: parts_ok_weaken)
    ultimately show ?thesis using IH(2) by auto
  next
    case tail
    then have "clear_loop start n (p # ps) = p\<lparr>up_size := start - up_start p\<rparr> # clear_loop start n ps"
      using Cons.prems(2) by auto
    moreover have "{up_start p..<?e} - cleared start n = {up_start p..<start}" using tail by (auto simp: cleared_def)
    moreover have "parts_ok (start + 1) (clear_loop start n ps)" using IH(1) tail by (auto intro: parts_ok_weaken)
    ultimately show ?thesis using IH(2) tail p by auto
  next
    case behind
    then have "clear_loop start n (p # ps) = p # clear_loop start n ps" using Cons.prems(2) p(2) by auto
    moreover have "{up_start p..<?e} - cleared start n = {up_start p..<?e}" using behind by (auto simp: cleared_def)
    ultimately show ?thesis using IH p by auto
  qed
qed simp

lemma ClearParts_law:
  assumes "untreated_ok ut" and "0 \<le> start" and "0 \<le> n" and "not_inside start n (untreated_list ut)"
    and "UT_ClearParts start n ut = (r, ut')"
  shows "r \<and> untreated_ok ut' \<and> untreated_bytes ut' = untreated_bytes ut - cleared start n"
proof (cases "untreated_list ut = []")
  case True
  then show ?thesis using assms by (simp add: UT_ClearParts_def untreated_bytes_def)
next
  case False
  then have "r" "ut' = ut\<lparr>untreated_list := clear_loop start n (untreated_list ut)\<rparr>"
    using assms(2,3,5) by (simp_all add: UT_ClearParts_def)
  then show ?thesis
    using clear_loop_law [OF assms(1) [unfolded untreated_ok_def] assms(3,4)]
    by (simp only: untreated_ok_def untreated_bytes_def) simp
qed

text \<open>Clearing inside a part drops what the part has behind the area, too.\<close>

lemma parts_ok_member: "parts_ok lo ps \<Longrightarrow> q \<in> set ps \<Longrightarrow> lo \<le> up_start q \<and> 0 < up_size q"
  by (induction ps arbitrary: lo) force+

lemma clear_loop_inside:
  assumes "parts_ok lo ps" and "0 < n" and "\<not> not_inside start n ps"
  shows "\<exists>p \<in> set ps. up_start p < start \<and> start + n < up_start p + up_size p \<and>
    parts_bytes (clear_loop start n ps) = parts_bytes ps - {start..<up_start p + up_size p}"
  using assms
proof (induction ps arbitrary: lo)
  case (Cons p ps)
  let ?e = "up_start p + up_size p"
  have p: "0 < up_size p" "parts_ok (?e + 1) ps" using Cons.prems by auto
  have rest: "\<And>i. i \<in> parts_bytes ps \<Longrightarrow> ?e + 1 \<le> i" using parts_lower [OF p(2)] .
  show ?case
  proof (cases "up_start p < start \<and> start + n < ?e")
    case True
    have empty: "untreatedpart (start + n) (- n) t = \<lparr>up_start = 0, up_size = 0, up_tag = 0\<rparr>" for t
      using Cons.prems(2) by (simp add: untreatedpart_def)
    have "not_inside start n ps"
      unfolding not_inside_def
    proof
      fix q assume q: "q \<in> set ps"
      have "?e + 1 \<le> up_start q" using parts_ok_member [OF p(2)] q by simp
      then show "n = 0 \<or> start \<le> up_start q \<or> up_start q + up_size q \<le> start + n" using True Cons.prems(2) by linarith
    qed
    from clear_loop_law [OF p(2) _ this] Cons.prems(2)
    have cl: "parts_bytes (clear_loop start n ps) = parts_bytes ps - cleared start n" by simp
    have "parts_bytes ps \<inter> cleared start n = {}" "parts_bytes ps \<inter> {start..<?e} = {}"
      using rest True Cons.prems(2) unfolding disjoint_iff cleared_def by force+
    moreover have "clear_loop start n (p # ps) =
        p\<lparr>up_size := start - up_start p\<rparr> # \<lparr>up_start = 0, up_size = 0, up_tag = 0\<rparr> # clear_loop start n ps"
      using True Cons.prems(2) by (simp add: Let_def empty)
    ultimately have "parts_bytes (clear_loop start n (p # ps)) = {up_start p..<start} \<union> parts_bytes ps"
      using cl by (simp del: clear_loop.simps) blast
    moreover have "parts_bytes ps \<inter> {start..<?e} = {}" by fact
    moreover have "{up_start p..<?e} - {start..<?e} = {up_start p..<start}" using True Cons.prems(2) by auto
    ultimately have "parts_bytes (clear_loop start n (p # ps)) = parts_bytes (p # ps) - {start..<?e}"
      unfolding parts_bytes_simps by blast
    then show ?thesis using True by (intro bexI [of _ p]) (simp_all del: clear_loop.simps)
  next
    case False
    then have ni: "\<not> not_inside start n ps" using Cons.prems(2,3) by auto
    from Cons.IH [OF p(2) Cons.prems(2) ni] obtain q where q: "q \<in> set ps" "up_start q < start"
      "start + n < up_start q + up_size q"
      "parts_bytes (clear_loop start n ps) = parts_bytes ps - {start..<up_start q + up_size q}" by blast
    have "up_start q \<in> parts_bytes ps" using q(1-3) Cons.prems(2) by (auto simp: parts_bytes_def intro!: bexI [of _ q])
    from rest [OF this] q(2) have "?e < start" by linarith
    then have c: "clear_loop start n (p # ps) = p # clear_loop start n ps" using p(1) Cons.prems(2) by simp
    have d: "{up_start p..<?e} \<inter> {start..<up_start q + up_size q} = {}" using \<open>?e < start\<close> by auto
    have "parts_bytes (clear_loop start n (p # ps)) = parts_bytes (p # ps) - {start..<up_start q + up_size q}"
      unfolding c parts_bytes_simps q(4) using d by blast
    then show ?thesis using q(1-3) by (intro bexI [of _ q]) (simp_all del: clear_loop.simps)
  qed
qed (simp add: not_inside_def)

subsection \<open>The contract\<close>

text \<open>
  What \<^verbatim>\<open>FdEntity\<close> and \<^verbatim>\<open>PseudoFdInfo\<close> rely on: a set of bytes that a write adds an area to, and that an upload
  of a front of it takes away.
\<close>

locale byte_set =
  fixes add :: "int \<Rightarrow> int \<Rightarrow> 's \<Rightarrow> 's" and clear :: "int \<Rightarrow> int \<Rightarrow> 's \<Rightarrow> 's"
    and bytes_of :: "'s \<Rightarrow> int set" and inv :: "'s \<Rightarrow> bool" and safe :: "int \<Rightarrow> int \<Rightarrow> 's \<Rightarrow> bool"
  assumes add_inv: "inv s \<Longrightarrow> 0 \<le> a \<Longrightarrow> 0 < n \<Longrightarrow> inv (add a n s)"
    and add_bytes: "inv s \<Longrightarrow> 0 \<le> a \<Longrightarrow> 0 < n \<Longrightarrow> bytes_of (add a n s) = bytes_of s \<union> {a..<a + n}"
    and clear_inv: "inv s \<Longrightarrow> 0 \<le> a \<Longrightarrow> 0 < n \<Longrightarrow> safe a n s \<Longrightarrow> inv (clear a n s)"
    and clear_bytes: "inv s \<Longrightarrow> 0 \<le> a \<Longrightarrow> 0 < n \<Longrightarrow> safe a n s \<Longrightarrow> bytes_of (clear a n s) = bytes_of s - {a..<a + n}"
begin

primrec add_all :: "(int \<times> int) list \<Rightarrow> 's \<Rightarrow> 's" where
  "add_all [] s = s"
| "add_all (w # ws) s = add_all ws (add (fst w) (snd w) s)"

text \<open>After any writes, every written byte is in the set; clearing an area leaves every byte outside it.\<close>

lemma writes_kept:
  "inv s \<Longrightarrow> \<forall>(a, n) \<in> set ws. 0 \<le> a \<and> 0 < n \<Longrightarrow>
     inv (add_all ws s) \<and> bytes_of (add_all ws s) = bytes_of s \<union> (\<Union>(a, n) \<in> set ws. {a..<a + n})"
proof (induction ws arbitrary: s)
  case (Cons w ws)
  then show ?case using add_inv [of s "fst w" "snd w"] add_bytes [of s "fst w" "snd w"] by (cases w) auto
qed simp

lemma write_clear_write:
  assumes "inv s" and "\<forall>(a, n) \<in> set ws. 0 \<le> a \<and> 0 < n" and "0 \<le> a" and "0 < n" and "safe a n (add_all ws s)"
    and "i \<in> bytes_of s \<union> (\<Union>(a, n) \<in> set ws. {a..<a + n})"
  shows "i \<in> bytes_of (clear a n (add_all ws s)) \<or> a \<le> i \<and> i < a + n"
  using writes_kept [OF assms(1,2)] clear_bytes [OF _ assms(3-5)] assms(6) by auto

end

definition ut_add :: "int \<Rightarrow> int \<Rightarrow> UntreatedParts \<Rightarrow> UntreatedParts" where
  "ut_add a n ut = snd (UT_AddPart a n ut)"

definition ut_clear :: "int \<Rightarrow> int \<Rightarrow> UntreatedParts \<Rightarrow> UntreatedParts" where
  "ut_clear a n ut = snd (UT_ClearParts a n ut)"

definition ut_safe :: "int \<Rightarrow> int \<Rightarrow> UntreatedParts \<Rightarrow> bool" where
  "ut_safe a n ut = not_inside a n (untreated_list ut)"

interpretation ut: byte_set ut_add ut_clear untreated_bytes untreated_ok ut_safe
proof
  fix s :: UntreatedParts and a n :: int
  assume s: "untreated_ok s" "0 \<le> a" "0 < n"
  obtain r ut' where r: "UT_AddPart a n s = (r, ut')" by (rule prod.exhaust)
  from AddPart_law [OF s r] r show "untreated_ok (ut_add a n s)"
    "untreated_bytes (ut_add a n s) = untreated_bytes s \<union> {a..<a + n}" by (simp_all add: ut_add_def)
next
  fix s :: UntreatedParts and a n :: int
  assume s: "untreated_ok s" "0 \<le> a" "0 < n" "ut_safe a n s"
  obtain r ut' where r: "UT_ClearParts a n s = (r, ut')" by (rule prod.exhaust)
  have "cleared a n = {a..<a + n}" using s(3) by (auto simp: cleared_def)
  moreover have "0 \<le> n" using s(3) by simp
  ultimately show "untreated_ok (ut_clear a n s)" "untreated_bytes (ut_clear a n s) = untreated_bytes s - {a..<a + n}"
    using ClearParts_law [OF s(1,2) _ _ r] s(4) r by (simp_all add: ut_clear_def ut_safe_def)
qed

text \<open>
  C35: the areas not yet uploaded are kept exactly.  After any sequence of writes, clearing an uploaded area that
  no part surrounds leaves every byte written or pending before and not in that area, and no other, in a
  list that stays sorted and merged.  When a part has bytes on both sides of the area, the bytes it has behind
  the area are given up as well.
\<close>
theorem untreated_writes_clear:
  assumes "untreated_ok ut0" and "\<forall>(a, n) \<in> set ws. 0 \<le> a \<and> 0 < n"
    and "ut1 = fold (\<lambda>(a, n) ut. snd (UT_AddPart a n ut)) ws ut0" and "0 \<le> start" and "0 < n"
    and "UT_ClearParts start n ut1 = (r, ut2)"
  shows "r \<and> untreated_bytes ut1 = untreated_bytes ut0 \<union> (\<Union>(a, n) \<in> set ws. {a..<a + n}) \<and>
    (if not_inside start n (untreated_list ut1)
     then untreated_ok ut2 \<and> untreated_bytes ut2 = untreated_bytes ut1 - {start..<start + n}
     else \<exists>p \<in> set (untreated_list ut1). up_start p < start \<and> start + n < up_start p + up_size p \<and>
       untreated_bytes ut2 = untreated_bytes ut1 - {start..<up_start p + up_size p})"
proof -
  have "fold (\<lambda>(a, n) ut. snd (UT_AddPart a n ut)) ws s = ut.add_all ws s" for s
    by (induction ws arbitrary: s) (auto simp: ut_add_def)
  then have W: "untreated_ok ut1" "untreated_bytes ut1 = untreated_bytes ut0 \<union> (\<Union>(a, n) \<in> set ws. {a..<a + n})"
    using ut.writes_kept [OF assms(1,2)] assms(3) by auto
  show ?thesis
  proof (cases "not_inside start n (untreated_list ut1)")
    case True
    have "cleared start n = {start..<start + n}" using assms(5) by (auto simp: cleared_def)
    then show ?thesis using ClearParts_law [OF W(1) assms(4) _ True assms(6)] W(2) assms(5) True by simp
  next
    case False
    then have "untreated_list ut1 \<noteq> []" by (auto simp: not_inside_def)
    then have "r" "untreated_bytes ut2 = parts_bytes (clear_loop start n (untreated_list ut1))"
      using assms(4-6) by (auto simp: UT_ClearParts_def untreated_bytes_def)
    moreover have "parts_bytes (untreated_list ut1) = untreated_bytes ut1" by (simp add: untreated_bytes_def)
    ultimately show ?thesis
      using clear_loop_inside [OF W(1) [unfolded untreated_ok_def] assms(5) False] False W(2) by simp
  qed
qed

theorem untreated_writes_clear_witness:
  "let ut1 = fold (\<lambda>(a, n) ut. snd (UT_AddPart a n ut)) [(0, 4), (6, 4), (3, 4)] \<lparr>untreated_list = [], last_tag = 0\<rparr> in
     untreated_bytes (snd (UT_ClearParts 0 5 ut1)) = ({0..<4} \<union> {6..<10} \<union> {3..<7}) - {0..<5} \<and>
     untreated_bytes (snd (UT_ClearParts 2 3 ut1)) = ({0..<4} \<union> {6..<10} \<union> {3..<7}) - {2..<10}"
proof -
  define ut0 where "ut0 = \<lparr>untreated_list = [], last_tag = 0\<rparr>"
  define ut1 where "ut1 = fold (\<lambda>(a, n) ut. snd (UT_AddPart a n ut)) [(0, 4), (6, 4), (3, 4)] ut0"
  have ok: "untreated_ok ut0" "untreated_bytes ut0 = {}" by (simp_all add: ut0_def untreated_ok_def untreated_bytes_def)
  have l: "untreated_list ut1 = [\<lparr>up_start = 0, up_size = 10, up_tag = 3\<rparr>]"
    by (simp add: ut1_def ut0_def UT_AddPart_def untreatedpart_def stretch_def check_overlap_def Let_def)
  have ws: "\<forall>(a, n) \<in> set [(0, 4), (6, 4), (3, 4 :: int)]. (0 :: int) \<le> a \<and> 0 < n" by simp
  have T: "untreated_bytes ut1 = untreated_bytes ut0 \<union> (\<Union>(a, n) \<in> set [(0, 4), (6, 4), (3, 4)]. {a..<a + n}) \<and>
    (if not_inside a n (untreated_list ut1)
     then untreated_ok (snd (UT_ClearParts a n ut1)) \<and> untreated_bytes (snd (UT_ClearParts a n ut1)) = untreated_bytes ut1 - {a..<a + n}
     else \<exists>p \<in> set (untreated_list ut1). up_start p < a \<and> a + n < up_start p + up_size p \<and>
       untreated_bytes (snd (UT_ClearParts a n ut1)) = untreated_bytes ut1 - {a..<up_start p + up_size p})"
    if "0 \<le> a" "0 < n" for a n
    by (rule conjunct2 [OF untreated_writes_clear [OF ok(1) ws ut1_def that prod.collapse [symmetric]]])
  have b: "untreated_bytes ut1 = {0..<4} \<union> {6..<10} \<union> {3..<7}"
    using T [of 0 1] by (simp add: ok(2) Un_assoc)
  have "not_inside 0 5 (untreated_list ut1)" "\<not> not_inside 2 3 (untreated_list ut1)" by (simp_all add: l not_inside_def)
  with T [of 0 5] T [of 2 3] have "untreated_bytes (snd (UT_ClearParts 0 5 ut1)) = untreated_bytes ut1 - {0..<5}"
    "untreated_bytes (snd (UT_ClearParts 2 3 ut1)) = untreated_bytes ut1 - {2..<10}" by (simp_all add: l)
  then show ?thesis unfolding b by (simp only: Let_def ut1_def ut0_def)
qed

text \<open>Clearing inside a part drops the rest of the part and leaves an empty one.\<close>

lemma ClearParts_inside_drops_rest:
  assumes "up_start p < start" and "0 < n" and "start + n < up_start p + up_size p"
  shows "UT_ClearParts start n \<lparr>untreated_list = [p], last_tag = t\<rparr> =
    (0 \<le> start, if start < 0 then \<lparr>untreated_list = [p], last_tag = t\<rparr>
     else \<lparr>untreated_list = [p\<lparr>up_size := start - up_start p\<rparr>, \<lparr>up_start = 0, up_size = 0, up_tag = 0\<rparr>], last_tag = t\<rparr>)"
  using assms by (auto simp: UT_ClearParts_def untreatedpart_def Let_def)

end
