(* ===== verification/Fd_Multipart.thy ===== *)
theory Fd_Multipart
  imports Fd_Query
begin

section \<open>Planning an upload from a page list (\<^verbatim>\<open>s3fs/fdcache_page.cpp\<close>)\<close>

text \<open>
  Before a file is uploaded in parts its page list is cut into areas to upload and areas to copy on the server,
  each large enough to be a part, and the areas that have to be downloaded first are listed
  (\<^verbatim>\<open>GetPageListsForMultipartUpload\<close>).  \<^verbatim>\<open>GetNoDataPageLists\<close> lists the areas a hole can be punched into.
  Both compress their lists with \<^verbatim>\<open>raw_compress_fdpage_list\<close>, which fills the gaps of a list.  An area of
  negative size, whose first occurrence the code would not survive, is not in any page list.
\<close>

definition MIN_MULTIPART_SIZE :: int where "MIN_MULTIPART_SIZE = 5 * 1024 * 1024"

subsection \<open>Compression into a new list\<close>

definition raw_add :: "bool \<Rightarrow> bool \<Rightarrow> bool \<Rightarrow> bool \<Rightarrow> fdpage list \<Rightarrow> fdpage \<Rightarrow> fdpage list" where
  "raw_add ignore_load ignore_modify default_load default_modify pagelist p =
     (if 0 < bytes p
      then pagelist @ [p\<lparr>loaded := (if ignore_load then default_load else loaded p),
                         modified := (if ignore_modify then default_modify else modified p)\<rparr>]
      else pagelist)"

definition raw_differs :: "bool \<Rightarrow> bool \<Rightarrow> fdpage \<Rightarrow> bool \<Rightarrow> bool \<Rightarrow> bool" where
  "raw_differs ignore_load ignore_modify lastp l m =
     (\<not> ignore_load \<and> loaded lastp \<noteq> l \<or> \<not> ignore_modify \<and> modified lastp \<noteq> m)"

definition set_last_bytes :: "int \<Rightarrow> fdpage list \<Rightarrow> fdpage list" where
  "set_last_bytes n ps = butlast ps @ [(last ps)\<lparr>bytes := n\<rparr>]"

definition raw_step :: "bool \<Rightarrow> bool \<Rightarrow> bool \<Rightarrow> bool \<Rightarrow> fdpage \<Rightarrow> fdpage list \<Rightarrow> fdpage list" where
  "raw_step il im dl dm p c =
     (if bytes p = 0 then c
      else if c = [] then raw_add il im dl dm c p
      else (let c = (if page_next (last c) \<noteq> offset p
                     then (if raw_differs il im (last c) False False
                           then raw_add il im dl dm c
                                  (fdpage (page_next (last c)) (offset p - page_next (last c)) False False)
                           else set_last_bytes (offset p - offset (last c)) c)
                     else c)
            in if raw_differs il im (last c) (loaded p) (modified p)
               then raw_add il im dl dm c p
               else set_last_bytes (bytes (last c) + bytes p) c))"

definition raw_compress_fdpage_list :: "bool \<Rightarrow> bool \<Rightarrow> bool \<Rightarrow> bool \<Rightarrow> fdpage list \<Rightarrow> fdpage list" where
  "raw_compress_fdpage_list il im dl dm ps = fold (raw_step il im dl dm) ps []"

definition compress_fdpage_list_ignore_modify :: "fdpage list \<Rightarrow> bool \<Rightarrow> fdpage list" where
  "compress_fdpage_list_ignore_modify ps default_modify = raw_compress_fdpage_list False True False default_modify ps"

definition compress_fdpage_list_ignore_load :: "fdpage list \<Rightarrow> bool \<Rightarrow> fdpage list" where
  "compress_fdpage_list_ignore_load ps default_load = raw_compress_fdpage_list True False default_load False ps"

definition compress_fdpage_list :: "fdpage list \<Rightarrow> fdpage list" where
  "compress_fdpage_list ps = raw_compress_fdpage_list False False False False ps"

text \<open>Cutting into parts: with a part size of zero or less the loop would not end.\<close>

partial_function (option) parse_part :: "int \<Rightarrow> fdpage \<Rightarrow> int \<Rightarrow> int \<Rightarrow> fdpage list option" where
  "parse_part max_partsize p start rest_bytes =
     (if 0 < rest_bytes
      then (if max_partsize * 2 < rest_bytes
            then Option.bind (parse_part max_partsize p (start + max_partsize) (rest_bytes - max_partsize))
                    (\<lambda>ps. Some (p\<lparr>offset := start, bytes := max_partsize\<rparr> # ps))
            else Some [p\<lparr>offset := start, bytes := rest_bytes\<rparr>])
      else Some [])"

fun parse_partsize_fdpage_list :: "int \<Rightarrow> fdpage list \<Rightarrow> fdpage list option" where
  "parse_partsize_fdpage_list max_partsize [] = Some []"
| "parse_partsize_fdpage_list max_partsize (p # ps) =
     (case (if modified p then parse_part max_partsize p (offset p) (bytes p) else Some [p]) of
        None \<Rightarrow> None
      | Some parts \<Rightarrow> (case parse_partsize_fdpage_list max_partsize ps of
                          None \<Rightarrow> None | Some rest \<Rightarrow> Some (parts @ rest)))"

subsection \<open>The plan\<close>

fun multipart_loop :: "fdpage list \<Rightarrow> fdpage \<Rightarrow> fdpage list \<Rightarrow> fdpage list \<Rightarrow> fdpage \<times> fdpage list \<times> fdpage list" where
  "multipart_loop [] prev download mixup = (prev, download, mixup)"
| "multipart_loop (p # ps) prev download mixup =
     (if modified p
      then (if \<not> modified prev
            then (if bytes prev < MIN_MULTIPART_SIZE
                  then multipart_loop ps p (download @ [prev]) (mixup @ [prev\<lparr>modified := True\<rparr>])
                  else multipart_loop ps p download (mixup @ [prev\<lparr>modified := False\<rparr>]))
            else multipart_loop ps (prev\<lparr>bytes := bytes prev + bytes p\<rparr>) download mixup)
      else (if \<not> modified prev
            then multipart_loop ps (prev\<lparr>bytes := bytes prev + bytes p\<rparr>) download mixup
            else if bytes prev < MIN_MULTIPART_SIZE
            then (let missing_bytes = MIN_MULTIPART_SIZE - bytes prev
                  in if missing_bytes + MIN_MULTIPART_SIZE < bytes p
                     then multipart_loop ps (p\<lparr>offset := offset p + missing_bytes, bytes := bytes p - missing_bytes\<rparr>)
                            (download @ [fdpage (offset p) missing_bytes False False])
                            (mixup @ [prev\<lparr>bytes := MIN_MULTIPART_SIZE\<rparr>])
                     else multipart_loop ps (prev\<lparr>bytes := bytes prev + bytes p\<rparr>) (download @ [p]) mixup)
            else multipart_loop ps p download (mixup @ [prev])))"

definition PL_GetPageListsForMultipartUpload ::
    "int \<Rightarrow> PageList \<Rightarrow> (fdpage list \<times> fdpage list \<times> PageList) option" where
  "PL_GetPageListsForMultipartUpload max_partsize pl =
     (let pl = PL_Compress pl;
          modified_pages = compress_fdpage_list_ignore_load (pages pl) False;
          (prev, download_pages, mixupload_pages) = multipart_loop modified_pages (fdpage 0 0 False False) [] [];
          mixupload_pages = (if 0 < bytes prev then mixupload_pages @ [prev] else mixupload_pages);
          dlpages = compress_fdpage_list_ignore_modify download_pages False;
          mixuppages = compress_fdpage_list_ignore_load mixupload_pages False
      in (case parse_partsize_fdpage_list max_partsize dlpages of
            None \<Rightarrow> None
          | Some dlpages \<Rightarrow>
              (case parse_partsize_fdpage_list max_partsize mixuppages of
                 None \<Rightarrow> None | Some mixuppages \<Rightarrow> Some (dlpages, mixuppages, pl))))"

fun nodata_loop :: "int \<Rightarrow> int \<Rightarrow> fdpage list \<Rightarrow> fdpage list" where
  "nodata_loop start stop_pos [] = []"
| "nodata_loop start stop_pos (p # ps) =
     (if offset p + bytes p < start then nodata_loop start stop_pos ps
      else if -1 \<noteq> stop_pos \<and> stop_pos \<le> offset p then []
      else if modified p then nodata_loop start stop_pos ps
      else (let off = max (offset p) start
            in fdpage off (if -1 = stop_pos then bytes p else min (bytes p) (stop_pos - off)) (loaded p) (modified p)
               # nodata_loop start stop_pos ps))"

definition PL_GetNoDataPageLists :: "int \<Rightarrow> int \<Rightarrow> PageList \<Rightarrow> fdpage list \<times> PageList" where
  "PL_GetNoDataPageLists start n pl =
     (let pl = PL_Compress pl;
          stop_pos = (if n = 0 then -1 else start + n);
          tmp_pagelist = nodata_loop start stop_pos (pages pl)
      in (if tmp_pagelist = [] then [] else compress_fdpage_list tmp_pagelist, pl))"

text \<open>
  \<^verbatim>\<open>FdEntity::PunchHole\<close> (\<^verbatim>\<open>fdcache_entity.cpp\<close>): \<open>fallocate off len s\<close> is the system call on the cache file, a
  parameter, its result and the new state.
\<close>

fun punch_loop :: "(int \<Rightarrow> int \<Rightarrow> 's \<Rightarrow> int \<times> 's) \<Rightarrow> fdpage list \<Rightarrow> PageList \<Rightarrow> 's \<Rightarrow> bool \<times> PageList \<times> 's" where
  "punch_loop fallocate [] pl s = (True, pl, s)"
| "punch_loop fallocate (p # ps) pl s =
     (case fallocate (offset p) (bytes p) s of (r, s) \<Rightarrow>
        if r \<noteq> 0 then (False, pl, s)
        else punch_loop fallocate ps (PL_SetPageLoadedStatus (offset p) (bytes p) NOT_LOAD_MODIFIED True pl) s)"

definition PunchHole :: "(int \<Rightarrow> int \<Rightarrow> 's \<Rightarrow> int \<times> 's) \<Rightarrow> int \<Rightarrow> PageList \<Rightarrow> 's \<Rightarrow> bool \<times> PageList \<times> 's" where
  "PunchHole fallocate physical_fd pl s =
     (if physical_fd = -1 then (False, pl, s)
      else (case PL_GetNoDataPageLists 0 0 pl of (nodata_pages, pl) \<Rightarrow>
              if nodata_pages = [] then (True, pl, s) else punch_loop fallocate nodata_pages pl s))"

subsection \<open>Compression without gaps, loaded flags ignored\<close>

definition unloaded_list :: "fdpage list \<Rightarrow> bool" where
  "unloaded_list ps = (\<forall>p \<in> set ps. \<not> loaded p)"

lemma unloaded_list_simps [simp]:
  "unloaded_list []" "unloaded_list (p # ps) = (\<not> loaded p \<and> unloaded_list ps)"
  "unloaded_list (xs @ ys) = (unloaded_list xs \<and> unloaded_list ys)"
  by (auto simp: unloaded_list_def)

abbreviation merge_step :: "fdpage \<Rightarrow> fdpage list \<Rightarrow> fdpage list" where
  "merge_step \<equiv> raw_step True False False False"

text \<open>The end of a non-empty list, or where it would start.\<close>

definition list_end :: "int \<Rightarrow> fdpage list \<Rightarrow> int" where
  "list_end a ps = a + int (length (spread ps))"

lemma list_end_simps [simp]:
  "list_end a [] = a" "0 \<le> bytes p \<Longrightarrow> list_end a (ps @ [p]) = list_end a ps + bytes p"
  by (simp_all add: list_end_def)

lemma list_end_last: "tiled a c \<Longrightarrow> c \<noteq> [] \<Longrightarrow> page_next (last c) = list_end a c"
  by (simp add: list_end_def tiled_last)

lemma list_end_Cons: "0 \<le> bytes p \<Longrightarrow> offset p = a \<Longrightarrow> list_end a (p # ps) = list_end (page_next p) ps"
  by (simp add: list_end_def page_next_def)

lemma merge_step_eq:
  assumes "tiled a c" and "list_end a c = offset p" and "0 < bytes p"
  shows "merge_step p c =
    (if c \<noteq> [] \<and> modified (last c) = modified p
     then butlast c @ [(last c)\<lparr>bytes := bytes (last c) + bytes p\<rparr>] else c @ [p\<lparr>loaded := False\<rparr>])"
  using assms list_end_last [OF assms(1)]
  by (auto simp: raw_step_def raw_add_def raw_differs_def set_last_bytes_def)

text \<open>One merge: the list stays a tiling, with the flags and bytes of the new area at its end.\<close>

lemma merge_step_law:
  assumes "tiled a c" and "all_positive c" and "unloaded_list c" and "list_end a c = offset p" and "0 \<le> bytes p"
  shows "tiled a (merge_step p c) \<and> all_positive (merge_step p c) \<and> unloaded_list (merge_step p c) \<and>
    list_end a (merge_step p c) = offset p + bytes p \<and>
    spread (merge_step p c) = spread c @ replicate (nat (bytes p)) (False, modified p)"
proof (cases "bytes p = 0")
  case True
  then show ?thesis using assms by (simp add: raw_step_def)
next
  case False
  then have pos: "0 < bytes p" using assms(5) by simp
  show ?thesis
  proof (cases "c \<noteq> [] \<and> modified (last c) = modified p")
    case True
    then obtain xs l where c: "c = xs @ [l]" and m: "modified l = modified p" by (metis append_butlast_last_id)
    have "replicate (nat (bytes l + bytes p)) (False, modified p) =
        replicate (nat (bytes l)) (False, modified p) @ replicate (nat (bytes p)) (False, modified p)"
      using assms pos c by (simp add: nat_add_distrib replicate_add)
    then show ?thesis using merge_step_eq [OF assms(1,4) pos] assms pos c m by (auto simp: flags_def list_end_def)
  next
    case False
    then show ?thesis using merge_step_eq [OF assms(1,4) pos] assms pos by (auto simp: flags_def list_end_def)
  qed
qed

lemma merge_fold_law:
  assumes "tiled (list_end a c) ps" and "tiled a c" and "all_positive c" and "unloaded_list c"
  shows "tiled a (fold merge_step ps c) \<and> all_positive (fold merge_step ps c) \<and> unloaded_list (fold merge_step ps c) \<and>
    spread (fold merge_step ps c) = spread c @ map (\<lambda>f. (False, snd f)) (spread ps)"
  using assms
proof (induction ps arbitrary: c)
  case (Cons p ps)
  have "list_end a c = offset p" "0 \<le> bytes p" using Cons.prems(1) by auto
  note M = merge_step_law [OF Cons.prems(2-4) this]
  have "tiled (list_end a (merge_step p c)) ps" using M Cons.prems(1) by (auto simp: page_next_def)
  note IH = Cons.IH [OF this]
  show ?case using IH M by (simp add: flags_def)
qed simp

lemma compress_ignore_load_law:
  assumes "tiled a ps"
  shows "tiled a (compress_fdpage_list_ignore_load ps False) \<and> all_positive (compress_fdpage_list_ignore_load ps False) \<and>
    spread (compress_fdpage_list_ignore_load ps False) = map (\<lambda>f. (False, snd f)) (spread ps)"
  using merge_fold_law [of a "[]" ps] assms by (simp add: compress_fdpage_list_ignore_load_def raw_compress_fdpage_list_def)

subsection \<open>Compression of a list with gaps\<close>

text \<open>Areas in order, with gaps allowed.\<close>

fun increasing :: "int \<Rightarrow> fdpage list \<Rightarrow> bool" where
  "increasing a [] = True"
| "increasing a (p # ps) = (a \<le> offset p \<and> 0 < bytes p \<and> increasing (page_next p) ps)"

lemma raw_add_law:
  assumes "tiled a c" and "all_positive c" and "offset p = list_end a c" and "0 < bytes p"
  shows "tiled a (raw_add il im dl dm c p) \<and> all_positive (raw_add il im dl dm c p) \<and> raw_add il im dl dm c p \<noteq> [] \<and>
    list_end a (raw_add il im dl dm c p) = page_next p"
  using assms by (auto simp: raw_add_def list_end_def page_next_def)

lemma set_last_bytes_law:
  assumes "tiled a c" and "all_positive c" and "c \<noteq> []" and "bytes (last c) \<le> n"
  shows "tiled a (set_last_bytes n c) \<and> all_positive (set_last_bytes n c) \<and> set_last_bytes n c \<noteq> [] \<and>
    list_end a (set_last_bytes n c) = offset (last c) + n"
proof -
  obtain xs l where c: "c = xs @ [l]" using assms(3) by (metis append_butlast_last_id)
  then show ?thesis using assms by (auto simp: set_last_bytes_def list_end_def)
qed

lemma raw_step_gap:
  assumes "tiled a c" and "all_positive c" and "c \<noteq> []" and "list_end a c \<le> offset p" and "0 < bytes p"
  shows "tiled a (raw_step il im dl dm p c) \<and> all_positive (raw_step il im dl dm p c) \<and> raw_step il im dl dm p c \<noteq> [] \<and>
    list_end a (raw_step il im dl dm p c) = page_next p"
proof -
  note e = list_end_last [OF assms(1,3)]
  define c1 where "c1 = (if page_next (last c) \<noteq> offset p
                     then (if raw_differs il im (last c) False False
                           then raw_add il im dl dm c
                                  (fdpage (page_next (last c)) (offset p - page_next (last c)) False False)
                           else set_last_bytes (offset p - offset (last c)) c)
                     else c)"
  have b: "bytes (last c) \<le> offset p - offset (last c)" using e assms(4) by (simp add: page_next_def)
  have 1: "tiled a c1 \<and> all_positive c1 \<and> c1 \<noteq> [] \<and> list_end a c1 = offset p"
    using raw_add_law [OF assms(1,2), of "fdpage (page_next (last c)) (offset p - page_next (last c)) False False" il im dl dm]
      set_last_bytes_law [OF assms(1-3) b] e assms
    by (auto simp: c1_def page_next_def [of "fdpage _ _ _ _"])
  have s: "raw_step il im dl dm p c = (if raw_differs il im (last c1) (loaded p) (modified p)
      then raw_add il im dl dm c1 p else set_last_bytes (bytes (last c1) + bytes p) c1)"
    using assms by (simp add: raw_step_def c1_def Let_def)
  have "page_next (last c1) = offset p" using list_end_last [of a c1] 1 by simp
  then show ?thesis using s 1 raw_add_law [of a c1 p il im dl dm] set_last_bytes_law [of a c1 "bytes (last c1) + bytes p"] assms(5)
    by (simp add: page_next_def)
qed

text \<open>Whatever is ignored, a list with gaps compresses to one without: everything from its first to its last byte.\<close>

lemma raw_compress_fills:
  assumes "increasing b (p # ps)"
  shows "tiled (offset p) (raw_compress_fdpage_list il im dl dm (p # ps)) \<and>
    all_positive (raw_compress_fdpage_list il im dl dm (p # ps)) \<and>
    list_end (offset p) (raw_compress_fdpage_list il im dl dm (p # ps)) = page_next (last (p # ps))"
proof -
  have "tiled a (fold (raw_step il im dl dm) ps c) \<and> all_positive (fold (raw_step il im dl dm) ps c) \<and>
      list_end a (fold (raw_step il im dl dm) ps c) = (if ps = [] then list_end a c else page_next (last ps))"
    if "tiled a c" "all_positive c" "c \<noteq> []" "increasing (list_end a c) ps" for a c ps
    using that
  proof (induction ps arbitrary: c)
    case (Cons q qs)
    then have "list_end a c \<le> offset q" "0 < bytes q" "increasing (page_next q) qs" by auto
    note S = raw_step_gap [OF Cons.prems(1-3) this(1,2), of il im dl dm]
    then have "increasing (list_end a (raw_step il im dl dm q c)) qs" using \<open>increasing (page_next q) qs\<close> by simp
    from Cons.IH [OF _ _ _ this] S show ?case by simp
  qed simp
  moreover have "raw_step il im dl dm p [] = raw_add il im dl dm [] p" using assms by (simp add: raw_step_def)
  moreover note raw_add_law [of "offset p" "[]" p il im dl dm]
  ultimately show ?thesis using assms by (auto simp: raw_compress_fdpage_list_def)
qed

subsection \<open>Cutting into parts\<close>

abbreviation big :: "fdpage list \<Rightarrow> bool" where
  "big ps \<equiv> \<forall>p \<in> set ps. MIN_MULTIPART_SIZE \<le> bytes p"

lemma parse_part_law:
  assumes "0 < max_partsize" and "0 \<le> rest"
  shows "\<exists>ps. parse_part max_partsize p start rest = Some ps \<and> tiled start ps \<and> all_positive ps \<and>
    spread ps = replicate (nat rest) (flags p) \<and>
    (MIN_MULTIPART_SIZE \<le> max_partsize \<longrightarrow> big (butlast ps) \<and> (MIN_MULTIPART_SIZE \<le> rest \<longrightarrow> big ps))"
  using assms(2)
proof (induction "nat rest" arbitrary: start rest rule: less_induct)
  case less
  consider "rest = 0" | "0 < rest" "rest \<le> max_partsize * 2" | "max_partsize * 2 < rest" using less.prems by linarith
  then show ?case
  proof cases
    case 1
    then show ?thesis by (subst parse_part.simps) (simp add: MIN_MULTIPART_SIZE_def)
  next
    case 2
    then show ?thesis by (subst parse_part.simps) (simp add: flags_def)
  next
    case 3
    let ?r = "rest - max_partsize"
    have r: "nat ?r < nat rest" "0 \<le> ?r" "0 < rest" using 3 assms(1) by auto
    from less.hyps [OF r(1,2), of "start + max_partsize"] obtain ps where
      ps: "parse_part max_partsize p (start + max_partsize) ?r = Some ps" "tiled (start + max_partsize) ps" "all_positive ps"
        "spread ps = replicate (nat ?r) (flags p)"
        "MIN_MULTIPART_SIZE \<le> max_partsize \<longrightarrow> big (butlast ps) \<and> (MIN_MULTIPART_SIZE \<le> ?r \<longrightarrow> big ps)" by blast
    have "replicate (nat rest) (flags p) = replicate (nat max_partsize) (flags p) @ replicate (nat ?r) (flags p)"
      using 3 assms(1) by (simp flip: replicate_add nat_add_distrib)
    moreover have "parse_part max_partsize p start rest = Some (p\<lparr>offset := start, bytes := max_partsize\<rparr> # ps)"
      using 3 r ps(1) by (subst parse_part.simps) simp
    ultimately show ?thesis using ps 3 assms(1) by (auto simp: flags_def page_next_def)
  qed
qed

lemma parse_partsize_law:
  assumes "0 < max_partsize" and "tiled a ps" and "all_positive ps"
  shows "\<exists>qs. parse_partsize_fdpage_list max_partsize ps = Some qs \<and> tiled a qs \<and> all_positive qs \<and> spread qs = spread ps \<and>
    (ps \<noteq> [] \<longrightarrow> qs \<noteq> []) \<and> (MIN_MULTIPART_SIZE \<le> max_partsize \<and> big (butlast ps) \<longrightarrow> big (butlast qs))"
  using assms(2,3)
proof (induction ps arbitrary: a)
  case (Cons p ps)
  have t: "tiled (page_next p) ps" "all_positive ps" "offset p = a" "0 < bytes p" using Cons.prems by auto
  obtain qs where qs: "parse_partsize_fdpage_list max_partsize ps = Some qs" "tiled (page_next p) qs" "all_positive qs"
      "spread qs = spread ps" "ps \<noteq> [] \<longrightarrow> qs \<noteq> []"
      "MIN_MULTIPART_SIZE \<le> max_partsize \<and> big (butlast ps) \<longrightarrow> big (butlast qs)"
    using Cons.IH [OF t(1,2)] by blast
  have "0 \<le> bytes p" using t by simp
  obtain parts where parts: "(if modified p then parse_part max_partsize p (offset p) (bytes p) else Some [p]) = Some parts"
      "tiled a parts" "all_positive parts" "spread parts = replicate (nat (bytes p)) (flags p)"
      "MIN_MULTIPART_SIZE \<le> max_partsize \<longrightarrow> big (butlast parts) \<and> (MIN_MULTIPART_SIZE \<le> bytes p \<longrightarrow> big parts)"
    using parse_part_law [OF assms(1) \<open>0 \<le> bytes p\<close>, of p "offset p"] t by (cases "modified p") auto
  have e: "a + int (length (spread parts)) = page_next p" using parts(4) t by (simp add: page_next_def)
  have ne: "parts \<noteq> []" using parts(4) t by auto
  have r: "parse_partsize_fdpage_list max_partsize (p # ps) = Some (parts @ qs)" using parts(1) qs(1) by simp
  have "tiled a (parts @ qs) \<and> all_positive (parts @ qs)" using parts(2,3) qs(2,3) e by simp
  moreover have "spread (parts @ qs) = spread (p # ps)" using parts(4) qs(4) by simp
  moreover have "big (butlast (parts @ qs))" if b: "MIN_MULTIPART_SIZE \<le> max_partsize" "big (butlast (p # ps))"
  proof (cases "ps = []")
    case True
    then show ?thesis using qs(1) parts(5) b(1) by simp
  next
    case False
    then have "MIN_MULTIPART_SIZE \<le> bytes p" "big (butlast ps)" using b(2) by auto
    then have "big parts" "big (butlast qs)" using parts(5) qs(6) b(1) by blast+
    then show ?thesis using qs(5) False by (auto simp: butlast_append)
  qed
  ultimately show ?case using r ne by blast
qed simp

lemma parse_partsize_unmodified: "\<forall>p \<in> set ps. \<not> modified p \<Longrightarrow> parse_partsize_fdpage_list m ps = Some ps"
  by (induction ps) auto

subsection \<open>The areas to upload, to copy and to download\<close>

definition inc_end :: "int \<Rightarrow> fdpage list \<Rightarrow> int" where
  "inc_end a ps = (if ps = [] then a else page_next (last ps))"

lemma increasing_append: "increasing a (xs @ ys) = (increasing a xs \<and> increasing (inc_end a xs) ys)"
  by (induction xs arbitrary: a) (auto simp: inc_end_def)

abbreviation nonempty :: "fdpage list \<Rightarrow> fdpage list" where
  "nonempty ps \<equiv> filter (\<lambda>p. bytes p \<noteq> 0) ps"

lemma raw_compress_nonempty: "raw_compress_fdpage_list il im dl dm (nonempty ps) = raw_compress_fdpage_list il im dl dm ps"
proof -
  have "fold (raw_step il im dl dm) (nonempty ps) c = fold (raw_step il im dl dm) ps c" for c
    by (induction ps arbitrary: c) (auto simp: raw_step_def)
  then show ?thesis by (simp add: raw_compress_fdpage_list_def)
qed

abbreviation mod_area :: "fdpage list \<Rightarrow> int set" where
  "mod_area ps \<equiv> area (filter modified ps)"

text \<open>The merged areas are large enough, but for a modified one at the end that \<open>prev\<close> will be merged into.\<close>

definition min_ok :: "fdpage list \<Rightarrow> fdpage \<Rightarrow> bool" where
  "min_ok c prev = (big (butlast c) \<and>
     (c \<noteq> [] \<longrightarrow> MIN_MULTIPART_SIZE \<le> bytes (last c) \<or> modified (last c) \<and> modified prev))"

definition plan_inv :: "int set \<Rightarrow> int \<Rightarrow> fdpage \<Rightarrow> fdpage list \<Rightarrow> fdpage list \<Rightarrow> bool" where
  "plan_inv mods pos prev dl mix =
     (tiled 0 (mix @ [prev]) \<and> page_next prev = pos \<and>
      mods \<subseteq> mod_area (mix @ [prev]) \<and> mod_area (mix @ [prev]) \<subseteq> mods \<union> area dl \<and>
      increasing 0 (nonempty dl) \<and> inc_end 0 (nonempty dl) \<le> (if modified prev then pos else offset prev) \<and>
      min_ok (fold merge_step mix []) prev)"

lemma merged_law:
  "tiled 0 mix \<Longrightarrow> tiled 0 (fold merge_step mix []) \<and> all_positive (fold merge_step mix []) \<and>
     list_end 0 (fold merge_step mix []) = list_end 0 mix"
  using merge_fold_law [of 0 "[]" mix] by (simp add: list_end_def)

lemma merge_big:
  assumes t: "tiled 0 mix" and o: "offset p = list_end 0 mix" "0 \<le> bytes p"
    and m: "min_ok (fold merge_step mix []) prev" and b: "modified p = modified prev \<or> \<not> modified prev"
  shows "big (butlast (fold merge_step (mix @ [p]) []))"
proof -
  let ?c = "fold merge_step mix []"
  have e: "list_end 0 ?c = offset p" using merged_law [OF t] o by simp
  show ?thesis
  proof (cases "bytes p = 0 \<or> ?c \<noteq> [] \<and> modified (last ?c) = modified p")
    case True
    then show ?thesis using merge_step_eq [OF _ e] merged_law [OF t] m o by (auto simp: min_ok_def raw_step_def)
  next
    case False
    have "big ?c"
    proof (cases "?c = []")
      case ne: False
      then have "MIN_MULTIPART_SIZE \<le> bytes (last ?c)" using False m b by (auto simp: min_ok_def)
      moreover have "set ?c = insert (last ?c) (set (butlast ?c))"
        using ne by (metis append_butlast_last_id list.set(1,2) set_append Un_insert_right sup_bot.right_neutral)
      ultimately show ?thesis using m by (auto simp: min_ok_def)
    qed simp
    then show ?thesis using merge_step_eq [OF _ e] merged_law [OF t] False o by auto
  qed
qed

lemma merge_min:
  assumes t: "tiled 0 mix" and o: "offset p = list_end 0 mix" "0 \<le> bytes p"
    and m: "min_ok (fold merge_step mix []) prev" and b: "modified p = modified prev \<or> \<not> modified prev"
    and n: "MIN_MULTIPART_SIZE \<le> bytes p \<or> modified p \<and> modified new \<or> bytes p = 0 \<and> \<not> modified prev"
  shows "min_ok (fold merge_step (mix @ [p]) []) new"
proof (cases "bytes p = 0")
  case True
  then show ?thesis using m n by (auto simp: min_ok_def raw_step_def MIN_MULTIPART_SIZE_def)
next
  case False
  let ?c = "fold merge_step mix []"
  have e: "list_end 0 ?c = offset p" using merged_law [OF t] o by simp
  have "MIN_MULTIPART_SIZE \<le> bytes (last (merge_step p ?c)) \<or> modified (last (merge_step p ?c)) \<and> modified new"
  proof (cases "?c \<noteq> [] \<and> modified (last ?c) = modified p")
    case True
    then have "0 < bytes (last ?c)" using merged_law [OF t] by (simp add: all_positive_def)
    then show ?thesis using merge_step_eq [OF _ e] merged_law [OF t] True False o n by auto
  next
    case same: False
    then show ?thesis using merge_step_eq [OF _ e] merged_law [OF t] False o n by auto
  qed
  then show ?thesis using merge_big [OF t o m b] by (simp add: min_ok_def)
qed

lemma inc_end_snoc [simp]: "inc_end a (xs @ [p]) = page_next p"
  by (simp add: inc_end_def)

lemma area_grow: "0 \<le> b \<Longrightarrow> page_next p = s \<Longrightarrow> 0 \<le> bytes p \<Longrightarrow>
    {offset p..<page_next (p\<lparr>bytes := bytes p + b\<rparr>)} = {offset p..<page_next p} \<union> {s..<s + b}"
  by (auto simp: page_next_def)

lemma plan_step:
  assumes inv: "plan_inv mods pos prev dl mix" and p: "offset p = pos" "0 < bytes p"
  shows "\<exists>prev' dl' mix'. multipart_loop (p # ps) prev dl mix = multipart_loop ps prev' dl' mix' \<and>
    plan_inv (mods \<union> mod_area [p]) (page_next p) prev' dl' mix'"
proof -
  let ?a = "{offset prev..<page_next prev}" and ?b = "{offset p..<page_next p}"
  have t: "tiled 0 mix" "offset prev = list_end 0 mix" "0 \<le> bytes prev" "page_next prev = pos"
    using inv by (auto simp: plan_inv_def list_end_def)
  have tp: "tiled 0 (mix @ [prev, p])" using t p by (simp add: list_end_def)
  have up: "mods \<subseteq> mod_area (mix @ [prev])" "mod_area (mix @ [prev]) \<subseteq> mods \<union> area dl" using inv by (auto simp: plan_inv_def)
  have d: "increasing 0 (nonempty dl)" "inc_end 0 (nonempty dl) \<le> (if modified prev then pos else offset prev)"
    using inv by (auto simp: plan_inv_def)
  have m: "min_ok (fold merge_step mix []) prev" using inv by (simp add: plan_inv_def)
  have np: "pos < page_next p" using p by (simp add: page_next_def)
  have op: "offset prev \<le> pos" using t by (auto simp: page_next_def)
  have grow: "{offset prev..<page_next (prev\<lparr>bytes := bytes prev + bytes p\<rparr>)} = ?a \<union> ?b"
    using area_grow [of "bytes p" prev pos] p t by (simp add: page_next_def)
  have gt: "tiled 0 (mix @ [prev\<lparr>bytes := bytes prev + bytes p\<rparr>])" "page_next (prev\<lparr>bytes := bytes prev + bytes p\<rparr>) = page_next p"
    using t p by (auto simp: list_end_def page_next_def)
  consider (up_small) "modified p" "\<not> modified prev" "bytes prev < MIN_MULTIPART_SIZE"
    | (up_copy) "modified p" "\<not> modified prev" "MIN_MULTIPART_SIZE \<le> bytes prev"
    | (up_up) "modified p" "modified prev"
    | (copy_copy) "\<not> modified p" "\<not> modified prev"
    | (fill_part) "\<not> modified p" "modified prev" "bytes prev < MIN_MULTIPART_SIZE"
        "MIN_MULTIPART_SIZE - bytes prev + MIN_MULTIPART_SIZE < bytes p"
    | (fill_all) "\<not> modified p" "modified prev" "bytes prev < MIN_MULTIPART_SIZE"
        "\<not> MIN_MULTIPART_SIZE - bytes prev + MIN_MULTIPART_SIZE < bytes p"
    | (cut) "\<not> modified p" "modified prev" "MIN_MULTIPART_SIZE \<le> bytes prev" by linarith
  then show ?thesis
  proof cases
    case up_small
    let ?q = "prev\<lparr>modified := True\<rparr>"
    have "min_ok (fold merge_step (mix @ [?q]) []) p"
      using up_small t by (intro merge_min [OF t(1) _ _ m]) auto
    moreover have "inc_end 0 (nonempty (dl @ [prev])) \<le> page_next p" "increasing 0 (nonempty (dl @ [prev]))"
      using d t up_small np op by (auto simp: increasing_append)
    ultimately have "plan_inv (mods \<union> mod_area [p]) (page_next p) p (dl @ [prev]) (mix @ [?q])"
      using tp up up_small by (auto simp: plan_inv_def page_next_def)
    then show ?thesis using up_small by (intro exI [of _ p] exI [of _ "dl @ [prev]"] exI [of _ "mix @ [?q]"]) simp
  next
    case up_copy
    let ?q = "prev\<lparr>modified := False\<rparr>"
    have "min_ok (fold merge_step (mix @ [?q]) []) p"
      using up_copy t by (intro merge_min [OF t(1) _ _ m]) auto
    then have "plan_inv (mods \<union> mod_area [p]) (page_next p) p dl (mix @ [?q])"
      using tp up d up_copy np op by (auto simp: plan_inv_def page_next_def)
    then show ?thesis using up_copy by (intro exI [of _ p] exI [of _ dl] exI [of _ "mix @ [?q]"]) simp
  next
    case up_up
    let ?q = "prev\<lparr>bytes := bytes prev + bytes p\<rparr>"
    have "plan_inv (mods \<union> mod_area [p]) (page_next p) ?q dl mix"
      unfolding plan_inv_def using gt d m up up_up np grow by (auto simp: min_ok_def)
    then show ?thesis using up_up by (intro exI [of _ ?q] exI [of _ dl] exI [of _ mix]) simp
  next
    case copy_copy
    let ?q = "prev\<lparr>bytes := bytes prev + bytes p\<rparr>"
    have "plan_inv (mods \<union> mod_area [p]) (page_next p) ?q dl mix"
      unfolding plan_inv_def using gt d m up copy_copy np by (auto simp: min_ok_def)
    then show ?thesis using copy_copy by (intro exI [of _ ?q] exI [of _ dl] exI [of _ mix]) simp
  next
    case fill_part
    let ?k = "MIN_MULTIPART_SIZE - bytes prev"
    let ?q = "p\<lparr>offset := offset p + ?k, bytes := bytes p - ?k\<rparr>" and ?m = "prev\<lparr>bytes := MIN_MULTIPART_SIZE\<rparr>"
      and ?d = "fdpage (offset p) ?k False False"
    have "min_ok (fold merge_step (mix @ [?m]) []) ?q"
      using fill_part t by (intro merge_min [OF t(1) _ _ m]) (auto simp: MIN_MULTIPART_SIZE_def)
    moreover have "increasing 0 (nonempty (dl @ [?d]))" using d p fill_part by (auto simp: increasing_append)
    moreover have "tiled 0 (mix @ [?m, ?q])" using tp fill_part t p by (simp add: page_next_def list_end_def MIN_MULTIPART_SIZE_def)
    moreover have "{offset ?m..<page_next ?m} = ?a \<union> {offset ?d..<page_next ?d}"
      using t p fill_part by (auto simp: page_next_def)
    moreover have "page_next ?q = page_next p" "inc_end 0 (nonempty (dl @ [?d])) = offset ?q" "\<not> modified ?q" "modified ?m"
      using fill_part by (simp_all add: page_next_def)
    ultimately have "plan_inv (mods \<union> mod_area [p]) (page_next p) ?q (dl @ [?d]) (mix @ [?m])"
      unfolding plan_inv_def using up fill_part by auto
    then show ?thesis using fill_part
      by (intro exI [of _ ?q] exI [of _ "dl @ [?d]"] exI [of _ "mix @ [?m]"]) (simp add: Let_def)
  next
    case fill_all
    let ?q = "prev\<lparr>bytes := bytes prev + bytes p\<rparr>"
    have "increasing 0 (nonempty (dl @ [p]))" using d p fill_all by (auto simp: increasing_append)
    moreover have "inc_end 0 (nonempty (dl @ [p])) = page_next p" using p by simp
    ultimately have "plan_inv (mods \<union> mod_area [p]) (page_next p) ?q (dl @ [p]) mix"
      unfolding plan_inv_def using gt m up fill_all grow by (auto simp: min_ok_def)
    then show ?thesis using fill_all by (intro exI [of _ ?q] exI [of _ "dl @ [p]"] exI [of _ mix]) (simp add: Let_def)
  next
    case cut
    have "min_ok (fold merge_step (mix @ [prev]) []) p"
      using cut t by (intro merge_min [OF t(1) _ _ m]) auto
    then have "plan_inv (mods \<union> mod_area [p]) (page_next p) p dl (mix @ [prev])"
      using tp up d cut p by (auto simp: plan_inv_def)
    then show ?thesis using cut by (intro exI [of _ p] exI [of _ dl] exI [of _ "mix @ [prev]"]) simp
  qed
qed

lemma plan_loop:
  assumes "plan_inv mods pos prev dl mix" and "tiled pos ps" and "all_positive ps"
    and "multipart_loop ps prev dl mix = (prev', dl', mix')"
  shows "plan_inv (mods \<union> mod_area ps) (list_end pos ps) prev' dl' mix'"
  using assms
proof (induction ps arbitrary: mods pos prev dl mix)
  case (Cons p ps)
  have p: "offset p = pos" "0 < bytes p" using Cons.prems by auto
  from plan_step [OF Cons.prems(1) p, of ps] obtain prev1 dl1 mix1
    where "multipart_loop (p # ps) prev dl mix = multipart_loop ps prev1 dl1 mix1"
      "plan_inv (mods \<union> mod_area [p]) (page_next p) prev1 dl1 mix1" by blast
  with Cons.IH [of "mods \<union> mod_area [p]" "page_next p" prev1 dl1 mix1] Cons.prems p
  have "plan_inv (mods \<union> mod_area [p] \<union> mod_area ps) (list_end (page_next p) ps) prev' dl' mix'" by simp
  moreover have "mods \<union> mod_area [p] \<union> mod_area ps = mods \<union> mod_area (p # ps)" by auto
  ultimately show ?case using p by (simp only: list_end_Cons less_imp_le)
qed simp

subsection \<open>The plan is right\<close>

lemma tiled_area: "tiled a ps \<Longrightarrow> area ps = {a..<list_end a ps}"
proof (induction ps arbitrary: a)
  case (Cons p ps)
  then have "area ps = {page_next p..<list_end (page_next p) ps}" "page_next p \<le> list_end (page_next p) ps"
    by (auto simp: list_end_def)
  then show ?case using Cons.prems by (auto simp: list_end_Cons page_next_def)
qed simp

lemma increasing_within:
  "increasing a ps \<Longrightarrow> a \<le> inc_end a ps \<and> (\<forall>p \<in> set ps. a \<le> offset p \<and> page_next p \<le> inc_end a ps)"
proof (induction ps arbitrary: a)
  case (Cons p ps)
  then have "page_next p \<le> inc_end (page_next p) ps" "\<forall>q \<in> set ps. page_next p \<le> offset q \<and> page_next q \<le> inc_end (page_next p) ps"
    "a \<le> offset p" "offset p < page_next p" by (auto simp: page_next_def)
  moreover have "inc_end a (p # ps) = inc_end (page_next p) ps" by (simp add: inc_end_def)
  ultimately show ?case by auto
qed (simp add: inc_end_def)

lemma increasing_area: "increasing a (p # ps) \<Longrightarrow> area (p # ps) \<subseteq> {offset p..<page_next (last (p # ps))}"
  using increasing_within [of "offset p" "p # ps"] by (fastforce simp: area_def inc_end_def)

lemma unmodified_append [simp]: "unmodified (xs @ ys) = (unmodified xs \<and> unmodified ys)"
  by (auto simp: unmodified_def)

lemma raw_add_unmodified: "unmodified c \<Longrightarrow> unmodified (raw_add il True dl False c q)"
  by (simp add: raw_add_def)

lemma set_last_bytes_unmodified: "unmodified c \<Longrightarrow> c \<noteq> [] \<Longrightarrow> unmodified (set_last_bytes n c)"
  by (cases c rule: rev_cases) (simp_all add: set_last_bytes_def)

lemma raw_add_not_Nil: "c \<noteq> [] \<Longrightarrow> raw_add il im dl dm c q \<noteq> []"
  by (simp add: raw_add_def)

lemma set_last_bytes_not_Nil: "set_last_bytes n c \<noteq> []"
  by (simp add: set_last_bytes_def)

lemma raw_step_unmodified: "unmodified c \<Longrightarrow> unmodified (raw_step il True dl False q c)"
proof -
  assume c: "unmodified c"
  define c1 where "c1 = (if page_next (last c) \<noteq> offset q
                     then (if raw_differs il True (last c) False False
                           then raw_add il True dl False c
                                  (fdpage (page_next (last c)) (offset q - page_next (last c)) False False)
                           else set_last_bytes (offset q - offset (last c)) c)
                     else c)"
  show ?thesis
  proof (cases "bytes q = 0 \<or> c = []")
    case True
    then show ?thesis using c raw_add_unmodified [OF c] by (auto simp: raw_step_def)
  next
    case False
    then have "raw_step il True dl False q c = (if raw_differs il True (last c1) (loaded q) (modified q)
      then raw_add il True dl False c1 q else set_last_bytes (bytes (last c1) + bytes q) c1)"
      by (simp only: raw_step_def c1_def Let_def if_False de_Morgan_disj simp_thms)
    moreover have "unmodified c1 \<and> c1 \<noteq> []"
      using False c by (simp add: c1_def raw_add_unmodified set_last_bytes_unmodified raw_add_not_Nil set_last_bytes_not_Nil)
    ultimately show ?thesis by (simp add: raw_add_unmodified set_last_bytes_unmodified)
  qed
qed

lemma raw_compress_unmodified: "unmodified (raw_compress_fdpage_list il True dl False ps)"
proof -
  have "unmodified (fold (raw_step il True dl False) ps c)" if "unmodified c" for c
    using that by (induction ps arbitrary: c) (auto intro: raw_step_unmodified)
  then show ?thesis by (simp add: raw_compress_fdpage_list_def)
qed

lemma mod_area_spread:
  assumes "tiled 0 ps"
  shows "mod_area ps = {i. 0 \<le> i \<and> i < int (length (spread ps)) \<and> snd (spread ps ! nat i)}"
proof -
  have "modified = snd \<circ> flags" by (simp add: fun_eq_iff flags_def)
  then show ?thesis using bytes_with_pages [of "\<lparr>pages = ps, is_shrink = False\<rparr>" snd] assms
    Size_spread [of "\<lparr>pages = ps, is_shrink = False\<rparr>"] by (simp add: bytes_with_def)
qed

lemma mod_area_same:
  assumes "tiled 0 ps" and "tiled 0 qs" and "map snd (spread ps) = map snd (spread qs)"
  shows "mod_area ps = mod_area qs"
proof -
  have l: "length (spread ps) = length (spread qs)" using assms(3) map_eq_imp_length_eq by blast
  have "snd (spread ps ! i) = snd (spread qs ! i)" if "i < length (spread ps)" for i
    using arg_cong [OF assms(3), of "\<lambda>xs. xs ! i"] that l by simp
  then show ?thesis unfolding mod_area_spread [OF assms(1)] mod_area_spread [OF assms(2)] l
    by (auto simp: nat_less_iff)
qed

lemma final_plan:
  assumes inv: "plan_inv mods pos prev dl mix" and max: "MIN_MULTIPART_SIZE \<le> max_partsize"
  defines "mix' \<equiv> (if 0 < bytes prev then mix @ [prev] else mix)"
  shows "\<exists>ups. parse_partsize_fdpage_list max_partsize (compress_fdpage_list_ignore_load mix' False) = Some ups \<and>
    tiled 0 ups \<and> all_positive ups \<and> list_end 0 ups = pos \<and> mod_area ups = mod_area (mix @ [prev]) \<and> big (butlast ups)"
proof -
  have t: "tiled 0 mix" "offset prev = list_end 0 mix" "0 \<le> bytes prev" "page_next prev = pos" "tiled 0 (mix @ [prev])"
    using inv by (auto simp: plan_inv_def list_end_def)
  have m: "min_ok (fold merge_step mix []) prev" using inv by (simp add: plan_inv_def)
  have t': "tiled 0 mix'" "list_end 0 mix' = pos" using t by (auto simp: mix'_def list_end_def page_next_def)
  have e: "bytes prev = 0 \<or> 0 < bytes prev" using t(3) by linarith
  then have a: "mod_area mix' = mod_area (mix @ [prev])" by (auto simp: mix'_def page_next_def)
  have "merge_step prev (fold merge_step mix []) = fold merge_step mix []" if "bytes prev = 0" using that by (simp add: raw_step_def)
  then have "fold merge_step mix' [] = fold merge_step (mix @ [prev]) []" using e by (auto simp: mix'_def)
  then have b: "big (butlast (compress_fdpage_list_ignore_load mix' False))"
    using merge_big [OF t(1-3) m] by (simp add: compress_fdpage_list_ignore_load_def raw_compress_fdpage_list_def)
  note C = compress_ignore_load_law [OF t'(1)]
  have c: "mod_area (compress_fdpage_list_ignore_load mix' False) = mod_area mix'"
    using C t'(1) by (intro mod_area_same) (auto simp: comp_def)
  have "0 < max_partsize" using max by (simp add: MIN_MULTIPART_SIZE_def)
  then obtain ups where u: "parse_partsize_fdpage_list max_partsize (compress_fdpage_list_ignore_load mix' False) = Some ups"
      "tiled 0 ups" "all_positive ups" "spread ups = spread (compress_fdpage_list_ignore_load mix' False)" "big (butlast ups)"
    using parse_partsize_law [of max_partsize 0 "compress_fdpage_list_ignore_load mix' False"] C max b by blast
  have "mod_area ups = mod_area (compress_fdpage_list_ignore_load mix' False)"
    using u C by (intro mod_area_same) auto
  moreover have "list_end 0 ups = pos" using u(4) C t'(2) by (simp add: list_end_def)
  ultimately show ?thesis using u a c by auto
qed

lemma final_downloads:
  assumes "plan_inv mods pos prev dl mix"
  shows "parse_partsize_fdpage_list max_partsize (compress_fdpage_list_ignore_modify dl False) =
      Some (compress_fdpage_list_ignore_modify dl False) \<and>
    (if nonempty dl = [] then area dl = {} else area dl \<subseteq> area (compress_fdpage_list_ignore_modify dl False))"
proof -
  have z: "area dl = area (nonempty dl)" by (induction dl) (auto simp: page_next_def)
  have r: "compress_fdpage_list_ignore_modify dl False = raw_compress_fdpage_list False True False False (nonempty dl)"
    by (simp add: compress_fdpage_list_ignore_modify_def raw_compress_nonempty)
  have i: "increasing 0 (nonempty dl)" using assms by (simp add: plan_inv_def)
  have "area dl \<subseteq> area (compress_fdpage_list_ignore_modify dl False)" if ne: "nonempty dl \<noteq> []"
  proof -
    obtain p ps where p: "nonempty dl = p # ps" using ne by (auto simp: neq_Nil_conv)
    note F = raw_compress_fills [of 0 p ps False True False False] and A = increasing_area [of 0 p ps]
    show ?thesis unfolding z r p using F A i tiled_area p by metis
  qed
  then show ?thesis
    using z parse_partsize_unmodified raw_compress_unmodified [of False False dl]
    by (auto simp: compress_fdpage_list_ignore_modify_def unmodified_def)
qed

text \<open>
  C34: the plan of a multi-part upload is complete and legal.  Its areas tile the file exactly; every locally
  modified byte is in an area that is uploaded, not copied on the server; every other byte of an uploaded area is in
  an area that is downloaded first; every area but the last is at least 5 MB, the least a part may have.
\<close>
theorem multipart_plan_right:
  assumes "page_list_ok pl" and "MIN_MULTIPART_SIZE \<le> max_partsize"
  shows "\<exists>dlpages mixuppages pl'.
    PL_GetPageListsForMultipartUpload max_partsize pl = Some (dlpages, mixuppages, pl') \<and>
    page_list_ok pl' \<and> spread (pages pl') = spread (pages pl) \<and>
    tiled 0 mixuppages \<and> all_positive mixuppages \<and> int (length (spread mixuppages)) = PL_Size pl \<and>
    bytes_with snd pl \<subseteq> area (filter modified mixuppages) \<and>
    area (filter modified mixuppages) \<subseteq> bytes_with snd pl \<union> area dlpages \<and>
    (\<forall>p \<in> set (butlast mixuppages). MIN_MULTIPART_SIZE \<le> bytes p)"
proof -
  let ?pl = "PL_Compress pl"
  note C = Compress_law [OF assms(1)]
  define ps where "ps = compress_fdpage_list_ignore_load (pages ?pl) False"
  have "tiled 0 (pages ?pl)" using C by (simp add: page_list_ok_def)
  from compress_ignore_load_law [OF this] C
  have ps: "tiled 0 ps" "all_positive ps" "spread ps = map (\<lambda>f. (False, snd f)) (spread (pages pl))" by (auto simp: ps_def)
  have mods: "mod_area ps = bytes_with snd pl"
    unfolding mod_area_spread [OF ps(1)] ps(3) bytes_with_def using Size_ok [OF assms(1)] by (auto simp: nat_less_iff)
  obtain prev dl mix where l: "multipart_loop ps (fdpage 0 0 False False) [] [] = (prev, dl, mix)" by (metis prod_cases3)
  have "plan_inv {} 0 (fdpage 0 0 False False) [] []"
    by (simp add: plan_inv_def page_next_def inc_end_def min_ok_def)
  from plan_loop [OF this ps(1,2) l]
  have inv: "plan_inv (bytes_with snd pl) (PL_Size pl) prev dl mix"
    using ps(3) mods Size_ok [OF assms(1)] by (simp add: list_end_def)
  define mix' where "mix' = (if 0 < bytes prev then mix @ [prev] else mix)"
  from final_plan [OF inv assms(2)] obtain ups where
    u: "parse_partsize_fdpage_list max_partsize (compress_fdpage_list_ignore_load mix' False) = Some ups"
      "tiled 0 ups" "all_positive ups" "list_end 0 ups = PL_Size pl" "mod_area ups = mod_area (mix @ [prev])" "big (butlast ups)"
    unfolding mix'_def [symmetric] by blast
  define dlp where "dlp = compress_fdpage_list_ignore_modify dl False"
  have d: "parse_partsize_fdpage_list max_partsize dlp = Some dlp" "area dl \<subseteq> area dlp"
    using final_downloads [OF inv, of max_partsize] by (auto simp: dlp_def split: if_splits)
  have "PL_GetPageListsForMultipartUpload max_partsize pl = Some (dlp, ups, ?pl)"
    unfolding PL_GetPageListsForMultipartUpload_def
    by (simp only: Let_def ps_def [symmetric] l prod.case mix'_def [symmetric] dlp_def [symmetric] d(1) u(1) option.case)
  moreover have "bytes_with snd pl \<subseteq> mod_area ups" "mod_area ups \<subseteq> bytes_with snd pl \<union> area dlp"
    using inv d(2) u(5) by (auto simp: plan_inv_def)
  moreover have "int (length (spread ups)) = PL_Size pl" using u(4) by (simp add: list_end_def)
  ultimately show ?thesis using C u by blast
qed

definition demo_upload :: PageList where
  "demo_upload = \<lparr>pages = [fdpage 0 1 True True, fdpage 1 20000000 False False, fdpage 20000001 1 True True,
     fdpage 20000002 20000000 False False], is_shrink = False\<rparr>"

lemma demo_upload_ok: "page_list_ok demo_upload"
  by (simp add: demo_upload_def page_list_ok_def page_next_def)

theorem multipart_plan_right_witness:
  "\<exists>dlpages mixuppages pl'.
    PL_GetPageListsForMultipartUpload (10 * 1024 * 1024) demo_upload = Some (dlpages, mixuppages, pl') \<and>
    tiled 0 mixuppages \<and> bytes_with snd demo_upload \<subseteq> area (filter modified mixuppages)"
  using multipart_plan_right [OF demo_upload_ok, of "10 * 1024 * 1024"] by (auto simp: MIN_MULTIPART_SIZE_def)

text \<open>
  The areas to download are compressed ignoring the modified flag, which leaves nothing to tell them apart from the gaps
  between them: they become one area, and what is to be copied on the server is downloaded too.
\<close>

lemma multipart_downloads_copied:
  "\<exists>dlpages mixuppages pl'. PL_GetPageListsForMultipartUpload (10 * 1024 * 1024) demo_upload = Some (dlpages, mixuppages, pl') \<and>
     10000000 \<in> area dlpages \<and> 10000000 \<notin> area (filter modified mixuppages)"
proof -
  have "PL_GetPageListsForMultipartUpload (10 * 1024 * 1024) demo_upload =
    Some ([fdpage 1 25242880 False False],
      [fdpage 0 5242880 False True, fdpage 5242880 14757121 False False, fdpage 20000001 5242880 False True,
       fdpage 25242881 14757121 False False], demo_upload)"
    by (simp add: PL_GetPageListsForMultipartUpload_def demo_upload_def PL_Compress_def page_next_def
        compress_fdpage_list_ignore_load_def compress_fdpage_list_ignore_modify_def raw_compress_fdpage_list_def
        raw_step_def raw_add_def raw_differs_def set_last_bytes_def MIN_MULTIPART_SIZE_def parse_part.simps fdpage_def)
  then show ?thesis by (simp add: page_next_def)
qed

subsection \<open>Areas without data\<close>

lemma nodata_pages:
  assumes "tiled a ps" and "0 \<le> a"
  shows "nodata_loop 0 (-1) ps = filter (\<lambda>p. \<not> modified p) ps"
  using assms
proof (induction ps arbitrary: a)
  case (Cons p ps)
  then have "0 \<le> page_next p" "offset p = a" "0 \<le> bytes p" by (auto simp: page_next_def)
  moreover have "fdpage (offset p) (bytes p) (loaded p) (modified p) = p" by (simp add: fdpage_def)
  ultimately show ?case using Cons by (auto simp: max_def)
qed simp

lemma increasing_filter: "tiled a ps \<Longrightarrow> all_positive ps \<Longrightarrow> b \<le> a \<Longrightarrow> increasing b (filter P ps)"
proof (induction ps arbitrary: a b)
  case (Cons p ps)
  then have "b \<le> page_next p" "tiled (page_next p) ps" by (auto simp: page_next_def)
  with Cons show ?case by auto
qed simp

text \<open>Every byte between two bytes that are not modified is in an area \<^verbatim>\<open>GetNoDataPageLists\<close> lists.\<close>

lemma Size_Compress: "page_list_ok pl \<Longrightarrow> PL_Size (PL_Compress pl) = PL_Size pl"
  using Compress_law [of pl] Size_ok [of pl] Size_ok [of "PL_Compress pl"] by simp

lemma GetNoDataPageLists_fills:
  assumes ok: "page_list_ok pl" and b: "i \<in> bytes_with (Not \<circ> snd) pl" "k \<in> bytes_with (Not \<circ> snd) pl" and j: "i \<le> j" "j \<le> k"
    and g: "PL_GetNoDataPageLists 0 0 pl = (nodata, pl')"
  shows "j \<in> area nodata \<and> pl' = PL_Compress pl \<and> (\<exists>a. 0 \<le> a \<and> tiled a nodata \<and> list_end a nodata \<le> PL_Size pl)"
proof -
  note C = Compress_law [OF ok]
  let ?ps = "pages (PL_Compress pl)"
  have z: "0 < PL_Size (PL_Compress pl)" using b(1) Size_Compress [OF ok] by (simp add: bytes_with_def)
  have t: "tiled 0 ?ps" and pos: "all_positive ?ps"
    using conjunct1 [OF C] z by (cases rule: page_list_ok_cases; simp)+
  define qs where "qs = filter (\<lambda>p. \<not> modified p) ?ps"
  have n: "nodata_loop 0 (-1) ?ps = qs" using nodata_pages [OF t] by (simp add: qs_def)
  have f: "(\<lambda>p. \<not> modified p) = (Not \<circ> snd) \<circ> flags" by (simp add: fun_eq_iff flags_def)
  have "bytes_with (Not \<circ> snd) pl = bytes_with (Not \<circ> snd) (PL_Compress pl)"
    using C Size_Compress [OF ok] by (simp add: bytes_with_def)
  then have a: "bytes_with (Not \<circ> snd) pl = area qs" using bytes_with_pages [OF t] by (simp add: qs_def f)
  obtain p ps where q: "qs = p # ps" using a b(1) by (cases qs) auto
  have inc: "increasing 0 (p # ps)" using increasing_filter [OF t pos, of 0 "\<lambda>p. \<not> modified p"] q by (simp add: qs_def del: increasing.simps)
  note F = raw_compress_fills [OF inc, of False False False False]
  have r: "nodata = raw_compress_fdpage_list False False False False (p # ps)" "pl' = PL_Compress pl"
    using g n q by (auto simp: PL_GetNoDataPageLists_def compress_fdpage_list_def)
  have area: "area nodata = {offset p..<page_next (last (p # ps))}" using F tiled_area r by metis
  have "last (p # ps) \<in> set ?ps" using q last_in_set [of "p # ps"] by (auto simp: qs_def filter_eq_Cons_iff split: if_splits)
  then have "page_next (last (p # ps)) \<le> PL_Size pl"
    using tiled_within [OF t] Size_ok [OF conjunct1 [OF C]] Size_Compress [OF ok] by fastforce
  moreover have "0 \<le> offset p" using inc by simp
  moreover have "j \<in> area nodata" using increasing_area [OF inc] a q b j area by (auto simp: subset_iff)
  ultimately show ?thesis using F r by metis
qed

lemma punch_loop_law:
  assumes "page_list_ok pl" and "\<forall>off n s. fst (fallocate off n s) = 0" and "tiled a ps" and "0 \<le> a"
    and "list_end a ps \<le> PL_Size pl"
  shows "\<exists>pl' s'. punch_loop fallocate ps pl s = (True, pl', s') \<and> page_list_ok pl' \<and> PL_Size pl' = PL_Size pl \<and>
    (\<forall>i. 0 \<le> i \<and> i < PL_Size pl \<longrightarrow>
       spread (pages pl') ! nat i = (if i \<in> area ps then (False, False) else spread (pages pl) ! nat i))"
  using assms(1,3,4,5)
proof (induction ps arbitrary: a pl s)
  case (Cons p ps)
  let ?pl = "PL_SetPageLoadedStatus (offset p) (bytes p) NOT_LOAD_MODIFIED True pl"
  have p: "0 \<le> offset p" "0 \<le> bytes p" "page_next p \<le> PL_Size pl" "tiled (page_next p) ps" "0 \<le> page_next p"
    "list_end (page_next p) ps \<le> PL_Size pl"
    using Cons.prems by (auto simp: page_next_def list_end_def)
  note S = SetPageLoadedStatus_law [OF Cons.prems(1) p(1,2), of NOT_LOAD_MODIFIED True]
  have z: "PL_Size ?pl = PL_Size pl"
    using S Size_ok [of pl] Size_ok [of ?pl] Cons.prems(1) p(1-3) by (simp add: page_next_def)
  have u: "spread (pages ?pl) ! nat i = (if offset p \<le> i \<and> i < page_next p then (False, False) else spread (pages pl) ! nat i)"
    if "0 \<le> i" "i < PL_Size pl" for i
    using S that p(1,2) Size_ok [OF Cons.prems(1)]
    by (auto simp: nth_set_flags status_flags_def page_next_def nat_less_iff nat_le_iff zless_nat_eq_int_zless)
  obtain s1 where f: "fallocate (offset p) (bytes p) s = (0, s1)" using assms(2) by (metis prod.collapse)
  have "list_end (page_next p) ps \<le> PL_Size ?pl" using p(6) z by simp
  from Cons.IH [OF conjunct1 [OF S] p(4,5) this, of s1] z u f
  show ?case by auto
qed simp

text \<open>
  \<^verbatim>\<open>PunchHole\<close> loses local changes: whenever a modified byte lies between two that are not, the hole punched
  covers it and it is marked as neither loaded nor modified, so a write that arrives between the upload and the
  punching is dropped.
\<close>
theorem PunchHole_drops_modified:
  assumes "page_list_ok pl" and "physical_fd \<noteq> -1" and "\<forall>off n s. fst (fallocate off n s) = 0"
    and "i \<in> bytes_with (Not \<circ> snd) pl" and "k \<in> bytes_with (Not \<circ> snd) pl"
    and "j \<in> bytes_with snd pl" and "i < j" and "j < k"
  shows "\<exists>pl' s'. PunchHole fallocate physical_fd pl s = (True, pl', s') \<and> spread (pages pl') ! nat j = (False, False)"
proof -
  obtain qs pl1 where g: "PL_GetNoDataPageLists 0 0 pl = (qs, pl1)" by (rule prod.exhaust)
  have "i \<le> j" "j \<le> k" using assms(7,8) by simp_all
  from GetNoDataPageLists_fills [OF assms(1,4,5) this g] obtain a
    where G: "j \<in> area qs" "pl1 = PL_Compress pl" "0 \<le> a" "tiled a qs" "list_end a qs \<le> PL_Size pl" by blast
  have z: "PL_Size pl1 = PL_Size pl" "page_list_ok pl1" using Size_Compress Compress_law assms(1) G(2) by auto
  have "list_end a qs \<le> PL_Size pl1" using G(5) z by simp
  from punch_loop_law [OF z(2) assms(3) G(4,3) this, where s = s] obtain pl' s' where
    "punch_loop fallocate qs pl1 s = (True, pl', s')"
    "\<forall>i. 0 \<le> i \<and> i < PL_Size pl \<longrightarrow> spread (pages pl') ! nat i = (if i \<in> area qs then (False, False) else spread (pages pl1) ! nat i)"
    using z(1) by auto
  moreover have "0 \<le> j" "j < PL_Size pl" using assms(6) by (auto simp: bytes_with_def)
  moreover have "qs \<noteq> []" using G(1) by auto
  ultimately show ?thesis using G(1) g assms(2) by (auto simp: PunchHole_def)
qed

definition demo_raced :: PageList where
  "demo_raced = \<lparr>pages = [fdpage 0 4 True False, fdpage 4 4 True True, fdpage 8 4 True False], is_shrink = False\<rparr>"

theorem PunchHole_drops_modified_witness:
  "\<exists>pl' s'. PunchHole (\<lambda>off n log. (0, log @ [(off, n)])) 3 demo_raced [] = (True, pl', s') \<and>
     spread (pages pl') ! 5 = (False, False)"
  using PunchHole_drops_modified [of demo_raced 3 "\<lambda>off n log. (0, log @ [(off, n)])" 1 9 5]
  by (simp add: demo_raced_def page_list_ok_def page_next_def bytes_with_def PL_Size_def flags_def eval_nat_numeral)

end
