(* ===== verification/Fd_Info.thy ===== *)
theory Fd_Info
  imports Untreated Fd_Multipart
begin

section \<open>Open files and the parts they upload (\<^verbatim>\<open>s3fs/fdcache_fdinfo.cpp\<close>, \<^verbatim>\<open>fdcache_pseudofd.cpp\<close>, \<^verbatim>\<open>types.h\<close>)\<close>

text \<open>
  \<^verbatim>\<open>PseudoFdManager\<close> gives every open of a file a descriptor of its own.  \<^verbatim>\<open>PseudoFdInfo\<close> is one open file:
  its flags, the multipart upload it runs, the parts given to the threads, the etags the server answered (an
  entity of the pool, which a part and its thread point to: here its index), and the counters the threads and the
  waiting caller share.  The methods here are those one thread runs under \<^verbatim>\<open>upload_list_lock\<close>; the threads are
  in \<open>Fd_Threads\<close> and the choice of the parts in \<open>Fd_Extract\<close>.
\<close>

subsection \<open>\<^verbatim>\<open>PseudoFdManager\<close>\<close>

definition MIN_PSEUDOFD_NUMBER :: int where "MIN_PSEUDOFD_NUMBER = 2"

fun unused_loop :: "int \<Rightarrow> int list \<Rightarrow> int" where
  "unused_loop min_fd [] = min_fd"
| "unused_loop min_fd (fd # fds) =
     (if min_fd = fd then unused_loop (min_fd + 1) fds
      else if min_fd < fd then min_fd
      else unused_loop min_fd fds)"

definition GetUnusedMinPseudoFd :: "int list \<Rightarrow> int" where
  "GetUnusedMinPseudoFd pseudofd_list = unused_loop MIN_PSEUDOFD_NUMBER pseudofd_list"

definition CreatePseudoFd :: "int list \<Rightarrow> int \<times> int list" where
  "CreatePseudoFd pseudofd_list =
     (let new_fd = GetUnusedMinPseudoFd pseudofd_list in (new_fd, sort (pseudofd_list @ [new_fd])))"

definition ReleasePseudoFd :: "int \<Rightarrow> int list \<Rightarrow> bool \<times> int list" where
  "ReleasePseudoFd fd pseudofd_list = (fd \<in> set pseudofd_list, remove1 fd pseudofd_list)"

text \<open>What every sequence of the two operations keeps.\<close>

definition pseudofds_ok :: "int list \<Rightarrow> bool" where
  "pseudofds_ok fds = (sorted fds \<and> distinct fds \<and> (\<forall>fd \<in> set fds. MIN_PSEUDOFD_NUMBER \<le> fd))"

lemma unused_loop_least:
  "sorted fds \<Longrightarrow> distinct fds \<Longrightarrow> \<forall>fd \<in> set fds. m \<le> fd \<Longrightarrow>
     m \<le> unused_loop m fds \<and> unused_loop m fds \<notin> set fds \<and> (\<forall>i. m \<le> i \<longrightarrow> i < unused_loop m fds \<longrightarrow> i \<in> set fds)"
proof (induction fds arbitrary: m)
  case (Cons fd fds)
  show ?case
  proof (cases "m = fd")
    case True
    have "\<forall>x \<in> set fds. m + 1 \<le> x"
    proof
      fix x assume "x \<in> set fds"
      then show "m + 1 \<le> x" using Cons.prems True by (cases "x = fd") fastforce+
    qed
    then have "m + 1 \<le> unused_loop (m + 1) fds" "unused_loop (m + 1) fds \<notin> set fds"
      "\<forall>i. m + 1 \<le> i \<longrightarrow> i < unused_loop (m + 1) fds \<longrightarrow> i \<in> set fds"
      using Cons.IH [of "m + 1"] Cons.prems by simp_all
    moreover have "unused_loop m (fd # fds) = unused_loop (m + 1) fds" using True by simp
    moreover have "i = m \<or> m + 1 \<le> i" if "m \<le> i" for i :: int using that by arith
    ultimately show ?thesis using True by (metis add_le_cancel_left insert_iff less_add_one linorder_not_less list.set(2) order.strict_iff_order zle_add1_eq_le)
  next
    case False
    then have "m < fd" using Cons.prems by auto
    then show ?thesis using Cons.prems by auto
  qed
qed simp

lemma sort_snoc: "sort (xs @ [x]) = insort x (sort (xs :: int list))"
  by (induction xs) (simp_all add: insort_left_comm)

text \<open>
  An open gets a descriptor no other open has, the least free one from 2 on, and a release frees exactly it:
  the list stays sorted and without repetition.
\<close>
theorem PseudoFd_create_release:
  assumes "pseudofds_ok fds" and "CreatePseudoFd fds = (fd, fds')"
  shows "fd \<notin> set fds \<and> MIN_PSEUDOFD_NUMBER \<le> fd \<and> (\<forall>i. MIN_PSEUDOFD_NUMBER \<le> i \<longrightarrow> i < fd \<longrightarrow> i \<in> set fds) \<and>
    pseudofds_ok fds' \<and> set fds' = insert fd (set fds) \<and> ReleasePseudoFd fd fds' = (True, fds)"
proof -
  have fd: "fd = unused_loop MIN_PSEUDOFD_NUMBER fds" "fds' = sort (fds @ [fd])"
    using assms(2) by (auto simp: CreatePseudoFd_def GetUnusedMinPseudoFd_def Let_def)
  have ok: "sorted fds" "distinct fds" "\<forall>fd \<in> set fds. MIN_PSEUDOFD_NUMBER \<le> fd"
    using assms(1) by (auto simp: pseudofds_ok_def)
  note L = unused_loop_least [OF ok, folded fd(1)]
  have "sort (fds @ [fd]) = insort fd fds" using ok(1) by (simp add: sort_snoc sorted_sort_id)
  then have "fds' = insort fd fds" using fd(2) by simp
  moreover have "remove1 fd (insort fd fds) = fds" using L ok by (simp add: remove1_insort_key)
  ultimately show ?thesis
    using L ok by (simp add: pseudofds_ok_def ReleasePseudoFd_def set_insort_key sorted_insort distinct_insort)
qed

theorem PseudoFd_create_release_witness:
  "pseudofds_ok [2, 3, 5] \<and> fst (CreatePseudoFd [2, 3, 5]) \<notin> {2, 3, 5}"
  using PseudoFd_create_release [of "[2, 3, 5]", OF _ prod.collapse [symmetric]]
  by (simp add: pseudofds_ok_def MIN_PSEUDOFD_NUMBER_def)

subsection \<open>The data of a multipart upload\<close>

record etagpair =
  ep_etag :: string
  ep_part_num :: int

record filepart =
  fp_uploaded :: bool
  fp_etag :: string
  fp_fd :: int
  fp_startpos :: int
  fp_size :: int
  fp_is_copy :: bool
  fp_petag :: "nat option"

record mp_part =
  mp_start :: int
  mp_size :: int
  mp_part_num :: int

text \<open>The constructor of \<^verbatim>\<open>filepart\<close>: its argument \<^verbatim>\<open>is_uploaded\<close> is not used.\<close>

definition filepart :: "bool \<Rightarrow> int \<Rightarrow> int \<Rightarrow> int \<Rightarrow> bool \<Rightarrow> nat option \<Rightarrow> filepart" where
  "filepart is_uploaded fd part_start part_size is_copy_part petagpair =
     \<lparr>fp_uploaded = False, fp_etag = [], fp_fd = fd, fp_startpos = part_start, fp_size = part_size,
      fp_is_copy = is_copy_part, fp_petag = petagpair\<rparr>"

definition get_part_number :: "etagpair list \<Rightarrow> filepart \<Rightarrow> int" where
  "get_part_number petaglist p = (case fp_petag p of None \<Rightarrow> -1 | Some i \<Rightarrow> ep_part_num (petaglist ! i))"

definition total_mp_part_list :: "mp_part list \<Rightarrow> int" where
  "total_mp_part_list mplist = sum_list (map mp_size mplist)"

record PseudoFdInfo =
  pseudo_fd :: int
  physical_fd :: int
  open_flags :: int
  upload_id :: string
  upload_fd :: int
  upload_list :: "filepart list"
  etag_entities :: "etagpair list"
  uploaded_sem :: nat
  instruct_count :: int
  completed_count :: int
  last_result :: int

subsection \<open>Opening\<close>

text \<open>The new descriptor comes from the manager, whose list is threaded through.\<close>

definition PseudoFdInfo_new :: "int \<Rightarrow> int \<Rightarrow> int list \<Rightarrow> PseudoFdInfo \<times> int list" where
  "PseudoFdInfo_new fd oflags fds =
     (let info = \<lparr>pseudo_fd = -1, physical_fd = fd, open_flags = 0, upload_id = [], upload_fd = -1, upload_list = [],
        etag_entities = [], uploaded_sem = 0, instruct_count = 0, completed_count = 0, last_result = 0\<rparr>
      in if physical_fd info \<noteq> -1
         then (case CreatePseudoFd fds of (pfd, fds) \<Rightarrow> (info\<lparr>pseudo_fd := pfd, open_flags := oflags\<rparr>, fds))
         else (info, fds))"

definition IsUploading :: "PseudoFdInfo \<Rightarrow> bool" where
  "IsUploading info = (upload_id info \<noteq> [])"

text \<open>\<^verbatim>\<open>O_WRONLY\<close> is 1 and \<^verbatim>\<open>O_RDWR\<close> 2: the two low bits.\<close>

definition Writable :: "PseudoFdInfo \<Rightarrow> bool" where
  "Writable info = (if pseudo_fd info = -1 then False else if take_bit 2 (open_flags info) = 0 then False else True)"

definition Readable :: "PseudoFdInfo \<Rightarrow> bool" where
  "Readable info = (if pseudo_fd info = -1 then False else True)"

text \<open>
  \<open>dup_fd\<close> is the system: the copy of a descriptor, placed at its start, or \<open>None\<close> where \<^verbatim>\<open>dup\<close>, \<^verbatim>\<open>lseek\<close> or
  \<^verbatim>\<open>fstat\<close> fails (the copy is then closed).  \<^verbatim>\<open>CloseUploadFd\<close> closes the copy and keeps its number.
\<close>

definition OpenUploadFd :: "(int \<Rightarrow> int option) \<Rightarrow> PseudoFdInfo \<Rightarrow> bool \<times> PseudoFdInfo" where
  "OpenUploadFd dup_fd info =
     (if upload_fd info \<noteq> -1 then (True, info)
      else if physical_fd info = -1 then (False, info)
      else (case dup_fd (physical_fd info) of
              None \<Rightarrow> (False, info)
            | Some fd \<Rightarrow> (True, info\<lparr>upload_fd := fd\<rparr>)))"

definition CloseUploadFd :: "PseudoFdInfo \<Rightarrow> PseudoFdInfo \<times> int option" where
  "CloseUploadFd info = (info, if upload_fd info \<noteq> -1 then Some (upload_fd info) else None)"

subsection \<open>Starting and ending an upload\<close>

definition ResetUploadInfo :: "PseudoFdInfo \<Rightarrow> bool \<times> PseudoFdInfo" where
  "ResetUploadInfo info =
     (True, info\<lparr>upload_id := [], upload_list := [], instruct_count := 0, completed_count := 0, last_result := 0\<rparr>)"

text \<open>
  \<^verbatim>\<open>CancelAllThreads\<close> up to its wait: whether it waits, and the result it leaves for the threads.  \<open>wait\<close> is what
  the other threads do to the object until \<^verbatim>\<open>WaitAllThreadsExit\<close> returns (\<open>Fd_Threads\<close> has their steps).
\<close>

definition cancel_first :: "PseudoFdInfo \<Rightarrow> bool \<times> PseudoFdInfo" where
  "cancel_first info =
     (if 0 < instruct_count info \<and> 0 < completed_count info then (True, info\<lparr>last_result := - ECANCELED\<rparr>)
      else (False, info))"

definition CancelAllThreads :: "(PseudoFdInfo \<Rightarrow> PseudoFdInfo) \<Rightarrow> PseudoFdInfo \<Rightarrow> bool \<times> PseudoFdInfo" where
  "CancelAllThreads wait info =
     (case cancel_first info of (need_cancel, info) \<Rightarrow> (True, if need_cancel then wait info else info))"

definition ClearUploadInfo :: "(PseudoFdInfo \<Rightarrow> PseudoFdInfo) \<Rightarrow> bool \<Rightarrow> PseudoFdInfo \<Rightarrow> bool \<times> PseudoFdInfo" where
  "ClearUploadInfo wait is_cancel_mp info =
     (if is_cancel_mp
      then (case CancelAllThreads wait info of (ok, info) \<Rightarrow> if \<not> ok then (False, info) else ResetUploadInfo info)
      else ResetUploadInfo info)"

definition Clear_Info :: "(PseudoFdInfo \<Rightarrow> PseudoFdInfo) \<Rightarrow> PseudoFdInfo \<Rightarrow> int list \<Rightarrow> bool \<times> PseudoFdInfo \<times> int list" where
  "Clear_Info wait info fds =
     (case ClearUploadInfo wait True info of (ok, info) \<Rightarrow>
        if \<not> ok then (False, info, fds)
        else (let info = fst (CloseUploadFd info);
                  fds = (if pseudo_fd info \<noteq> -1 then snd (ReleasePseudoFd (pseudo_fd info) fds) else fds)
              in (True, info\<lparr>pseudo_fd := -1, physical_fd := -1\<rparr>, fds)))"

definition Set_Info :: "(PseudoFdInfo \<Rightarrow> PseudoFdInfo) \<Rightarrow> int \<Rightarrow> int \<Rightarrow> PseudoFdInfo \<Rightarrow> int list \<Rightarrow> bool \<times> PseudoFdInfo \<times> int list" where
  "Set_Info wait fd oflags info fds =
     (if fd = -1 then (False, info, fds)
      else (case Clear_Info wait info fds of (_, info, fds) \<Rightarrow>
            case CreatePseudoFd fds of (pfd, fds) \<Rightarrow>
              (True, info\<lparr>physical_fd := fd, pseudo_fd := pfd, open_flags := oflags\<rparr>, fds)))"

definition RowInitialUploadInfo ::
    "(PseudoFdInfo \<Rightarrow> PseudoFdInfo) \<Rightarrow> string \<Rightarrow> bool \<Rightarrow> bool \<Rightarrow> PseudoFdInfo \<Rightarrow> bool \<times> PseudoFdInfo" where
  "RowInitialUploadInfo wait new_id is_cancel_mp already_locked info =
     (if is_cancel_mp \<and> already_locked then (False, info)
      else (case if is_cancel_mp then ClearUploadInfo wait is_cancel_mp info else ResetUploadInfo info of (ok, info) \<Rightarrow>
            if \<not> ok then (False, info) else (True, info\<lparr>upload_id := new_id\<rparr>)))"

definition InitialUploadInfo :: "(PseudoFdInfo \<Rightarrow> PseudoFdInfo) \<Rightarrow> string \<Rightarrow> PseudoFdInfo \<Rightarrow> bool \<times> PseudoFdInfo" where
  "InitialUploadInfo wait new_id info = RowInitialUploadInfo wait new_id True False info"

definition CompleteInstruction :: "int \<Rightarrow> PseudoFdInfo \<Rightarrow> bool \<times> PseudoFdInfo" where
  "CompleteInstruction result info =
     (let info = (if result \<noteq> 0 then info\<lparr>last_result := result\<rparr> else info)
      in if instruct_count info \<le> 0 then (False, info)
         else (True, info\<lparr>instruct_count := instruct_count info - 1, completed_count := completed_count info + 1\<rparr>))"

definition GetUploadId :: "PseudoFdInfo \<Rightarrow> string option" where
  "GetUploadId info = (if \<not> IsUploading info then None else Some (upload_id info))"

subsection \<open>The parts\<close>

text \<open>The list the caller gets is the first component of the pair, also where the method fails.\<close>

fun etag_loop :: "etagpair list \<Rightarrow> etagpair list \<Rightarrow> filepart list \<Rightarrow> bool \<times> etagpair list" where
  "etag_loop entities acc [] = (acc \<noteq> [], acc)"
| "etag_loop entities acc (p # ps) =
     (case fp_petag p of
        Some i \<Rightarrow> etag_loop entities (acc @ [entities ! i]) ps
      | None \<Rightarrow> (False, acc))"

definition GetEtaglist :: "etagpair list \<Rightarrow> PseudoFdInfo \<Rightarrow> bool \<times> etagpair list" where
  "GetEtaglist list0 info =
     (if \<not> IsUploading info then (False, list0) else etag_loop (etag_entities info) [] (upload_list info))"

definition AppendUploadPart :: "int \<Rightarrow> int \<Rightarrow> bool \<Rightarrow> PseudoFdInfo \<Rightarrow> nat option \<times> PseudoFdInfo" where
  "AppendUploadPart start n is_copy info =
     (if \<not> IsUploading info then (None, info)
      else (let next_start_pos = (if upload_list info \<noteq> []
              then fp_startpos (last (upload_list info)) + fp_size (last (upload_list info)) else 0)
            in if start \<noteq> next_start_pos then (None, info)
               else (let partnumber = int (length (upload_list info)) + 1;
                         petag = length (etag_entities info)
                     in (Some petag, info\<lparr>etag_entities := etag_entities info @ [\<lparr>ep_etag = [], ep_part_num = partnumber\<rparr>],
                          upload_list := upload_list info @
                            [filepart False (physical_fd info) start n is_copy (Some petag)]\<rparr>))))"

text \<open>The sort is by part number; where numbers repeat \<^verbatim>\<open>std::sort\<close> promises no order, and the model keeps theirs.\<close>

definition InsertUploadPart :: "int \<Rightarrow> int \<Rightarrow> int \<Rightarrow> bool \<Rightarrow> PseudoFdInfo \<Rightarrow> nat option \<times> PseudoFdInfo" where
  "InsertUploadPart start n part_num is_copy info =
     (if \<not> IsUploading info then (None, info)
      else if start < 0 \<or> n \<le> 0 \<or> part_num < 0 then (None, info)
      else (let petag = length (etag_entities info);
                entities = etag_entities info @ [\<lparr>ep_etag = [], ep_part_num = part_num\<rparr>]
            in (Some petag, info\<lparr>etag_entities := entities,
                 upload_list := sort_key (get_part_number entities)
                   (upload_list info @ [filepart False (physical_fd info) start n is_copy (Some petag)])\<rparr>)))"

subsection \<open>Giving parts to the threads\<close>

text \<open>
  The arguments of an upload thread, and of the pool of \<^verbatim>\<open>threadpoolman.cpp\<close> the queue of instructions and its
  semaphore (the functions and the semaphore of every instruction here are those of one \<^verbatim>\<open>PseudoFdInfo\<close>).
\<close>

record thparam =
  th_path :: string
  th_upload_id :: string
  th_upload_fd :: int
  th_start :: int
  th_size :: int
  th_is_copy :: bool
  th_part_num :: int
  th_petag :: nat

record thpool =
  pool_singleton :: bool
  instruction_list :: "thparam list"
  thpoolman_sem :: nat
  is_exit :: bool

definition SetInstruction :: "thparam \<Rightarrow> thpool \<Rightarrow> bool \<times> thpool" where
  "SetInstruction pparam pool =
     (True, pool\<lparr>instruction_list := instruction_list pool @ [pparam], thpoolman_sem := thpoolman_sem pool + 1\<rparr>)"

definition Instruct :: "thparam \<Rightarrow> thpool \<Rightarrow> bool \<times> thpool" where
  "Instruct pparam pool = (if \<not> pool_singleton pool then (False, pool) else SetInstruction pparam pool)"

fun instruct_loop :: "string \<Rightarrow> bool \<Rightarrow> mp_part list \<Rightarrow> PseudoFdInfo \<Rightarrow> thpool \<Rightarrow> bool \<times> PseudoFdInfo \<times> thpool" where
  "instruct_loop path is_copy [] info pool = (True, info, pool)"
| "instruct_loop path is_copy (p # ps) info pool =
     (case InsertUploadPart (mp_start p) (mp_size p) (mp_part_num p) is_copy info of
        (None, info) \<Rightarrow> (False, info, pool)
      | (Some petag, info) \<Rightarrow>
          (case Instruct \<lparr>th_path = path, th_upload_id = upload_id info, th_upload_fd = upload_fd info,
              th_start = mp_start p, th_size = mp_size p, th_is_copy = is_copy, th_part_num = mp_part_num p,
              th_petag = petag\<rparr> pool of (ok, pool) \<Rightarrow>
             if \<not> ok then (False, info, pool)
             else instruct_loop path is_copy ps (info\<lparr>instruct_count := instruct_count info + 1\<rparr>) pool))"

definition ParallelMultipartUpload ::
    "(int \<Rightarrow> int option) \<Rightarrow> string \<Rightarrow> mp_part list \<Rightarrow> bool \<Rightarrow> PseudoFdInfo \<Rightarrow> thpool \<Rightarrow> bool \<times> PseudoFdInfo \<times> thpool" where
  "ParallelMultipartUpload dup_fd path mplist is_copy info pool =
     (if mplist = [] then (True, info, pool)
      else (case OpenUploadFd dup_fd info of (ok, info) \<Rightarrow>
            if \<not> ok then (False, info, pool) else instruct_loop path is_copy mplist info pool))"

text \<open>\<^verbatim>\<open>ParallelMultipartUploadAll\<close> up to its wait for the threads.\<close>

definition upload_all_first ::
    "(int \<Rightarrow> int option) \<Rightarrow> string \<Rightarrow> mp_part list \<Rightarrow> mp_part list \<Rightarrow> PseudoFdInfo \<Rightarrow> thpool \<Rightarrow> bool \<times> PseudoFdInfo \<times> thpool" where
  "upload_all_first dup_fd path to_upload_list copy_list info pool =
     (case OpenUploadFd dup_fd info of (ok, info) \<Rightarrow>
        if \<not> ok then (False, info, pool)
        else (case ParallelMultipartUpload dup_fd path to_upload_list False info pool of (ok, info, pool) \<Rightarrow>
              if \<not> ok then (False, info, pool)
              else ParallelMultipartUpload dup_fd path copy_list True info pool))"

end
