(* ===== verification/Fd_Extract.thy ===== *)
theory Fd_Extract
  imports Fd_Info
begin

section \<open>Which areas to upload, copy and download (\<^verbatim>\<open>PseudoFdInfo::Extract...\<close>)\<close>

text \<open>
  While a file is written, whole parts of \<^verbatim>\<open>max_mp_size\<close> bytes are uploaded as soon as they are complete
  (\<^verbatim>\<open>UploadBoundaryLastUntreatedArea\<close>); at the flush the rest of the file is cut at the same boundaries and each
  piece is uploaded, copied from the object, or left as uploaded (\<^verbatim>\<open>ExtractUploadPartsFromAllArea\<close>).  The theorems
  say that the pieces are exactly the file, and that no written byte comes from the old object.
\<close>

subsection \<open>\<^verbatim>\<open>ExtractUploadPartsFromUntreatedArea\<close>\<close>

text \<open>The uploaded parts that overlap the area are taken out of the list; one that goes past its end makes it longer.\<close>

fun cancel_loop :: "int \<Rightarrow> int \<Rightarrow> filepart list \<Rightarrow> int \<times> filepart list \<times> filepart list" where
  "cancel_loop aligned_start aligned_size [] = (aligned_size, [], [])"
| "cancel_loop aligned_start aligned_size (u # us) =
     (if fp_startpos u + fp_size u - 1 < aligned_start \<or> aligned_start + aligned_size - 1 < fp_startpos u
      then (case cancel_loop aligned_start aligned_size us of (n, kept, cancelled) \<Rightarrow> (n, u # kept, cancelled))
      else (let aligned_size = (if aligned_start + aligned_size - 1 < fp_startpos u + fp_size u - 1
              then aligned_size + (fp_startpos u + fp_size u - (aligned_start + aligned_size)) else aligned_size)
            in case cancel_loop aligned_start aligned_size us of (n, kept, cancelled) \<Rightarrow> (n, kept, u # cancelled)))"

text \<open>The loop that adds the parts returns only where the part size is positive (or the area too small).\<close>

partial_function (option) part_loop :: "int \<Rightarrow> int \<Rightarrow> int \<Rightarrow> mp_part list option" where
  "part_loop max_mp_size aligned_start aligned_size =
     (if max_mp_size \<le> aligned_size
      then Option.bind (part_loop max_mp_size (aligned_start + max_mp_size) (aligned_size - max_mp_size))
        (\<lambda>ps. Some (\<lparr>mp_start = aligned_start, mp_size = max_mp_size,
                     mp_part_num = aligned_start div max_mp_size + 1\<rparr> # ps))
      else Some [])"

text \<open>
  Start positions are not negative where the divisions are taken, so that C++ and \<open>div\<close> agree.  The result:
  whether the method succeeds, the parts to upload, the parts cancelled, and the list of the uploaded ones.
\<close>

definition ExtractUploadPartsFromUntreatedArea ::
    "int \<Rightarrow> int \<Rightarrow> int \<Rightarrow> filepart list \<Rightarrow> (bool \<times> mp_part list \<times> filepart list \<times> filepart list) option" where
  "ExtractUploadPartsFromUntreatedArea untreated_start untreated_size max_mp_size uploads =
     (if untreated_start < 0 \<or> untreated_size \<le> 0 then Some (False, [], [], uploads)
      else (let aligned_start = untreated_start div max_mp_size * max_mp_size;
                aligned_size = untreated_size + (untreated_start - aligned_start)
            in if aligned_size < max_mp_size then Some (True, [], [], uploads)
               else (case cancel_loop aligned_start aligned_size uploads of (aligned_size, kept, cancelled) \<Rightarrow>
                     Option.bind (part_loop max_mp_size aligned_start aligned_size)
                       (\<lambda>ps. Some (True, ps, cancelled, kept)))))"

subsection \<open>\<^verbatim>\<open>ExtractUploadPartsFromAllArea\<close>\<close>

text \<open>The untreated areas of one piece of the file, cut at its ends, and the untreated areas after it.\<close>

fun cut_untreated :: "int \<Rightarrow> int \<Rightarrow> untreatedpart list \<Rightarrow> (int \<times> int) list \<times> untreatedpart list" where
  "cut_untreated cur_start cur_size [] = ([], [])"
| "cut_untreated cur_start cur_size (p # ps) =
     (if up_start p < cur_start + cur_size \<and> cur_start < up_start p + up_size p
      then (let tmp_start = (if up_start p < cur_start then cur_start else up_start p);
                tmp_size = (if up_start p < cur_start then up_size p - (cur_start - up_start p) else up_size p)
            in if tmp_start + tmp_size \<le> cur_start + cur_size
               then (case cut_untreated cur_start cur_size ps of (cur, rest) \<Rightarrow> ((tmp_start, tmp_size) # cur, rest))
               else ([(tmp_start, cur_start + cur_size - tmp_start)],
                 p\<lparr>up_size := up_start p + up_size p - (cur_start + cur_size), up_start := cur_start + cur_size\<rparr> # ps))
      else if cur_start + cur_size - 1 < up_start p then ([], p # ps)
      else cut_untreated cur_start cur_size ps)"

text \<open>
  The uploaded part of the piece: \<open>passed\<close> are the parts before the iterator, \<open>found\<close> the part found with those
  before it.  \<open>None\<close> is the failure for a second one.
\<close>

fun uploaded_loop :: "int \<Rightarrow> int \<Rightarrow> filepart list \<Rightarrow> (filepart list \<times> filepart) option \<Rightarrow> filepart list \<Rightarrow>
    ((filepart list \<times> filepart) option \<times> filepart list \<times> filepart list) option" where
  "uploaded_loop cur_start cur_size passed found [] = Some (found, passed, [])"
| "uploaded_loop cur_start cur_size passed found (u # us) =
     (if cur_start < fp_startpos u + fp_size u \<and> fp_startpos u < cur_start + cur_size
      then (if found \<noteq> None then None
            else uploaded_loop cur_start cur_size (passed @ [u]) (Some (passed, u)) us)
      else if cur_start + cur_size - 1 < fp_startpos u then Some (found, passed, u # us)
      else uploaded_loop cur_start cur_size (passed @ [u]) found us)"

definition FIVE_GB :: int where "FIVE_GB = 5 * 1024 * 1024 * 1024"

record gap_state =
  to_copy_list :: "mp_part list"
  to_download_list :: "mp_part list"
  changed_start :: int
  changed_size :: int

text \<open>The downloads of a piece that was not uploaded; the gap at its front may join the copy before it.\<close>

fun gap_loop :: "bool \<Rightarrow> bool \<Rightarrow> int \<Rightarrow> int \<Rightarrow> gap_state \<Rightarrow> (int \<times> int) list \<Rightarrow> int \<times> int \<times> gap_state" where
  "gap_loop use_copy first_area tmp_start tmp_size g [] = (tmp_start, tmp_size, g)"
| "gap_loop use_copy first_area tmp_start tmp_size g ((s, n) # us) =
     (let g = (if tmp_start < s
        then (if first_area \<and> use_copy \<and> to_copy_list g \<noteq> [] \<and>
                 mp_start (last (to_copy_list g)) + mp_size (last (to_copy_list g)) = tmp_start \<and>
                 mp_size (last (to_copy_list g)) + (s - tmp_start) \<le> FIVE_GB \<and>
                 MIN_MULTIPART_SIZE \<le> tmp_start + tmp_size - s
              then g\<lparr>to_copy_list := butlast (to_copy_list g) @
                        [(last (to_copy_list g))\<lparr>mp_size := mp_size (last (to_copy_list g)) + (s - tmp_start)\<rparr>],
                     changed_size := changed_size g - (s - changed_start g), changed_start := s\<rparr>
              else g\<lparr>to_download_list := to_download_list g @
                        [\<lparr>mp_start = tmp_start, mp_size = s - tmp_start, mp_part_num = 0\<rparr>]\<rparr>)
        else g)
      in gap_loop use_copy False (s + n) (tmp_start + tmp_size - (s + n)) g us)"

record extract_state =
  ex_upload :: "mp_part list"
  ex_copy :: "mp_part list"
  ex_download :: "mp_part list"
  ex_cancel :: "filepart list"
  ex_wait :: bool
  ex_passed :: "filepart list"
  ex_rest :: "filepart list"
  ex_untreated :: "untreatedpart list"

text \<open>One piece of the file.\<close>

definition extract_area :: "int \<Rightarrow> bool \<Rightarrow> int \<Rightarrow> int \<Rightarrow> extract_state \<Rightarrow> extract_state option" where
  "extract_area max_mp_size use_copy cur_start cur_size ex =
     (case cut_untreated cur_start cur_size (ex_untreated ex) of (cur_untreated, rest_untreated) \<Rightarrow>
      case uploaded_loop cur_start cur_size (ex_passed ex) None (ex_rest ex) of
        None \<Rightarrow> None
      | Some (overlap, passed, rest) \<Rightarrow>
          (let part_num = cur_start div max_mp_size + 1;
               cur = \<lparr>mp_start = cur_start, mp_size = cur_size, mp_part_num = part_num\<rparr>;
               ex1 = ex\<lparr>ex_untreated := rest_untreated, ex_passed := passed, ex_rest := rest\<rparr>
           in Some (if cur_untreated = []
                then (if overlap \<noteq> None then ex1
                      else if use_copy then ex1\<lparr>ex_copy := ex_copy ex @ [cur]\<rparr>
                      else ex1\<lparr>ex_download := ex_download ex @ [cur\<lparr>mp_part_num := 0\<rparr>], ex_upload := ex_upload ex @ [cur]\<rparr>)
                else (case overlap of
                        Some (before, u) \<Rightarrow>
                          ex1\<lparr>ex_wait := (if \<not> fp_uploaded u then True else ex_wait ex), ex_cancel := ex_cancel ex @ [u],
                              ex_passed := before, ex_rest := drop (length before + 1) passed @ rest,
                              ex_upload := ex_upload ex @ [cur]\<rparr>
                      | None \<Rightarrow>
                          (case gap_loop use_copy True cur_start cur_size \<lparr>to_copy_list = ex_copy ex,
                              to_download_list = ex_download ex, changed_start = cur_start, changed_size = cur_size\<rparr>
                              cur_untreated of (tmp_start, tmp_size, g) \<Rightarrow>
                           ex1\<lparr>ex_copy := to_copy_list g,
                               ex_download := to_download_list g @ (if 0 < tmp_size
                                 then [\<lparr>mp_start = tmp_start, mp_size = tmp_size, mp_part_num = 0\<rparr>] else []),
                               ex_upload := ex_upload ex @ [\<lparr>mp_start = changed_start g, mp_size = changed_size g,
                                 mp_part_num = part_num\<rparr>]\<rparr>)))))"

partial_function (option) extract_loop ::
    "int \<Rightarrow> int \<Rightarrow> bool \<Rightarrow> int \<Rightarrow> extract_state \<Rightarrow> (bool \<times> extract_state) option" where
  "extract_loop max_mp_size file_size use_copy cur_start ex =
     (if cur_start < file_size
      then (let cur_size = (if cur_start + max_mp_size \<le> file_size then max_mp_size else file_size - cur_start)
            in case extract_area max_mp_size use_copy cur_start cur_size ex of
                 None \<Rightarrow> Some (False, ex)
               | Some ex \<Rightarrow> extract_loop max_mp_size file_size use_copy (cur_start + cur_size) ex)
      else Some (True, ex))"

definition ExtractUploadPartsFromAllArea ::
    "UntreatedParts \<Rightarrow> int \<Rightarrow> int \<Rightarrow> bool \<Rightarrow> PseudoFdInfo \<Rightarrow> (bool \<times> extract_state \<times> PseudoFdInfo) option" where
  "ExtractUploadPartsFromAllArea ut max_mp_size file_size use_copy info =
     Option.bind (extract_loop max_mp_size file_size use_copy 0
       \<lparr>ex_upload = [], ex_copy = [], ex_download = [], ex_cancel = [], ex_wait = False, ex_passed = [],
        ex_rest = upload_list info, ex_untreated = UT_Duplicate ut\<rparr>)
       (\<lambda>(ok, ex). Some (ok, ex, info\<lparr>upload_list := ex_passed ex @ ex_rest ex\<rparr>))"

subsection \<open>The bytes of the parts\<close>

definition mp_bytes :: "mp_part list \<Rightarrow> int set" where
  "mp_bytes ps = (\<Union>p \<in> set ps. {mp_start p..<mp_start p + mp_size p})"

definition fp_bytes :: "filepart list \<Rightarrow> int set" where
  "fp_bytes ps = (\<Union>p \<in> set ps. {fp_startpos p..<fp_startpos p + fp_size p})"

definition areas_bytes :: "(int \<times> int) list \<Rightarrow> int set" where
  "areas_bytes us = (\<Union>u \<in> set us. {fst u..<fst u + snd u})"

lemma bytes_simps [simp]:
  "mp_bytes [] = {}" "mp_bytes (p # ps) = {mp_start p..<mp_start p + mp_size p} \<union> mp_bytes ps"
  "mp_bytes (ps @ qs) = mp_bytes ps \<union> mp_bytes qs"
  "fp_bytes [] = {}" "fp_bytes (u # us) = {fp_startpos u..<fp_startpos u + fp_size u} \<union> fp_bytes us"
  "fp_bytes (us @ vs) = fp_bytes us \<union> fp_bytes vs"
  "areas_bytes [] = {}" "areas_bytes (a # as) = {fst a..<fst a + snd a} \<union> areas_bytes as"
  by (auto simp: mp_bytes_def fp_bytes_def areas_bytes_def)

text \<open>Areas in order and apart, from \<open>lo\<close> to \<open>hi\<close>.\<close>

fun areas_ok :: "int \<Rightarrow> int \<Rightarrow> (int \<times> int) list \<Rightarrow> bool" where
  "areas_ok lo hi [] = (lo \<le> hi)"
| "areas_ok lo hi ((s, n) # us) = (lo \<le> s \<and> 0 < n \<and> s + n \<le> hi \<and> areas_ok (s + n) hi us)"

lemma areas_bounds: "areas_ok lo hi us \<Longrightarrow> areas_bytes us \<subseteq> {lo..<hi}"
  by (induction lo hi us rule: areas_ok.induct) (auto 0 3)

text \<open>The uploaded parts as the multipart size makes them: whole pieces, in order, inside the file.\<close>

fun uploads_ok :: "int \<Rightarrow> int \<Rightarrow> int \<Rightarrow> filepart list \<Rightarrow> bool" where
  "uploads_ok max_mp_size file_size lo [] = True"
| "uploads_ok max_mp_size file_size lo (u # us) =
     (lo \<le> fp_startpos u \<and> fp_startpos u mod max_mp_size = 0 \<and> fp_size u = max_mp_size \<and>
      fp_startpos u + max_mp_size \<le> file_size \<and> uploads_ok max_mp_size file_size (fp_startpos u + max_mp_size) us)"

lemma uploads_weaken: "uploads_ok m f lo us \<Longrightarrow> lo' \<le> lo \<Longrightarrow> uploads_ok m f lo' us"
  by (cases us) auto

lemma uploads_lower: "uploads_ok m f lo us \<Longrightarrow> 0 < m \<Longrightarrow> u \<in> set us \<Longrightarrow> lo \<le> fp_startpos u"
proof (induction us arbitrary: lo)
  case (Cons v us)
  then show ?case using uploads_weaken [of m f "fp_startpos v + m" us lo] by (cases "u = v") auto
qed simp

subsection \<open>The steps\<close>

lemma cut_untreated_law:
  assumes "parts_ok cs ps" and "0 < cz"
  shows "case cut_untreated cs cz ps of (cur, rest) \<Rightarrow>
    areas_ok cs (cs + cz) cur \<and> areas_bytes cur = parts_bytes ps \<inter> {cs..<cs + cz} \<and>
    parts_ok (cs + cz) rest \<and> parts_bytes rest = parts_bytes ps \<inter> {cs + cz..} \<and>
    (cur = [] \<longleftrightarrow> parts_bytes ps \<inter> {cs..<cs + cz} = {})"
  using assms(1)
proof (induction ps)
  case Nil
  then show ?case using assms(2) by simp
next
  case (Cons p ps)
  let ?e = "up_start p + up_size p"
  have p: "cs \<le> up_start p" "0 < up_size p" "parts_ok (?e + 1) ps" using Cons.prems by auto
  have low: "\<And>i. i \<in> parts_bytes ps \<Longrightarrow> ?e + 1 \<le> i" using parts_lower [OF p(3)] .
  consider (behind) "cs + cz \<le> up_start p" | (within) "?e \<le> cs + cz" | (across) "up_start p < cs + cz" "cs + cz < ?e"
    by linarith
  then show ?case
  proof cases
    case behind
    have "parts_bytes (p # ps) \<inter> {cs..<cs + cz} = {}" using behind p(2) low by fastforce
    moreover have "parts_bytes (p # ps) \<subseteq> {cs + cz..}" using behind p(2) low by fastforce
    ultimately show ?thesis using behind p assms(2) by auto
  next
    case across
    have "parts_bytes ps \<inter> {cs..<cs + cz} = {}" using across low by fastforce
    moreover have "parts_bytes ps \<subseteq> {cs + cz..}" using across low by fastforce
    moreover have "up_start p \<in> parts_bytes (p # ps) \<inter> {cs..<cs + cz}" using across p by simp
    then have "parts_bytes (p # ps) \<inter> {cs..<cs + cz} \<noteq> {}" by blast
    ultimately show ?thesis using across p assms(2) by (auto simp: Let_def)
  next
    case within
    have "parts_ok cs ps" using p by (auto intro: parts_ok_weaken)
    then obtain cur rest where C: "cut_untreated cs cz ps = (cur, rest)" "areas_ok cs (cs + cz) cur"
      "areas_bytes cur = parts_bytes ps \<inter> {cs..<cs + cz}" "parts_ok (cs + cz) rest"
      "parts_bytes rest = parts_bytes ps \<inter> {cs + cz..}"
      using Cons.IH by (cases "cut_untreated cs cz ps") auto
    have "areas_ok ?e (cs + cz) cur"
    proof (cases cur)
      case Nil
      then show ?thesis using within by simp
    next
      case (Cons a as)
      obtain s n where a: "a = (s, n)" by (cases a)
      have "s \<in> parts_bytes ps" using C(2,3) Cons a by auto
      then show ?thesis using C(2) Cons a low by fastforce
    qed
    moreover have "cut_untreated cs cz (p # ps) = ((up_start p, up_size p) # cur, rest)"
      using within p C(1) assms(2) by (simp add: Let_def)
    moreover have "up_start p \<in> parts_bytes (p # ps) \<inter> {cs..<cs + cz}" using within p by simp
    then have "parts_bytes (p # ps) \<inter> {cs..<cs + cz} \<noteq> {}" by blast
    ultimately show ?thesis using C p within by auto
  qed
qed

text \<open>Between pieces the iterator of the uploaded parts stands before every part of a later piece.\<close>

lemma uploaded_loop_none:
  assumes "uploads_ok m f (cs + m) us" and "cz \<le> m" and "0 < m"
  shows "uploaded_loop cs cz passed found us = Some (found, passed, us)"
  using assms by (cases us) auto

lemma uploaded_loop_law:
  assumes "uploads_ok m f cs us" and "cs mod m = 0" and "0 < m" and "0 < cz" and "cz \<le> m" and "cz < m \<longrightarrow> cs + cz = f"
  obtains (none) "uploads_ok m f (cs + m) us" "uploaded_loop cs cz passed None us = Some (None, passed, us)"
  | (one) u us' where "us = u # us'" "fp_startpos u = cs" "cz = m" "fp_size u = m" "uploads_ok m f (cs + m) us'"
      "uploaded_loop cs cz passed None us = Some (Some (passed, u), passed @ [u], us')"
proof (cases us)
  case Nil
  then show ?thesis using none by simp
next
  case (Cons u us')
  have u: "cs \<le> fp_startpos u" "fp_startpos u mod m = 0" "fp_size u = m" "fp_startpos u + m \<le> f"
    "uploads_ok m f (fp_startpos u + m) us'" using assms(1) Cons by auto
  show ?thesis
  proof (cases "cs + m \<le> fp_startpos u")
    case True
    then have "uploads_ok m f (cs + m) us" using u Cons by simp
    then show ?thesis using none uploaded_loop_none [OF _ assms(5,3)] by blast
  next
    case False
    have "(fp_startpos u - cs) mod m = 0" using assms(2) u(2) by (simp add: mod_eq_0_iff_dvd)
    then have "fp_startpos u = cs" using False u(1) by (simp add: mod_pos_pos_trivial)
    moreover have "cz = m" using assms(5,6) u(4) calculation by linarith
    moreover have "uploads_ok m f (cs + m) us'" using u(5) calculation by simp
    moreover have "uploaded_loop cs cz passed None us = Some (Some (passed, u), passed @ [u], us')"
      using uploaded_loop_none [OF \<open>uploads_ok m f (cs + m) us'\<close> assms(5,3), of "passed @ [u]" "Some (passed, u)"]
        calculation Cons u(3) assms(3,4) by simp
    ultimately show ?thesis using one Cons u(3) by blast
  qed
qed

lemma gap_loop_law:
  assumes "areas_ok t e us"
  shows "\<exists>t' g'. gap_loop use_copy False t (e - t) g us = (t', e - t', g') \<and> t' \<le> e \<and> t \<le> t' \<and>
    to_copy_list g' = to_copy_list g \<and> changed_start g' = changed_start g \<and> changed_size g' = changed_size g \<and>
    mp_bytes (to_download_list g') \<union> {t'..<e} = mp_bytes (to_download_list g) \<union> ({t..<e} - areas_bytes us)"
  using assms
proof (induction us arbitrary: t g)
  case Nil
  then show ?case by simp
next
  case (Cons a us)
  obtain s n where a: "a = (s, n)" by (cases a)
  have sn: "t \<le> s" "0 < n" "s + n \<le> e" "areas_ok (s + n) e us" using Cons.prems a by auto
  define g1 where "g1 = (if t < s then g\<lparr>to_download_list := to_download_list g @
    [\<lparr>mp_start = t, mp_size = s - t, mp_part_num = 0\<rparr>]\<rparr> else g)"
  have step: "gap_loop use_copy False t (e - t) g (a # us) = gap_loop use_copy False (s + n) (e - (s + n)) g1 us"
    by (simp add: a g1_def Let_def)
  have g1: "mp_bytes (to_download_list g1) = mp_bytes (to_download_list g) \<union> {t..<s}"
    "to_copy_list g1 = to_copy_list g" "changed_start g1 = changed_start g" "changed_size g1 = changed_size g"
    using sn(1) by (auto simp: g1_def)
  from Cons.IH [OF sn(4), of g1] obtain t' g' where
    IH: "gap_loop use_copy False (s + n) (e - (s + n)) g1 us = (t', e - t', g')" "t' \<le> e" "s + n \<le> t'"
      "to_copy_list g' = to_copy_list g1" "changed_start g' = changed_start g1" "changed_size g' = changed_size g1"
      "mp_bytes (to_download_list g') \<union> {t'..<e} = mp_bytes (to_download_list g1) \<union> ({s + n..<e} - areas_bytes us)"
    by blast
  have "{t..<e} - areas_bytes (a # us) = {t..<s} \<union> ({s + n..<e} - areas_bytes us)"
    using areas_bounds [OF sn(4)] sn a by auto
  then show ?case using step IH g1 sn by (intro exI [of _ t'] exI [of _ g']) auto
qed

text \<open>The first area of a piece: the gap before it is downloaded, or the copy before it grows.\<close>

lemma gap_loop_first:
  assumes "areas_ok t e ((s, n) # us)"
    and "gap_loop use_copy True t (e - t) \<lparr>to_copy_list = cl, to_download_list = dl, changed_start = t, changed_size = e - t\<rparr>
      ((s, n) # us) = (t', r, g')"
  obtains (download) "to_copy_list g' = cl" "changed_start g' = t" "changed_size g' = e - t" "r = e - t'" "t' \<le> e"
      "mp_bytes (to_download_list g') \<union> {t'..<e} = mp_bytes dl \<union> ({t..<e} - areas_bytes ((s, n) # us))"
  | (copy) ini c where "cl = ini @ [c]" "mp_start c + mp_size c = t" "mp_size c + (s - t) \<le> FIVE_GB"
      "MIN_MULTIPART_SIZE \<le> e - s" "t < s" "to_copy_list g' = ini @ [c\<lparr>mp_size := mp_size c + (s - t)\<rparr>]"
      "changed_start g' = s" "changed_size g' = e - s" "r = e - t'" "t' \<le> e"
      "mp_bytes (to_download_list g') \<union> {t'..<e} = mp_bytes dl \<union> ({s..<e} - areas_bytes ((s, n) # us))"
proof -
  let ?g = "\<lparr>to_copy_list = cl, to_download_list = dl, changed_start = t, changed_size = e - t\<rparr>"
  have sn: "t \<le> s" "0 < n" "s + n \<le> e" "areas_ok (s + n) e us" using assms(1) by auto
  note B = areas_bounds [OF sn(4)]
  show ?thesis
  proof (cases "t < s \<and> use_copy \<and> cl \<noteq> [] \<and> mp_start (last cl) + mp_size (last cl) = t \<and>
      mp_size (last cl) + (s - t) \<le> FIVE_GB \<and> MIN_MULTIPART_SIZE \<le> e - s")
    case True
    define g1 where "g1 = ?g\<lparr>to_copy_list := butlast cl @ [(last cl)\<lparr>mp_size := mp_size (last cl) + (s - t)\<rparr>],
      changed_size := e - t - (s - t), changed_start := s\<rparr>"
    have "gap_loop use_copy True t (e - t) ?g ((s, n) # us) = gap_loop use_copy False (s + n) (e - (s + n)) g1 us"
      using True by (simp add: g1_def Let_def)
    moreover obtain t1 g2 where G: "gap_loop use_copy False (s + n) (e - (s + n)) g1 us = (t1, e - t1, g2)" "t1 \<le> e"
        "to_copy_list g2 = to_copy_list g1" "changed_start g2 = changed_start g1" "changed_size g2 = changed_size g1"
        "mp_bytes (to_download_list g2) \<union> {t1..<e} = mp_bytes (to_download_list g1) \<union> ({s + n..<e} - areas_bytes us)"
      using gap_loop_law [OF sn(4), of use_copy g1] by blast
    ultimately have e: "t' = t1" "r = e - t1" "g' = g2" using assms(2) by auto
    have "{s..<e} - areas_bytes ((s, n) # us) = {s + n..<e} - areas_bytes us" using B sn by auto
    then show ?thesis using copy [of "butlast cl" "last cl"] True G e by (simp add: g1_def)
  next
    case False
    define g1 where "g1 = (if t < s then ?g\<lparr>to_download_list := dl @
      [\<lparr>mp_start = t, mp_size = s - t, mp_part_num = 0\<rparr>]\<rparr> else ?g)"
    have "gap_loop use_copy True t (e - t) ?g ((s, n) # us) = gap_loop use_copy False (s + n) (e - (s + n)) g1 us"
      using False by (auto simp: g1_def Let_def)
    moreover obtain t1 g2 where G: "gap_loop use_copy False (s + n) (e - (s + n)) g1 us = (t1, e - t1, g2)" "t1 \<le> e"
        "to_copy_list g2 = to_copy_list g1" "changed_start g2 = changed_start g1" "changed_size g2 = changed_size g1"
        "mp_bytes (to_download_list g2) \<union> {t1..<e} = mp_bytes (to_download_list g1) \<union> ({s + n..<e} - areas_bytes us)"
      using gap_loop_law [OF sn(4), of use_copy g1] by blast
    ultimately have e: "t' = t1" "r = e - t1" "g' = g2" using assms(2) by auto
    have "{t..<e} - areas_bytes ((s, n) # us) = {t..<s} \<union> ({s + n..<e} - areas_bytes us)" using B sn by auto
    moreover have "mp_bytes (to_download_list g1) = mp_bytes dl \<union> {t..<s}" using sn(1) by (auto simp: g1_def)
    ultimately show ?thesis using download G e by (simp add: g1_def Un_assoc)
  qed
qed

subsection \<open>What a piece adds\<close>

text \<open>
  A part as S3 takes it: not more than 5GB, not less than 5MB before the end of the file; and numbered by the
  piece it starts in.
\<close>

definition part_fits :: "int \<Rightarrow> int \<Rightarrow> mp_part \<Rightarrow> bool" where
  "part_fits m f p = (mp_part_num p = mp_start p div m + 1 \<and> 0 \<le> mp_start p \<and> 0 < mp_size p \<and> mp_size p \<le> FIVE_GB \<and>
     (mp_start p + mp_size p < f \<longrightarrow> MIN_MULTIPART_SIZE \<le> mp_size p))"

definition fp_total :: "filepart list \<Rightarrow> int" where
  "fp_total us = sum_list (map fp_size us)"

lemma totals_simps [simp]:
  "total_mp_part_list [] = 0" "total_mp_part_list (p # ps) = mp_size p + total_mp_part_list ps"
  "total_mp_part_list (ps @ qs) = total_mp_part_list ps + total_mp_part_list qs"
  "fp_total [] = 0" "fp_total (u # us) = fp_size u + fp_total us" "fp_total (us @ vs) = fp_total us + fp_total vs"
  by (simp_all add: total_mp_part_list_def fp_total_def)

text \<open>
  The state before the piece at \<open>cs\<close>: the parts so far are exactly the bytes before it; none that is copied,
  downloaded or left is untreated; what is uploaded is untreated, downloaded, or was uploaded before.
\<close>

definition bytes_right :: "int set \<Rightarrow> int \<Rightarrow> extract_state \<Rightarrow> bool" where
  "bytes_right U cs ex =
     (mp_bytes (ex_upload ex) \<union> mp_bytes (ex_copy ex) \<union> fp_bytes (ex_passed ex) = {0..<cs} \<and>
      total_mp_part_list (ex_upload ex) + total_mp_part_list (ex_copy ex) + fp_total (ex_passed ex) = cs \<and>
      mp_bytes (ex_copy ex) \<inter> U = {} \<and> fp_bytes (ex_passed ex) \<inter> U = {} \<and> mp_bytes (ex_download ex) \<inter> U = {} \<and>
      mp_bytes (ex_upload ex) \<subseteq> U \<union> mp_bytes (ex_download ex) \<union> fp_bytes (ex_cancel ex))"

definition ex_ok :: "int \<Rightarrow> int \<Rightarrow> int set \<Rightarrow> int \<Rightarrow> extract_state \<Rightarrow> bool" where
  "ex_ok m f U cs ex =
     (uploads_ok m f cs (ex_rest ex) \<and> parts_ok cs (ex_untreated ex) \<and> parts_bytes (ex_untreated ex) = U \<inter> {cs..} \<and>
      bytes_right U cs ex \<and> (\<forall>p \<in> set (ex_upload ex @ ex_copy ex). part_fits m f p) \<and>
      (ex_wait ex \<longleftrightarrow> (\<exists>u \<in> set (ex_cancel ex). \<not> fp_uploaded u)))"

lemma bytes_right_step:
  assumes "bytes_right U cs ex" and "0 \<le> cs" and "0 \<le> cz"
    and "mp_bytes (ex_upload ex') = mp_bytes (ex_upload ex) \<union> A" and "mp_bytes (ex_copy ex') = mp_bytes (ex_copy ex) \<union> B"
    and "fp_bytes (ex_passed ex') = fp_bytes (ex_passed ex) \<union> C"
    and "mp_bytes (ex_download ex') = mp_bytes (ex_download ex) \<union> D"
    and "fp_bytes (ex_cancel ex') = fp_bytes (ex_cancel ex) \<union> E"
    and "A \<union> B \<union> C = {cs..<cs + cz}" and "(B \<union> C \<union> D) \<inter> U = {}" and "A \<subseteq> U \<union> D \<union> E"
    and "total_mp_part_list (ex_upload ex') + total_mp_part_list (ex_copy ex') + fp_total (ex_passed ex') =
      total_mp_part_list (ex_upload ex) + total_mp_part_list (ex_copy ex) + fp_total (ex_passed ex) + cz"
  shows "bytes_right U (cs + cz) ex'"
proof -
  have b: "mp_bytes (ex_upload ex) \<union> mp_bytes (ex_copy ex) \<union> fp_bytes (ex_passed ex) = {0..<cs}"
    "total_mp_part_list (ex_upload ex) + total_mp_part_list (ex_copy ex) + fp_total (ex_passed ex) = cs"
    "mp_bytes (ex_copy ex) \<inter> U = {}" "fp_bytes (ex_passed ex) \<inter> U = {}" "mp_bytes (ex_download ex) \<inter> U = {}"
    "mp_bytes (ex_upload ex) \<subseteq> U \<union> mp_bytes (ex_download ex) \<union> fp_bytes (ex_cancel ex)"
    using assms(1) unfolding bytes_right_def by blast+
  have "mp_bytes (ex_upload ex') \<union> mp_bytes (ex_copy ex') \<union> fp_bytes (ex_passed ex') = {0..<cs} \<union> {cs..<cs + cz}"
    using assms(4-6,9) b(1) by blast
  moreover have "{0..<cs} \<union> {cs..<cs + cz} = {0..<cs + cz}" using assms(2,3) by auto
  moreover have "mp_bytes (ex_copy ex') \<inter> U = {} \<and> fp_bytes (ex_passed ex') \<inter> U = {} \<and> mp_bytes (ex_download ex') \<inter> U = {}"
    using assms(5-7,10) b(3-5) by (simp add: Int_Un_distrib2)
  moreover have "mp_bytes (ex_upload ex') \<subseteq> U \<union> mp_bytes (ex_download ex') \<union> fp_bytes (ex_cancel ex')"
    using assms(4,7,8,11) b(6) by blast
  ultimately show ?thesis using assms(12) b(2) by (simp add: bytes_right_def)
qed

lemma extract_area_law:
  assumes ok: "ex_ok m f U cs ex" and cs: "cs mod m = 0" "0 \<le> cs" "cs < f" and m: "MIN_MULTIPART_SIZE \<le> m" "m \<le> FIVE_GB"
    and cz: "cz = (if cs + m \<le> f then m else f - cs)"
  shows "\<exists>ex'. extract_area m use_copy cs cz ex = Some ex' \<and> ex_ok m f U (cs + cz) ex' \<and>
    set (ex_cancel ex') \<union> set (ex_passed ex') \<union> set (ex_rest ex') =
    set (ex_cancel ex) \<union> set (ex_passed ex) \<union> set (ex_rest ex)"
proof -
  have m0: "0 < m" using m(1) by (simp add: MIN_MULTIPART_SIZE_def)
  have z: "0 < cz" "cz \<le> m" "cz < m \<longrightarrow> cs + cz = f" "cs + cz \<le> f" using cs cz m0 by (auto split: if_splits)
  have O: "uploads_ok m f cs (ex_rest ex)" "parts_ok cs (ex_untreated ex)" "parts_bytes (ex_untreated ex) = U \<inter> {cs..}"
    "bytes_right U cs ex" "\<forall>p \<in> set (ex_upload ex @ ex_copy ex). part_fits m f p"
    "ex_wait ex \<longleftrightarrow> (\<exists>u \<in> set (ex_cancel ex). \<not> fp_uploaded u)"
    using ok unfolding ex_ok_def by blast+
  obtain cur rest where C: "cut_untreated cs cz (ex_untreated ex) = (cur, rest)" by (rule prod.exhaust)
  have cur: "areas_ok cs (cs + cz) cur" "areas_bytes cur = U \<inter> {cs..<cs + cz}" "parts_ok (cs + cz) rest"
    "parts_bytes rest = U \<inter> {cs + cz..}" "cur = [] \<longleftrightarrow> U \<inter> {cs..<cs + cz} = {}"
  proof -
    have "U \<inter> {cs..} \<inter> {cs..<cs + cz} = U \<inter> {cs..<cs + cz}" "U \<inter> {cs..} \<inter> {cs + cz..} = U \<inter> {cs + cz..}"
      using z(1) by auto
    with cut_untreated_law [OF O(2) z(1), unfolded C prod.case O(3)]
    show "areas_ok cs (cs + cz) cur" "areas_bytes cur = U \<inter> {cs..<cs + cz}" "parts_ok (cs + cz) rest"
      "parts_bytes rest = U \<inter> {cs + cz..}" "cur = [] \<longleftrightarrow> U \<inter> {cs..<cs + cz} = {}" by (simp_all only:)
  qed
  define new where "new = \<lparr>mp_start = cs, mp_size = cz, mp_part_num = cs div m + 1\<rparr>"
  have new: "part_fits m f new" "mp_bytes [new] = {cs..<cs + cz}" "mp_size new = cz"
    using cs z m by (auto simp: new_def part_fits_def)
  have outside: "(A - U) \<inter> U = {}" for A by auto
  show ?thesis
  proof (cases "cur = []")
    case True
    then have U: "{cs..<cs + cz} \<inter> U = {}" using cur(5) by (simp add: Int_commute)
    show ?thesis
    proof (cases rule: uploaded_loop_law [OF O(1) cs(1) m0 z(1-3), where passed = "ex_passed ex", case_names none one])
      case none
      let ?ex = "(if use_copy then ex\<lparr>ex_untreated := rest, ex_copy := ex_copy ex @ [new]\<rparr>
        else ex\<lparr>ex_untreated := rest, ex_download := ex_download ex @ [new\<lparr>mp_part_num := 0\<rparr>], ex_upload := ex_upload ex @ [new]\<rparr>)"
      have "extract_area m use_copy cs cz ex = Some ?ex"
        using C none(2) True by (simp add: extract_area_def new_def)
      moreover have "bytes_right U (cs + cz) ?ex"
        using bytes_right_step [OF O(4) cs(2), of cz ?ex "if use_copy then {} else {cs..<cs + cz}"
            "if use_copy then {cs..<cs + cz} else {}" "{}" "if use_copy then {} else {cs..<cs + cz}" "{}"] z U new
        by (auto simp: new_def)
      moreover have "uploads_ok m f (cs + cz) (ex_rest ex)" using none(1) z by (auto intro: uploads_weaken)
      ultimately show ?thesis using cur(3,4) O(5,6) new(1) by (intro exI [of _ ?ex]) (simp add: ex_ok_def)
    next
      case (one u us')
      let ?ex = "ex\<lparr>ex_untreated := rest, ex_passed := ex_passed ex @ [u], ex_rest := us'\<rparr>"
      have "extract_area m use_copy cs cz ex = Some ?ex"
        using C one(6) True by (simp add: extract_area_def)
      moreover have "bytes_right U (cs + cz) ?ex"
        using bytes_right_step [OF O(4) cs(2), of cz ?ex "{}" "{}" "{cs..<cs + cz}" "{}" "{}"] z U one by auto
      ultimately show ?thesis using cur(3,4) O(5,6) one by (intro exI [of _ ?ex]) (simp add: ex_ok_def)
    qed
  next
    case False
    show ?thesis
    proof (cases rule: uploaded_loop_law [OF O(1) cs(1) m0 z(1-3), where passed = "ex_passed ex", case_names none one])
      case (one u us')
      let ?ex = "ex\<lparr>ex_untreated := rest, ex_rest := us', ex_wait := (if \<not> fp_uploaded u then True else ex_wait ex),
        ex_cancel := ex_cancel ex @ [u], ex_upload := ex_upload ex @ [new]\<rparr>"
      have "extract_area m use_copy cs cz ex = Some ?ex"
        using C one(6) False by (simp add: extract_area_def new_def)
      moreover have "bytes_right U (cs + cz) ?ex"
        using bytes_right_step [OF O(4) cs(2), of cz ?ex "{cs..<cs + cz}" "{}" "{}" "{}" "{cs..<cs + cz}"] z one new
        by auto
      ultimately show ?thesis using cur(3,4) O(5,6) one new(1) by (intro exI [of _ ?ex]) (auto simp: ex_ok_def)
    next
      case none
      obtain s n us where us: "cur = (s, n) # us" using False by (cases cur) auto
      let ?g = "\<lparr>to_copy_list = ex_copy ex, to_download_list = ex_download ex, changed_start = cs, changed_size = cz\<rparr>"
      obtain t' r g' where G: "gap_loop use_copy True cs cz ?g cur = (t', r, g')" by (rule prod_cases3)
      let ?ds = "if 0 < r then [\<lparr>mp_start = t', mp_size = r, mp_part_num = 0\<rparr>] else []"
      let ?new = "\<lparr>mp_start = changed_start g', mp_size = changed_size g', mp_part_num = cs div m + 1\<rparr>"
      let ?ex = "ex\<lparr>ex_untreated := rest, ex_copy := to_copy_list g', ex_download := to_download_list g' @ ?ds,
        ex_upload := ex_upload ex @ [?new]\<rparr>"
      have E: "extract_area m use_copy cs cz ex = Some ?ex"
        using C none(2) False G by (simp add: extract_area_def)
      have s: "cs \<le> s" "s < cs + cz" "s \<in> U" using cur(1,2) us by auto
      have "areas_ok cs (cs + cz) ((s, n) # us)"
        "gap_loop use_copy True cs (cs + cz - cs) \<lparr>to_copy_list = ex_copy ex, to_download_list = ex_download ex,
          changed_start = cs, changed_size = cs + cz - cs\<rparr> ((s, n) # us) = (t', r, g')"
        using cur(1) G us by simp_all
      then show ?thesis
      proof (cases rule: gap_loop_first)
        case download
        have "mp_bytes ?ds = {t'..<cs + cz}" using download(4,5) by auto
        then have D: "mp_bytes (ex_download ?ex) = mp_bytes (ex_download ex) \<union> ({cs..<cs + cz} - U)"
          using download(6) cur(2) us by auto
        have "bytes_right U (cs + cz) ?ex"
          using bytes_right_step [OF O(4) cs(2) _ _ _ _ D, of cz "{cs..<cs + cz}" "{}" "{}" "{}"] z download(1-3)
          by (auto simp: outside)
        moreover have "?new = new" using download by (simp add: new_def)
        moreover have "uploads_ok m f (cs + cz) (ex_rest ex)" using none(1) z by (auto intro: uploads_weaken)
        ultimately show ?thesis using E cur(3,4) O(5,6) new(1) download(1) by (intro exI [of _ ?ex]) (simp add: ex_ok_def)
      next
        case (copy ini c)
        let ?c = "c\<lparr>mp_size := mp_size c + (s - cs)\<rparr>"
        have "mp_bytes ?ds = {t'..<cs + cz}" using copy(9,10) by auto
        then have D: "mp_bytes (ex_download ?ex) = mp_bytes (ex_download ex) \<union> ({s..<cs + cz} - U)"
          using copy(11) cur(2) us s(1) by auto
        have c: "part_fits m f c" using O(5) copy(1) by simp
        have "{cs..<s} \<inter> areas_bytes cur = {}" using cur(1) us areas_bounds [of "s + n" "cs + cz" us] by auto
        then have free: "{cs..<s} \<inter> U = {}" using cur(2) s by auto
        have B: "mp_bytes (ex_copy ?ex) = mp_bytes (ex_copy ex) \<union> {cs..<s}"
          using copy(1,2,5,6) c by (auto simp: part_fits_def)
        have A: "mp_bytes (ex_upload ?ex) = mp_bytes (ex_upload ex) \<union> {s..<cs + cz}" using copy(7,8) by auto
        have "bytes_right U (cs + cz) ?ex"
          using bytes_right_step [OF O(4) cs(2) _ A B _ D, of cz "{}" "{}"] z s copy(1,5,6,8) free
          by (auto simp: outside Int_Un_distrib2 ivl_disj_un_two(3) Un_commute [of "{s..<cs + cz}"])
        moreover have "part_fits m f ?c"
          using c copy(2,3,5) cs(3) by (auto simp: part_fits_def)
        moreover have "s div m = cs div m"
        proof -
          have "cs = cs div m * m" using cs(1) by (simp add: mod_eq_0_iff_dvd)
          moreover have "(cs div m * m + (s - cs)) div m = cs div m"
            using s z(2) m0 by (simp add: div_pos_pos_trivial)
          ultimately show ?thesis by simp
        qed
        then have "part_fits m f ?new"
          using copy(4,5,7,8) cs(2) s z m by (auto simp: part_fits_def)
        moreover have "uploads_ok m f (cs + cz) (ex_rest ex)" using none(1) z by (auto intro: uploads_weaken)
        ultimately show ?thesis
          using E cur(3,4) O(5,6) copy(1,6) by (intro exI [of _ ?ex]) (simp add: ex_ok_def)
      qed
    qed
  qed
qed

subsection \<open>The whole file\<close>

lemma extract_loop_law:
  assumes "0 \<le> cs" and "cs mod m = 0 \<or> cs = f" and "cs \<le> f" and "MIN_MULTIPART_SIZE \<le> m" and "m \<le> FIVE_GB"
    and "ex_ok m f U cs ex"
  shows "\<exists>ex'. extract_loop m f use_copy cs ex = Some (True, ex') \<and> ex_ok m f U f ex' \<and>
    set (ex_cancel ex') \<union> set (ex_passed ex') \<union> set (ex_rest ex') =
    set (ex_cancel ex) \<union> set (ex_passed ex) \<union> set (ex_rest ex)"
  using assms
proof (induction "nat (f - cs)" arbitrary: cs ex rule: less_induct)
  case less
  have m0: "0 < m" using less.prems(4) by (simp add: MIN_MULTIPART_SIZE_def)
  show ?case
  proof (cases "cs < f")
    case False
    then have "cs = f" using less.prems(3) by simp
    then show ?thesis using less.prems(6) by (subst extract_loop.simps) simp
  next
    case True
    define cz where "cz = (if cs + m \<le> f then m else f - cs)"
    have z: "0 < cz" "cs + cz \<le> f" "(cs + cz) mod m = 0 \<or> cs + cz = f"
      using True m0 less.prems(2) by (auto simp: cz_def)
    obtain ex1 where E: "extract_area m use_copy cs cz ex = Some ex1" "ex_ok m f U (cs + cz) ex1"
      "set (ex_cancel ex1) \<union> set (ex_passed ex1) \<union> set (ex_rest ex1) =
       set (ex_cancel ex) \<union> set (ex_passed ex) \<union> set (ex_rest ex)"
    proof -
      have "cs mod m = 0" using less.prems(2) True by auto
      from extract_area_law [OF less.prems(6) this less.prems(1) True less.prems(4,5) cz_def, of use_copy]
      show ?thesis using that by blast
    qed
    have "nat (f - (cs + cz)) < nat (f - cs)" using z(1) True by simp
    from less.hyps [OF this _ z(3,2) less.prems(4,5) E(2)] less.prems(1) z(1)
    obtain ex2 where "extract_loop m f use_copy (cs + cz) ex1 = Some (True, ex2)" "ex_ok m f U f ex2"
      "set (ex_cancel ex2) \<union> set (ex_passed ex2) \<union> set (ex_rest ex2) =
       set (ex_cancel ex1) \<union> set (ex_passed ex1) \<union> set (ex_rest ex1)" by auto
    moreover have "extract_loop m f use_copy cs ex = extract_loop m f use_copy (cs + cz) ex1"
      using True E(1) by (subst extract_loop.simps) (simp add: cz_def [symmetric])
    ultimately show ?thesis using E(3) by auto
  qed
qed

lemma uploads_ok_end: "uploads_ok m f f us \<Longrightarrow> 0 < m \<Longrightarrow> us = []"
  by (cases us) auto

text \<open>
  C27: the flush of a file that was uploaded in part splits it exactly.  The parts to upload, those to copy and
  those left as uploaded are together the bytes of the file and add up to its size; no copied, downloaded or left
  byte was written since; an uploaded byte was written, is downloaded first, or was uploaded from the local file
  before; the parts have the sizes S3 takes and the numbers of their pieces; and the caller waits just when a
  part that is overwritten is still being uploaded.
\<close>
theorem ExtractUploadPartsFromAllArea_splits:
  assumes "untreated_ok ut" and "uploads_ok max_mp_size file_size 0 (upload_list info)" and "0 \<le> file_size"
    and "MIN_MULTIPART_SIZE \<le> max_mp_size" and "max_mp_size \<le> FIVE_GB"
  shows "\<exists>ex info'. ExtractUploadPartsFromAllArea ut max_mp_size file_size use_copy info = Some (True, ex, info') \<and>
    mp_bytes (ex_upload ex) \<union> mp_bytes (ex_copy ex) \<union> fp_bytes (upload_list info') = {0..<file_size} \<and>
    total_mp_part_list (ex_upload ex) + total_mp_part_list (ex_copy ex) + fp_total (upload_list info') = file_size \<and>
    (mp_bytes (ex_copy ex) \<union> mp_bytes (ex_download ex) \<union> fp_bytes (upload_list info')) \<inter> untreated_bytes ut = {} \<and>
    mp_bytes (ex_upload ex) \<subseteq> untreated_bytes ut \<union> mp_bytes (ex_download ex) \<union> fp_bytes (ex_cancel ex) \<and>
    set (ex_cancel ex) \<union> set (upload_list info') = set (upload_list info) \<and>
    (\<forall>p \<in> set (ex_upload ex @ ex_copy ex). part_fits max_mp_size file_size p) \<and>
    (ex_wait ex \<longleftrightarrow> (\<exists>u \<in> set (ex_cancel ex). \<not> fp_uploaded u))"
proof -
  let ?ex = "\<lparr>ex_upload = [], ex_copy = [], ex_download = [], ex_cancel = [], ex_wait = False, ex_passed = [],
    ex_rest = upload_list info, ex_untreated = UT_Duplicate ut\<rparr>"
  have "untreated_bytes ut = untreated_bytes ut \<inter> {0..}"
    using assms(1) parts_lower [of 0 "untreated_list ut"] by (auto simp: untreated_bytes_def untreated_ok_def)
  then have "ex_ok max_mp_size file_size (untreated_bytes ut) 0 ?ex"
    using assms(1,2) by (simp add: ex_ok_def bytes_right_def UT_Duplicate_def untreated_ok_def untreated_bytes_def)
  from extract_loop_law [OF _ _ assms(3-5) this, of use_copy] obtain ex where
    L: "extract_loop max_mp_size file_size use_copy 0 ?ex = Some (True, ex)"
      "ex_ok max_mp_size file_size (untreated_bytes ut) file_size ex"
      "set (ex_cancel ex) \<union> set (ex_passed ex) \<union> set (ex_rest ex) = set (upload_list info)" by auto
  have ok: "uploads_ok max_mp_size file_size file_size (ex_rest ex)" "bytes_right (untreated_bytes ut) file_size ex"
    "\<forall>p \<in> set (ex_upload ex @ ex_copy ex). part_fits max_mp_size file_size p"
    "ex_wait ex \<longleftrightarrow> (\<exists>u \<in> set (ex_cancel ex). \<not> fp_uploaded u)"
    using L(2) unfolding ex_ok_def by blast+
  have "0 < max_mp_size" using assms(4) by (simp add: MIN_MULTIPART_SIZE_def)
  from uploads_ok_end [OF ok(1) this] have rest: "ex_rest ex = []" .
  let ?info = "info\<lparr>upload_list := ex_passed ex\<rparr>"
  have "ExtractUploadPartsFromAllArea ut max_mp_size file_size use_copy info = Some (True, ex, ?info)"
    using L(1) rest by (simp add: ExtractUploadPartsFromAllArea_def)
  moreover have "(mp_bytes (ex_copy ex) \<union> mp_bytes (ex_download ex) \<union> fp_bytes (ex_passed ex)) \<inter> untreated_bytes ut = {}"
    using ok(2) by (simp add: bytes_right_def Int_Un_distrib2)
  ultimately show ?thesis
    using ok(2-4) L(3) rest by (intro exI [of _ ex] exI [of _ ?info]) (simp add: bytes_right_def)
qed

definition demo_info :: "(int \<times> int) list \<Rightarrow> PseudoFdInfo" where
  "demo_info us = (fst (PseudoFdInfo_new 3 2 []))\<lparr>upload_id := ''id'',
     upload_list := map (\<lambda>(s, n). filepart False 3 s n False None) us\<rparr>"

theorem ExtractUploadPartsFromAllArea_splits_witness:
  "\<exists>ex info'. ExtractUploadPartsFromAllArea \<lparr>untreated_list = [\<lparr>up_start = 12000000, up_size = 5000000, up_tag = 1\<rparr>],
      last_tag = 1\<rparr> 10000000 45000000 True (demo_info [(0, 10000000), (10000000, 10000000)]) = Some (True, ex, info') \<and>
    mp_bytes (ex_upload ex) \<union> mp_bytes (ex_copy ex) \<union> fp_bytes (upload_list info') = {0..<45000000}"
  using ExtractUploadPartsFromAllArea_splits [where max_mp_size = 10000000 and file_size = 45000000 and use_copy = True
      and ut = "\<lparr>untreated_list = [\<lparr>up_start = 12000000, up_size = 5000000, up_tag = 1\<rparr>], last_tag = 1\<rparr>"
      and info = "demo_info [(0, 10000000), (10000000, 10000000)]"]
  by (auto simp: untreated_ok_def demo_info_def filepart_def MIN_MULTIPART_SIZE_def FIVE_GB_def)

end
