(* ===== verification/Fd_Boundary.thy ===== *)
theory Fd_Boundary
  imports Fd_Extract
begin

section \<open>Uploading whole parts while a file is written (\<^verbatim>\<open>PseudoFdInfo::UploadBoundaryLastUntreatedArea\<close>)\<close>

text \<open>
  After a write, the part of the area just written that fills whole pieces is given to the threads.  The theorem
  says that what the threads get and what stays untreated are together what was untreated, that the untreated list
  keeps its order, and that the list of uploaded parts stays what the flush of \<open>Fd_Extract\<close> needs.
\<close>

subsection \<open>\<^verbatim>\<open>FdEntity::ReplaceLastUpdateUntreatedPart\<close>\<close>

definition ReplaceLastUpdateUntreatedPart :: "int \<Rightarrow> int \<Rightarrow> int \<Rightarrow> int \<Rightarrow> UntreatedParts \<Rightarrow> bool \<times> UntreatedParts" where
  "ReplaceLastUpdateUntreatedPart front_start front_size behind_start behind_size ut =
     (case if 0 < front_size then UT_ReplaceLastUpdatePart front_start front_size ut else UT_RemoveLastUpdatePart ut of
        (ok, ut) \<Rightarrow>
          if \<not> ok then (False, ut)
          else if 0 < behind_size then UT_AddPart behind_start behind_size ut
          else (True, ut))"

subsection \<open>The method\<close>

text \<open>
  \<open>pre\<close> is the answer of S3 to the start of a multipart upload, a result and an identifier.  The file is open, the
  path and the entity are given.  The result 0 also says that there was nothing to do.
\<close>

definition UploadBoundaryLastUntreatedArea ::
    "(int \<Rightarrow> int option) \<Rightarrow> int \<times> string \<Rightarrow> int \<Rightarrow> string \<Rightarrow> PseudoFdInfo \<Rightarrow> UntreatedParts \<Rightarrow> thpool \<Rightarrow>
     (int \<times> PseudoFdInfo \<times> UntreatedParts \<times> thpool) option" where
  "UploadBoundaryLastUntreatedArea dup_fd pre max_mp_size path info ut pool =
     (if physical_fd info = -1 \<or> pseudo_fd info = -1 then Some (- EBADF, info, ut, pool)
      else (case UT_GetLastUpdatePart ut of
        None \<Rightarrow> Some (0, info, ut, pool)
      | Some (last_untreated_start, last_untreated_size) \<Rightarrow>
          if last_untreated_start < 0 \<or> last_untreated_size \<le> 0 then Some (0, info, ut, pool)
          else (let aligned_start = (last_untreated_start div max_mp_size +
                      (if 0 < last_untreated_start mod max_mp_size then 1 else 0)) * max_mp_size
                in if last_untreated_start + last_untreated_size \<le> aligned_start then Some (0, info, ut, pool)
                   else (let aligned_size =
                           (last_untreated_start + last_untreated_size - aligned_start) div max_mp_size * max_mp_size
                         in if aligned_size = 0 then Some (0, info, ut, pool)
                            else Option.bind
                              (ExtractUploadPartsFromUntreatedArea aligned_start aligned_size max_mp_size (upload_list info))
                              (\<lambda>(ok, to_upload, cancelled, kept).
                                let info = info\<lparr>upload_list := kept\<rparr>
                                in if \<not> ok then Some (- EIO, info, ut, pool)
                                   else if to_upload = [] then Some (0, info, ut, pool)
                                   else (case if IsUploading info then (0, True, info)
                                              else if fst pre \<noteq> 0 then (fst pre, True, info)
                                              else (case RowInitialUploadInfo id (snd pre) False True info of
                                                      (ok, info) \<Rightarrow> (0, ok, info)) of (r, ok, info) \<Rightarrow>
                                     if r \<noteq> 0 \<or> \<not> ok then Some (r, info, ut, pool)
                                     else (case ParallelMultipartUpload dup_fd path to_upload False info pool of
                                             (ok, info, pool) \<Rightarrow>
                                       if \<not> ok then Some (- EIO, info, ut, pool)
                                       else (let behind_start = aligned_start + aligned_size;
                                                 behind_size = last_untreated_start + last_untreated_size - behind_start
                                             in Some (0, info, snd (ReplaceLastUpdateUntreatedPart last_untreated_start
                                                  (aligned_start - last_untreated_start) behind_start behind_size ut), pool)))))))))"

subsection \<open>The untreated list\<close>

lemma replace_loop_law:
  assumes "parts_ok lo ps" and "find (\<lambda>p. up_tag p = tag) ps = Some p"
    and "up_start p \<le> a" and "a < b" and "b \<le> up_start p + up_size p"
    and "k = (if up_start p < a then snd (replace_loop (up_start p) (a - up_start p) tag ps) else snd (remove_loop tag ps))"
  shows "parts_ok lo k \<and> parts_bytes k = parts_bytes ps - {a..<up_start p + up_size p} \<and>
    fst (replace_loop (up_start p) (a - up_start p) tag ps) \<and> fst (remove_loop tag ps)"
  using assms(1,2,6)
proof (induction ps arbitrary: lo k)
  case (Cons q qs)
  have q: "lo \<le> up_start q" "0 < up_size q" "parts_ok (up_start q + up_size q + 1) qs" using Cons.prems(1) by auto
  have low: "\<And>i. i \<in> parts_bytes qs \<Longrightarrow> up_start q + up_size q + 1 \<le> i" using parts_lower [OF q(3)] .
  show ?case
  proof (cases "up_tag q = tag")
    case True
    then have p: "p = q" using Cons.prems(2) by simp
    have rest: "parts_bytes qs - {a..<up_start p + up_size p} = parts_bytes qs" using low p by fastforce
    show ?thesis
    proof (cases "up_start p < a")
      case True
      then have k: "k = q\<lparr>up_start := up_start p, up_size := a - up_start p\<rparr> # qs" using Cons.prems(3) \<open>up_tag q = tag\<close> by simp
      have "parts_ok (a + 1) qs" using q(3) assms(4,5) p by (auto intro: parts_ok_weaken)
      moreover have "{up_start q..<up_start q + up_size q} - {a..<up_start p + up_size p} = {up_start q..<a}"
        using p assms(3-5) by auto
      ultimately show ?thesis using k q p rest True \<open>up_tag q = tag\<close> by (simp add: Un_Diff)
    next
      case False
      then have "k = qs" using Cons.prems(3) \<open>up_tag q = tag\<close> by simp
      moreover have "{up_start q..<up_start q + up_size q} \<subseteq> {a..<up_start p + up_size p}"
        using p assms(3) False by auto
      then have "parts_bytes (q # qs) - {a..<up_start p + up_size p} = parts_bytes qs - {a..<up_start p + up_size p}"
        by auto
      moreover have "parts_ok lo qs" using q by (auto intro: parts_ok_weaken)
      ultimately show ?thesis using rest \<open>up_tag q = tag\<close> by (simp del: parts_bytes_simps)
    qed
  next
    case False
    define k' where "k' = (if up_start p < a then snd (replace_loop (up_start p) (a - up_start p) tag qs)
      else snd (remove_loop tag qs))"
    have f: "find (\<lambda>p. up_tag p = tag) qs = Some p" using Cons.prems(2) False by simp
    then have "p \<in> set qs" by (auto simp: find_Some_iff)
    then have "up_start p \<in> parts_bytes qs" using assms(3-5) by (auto simp: parts_bytes_def intro!: bexI [of _ p])
    then have "up_start q + up_size q + 1 \<le> up_start p" using low by blast
    then have "{up_start q..<up_start q + up_size q} - {a..<up_start p + up_size p} = {up_start q..<up_start q + up_size q}"
      using assms(3) by auto
    moreover have "k = q # k'" using Cons.prems(3) False by (simp add: k'_def split: prod.splits)
    moreover note Cons.IH [OF q(3) f k'_def]
    ultimately show ?thesis using q False by (auto simp: Un_Diff split: prod.splits)
  qed
qed simp

lemma ReplaceLast_law:
  assumes "untreated_ok ut" and "UT_GetLastUpdatePart ut = Some (s, n)" and "s \<le> a" and "a < b" and "b \<le> s + n"
  shows "untreated_ok (snd (ReplaceLastUpdateUntreatedPart s (a - s) b (s + n - b) ut)) \<and>
    untreated_bytes (snd (ReplaceLastUpdateUntreatedPart s (a - s) b (s + n - b) ut)) = untreated_bytes ut - {a..<b} \<and>
    {a..<b} \<subseteq> untreated_bytes ut"
proof -
  obtain p where p: "find (\<lambda>p. up_tag p = last_tag ut) (untreated_list ut) = Some p" "s = up_start p" "n = up_size p"
    using assms(2) by (auto simp: UT_GetLastUpdatePart_def)
  define k where "k = (if up_start p < a then snd (replace_loop (up_start p) (a - up_start p) (last_tag ut) (untreated_list ut))
    else snd (remove_loop (last_tag ut) (untreated_list ut)))"
  have L: "parts_ok 0 k" "parts_bytes k = untreated_bytes ut - {a..<s + n}"
    "fst (replace_loop (up_start p) (a - up_start p) (last_tag ut) (untreated_list ut))"
    "fst (remove_loop (last_tag ut) (untreated_list ut))"
    using replace_loop_law [OF _ p(1) _ assms(4) _ k_def] assms(1,3,5) p(2,3)
    by (auto simp: untreated_ok_def untreated_bytes_def)
  have "p \<in> set (untreated_list ut)" using p(1) by (auto simp: find_Some_iff)
  then have sub: "{s..<s + n} \<subseteq> untreated_bytes ut" using p by (auto simp: untreated_bytes_def parts_bytes_def)
  define ut1 where "ut1 = ut\<lparr>untreated_list := k\<rparr>"
  have ut1: "untreated_ok ut1" "untreated_bytes ut1 = untreated_bytes ut - {a..<s + n}"
    using L by (simp_all add: ut1_def untreated_ok_def untreated_bytes_def)
  have first: "(if 0 < a - s then UT_ReplaceLastUpdatePart s (a - s) ut else UT_RemoveLastUpdatePart ut) = (True, ut1)"
    using L(3,4) p(2,3)
    by (auto simp: UT_ReplaceLastUpdatePart_def UT_RemoveLastUpdatePart_def ut1_def k_def split: prod.splits)
  have s0: "0 \<le> s"
  proof -
    have "s \<in> untreated_bytes ut" using sub assms(3-5) by auto
    then show ?thesis
      using parts_lower [of 0 "untreated_list ut" s] assms(1) by (simp add: untreated_ok_def untreated_bytes_def)
  qed
  show ?thesis
  proof (cases "b < s + n")
    case True
    obtain r ut2 where r: "UT_AddPart b (s + n - b) ut1 = (r, ut2)" by (rule prod.exhaust)
    have A: "untreated_ok ut2" "untreated_bytes ut2 = untreated_bytes ut1 \<union> {b..<s + n}"
      using AddPart_law [OF ut1(1) _ _ r] True assms(3,4) s0 by simp_all
    have "ReplaceLastUpdateUntreatedPart s (a - s) b (s + n - b) ut = (r, ut2)"
      unfolding ReplaceLastUpdateUntreatedPart_def first using True r by simp
    moreover have "(untreated_bytes ut - {a..<s + n}) \<union> {b..<s + n} = untreated_bytes ut - {a..<b}"
      using sub assms(3,4) True by auto
    ultimately show ?thesis using A ut1(2) sub assms(3,5) by auto
  next
    case False
    then have "b = s + n" using assms(5) by simp
    moreover have "ReplaceLastUpdateUntreatedPart s (a - s) b (s + n - b) ut = (True, ut1)"
      unfolding ReplaceLastUpdateUntreatedPart_def first using False by simp
    ultimately show ?thesis using ut1 sub assms(3) by auto
  qed
qed

subsection \<open>The list of uploaded parts\<close>

text \<open>
  What the methods keep of an upload: whole pieces of the file in the order of their places, each with an entity
  that has the number of its piece; none before an upload has started.
\<close>

definition piece_ok :: "int \<Rightarrow> int \<Rightarrow> etagpair list \<Rightarrow> filepart \<Rightarrow> bool" where
  "piece_ok m f ents u = (0 \<le> fp_startpos u \<and> fp_startpos u mod m = 0 \<and> fp_size u = m \<and> fp_startpos u + m \<le> f \<and>
     (\<exists>i. fp_petag u = Some i \<and> i < length ents \<and> ep_part_num (ents ! i) = fp_startpos u div m + 1))"

definition upload_ok :: "int \<Rightarrow> int \<Rightarrow> PseudoFdInfo \<Rightarrow> bool" where
  "upload_ok m f info =
     ((\<forall>u \<in> set (upload_list info). piece_ok m f (etag_entities info) u) \<and>
      sorted_wrt (<) (map fp_startpos (upload_list info)) \<and> (\<not> IsUploading info \<longrightarrow> upload_list info = []))"

lemma upload_ok_uploads_ok:
  assumes "sorted_wrt (<) (map fp_startpos us)" and "\<forall>u \<in> set us. piece_ok m f ents u \<and> lo \<le> fp_startpos u" and "0 < m"
  shows "uploads_ok m f lo us"
  using assms(1,2)
proof (induction us arbitrary: lo)
  case (Cons u us)
  have u: "lo \<le> fp_startpos u" "fp_startpos u mod m = 0" "fp_size u = m" "fp_startpos u + m \<le> f"
    using Cons.prems(2) by (auto simp: piece_ok_def)
  have "fp_startpos u + m \<le> fp_startpos v" if v: "v \<in> set us" for v
  proof -
    have "fp_startpos u < fp_startpos v" "fp_startpos v mod m = 0"
      using Cons.prems v by (auto simp: piece_ok_def)
    then have "0 < fp_startpos v - fp_startpos u" "m dvd fp_startpos v - fp_startpos u"
      using u(2) by (simp_all add: mod_eq_0_iff_dvd)
    then have "m \<le> fp_startpos v - fp_startpos u" using zdvd_imp_le by blast
    then show ?thesis by simp
  qed
  then have "uploads_ok m f (fp_startpos u + m) us" using Cons.IH Cons.prems by simp
  then show ?case using u by simp
qed simp

lemma cancel_loop_law:
  assumes "\<forall>u \<in> set us. piece_ok m f ents u" and "a mod m = 0" and "0 < m" and "n mod m = 0" and "0 < n"
  shows "cancel_loop a n us = (n, filter (\<lambda>u. \<not> (a \<le> fp_startpos u \<and> fp_startpos u < a + n)) us,
    filter (\<lambda>u. a \<le> fp_startpos u \<and> fp_startpos u < a + n) us)"
  using assms(1)
proof (induction us)
  case (Cons u us)
  have u: "fp_startpos u mod m = 0" "fp_size u = m" using Cons.prems by (auto simp: piece_ok_def)
  have d: "m dvd a - fp_startpos u" "m dvd (a + n) - fp_startpos u"
    using u(1) assms(2,4) by (simp_all add: mod_eq_0_iff_dvd)
  have "fp_startpos u + m \<le> a" if "fp_startpos u < a" using zdvd_imp_le [OF d(1)] that by simp
  moreover have "fp_startpos u + m \<le> a + n" if "fp_startpos u < a + n" using zdvd_imp_le [OF d(2)] that by simp
  ultimately have "fp_startpos u + fp_size u - 1 < a \<or> a + n - 1 < fp_startpos u \<longleftrightarrow>
      \<not> (a \<le> fp_startpos u \<and> fp_startpos u < a + n)"
    "a \<le> fp_startpos u \<and> fp_startpos u < a + n \<Longrightarrow> \<not> a + n - 1 < fp_startpos u + fp_size u - 1"
    using u(2) assms(3) by linarith+
  then show ?case using Cons.IH Cons.prems by (auto simp: Let_def)
qed simp

definition pieces :: "int \<Rightarrow> int \<Rightarrow> nat \<Rightarrow> mp_part list" where
  "pieces m a k = map (\<lambda>i. \<lparr>mp_start = a + int i * m, mp_size = m, mp_part_num = a div m + 1 + int i\<rparr>) [0..<k]"

lemma pieces_Suc:
  assumes "0 < m"
  shows "pieces m a (Suc k) = \<lparr>mp_start = a, mp_size = m, mp_part_num = a div m + 1\<rparr> # pieces m (a + m) k"
proof -
  have "[0..<Suc k] = 0 # map Suc [0..<k]" by (simp add: upt_conv_Cons map_Suc_upt del: upt_Suc)
  moreover have "(a + m) div m = a div m + 1" using assms by (intro div_add_self2) simp
  ultimately show ?thesis by (simp add: pieces_def algebra_simps del: upt_Suc)
qed

lemma mp_bytes_pieces:
  assumes "0 < m"
  shows "mp_bytes (pieces m a k) = {a..<a + int k * m}"
proof (induction k arbitrary: a)
  case 0
  then show ?case by (simp add: pieces_def)
next
  case (Suc k)
  have "0 \<le> int k * m" using assms by simp
  moreover have e: "a + int (Suc k) * m = a + m + int k * m" by (simp add: algebra_simps)
  ultimately have "{a..<a + m} \<union> {a + m..<a + m + int k * m} = {a..<a + int (Suc k) * m}"
    unfolding e using assms ivl_disj_un_two(3) [of a "a + m" "a + m + int k * m"] by simp
  then show ?case using Suc assms by (simp add: pieces_Suc)
qed

lemma part_loop_law:
  assumes "0 < m"
  shows "part_loop m a (int k * m) = Some (pieces m a k)"
proof (induction k arbitrary: a)
  case 0
  then show ?case using assms by (subst part_loop.simps) (simp add: pieces_def)
next
  case (Suc k)
  have "int (Suc k) * m - m = int k * m" "m \<le> int (Suc k) * m" using assms by (simp_all add: algebra_simps)
  then show ?case using Suc.IH [of "a + m"] assms by (subst part_loop.simps) (simp add: pieces_Suc)
qed

subsection \<open>Giving the pieces to the threads\<close>

lemma InsertUploadPart_law:
  assumes "upload_ok m f info" and "IsUploading info" and "0 < m"
    and "0 \<le> mp_start p" and "mp_start p mod m = 0" and "mp_size p = m" and "mp_start p + m \<le> f"
    and "mp_part_num p = mp_start p div m + 1" and "mp_start p \<notin> fp_startpos ` set (upload_list info)"
  obtains i info' where
    "InsertUploadPart (mp_start p) (mp_size p) (mp_part_num p) is_copy info = (Some i, info')"
    "upload_ok m f info'" "IsUploading info'" "instruct_count info' = instruct_count info"
    "fp_bytes (upload_list info') = fp_bytes (upload_list info) \<union> {mp_start p..<mp_start p + m}"
    "fp_startpos ` set (upload_list info') = insert (mp_start p) (fp_startpos ` set (upload_list info))"
proof -
  define ents where "ents = etag_entities info @ [\<lparr>ep_etag = [], ep_part_num = mp_part_num p\<rparr>]"
  define u where "u = filepart False (physical_fd info) (mp_start p) m is_copy (Some (length (etag_entities info)))"
  define us where "us = sort_key (get_part_number ents) (upload_list info @ [u])"
  define info' where "info' = info\<lparr>etag_entities := ents, upload_list := us\<rparr>"
  have set_us: "set us = insert u (set (upload_list info))" by (simp add: us_def)
  have "0 \<le> mp_part_num p" using assms(3,4,8) by (simp add: pos_imp_zdiv_nonneg_iff)
  then have step: "InsertUploadPart (mp_start p) (mp_size p) (mp_part_num p) is_copy info =
      (Some (length (etag_entities info)), info')"
    using assms(2-4,6) by (simp add: InsertUploadPart_def info'_def us_def u_def ents_def Let_def)
  have piece: "\<forall>v \<in> set us. piece_ok m f ents v"
  proof
    fix v assume "v \<in> set us"
    then consider "v = u" | "v \<in> set (upload_list info)" using set_us by auto
    then show "piece_ok m f ents v"
    proof cases
      case 1
      then show ?thesis using assms(4,5,7,8) by (simp add: piece_ok_def u_def filepart_def ents_def)
    next
      case 2
      then have "piece_ok m f (etag_entities info) v" using assms(1) by (simp add: upload_ok_def)
      then show ?thesis by (auto simp: piece_ok_def ents_def nth_append)
    qed
  qed
  have start: "fp_startpos v = (get_part_number ents v - 1) * m" if v: "v \<in> set us" for v
  proof -
    have "piece_ok m f ents v" using piece v by blast
    then have "get_part_number ents v = fp_startpos v div m + 1" "fp_startpos v mod m = 0"
      by (auto simp: piece_ok_def get_part_number_def)
    then show ?thesis by (simp add: mod_eq_0_iff_dvd)
  qed
  have "distinct (map fp_startpos (upload_list info))"
    using assms(1) strict_sorted_iff by (auto simp: upload_ok_def)
  moreover have "fp_startpos u = mp_start p" by (simp add: u_def filepart_def)
  ultimately have "distinct (map fp_startpos (upload_list info @ [u]))" using assms(9) by simp
  then have "distinct (upload_list info @ [u])" "inj_on fp_startpos (set (upload_list info @ [u]))"
    unfolding distinct_map by blast+
  moreover have "set (upload_list info @ [u]) = set us" by (simp add: us_def)
  ultimately have "distinct (map fp_startpos us)" unfolding distinct_map by (simp add: us_def)
  moreover have "sorted (map fp_startpos us)"
  proof -
    have "sorted_wrt (\<lambda>v w. get_part_number ents v \<le> get_part_number ents w) us"
      using sorted_sort_key [of "get_part_number ents"] by (simp add: us_def sorted_map)
    then have "sorted_wrt (\<lambda>v w. fp_startpos v \<le> fp_startpos w) us"
    proof (rule sorted_wrt_mono_rel [rotated])
      fix v w assume "v \<in> set us" "w \<in> set us" "get_part_number ents v \<le> get_part_number ents w"
      then show "fp_startpos v \<le> fp_startpos w"
        unfolding start [OF \<open>v \<in> set us\<close>] start [OF \<open>w \<in> set us\<close>]
        using assms(3) by (intro mult_right_mono) simp_all
    qed
    then show ?thesis by (simp add: sorted_map)
  qed
  ultimately have "sorted_wrt (<) (map fp_startpos us)" by (simp add: strict_sorted_iff)
  then have "upload_ok m f info'"
    using piece assms(2) by (simp add: upload_ok_def info'_def IsUploading_def)
  moreover have "fp_bytes us = fp_bytes (upload_list info) \<union> {mp_start p..<mp_start p + m}"
    using set_us by (auto simp: fp_bytes_def u_def filepart_def)
  ultimately show ?thesis
    using that [OF step] assms(2) set_us by (simp add: info'_def IsUploading_def u_def filepart_def)
qed

definition th_area :: "thparam \<Rightarrow> mp_part" where
  "th_area t = \<lparr>mp_start = th_start t, mp_size = th_size t, mp_part_num = th_part_num t\<rparr>"

lemma instruct_loop_law:
  assumes "upload_ok m f info" and "IsUploading info" and "0 < m" and "pool_singleton pool"
    and "0 \<le> a" and "a mod m = 0" and "a + int k * m \<le> f"
    and "\<forall>u \<in> set (upload_list info). fp_startpos u < a \<or> a + int k * m \<le> fp_startpos u"
  shows "\<exists>info' pool' ps. instruct_loop path is_copy (pieces m a k) info pool = (True, info', pool') \<and>
    upload_ok m f info' \<and> IsUploading info' \<and> instruct_count info' = instruct_count info + int k \<and>
    fp_bytes (upload_list info') = fp_bytes (upload_list info) \<union> {a..<a + int k * m} \<and>
    instruction_list pool' = instruction_list pool @ ps \<and> map th_area ps = pieces m a k \<and>
    thpoolman_sem pool' = thpoolman_sem pool + k"
  using assms
proof (induction k arbitrary: a info pool)
  case 0
  then show ?case by (intro exI [of _ info] exI [of _ pool] exI [of _ "[]"]) (simp add: pieces_def)
next
  case (Suc k)
  define p where "p = \<lparr>mp_start = a, mp_size = m, mp_part_num = a div m + 1\<rparr>"
  have pieces: "pieces m a (Suc k) = p # pieces m (a + m) k" using pieces_Suc [OF Suc.prems(3)] by (simp add: p_def)
  have e: "a + int (Suc k) * m = a + m + int k * m" by (simp add: algebra_simps)
  have km: "0 \<le> int k * m" using Suc.prems(3) by simp
  have "mp_start p \<notin> fp_startpos ` set (upload_list info)"
  proof
    assume "mp_start p \<in> fp_startpos ` set (upload_list info)"
    then obtain u where "u \<in> set (upload_list info)" "fp_startpos u = a" by (auto simp: p_def)
    then show False using bspec [OF Suc.prems(8), of u] Suc.prems(3) km unfolding e by linarith
  qed
  moreover have "0 \<le> mp_start p" "mp_start p mod m = 0" "mp_size p = m" "mp_start p + m \<le> f"
    "mp_part_num p = mp_start p div m + 1"
    using Suc.prems(5-7) km unfolding e by (simp_all add: p_def)
  ultimately obtain i info1 where I: "InsertUploadPart (mp_start p) (mp_size p) (mp_part_num p) is_copy info = (Some i, info1)"
    "upload_ok m f info1" "IsUploading info1" "instruct_count info1 = instruct_count info"
    "fp_bytes (upload_list info1) = fp_bytes (upload_list info) \<union> {a..<a + m}"
    "fp_startpos ` set (upload_list info1) = insert a (fp_startpos ` set (upload_list info))"
    using InsertUploadPart_law [OF Suc.prems(1-3), of p is_copy thesis] by (simp add: p_def)
  define t where "t = \<lparr>th_path = path, th_upload_id = upload_id info1, th_upload_fd = upload_fd info1, th_start = a,
    th_size = m, th_is_copy = is_copy, th_part_num = a div m + 1, th_petag = i\<rparr>"
  define pool1 where "pool1 = snd (SetInstruction t pool)"
  define info2 where "info2 = info1\<lparr>instruct_count := instruct_count info1 + 1\<rparr>"
  have step: "instruct_loop path is_copy (pieces m a (Suc k)) info pool =
      instruct_loop path is_copy (pieces m (a + m) k) info2 pool1"
    using I(1) Suc.prems(4)
    by (simp add: pieces p_def Instruct_def SetInstruction_def pool1_def t_def info2_def)
  have "\<forall>u \<in> set (upload_list info2). fp_startpos u < a + m \<or> a + m + int k * m \<le> fp_startpos u"
  proof
    fix u assume "u \<in> set (upload_list info2)"
    then have "fp_startpos u \<in> insert a (fp_startpos ` set (upload_list info))"
      using I(6) by (simp add: info2_def flip: I(6))
    then show "fp_startpos u < a + m \<or> a + m + int k * m \<le> fp_startpos u"
      using Suc.prems(3,8) unfolding e by fastforce
  qed
  moreover have "upload_ok m f info2" "IsUploading info2" using I(2,3) by (simp_all add: info2_def upload_ok_def IsUploading_def)
  moreover have "pool_singleton pool1" using Suc.prems(4) by (simp add: pool1_def SetInstruction_def)
  moreover have "(a + m) mod m = 0" using Suc.prems(6) by simp
  ultimately obtain info' pool' ps where R: "instruct_loop path is_copy (pieces m (a + m) k) info2 pool1 = (True, info', pool')"
    "upload_ok m f info'" "IsUploading info'" "instruct_count info' = instruct_count info2 + int k"
    "fp_bytes (upload_list info') = fp_bytes (upload_list info2) \<union> {a + m..<a + m + int k * m}"
    "instruction_list pool' = instruction_list pool1 @ ps" "map th_area ps = pieces m (a + m) k"
    "thpoolman_sem pool' = thpoolman_sem pool1 + k"
    using Suc.IH [of info2 pool1 "a + m"] Suc.prems(3,5,7) unfolding e by auto
  have "{a..<a + m} \<union> {a + m..<a + m + int k * m} = {a..<a + m + int k * m}"
    using Suc.prems(3) km ivl_disj_un_two(3) [of a "a + m" "a + m + int k * m"] by simp
  moreover have "map th_area (t # ps) = pieces m a (Suc k)" using R(7) pieces by (simp add: th_area_def t_def p_def)
  moreover have "instruction_list pool' = instruction_list pool @ t # ps" "thpoolman_sem pool' = thpoolman_sem pool + Suc k"
    using R(6,8) by (simp_all add: pool1_def SetInstruction_def)
  ultimately show ?case
    using step R I(4,5) unfolding e
    by (intro exI [of _ info'] exI [of _ pool'] exI [of _ "t # ps"]) (simp add: info2_def Un_assoc)
qed

subsection \<open>The method as a whole\<close>

lemma fp_bytes_filter:
  assumes "\<forall>u \<in> set us. piece_ok m f ents u" and "0 < m" and "a mod m = 0" and "n mod m = 0"
  shows "fp_bytes (filter (\<lambda>u. \<not> (a \<le> fp_startpos u \<and> fp_startpos u < a + n)) us) \<union> {a..<a + n} = fp_bytes us \<union> {a..<a + n}"
proof -
  have "{fp_startpos u..<fp_startpos u + fp_size u} \<subseteq> {a..<a + n}"
    if u: "u \<in> set us" "a \<le> fp_startpos u" "fp_startpos u < a + n" for u
  proof -
    have p: "fp_startpos u mod m = 0" "fp_size u = m" using assms(1) u(1) by (auto simp: piece_ok_def)
    then have "m dvd a + n - fp_startpos u" using assms(3,4) by (simp add: mod_eq_0_iff_dvd)
    then have "m \<le> a + n - fp_startpos u" using u(3) zdvd_imp_le by simp
    then show ?thesis using u(2) p(2) by auto
  qed
  then show ?thesis by (fastforce simp: fp_bytes_def)
qed

lemma aligned_up:
  assumes "0 < (m :: int)" and "0 \<le> s"
  shows "s \<le> (s div m + (if 0 < s mod m then 1 else 0)) * m \<and> (s div m + (if 0 < s mod m then 1 else 0)) * m mod m = 0"
proof -
  have "s = s div m * m + s mod m" "0 \<le> s mod m" "s mod m < m" using assms(1) by simp_all
  then have "s \<le> (s div m + (if 0 < s mod m then 1 else 0)) * m"
  proof (cases "0 < s mod m")
    case True
    then have "(s div m + (if 0 < s mod m then 1 else 0)) * m = s div m * m + m" by (simp add: distrib_right)
    then show ?thesis using \<open>s = _\<close> \<open>s mod m < m\<close> by linarith
  next
    case False
    then have "(s div m + (if 0 < s mod m then 1 else 0)) * m = s div m * m" by simp
    then show ?thesis using \<open>s = _\<close> False by linarith
  qed
  then show ?thesis by simp
qed

lemma ExtractFromUntreated_law:
  assumes "\<forall>u \<in> set us. piece_ok m f ents u" and "0 < m" and "0 \<le> a" and "a mod m = 0" and "0 < k"
  shows "ExtractUploadPartsFromUntreatedArea a (int k * m) m us = Some (True, pieces m a k,
    filter (\<lambda>u. a \<le> fp_startpos u \<and> fp_startpos u < a + int k * m) us,
    filter (\<lambda>u. \<not> (a \<le> fp_startpos u \<and> fp_startpos u < a + int k * m)) us)"
proof -
  have "m * 1 \<le> m * int k" using assms(2,5) by (intro mult_left_mono) simp_all
  then have n: "m \<le> int k * m" "0 < int k * m" "int k * m mod m = 0"
    using assms(2) by (simp_all add: mult.commute)
  moreover have "a div m * m = a" using assms(4) by (simp add: mod_eq_0_iff_dvd)
  ultimately show ?thesis
    using assms(3) cancel_loop_law [OF assms(1,4,2) n(3,2)] part_loop_law [OF assms(2), of a k]
    by (simp add: ExtractUploadPartsFromUntreatedArea_def Let_def)
qed

text \<open>The part of the method after the areas are chosen.\<close>

definition boundary_upload ::
    "(int \<Rightarrow> int option) \<Rightarrow> int \<times> string \<Rightarrow> string \<Rightarrow> mp_part list \<Rightarrow> PseudoFdInfo \<Rightarrow> thpool \<Rightarrow> int \<times> PseudoFdInfo \<times> thpool" where
  "boundary_upload dup_fd pre path to_upload info pool =
     (case if IsUploading info then (0, True, info)
           else if fst pre \<noteq> 0 then (fst pre, True, info)
           else (case RowInitialUploadInfo id (snd pre) False True info of (ok, info) \<Rightarrow> (0, ok, info)) of
        (r, ok, info) \<Rightarrow>
          if r \<noteq> 0 \<or> \<not> ok then (r, info, pool)
          else (case ParallelMultipartUpload dup_fd path to_upload False info pool of (ok, info, pool) \<Rightarrow>
            (if ok then 0 else - EIO, info, pool)))"

lemma boundary_upload_law:
  assumes "upload_ok m f info" and "0 < m" and "pool_singleton pool" and "0 \<le> a" and "a mod m = 0"
    and "a + int k * m \<le> f" and "0 < k"
    and "\<forall>u \<in> set (upload_list info). fp_startpos u < a \<or> a + int k * m \<le> fp_startpos u"
    and "boundary_upload dup_fd pre path (pieces m a k) info pool = (0, info', pool')"
  shows "upload_ok m f info' \<and> fp_bytes (upload_list info') = fp_bytes (upload_list info) \<union> {a..<a + int k * m} \<and>
    (\<exists>ps. instruction_list pool' = instruction_list pool @ ps \<and> map th_area ps = pieces m a k)"
proof -
  define info1 where "info1 = (if IsUploading info then info else snd (RowInitialUploadInfo id (snd pre) False True info))"
  have one: "pieces m a k \<noteq> []" using assms(7) by (simp add: pieces_def)
  have B: "boundary_upload dup_fd pre path (pieces m a k) info pool =
      (case ParallelMultipartUpload dup_fd path (pieces m a k) False info1 pool of (ok, info, pool) \<Rightarrow>
        (if ok then 0 else - EIO, info, pool))"
    using assms(9) by (auto simp: boundary_upload_def info1_def RowInitialUploadInfo_def ResetUploadInfo_def split: if_splits)
  have info1: "upload_list info1 = upload_list info" "upload_ok m f info1"
    using assms(1) by (auto simp: info1_def RowInitialUploadInfo_def ResetUploadInfo_def upload_ok_def IsUploading_def)
  obtain ok info2 where O: "OpenUploadFd dup_fd info1 = (ok, info2)" by (rule prod.exhaust)
  have info2: "upload_list info2 = upload_list info" "upload_ok m f info2"
    using O info1 by (auto simp: OpenUploadFd_def upload_ok_def IsUploading_def split: if_splits option.splits)
  have P: "ParallelMultipartUpload dup_fd path (pieces m a k) False info1 pool =
      (if \<not> ok then (False, info2, pool) else instruct_loop path False (pieces m a k) info2 pool)"
    using one O by (simp add: ParallelMultipartUpload_def)
  have ok: "ok" using assms(9) unfolding B P by (cases ok) simp_all
  have "IsUploading info2"
  proof (rule ccontr)
    assume "\<not> IsUploading info2"
    then have "fst (instruct_loop path False (pieces m a k) info2 pool) = False"
      using one by (cases "pieces m a k") (simp_all add: InsertUploadPart_def)
    then show False using assms(9) ok unfolding B P by (auto split: prod.splits)
  qed
  from instruct_loop_law [OF info2(2) this assms(2-6), of path False] assms(8) info2(1)
  obtain info3 pool3 ps where "instruct_loop path False (pieces m a k) info2 pool = (True, info3, pool3)"
    "upload_ok m f info3" "fp_bytes (upload_list info3) = fp_bytes (upload_list info) \<union> {a..<a + int k * m}"
    "instruction_list pool3 = instruction_list pool @ ps" "map th_area ps = pieces m a k" by auto
  then show ?thesis using assms(9) ok unfolding B P by auto
qed

lemma UploadBoundary_eq:
  assumes "physical_fd info \<noteq> -1" and "pseudo_fd info \<noteq> -1" and "UT_GetLastUpdatePart ut = Some (s, n)" and "0 \<le> s" and "0 < n"
    and "a = (s div m + (if 0 < s mod m then 1 else 0)) * m" and "a < s + n" and "(s + n - a) div m = int k" and "0 < k"
    and "ExtractUploadPartsFromUntreatedArea a (int k * m) m (upload_list info) = Some (True, pieces m a k, cancelled, kept)"
    and "boundary_upload dup_fd pre path (pieces m a k) (info\<lparr>upload_list := kept\<rparr>) pool = (r, info', pool')"
    and "0 < m"
  shows "UploadBoundaryLastUntreatedArea dup_fd pre m path info ut pool = Some (r, info',
    if r = 0 then snd (ReplaceLastUpdateUntreatedPart s (a - s) (a + int k * m) (s + n - (a + int k * m)) ut) else ut, pool')"
proof -
  have one: "pieces m a k \<noteq> []" "int k * m \<noteq> 0" using assms(9,12) by (simp_all add: pieces_def)
  show ?thesis
    using assms(1-5,7-11) one unfolding UploadBoundaryLastUntreatedArea_def boundary_upload_def
    by (auto simp: Let_def assms(6) [symmetric] RowInitialUploadInfo_def ResetUploadInfo_def split: prod.splits if_splits)
qed

lemma GetLastUpdatePart_pos:
  assumes "untreated_ok ut" and "UT_GetLastUpdatePart ut = Some (s, n)"
  shows "0 \<le> s" and "0 < n" and "{s..<s + n} \<subseteq> untreated_bytes ut"
proof -
  obtain p where p: "find (\<lambda>p. up_tag p = last_tag ut) (untreated_list ut) = Some p" "s = up_start p" "n = up_size p"
    using assms(2) by (auto simp: UT_GetLastUpdatePart_def)
  then have mem: "p \<in> set (untreated_list ut)" by (auto simp: find_Some_iff)
  have pos: "parts_ok lo ps \<Longrightarrow> p \<in> set ps \<Longrightarrow> lo \<le> up_start p \<and> 0 < up_size p" for lo ps
  proof (induction ps arbitrary: lo)
    case (Cons q ps)
    then show ?case by (cases "p = q") fastforce+
  qed simp
  show "0 \<le> s" "0 < n" using pos [OF _ mem] assms(1) p by (auto simp: untreated_ok_def)
  show "{s..<s + n} \<subseteq> untreated_bytes ut" using mem p by (auto simp: untreated_bytes_def parts_bytes_def)
qed

text \<open>
  C28: the upload made while a file is written loses no byte.  It always returns; when it returns 0, what it gave to
  the threads are whole numbered pieces of the file, all of them written and not yet uploaded, and exactly these
  bytes leave the untreated list; the list of parts gains them, and both lists stay what the flush needs.
\<close>
theorem UploadBoundary_no_loss:
  assumes "untreated_ok ut" and "upload_ok m f info" and "0 < m" and "untreated_bytes ut \<subseteq> {0..<f}" and "pool_singleton pool"
  shows "\<exists>r info' ut' pool'. UploadBoundaryLastUntreatedArea dup_fd pre m path info ut pool = Some (r, info', ut', pool') \<and>
    (r = 0 \<longrightarrow> untreated_ok ut' \<and> upload_ok m f info' \<and>
      (\<exists>a k ps. instruction_list pool' = instruction_list pool @ ps \<and> map th_area ps = pieces m a k \<and> a mod m = 0 \<and>
        mp_bytes (pieces m a k) \<subseteq> untreated_bytes ut \<and> untreated_bytes ut' = untreated_bytes ut - mp_bytes (pieces m a k) \<and>
        fp_bytes (upload_list info') = fp_bytes (upload_list info) \<union> mp_bytes (pieces m a k)))"
proof -
  have same: ?thesis if "UploadBoundaryLastUntreatedArea dup_fd pre m path info ut pool = Some (r, info, ut, pool)" for r
    using that assms(1,2) by (intro exI [of _ r] exI [of _ info] exI [of _ ut] exI [of _ pool] conjI impI exI [of _ "0 :: int"]
      exI [of _ "0 :: nat"] exI [of _ "[] :: thparam list"]) (simp_all add: pieces_def)
  show ?thesis
  proof (cases "physical_fd info = -1 \<or> pseudo_fd info = -1 \<or> UT_GetLastUpdatePart ut = None")
    case True
    then have "UploadBoundaryLastUntreatedArea dup_fd pre m path info ut pool =
        Some (if physical_fd info = -1 \<or> pseudo_fd info = -1 then - EBADF else 0, info, ut, pool)"
      by (auto simp: UploadBoundaryLastUntreatedArea_def)
    then show ?thesis by (rule same)
  next
    case False
    then obtain s n where last: "UT_GetLastUpdatePart ut = Some (s, n)" by auto
    note sn = GetLastUpdatePart_pos [OF assms(1) last]
    define a where "a = (s div m + (if 0 < s mod m then 1 else 0)) * m"
    have a: "s \<le> a" "a mod m = 0" "0 \<le> a" using aligned_up [OF assms(3) sn(1)] sn(1) by (simp_all add: a_def)
    show ?thesis
    proof (cases "s + n \<le> a \<or> (s + n - a) div m * m = 0")
      case True
      have "UploadBoundaryLastUntreatedArea dup_fd pre m path info ut pool = Some (0, info, ut, pool)"
        using False last sn(1,2) True
        by (auto simp: UploadBoundaryLastUntreatedArea_def a_def [symmetric] Let_def split del: if_split)
          (simp_all add: Let_def)
      then show ?thesis by (rule same)
    next
      case some: False
      define k where "k = nat ((s + n - a) div m)"
      have d: "(s + n - a) div m = int k" "0 < k"
        using some assms(3) pos_imp_zdiv_nonneg_iff [of m "s + n - a"] by (auto simp: k_def)
      have end_le: "a + int k * m \<le> s + n"
        using div_mult_mod_eq [of "s + n - a" m, unfolded d(1)] pos_mod_sign [OF assms(3), of "s + n - a"] by linarith
      have km: "m \<le> int k * m"
        using mult_left_mono [of 1 "int k" m] assms(3) d(2) by (simp add: mult.commute)
      have f: "a + int k * m \<le> f"
      proof -
        have "s \<le> a + int k * m - 1" "a + int k * m - 1 < s + n" using a(1) km assms(3) end_le by linarith+
        then have "a + int k * m - 1 \<in> {s..<s + n}" by simp
        then have "a + int k * m - 1 \<in> {0..<f}" using sn(3) assms(4) by blast
        then show ?thesis by simp
      qed
      let ?in = "\<lambda>u. a \<le> fp_startpos u \<and> fp_startpos u < a + int k * m"
      let ?info = "info\<lparr>upload_list := filter (\<lambda>u. \<not> ?in u) (upload_list info)\<rparr>"
      have ok: "\<forall>u \<in> set (upload_list info). piece_ok m f (etag_entities info) u" using assms(2) by (simp add: upload_ok_def)
      have kept: "upload_ok m f ?info"
        using assms(2) by (auto simp: upload_ok_def IsUploading_def sorted_wrt_map sorted_wrt_filter)
      obtain r info' pool' where B: "boundary_upload dup_fd pre path (pieces m a k) ?info pool = (r, info', pool')"
        by (rule prod_cases3)
      have E: "UploadBoundaryLastUntreatedArea dup_fd pre m path info ut pool = Some (r, info',
          if r = 0 then snd (ReplaceLastUpdateUntreatedPart s (a - s) (a + int k * m) (s + n - (a + int k * m)) ut) else ut, pool')"
        using UploadBoundary_eq [OF _ _ last sn(1,2) a_def _ d ExtractFromUntreated_law [OF ok assms(3) a(3,2) d(2)] B assms(3)]
          False some by simp
      have mod: "int k * m mod m = 0" by simp
      show ?thesis
      proof (cases "r = 0")
        case True
        have "\<forall>u \<in> set (upload_list ?info). fp_startpos u < a \<or> a + int k * m \<le> fp_startpos u" by auto
        from boundary_upload_law [OF kept assms(3,5) a(3,2) f d(2) this B [unfolded True]]
        obtain ps where U: "upload_ok m f info'"
          "fp_bytes (upload_list info') = fp_bytes (upload_list ?info) \<union> {a..<a + int k * m}"
          "instruction_list pool' = instruction_list pool @ ps" "map th_area ps = pieces m a k" by blast
        have "a < a + int k * m" using km assms(3) by linarith
        note R' = ReplaceLast_law [OF assms(1) last a(1) this end_le, folded mp_bytes_pieces [OF assms(3)]]
        have "fp_bytes (upload_list info') = fp_bytes (upload_list info) \<union> {a..<a + int k * m}"
          using U(2) fp_bytes_filter [OF ok assms(3) a(2) mod] by simp
        then have "fp_bytes (upload_list info') = fp_bytes (upload_list info) \<union> mp_bytes (pieces m a k)"
          by (simp only: mp_bytes_pieces [OF assms(3)])
        moreover have "UploadBoundaryLastUntreatedArea dup_fd pre m path info ut pool = Some (0, info',
          snd (ReplaceLastUpdateUntreatedPart s (a - s) (a + int k * m) (s + n - (a + int k * m)) ut), pool')"
          using E True by simp
        ultimately show ?thesis
          using U(1,3,4) a(2) R' [THEN conjunct1] R' [THEN conjunct2, THEN conjunct1] R' [THEN conjunct2, THEN conjunct2]
          by (intro exI conjI impI) assumption+
      qed (use E in simp)
    qed
  qed
qed

theorem UploadBoundary_no_loss_witness:
  "\<exists>r info' ut' pool'. UploadBoundaryLastUntreatedArea Some (0, ''id'') 10 ''/f'' (demo_info [])
     \<lparr>untreated_list = [\<lparr>up_start = 5, up_size = 40, up_tag = 1\<rparr>], last_tag = 1\<rparr>
     \<lparr>pool_singleton = True, instruction_list = [], thpoolman_sem = 0, is_exit = False\<rparr> = Some (r, info', ut', pool')"
proof -
  have "upload_ok 10 50 (demo_info [])"
    by (simp add: upload_ok_def demo_info_def)
  moreover have "untreated_ok \<lparr>untreated_list = [\<lparr>up_start = 5, up_size = 40, up_tag = 1\<rparr>], last_tag = 1\<rparr>"
    "untreated_bytes \<lparr>untreated_list = [\<lparr>up_start = 5, up_size = 40, up_tag = 1\<rparr>], last_tag = 1\<rparr> \<subseteq> {0..<50}"
    by (auto simp: untreated_ok_def untreated_bytes_def)
  ultimately show ?thesis
    using UploadBoundary_no_loss [where m = 10 and f = 50 and info = "demo_info []" and dup_fd = Some
        and ut = "\<lparr>untreated_list = [\<lparr>up_start = 5, up_size = 40, up_tag = 1\<rparr>], last_tag = 1\<rparr>"
        and pre = "(0, ''id'')" and path = "''/f''"
        and pool = "\<lparr>pool_singleton = True, instruction_list = [], thpoolman_sem = 0, is_exit = False\<rparr>"]
    by auto
qed

end
