(* ===== verification/Fd_Threads.thy ===== *)
theory Fd_Threads
  imports Fd_Boundary "HOL-Library.Multiset"
begin

section \<open>The upload threads (\<^verbatim>\<open>s3fs/fdcache_fdinfo.cpp\<close>, \<^verbatim>\<open>threadpoolman.cpp\<close>)\<close>

text \<open>
  The caller gives parts to the thread pool and waits in \<^verbatim>\<open>WaitAllThreadsExit\<close>; pool threads take instructions,
  upload, count them down under the lock and post the semaphore.  The state is the object, the pool, what every
  thread is at, and the answers of S3; a step is what one thread does between two locks.  A request to S3 is
  the answer it gives, an error or an etag.
\<close>

subsection \<open>What the threads do\<close>

text \<open>\<^verbatim>\<open>ThreadPoolMan::Worker\<close> from its wait to its instruction: \<open>None\<close> while it waits.\<close>

definition Worker_take :: "thpool \<Rightarrow> (thparam option \<times> thpool) option" where
  "Worker_take pool =
     (if thpoolman_sem pool = 0 then None
      else (let pool = pool\<lparr>thpoolman_sem := thpoolman_sem pool - 1\<rparr>
            in case instruction_list pool of
                 [] \<Rightarrow> Some (None, pool)
               | p # ps \<Rightarrow> Some (Some p, pool\<lparr>instruction_list := ps\<rparr>)))"

text \<open>
  \<^verbatim>\<open>MultipartUploadThreadWorker\<close> before its request: it leaves when an error has occurred.  After the request, the
  etag is stored through the pointer and the result counted.
\<close>

definition worker_check :: "PseudoFdInfo \<Rightarrow> (int \<times> PseudoFdInfo) option" where
  "worker_check info =
     (if last_result info \<noteq> 0
      then (case CompleteInstruction (last_result info) info of (ok, info') \<Rightarrow>
              Some (if ok then last_result info else - EIO, info'))
      else None)"

definition worker_end :: "thparam \<Rightarrow> int + string \<Rightarrow> PseudoFdInfo \<Rightarrow> int \<times> PseudoFdInfo" where
  "worker_end t answer info =
     (case answer of
        Inl result \<Rightarrow> (result, snd (CompleteInstruction result info))
      | Inr etag \<Rightarrow> (0, snd (CompleteInstruction 0 (info\<lparr>etag_entities :=
          (etag_entities info)[th_petag t := (etag_entities info ! th_petag t)\<lparr>ep_etag := etag\<rparr>]\<rparr>))))"

text \<open>\<^verbatim>\<open>WaitAllThreadsExit\<close>: the check before the loop, and a round of it once the semaphore was posted.\<close>

definition wait_first :: "PseudoFdInfo \<Rightarrow> int option" where
  "wait_first info = (if instruct_count info = 0 \<and> completed_count info = 0 then Some (last_result info) else None)"

definition wait_round :: "PseudoFdInfo \<Rightarrow> int option \<times> PseudoFdInfo" where
  "wait_round info =
     (let info = (if 0 < completed_count info then info\<lparr>completed_count := completed_count info - 1\<rparr> else info)
      in (if instruct_count info = 0 \<and> completed_count info = 0 then Some (last_result info) else None, info))"

subsection \<open>The system\<close>

datatype caller = Working | Waiting | Returned int

record upload_sys =
  us_info :: PseudoFdInfo
  us_pool :: thpool
  us_taken :: "thparam list"
  us_sending :: "thparam list"
  us_posting :: nat
  us_answers :: "(thparam \<times> string) list"
  us_caller :: caller

text \<open>
  \<open>n\<close> is the number of threads of the pool.  The caller starts an upload, gives parts to the threads, waits, and
  forgets the upload after its wait has returned; \<open>dup_fd\<close> is the system as in \<open>Fd_Info\<close>.
\<close>

inductive upload_step :: "nat \<Rightarrow> upload_sys \<Rightarrow> upload_sys \<Rightarrow> bool" for n where
  take: "length (us_taken s) + length (us_sending s) + us_posting s < n \<Longrightarrow> Worker_take (us_pool s) = Some (Some t, pool) \<Longrightarrow>
    upload_step n s (s\<lparr>us_pool := pool, us_taken := us_taken s @ [t]\<rparr>)"
| leave: "t \<in> set (us_taken s) \<Longrightarrow> worker_check (us_info s) = Some (r, info) \<Longrightarrow>
    upload_step n s (s\<lparr>us_info := info, us_taken := remove1 t (us_taken s), us_posting := us_posting s + 1\<rparr>)"
| send: "t \<in> set (us_taken s) \<Longrightarrow> worker_check (us_info s) = None \<Longrightarrow>
    upload_step n s (s\<lparr>us_taken := remove1 t (us_taken s), us_sending := us_sending s @ [t]\<rparr>)"
| fail: "t \<in> set (us_sending s) \<Longrightarrow> e \<noteq> 0 \<Longrightarrow>
    upload_step n s (s\<lparr>us_info := snd (worker_end t (Inl e) (us_info s)), us_sending := remove1 t (us_sending s),
      us_posting := us_posting s + 1\<rparr>)"
| answer: "t \<in> set (us_sending s) \<Longrightarrow>
    upload_step n s (s\<lparr>us_info := snd (worker_end t (Inr etag) (us_info s)), us_sending := remove1 t (us_sending s),
      us_posting := us_posting s + 1, us_answers := us_answers s @ [(t, etag)]\<rparr>)"
| post: "0 < us_posting s \<Longrightarrow>
    upload_step n s (s\<lparr>us_posting := us_posting s - 1, us_info := (us_info s)\<lparr>uploaded_sem := uploaded_sem (us_info s) + 1\<rparr>\<rparr>)"
| start: "us_caller s = Working \<Longrightarrow> \<not> IsUploading (us_info s) \<Longrightarrow>
    RowInitialUploadInfo id new_id False True (us_info s) = (ok, info) \<Longrightarrow> upload_step n s (s\<lparr>us_info := info\<rparr>)"
| give: "us_caller s = Working \<Longrightarrow> ParallelMultipartUpload dup_fd path mplist is_copy (us_info s) (us_pool s) = (ok, info, pool) \<Longrightarrow>
    upload_step n s (s\<lparr>us_info := info, us_pool := pool\<rparr>)"
| wait: "us_caller s = Working \<Longrightarrow> wait_first (us_info s) = None \<Longrightarrow> upload_step n s (s\<lparr>us_caller := Waiting\<rparr>)"
| no_wait: "us_caller s = Working \<Longrightarrow> wait_first (us_info s) = Some r \<Longrightarrow> upload_step n s (s\<lparr>us_caller := Returned r\<rparr>)"
| round: "us_caller s = Waiting \<Longrightarrow> 0 < uploaded_sem (us_info s) \<Longrightarrow>
    wait_round ((us_info s)\<lparr>uploaded_sem := uploaded_sem (us_info s) - 1\<rparr>) = (result, info) \<Longrightarrow>
    upload_step n s (s\<lparr>us_info := info, us_caller := (case result of None \<Rightarrow> Waiting | Some r \<Rightarrow> Returned r)\<rparr>)"
| forget: "us_caller s = Returned r \<Longrightarrow> ClearUploadInfo id False (us_info s) = (ok, info) \<Longrightarrow>
    upload_step n s (s\<lparr>us_info := info, us_caller := Working\<rparr>)"
| more: "us_caller s = Returned r \<Longrightarrow> upload_step n s (s\<lparr>us_caller := Working\<rparr>)"

inductive upload_reach :: "nat \<Rightarrow> upload_sys \<Rightarrow> bool" for n where
  init: "upload_list info = [] \<Longrightarrow> etag_entities info = [] \<Longrightarrow> uploaded_sem info = 0 \<Longrightarrow> instruct_count info = 0 \<Longrightarrow>
    completed_count info = 0 \<Longrightarrow> last_result info = 0 \<Longrightarrow>
    upload_reach n \<lparr>us_info = info, us_pool = \<lparr>pool_singleton = True, instruction_list = [], thpoolman_sem = 0, is_exit = False\<rparr>,
      us_taken = [], us_sending = [], us_posting = 0, us_answers = [], us_caller = Working\<rparr>"
| step: "upload_reach n s \<Longrightarrow> upload_step n s s' \<Longrightarrow> upload_reach n s'"

inductive_cases upload_stepE: "upload_step n s s'"

subsection \<open>What giving parts does\<close>

definition new_entity :: "thparam \<Rightarrow> etagpair" where
  "new_entity t = \<lparr>ep_etag = [], ep_part_num = th_part_num t\<rparr>"

definition new_part :: "int \<Rightarrow> thparam \<Rightarrow> filepart" where
  "new_part fd t = filepart False fd (th_start t) (th_size t) (th_is_copy t) (Some (th_petag t))"

text \<open>What changes: the entities, the parts, the number of instructions and the queue of the pool.\<close>

definition gives :: "thparam list \<Rightarrow> PseudoFdInfo \<Rightarrow> thpool \<Rightarrow> PseudoFdInfo \<Rightarrow> thpool \<Rightarrow> bool" where
  "gives ts info pool info' pool' =
     (pool_singleton pool' = pool_singleton pool \<and> instruction_list pool' = instruction_list pool @ ts \<and>
      thpoolman_sem pool' = thpoolman_sem pool + length ts \<and>
      instruct_count info' = instruct_count info + int (length ts) \<and> completed_count info' = completed_count info \<and>
      uploaded_sem info' = uploaded_sem info \<and> last_result info' = last_result info \<and> upload_id info' = upload_id info \<and>
      etag_entities info' = etag_entities info @ map new_entity ts \<and>
      map th_petag ts = [length (etag_entities info)..<length (etag_entities info) + length ts] \<and>
      set (upload_list info') = set (upload_list info) \<union> new_part (physical_fd info) ` set ts \<and>
      physical_fd info' = physical_fd info \<and> (\<not> IsUploading info \<longrightarrow> ts = []))"

lemma instruct_loop_gives:
  assumes "pool_singleton pool" and "instruct_loop path is_copy ps info pool = (ok, info', pool')"
  shows "\<exists>ts. gives ts info pool info' pool'"
  using assms
proof (induction ps arbitrary: info pool)
  case Nil
  then show ?case by (intro exI [of _ "[]"]) (simp add: gives_def)
next
  case (Cons p ps)
  obtain r info1 where I: "InsertUploadPart (mp_start p) (mp_size p) (mp_part_num p) is_copy info = (r, info1)"
    by (rule prod.exhaust)
  show ?case
  proof (cases r)
    case None
    then have "info1 = info" using I by (auto simp: InsertUploadPart_def Let_def split: if_splits)
    then show ?thesis using Cons.prems(2) None I by (intro exI [of _ "[]"]) (simp add: gives_def)
  next
    case (Some i)
    define t where "t = \<lparr>th_path = path, th_upload_id = upload_id info1, th_upload_fd = upload_fd info1, th_start = mp_start p,
      th_size = mp_size p, th_is_copy = is_copy, th_part_num = mp_part_num p, th_petag = i\<rparr>"
    define info2 where "info2 = info1\<lparr>instruct_count := instruct_count info1 + 1\<rparr>"
    define pool2 where "pool2 = snd (SetInstruction t pool)"
    have step: "instruct_loop path is_copy ps info2 pool2 = (ok, info', pool')" and single: "pool_singleton pool2"
      using Cons.prems I Some by (simp_all add: Instruct_def SetInstruction_def t_def info2_def pool2_def)
    have one: "gives [t] info pool info2 pool2" and up: "IsUploading info"
      using I Some Cons.prems(1)
      by (auto simp: gives_def InsertUploadPart_def Let_def info2_def pool2_def SetInstruction_def t_def new_entity_def
          new_part_def filepart_def split: if_splits)
    from Cons.IH [OF single step] obtain ts where "gives ts info2 pool2 info' pool'" by blast
    then have "gives (t # ts) info pool info' pool'"
      using one up by (auto simp: gives_def IsUploading_def upt_conv_Cons simp del: upt_Suc)
    then show ?thesis by blast
  qed
qed

lemma ParallelMultipartUpload_gives:
  assumes "pool_singleton pool" and "ParallelMultipartUpload dup_fd path mplist is_copy info pool = (ok, info', pool')"
  shows "\<exists>ts. gives ts info pool info' pool'"
proof (cases "mplist = []")
  case True
  then show ?thesis using assms(2) by (intro exI [of _ "[]"]) (simp add: ParallelMultipartUpload_def gives_def)
next
  case False
  obtain k info1 where O: "OpenUploadFd dup_fd info = (k, info1)" by (rule prod.exhaust)
  have same: "gives ts info pool info' pool' = gives ts info1 pool info' pool'" for ts
    using O by (auto simp: OpenUploadFd_def gives_def IsUploading_def split: if_splits option.splits)
  show ?thesis
  proof (cases k)
    case True
    then have "instruct_loop path is_copy mplist info1 pool = (ok, info', pool')"
      using assms(2) False O by (simp add: ParallelMultipartUpload_def)
    then show ?thesis using instruct_loop_gives [OF assms(1)] same by blast
  next
    case False
    then have "info' = info1" "pool' = pool" using assms(2) O \<open>mplist \<noteq> []\<close> by (simp_all add: ParallelMultipartUpload_def)
    moreover have "gives [] info1 pool info1 pool" by (simp add: gives_def)
    ultimately show ?thesis using same by blast
  qed
qed

subsection \<open>The counters\<close>

definition queued :: "upload_sys \<Rightarrow> thparam list" where
  "queued s = instruction_list (us_pool s) @ us_taken s @ us_sending s"

definition count_inv :: "upload_sys \<Rightarrow> bool" where
  "count_inv s =
     (pool_singleton (us_pool s) \<and> thpoolman_sem (us_pool s) = length (instruction_list (us_pool s)) \<and>
      instruct_count (us_info s) = int (length (queued s)) \<and>
      completed_count (us_info s) = int (uploaded_sem (us_info s) + us_posting s) \<and>
      (\<not> IsUploading (us_info s) \<longrightarrow> queued s = [] \<and> completed_count (us_info s) = 0) \<and>
      (us_caller s = Waiting \<longrightarrow> 0 < instruct_count (us_info s) + completed_count (us_info s)) \<and>
      (\<forall>r. us_caller s = Returned r \<longrightarrow> queued s = [] \<and> completed_count (us_info s) = 0 \<and> last_result (us_info s) = r))"

lemma remove1_length: "t \<in> set ts \<Longrightarrow> int (length (remove1 t ts)) = int (length ts) - 1"
  by (cases "length ts") (auto simp: length_remove1)

lemma remove1_Suc: "t \<in> set ts \<Longrightarrow> length ts = Suc (length (remove1 t ts))"
  by (cases "length ts") (auto simp: length_remove1)

lemma CompleteInstruction_counts:
  assumes "0 < instruct_count info" and "CompleteInstruction r info = (ok, info')"
  shows "ok \<and> info' = info\<lparr>last_result := (if r \<noteq> 0 then r else last_result info),
    instruct_count := instruct_count info - 1, completed_count := completed_count info + 1\<rparr>"
  using assms by (auto simp: CompleteInstruction_def Let_def split: if_splits)

text \<open>A thread that has finished: the object is \<open>info\<close> with the count changed.\<close>

definition finished :: "int \<Rightarrow> PseudoFdInfo \<Rightarrow> PseudoFdInfo" where
  "finished r info = info\<lparr>last_result := (if r \<noteq> 0 then r else last_result info),
    instruct_count := instruct_count info - 1, completed_count := completed_count info + 1\<rparr>"

definition answered :: "thparam \<Rightarrow> string \<Rightarrow> PseudoFdInfo \<Rightarrow> PseudoFdInfo" where
  "answered t etag info = info\<lparr>etag_entities :=
     (etag_entities info)[th_petag t := (etag_entities info ! th_petag t)\<lparr>ep_etag := etag\<rparr>]\<rparr>"

lemma worker_results:
  assumes "0 < instruct_count info"
  shows "worker_check info = (if last_result info \<noteq> 0 then Some (last_result info, finished (last_result info) info) else None)"
    and "worker_end t (Inl e) info = (e, finished e info)"
    and "worker_end t (Inr etag) info = (0, finished 0 (answered t etag info))"
  using assms by (auto simp: worker_check_def worker_end_def finished_def answered_def CompleteInstruction_def Let_def
      split: prod.splits)

lemma count_inv_pos:
  assumes "count_inv s" and "t \<in> set (us_taken s) \<union> set (us_sending s)"
  shows "0 < instruct_count (us_info s)" and "IsUploading (us_info s)" and "\<forall>r. us_caller s \<noteq> Returned r"
proof -
  have "queued s \<noteq> []" using assms(2) by (auto simp: queued_def)
  then show "0 < instruct_count (us_info s)" "IsUploading (us_info s)" "\<forall>r. us_caller s \<noteq> Returned r"
    using assms(1) by (auto simp: count_inv_def)
qed

lemma count_inv_step:
  assumes "count_inv s" and "upload_step n s s'"
  shows "count_inv s'"
  using assms(2)
proof cases
  case (take t pool)
  have "instruction_list (us_pool s) = t # instruction_list pool" "thpoolman_sem pool = thpoolman_sem (us_pool s) - 1"
    "0 < thpoolman_sem (us_pool s)" "pool_singleton pool = pool_singleton (us_pool s)"
    using take(3) by (auto simp: Worker_take_def Let_def split: if_splits list.splits)
  then show ?thesis using assms(1) take(1) by (auto simp: count_inv_def queued_def)
next
  case (leave t r info)
  note pos = count_inv_pos [OF assms(1), of t]
  have "info = finished (last_result (us_info s)) (us_info s)"
    using leave(2,3) pos(1) by (auto simp: worker_results split: if_splits)
  then show ?thesis using assms(1) leave(1,2) pos
    by (auto simp: count_inv_def queued_def finished_def IsUploading_def remove1_length)
next
  case (send t)
  then show ?thesis using assms(1) count_inv_pos [OF assms(1), of t]
    by (auto simp: count_inv_def queued_def remove1_length)
next
  case (fail t e)
  note pos = count_inv_pos [OF assms(1), of t]
  show ?thesis using assms(1) fail pos worker_results(2) [of "us_info s" t e]
    by (auto simp: count_inv_def queued_def finished_def IsUploading_def remove1_length)
next
  case (answer t etag)
  note pos = count_inv_pos [OF assms(1), of t]
  show ?thesis using assms(1) answer pos worker_results(3) [of "us_info s" t etag]
    by (auto simp: count_inv_def queued_def finished_def answered_def IsUploading_def remove1_length)
next
  case post
  then show ?thesis using assms(1) by (auto simp: count_inv_def queued_def IsUploading_def)
next
  case (start new_id ok info)
  then show ?thesis using assms(1)
    by (auto simp: count_inv_def queued_def RowInitialUploadInfo_def ResetUploadInfo_def IsUploading_def)
next
  case (give dup_fd path mplist is_copy ok info pool)
  have "pool_singleton (us_pool s)" using assms(1) by (simp add: count_inv_def)
  from ParallelMultipartUpload_gives [OF this give(3)] obtain ts where "gives ts (us_info s) (us_pool s) info pool" by blast
  then show ?thesis using assms(1) give(1,2) by (auto simp: count_inv_def queued_def gives_def IsUploading_def)
next
  case wait
  then show ?thesis using assms(1) by (auto simp: count_inv_def queued_def wait_first_def split: if_splits)
next
  case (no_wait r)
  then have "queued s = []" using assms(1) by (auto simp: count_inv_def wait_first_def split: if_splits)
  moreover have "queued s' = queued s" using no_wait(1) by (simp add: queued_def)
  ultimately show ?thesis using assms(1) no_wait by (auto simp: count_inv_def wait_first_def split: if_splits)
next
  case (round result info)
  moreover have "queued s' = queued s" using round(1) by (simp add: queued_def)
  moreover have "queued s = [] \<or> 1 \<le> int (length (queued s))" by (cases "queued s") simp_all
  ultimately show ?thesis using assms(1)
    by (auto simp: count_inv_def wait_round_def IsUploading_def Let_def split: if_splits option.splits)
next
  case (forget r ok info)
  then show ?thesis using assms(1)
    by (auto simp: count_inv_def queued_def ClearUploadInfo_def ResetUploadInfo_def IsUploading_def)
next
  case (more r)
  then show ?thesis using assms(1) by (auto simp: count_inv_def queued_def)
qed

lemma upload_reach_count: "upload_reach n s \<Longrightarrow> count_inv s"
proof (induction rule: upload_reach.induct)
  case (init info)
  then show ?case by (simp add: count_inv_def queued_def)
qed (rule count_inv_step)

subsection \<open>The wait ends\<close>

text \<open>What is left to do: every step of another thread, and every round of the wait, takes some away.\<close>

definition upload_work :: "upload_sys \<Rightarrow> nat" where
  "upload_work s = 5 * length (instruction_list (us_pool s)) + 4 * length (us_taken s) + 3 * length (us_sending s) +
     2 * us_posting s + uploaded_sem (us_info s)"

lemma waiting_step_works:
  assumes "count_inv s" and "us_caller s = Waiting" and "upload_step n s s'"
  shows "upload_work s' < upload_work s \<and> us_caller s' \<noteq> Working"
  using assms(3)
proof cases
  case (take t pool)
  have "instruction_list (us_pool s) = t # instruction_list pool"
    using take(3) by (auto simp: Worker_take_def Let_def split: if_splits list.splits)
  then show ?thesis using assms(2) take(1) by (simp add: upload_work_def)
next
  case (leave t r info)
  note pos = count_inv_pos [OF assms(1), of t]
  have "info = finished (last_result (us_info s)) (us_info s)"
    using leave(2,3) pos(1) by (auto simp: worker_results split: if_splits)
  then show ?thesis using assms(2) leave(1) remove1_Suc [OF leave(2)] by (simp add: upload_work_def finished_def)
next
  case (send t)
  then show ?thesis using assms(2) remove1_Suc [OF send(2)] by (simp add: upload_work_def)
next
  case (fail t e)
  then show ?thesis using assms(2) count_inv_pos [OF assms(1), of t] worker_results(2) [of "us_info s" t e]
      remove1_Suc [OF fail(2)] by (simp add: upload_work_def finished_def)
next
  case (answer t etag)
  then show ?thesis using assms(2) count_inv_pos [OF assms(1), of t] worker_results(3) [of "us_info s" t etag]
      remove1_Suc [OF answer(2)] by (simp add: upload_work_def finished_def answered_def)
next
  case post
  then show ?thesis using assms(2) by (simp add: upload_work_def)
next
  case (round result info)
  then show ?thesis by (auto simp: upload_work_def wait_round_def Let_def split: if_splits option.splits)
qed (use assms(2) in simp_all)

lemma waiting_not_stuck:
  assumes "count_inv s" and "us_caller s = Waiting" and "0 < n"
  shows "\<exists>s'. upload_step n s s'"
proof -
  have c: "thpoolman_sem (us_pool s) = length (instruction_list (us_pool s))"
    "0 < length (queued s) + (uploaded_sem (us_info s) + us_posting s)"
    using assms(1,2) by (auto simp: count_inv_def)
  consider "us_posting s \<noteq> 0" | "us_sending s \<noteq> []" | "us_taken s \<noteq> []" | "0 < uploaded_sem (us_info s)"
    | "us_posting s = 0" "us_sending s = []" "us_taken s = []" "instruction_list (us_pool s) \<noteq> []"
    using c(2) by (auto simp: queued_def)
  then show ?thesis
  proof cases
    case 1
    then show ?thesis using upload_step.post [of s n] by auto
  next
    case 2
    then obtain t where "t \<in> set (us_sending s)" by (cases "us_sending s") auto
    then show ?thesis using upload_step.answer by blast
  next
    case 3
    then obtain t where "t \<in> set (us_taken s)" by (cases "us_taken s") auto
    then show ?thesis using upload_step.leave upload_step.send by (cases "worker_check (us_info s)") fast+
  next
    case 4
    obtain r info where "wait_round ((us_info s)\<lparr>uploaded_sem := uploaded_sem (us_info s) - 1\<rparr>) = (r, info)" by (rule prod.exhaust)
    then show ?thesis using upload_step.round [OF assms(2) 4] by blast
  next
    case 5
    then obtain t ts where il: "instruction_list (us_pool s) = t # ts" by (cases "instruction_list (us_pool s)") auto
    then have "Worker_take (us_pool s) = Some (Some t, (us_pool s)\<lparr>thpoolman_sem := length ts, instruction_list := ts\<rparr>)"
      using c(1) by (simp add: Worker_take_def)
    then show ?thesis using upload_step.take [of s n t] assms(3) 5 by auto
  qed
qed

text \<open>
  C30: the wait for the threads ends.  While the caller waits, in every state the system can reach, some thread can
  take a step, and every step any thread takes leaves less to do: no step can be lost or repeated for ever, and when
  the steps end the wait has returned.
\<close>
theorem upload_wait_ends:
  assumes "upload_reach n s" and "us_caller s = Waiting" and "0 < n"
  shows "(\<exists>s'. upload_step n s s') \<and>
    (\<forall>s'. upload_step n s s' \<longrightarrow> upload_work s' < upload_work s \<and> (us_caller s' = Waiting \<or> (\<exists>r. us_caller s' = Returned r)))"
proof (intro conjI allI impI)
  note inv = upload_reach_count [OF assms(1)]
  show "\<exists>s'. upload_step n s s'" by (rule waiting_not_stuck [OF inv assms(2,3)])
  fix s' assume "upload_step n s s'"
  from waiting_step_works [OF inv assms(2) this] show "upload_work s' < upload_work s"
    "us_caller s' = Waiting \<or> (\<exists>r. us_caller s' = Returned r)" by (auto intro: caller.exhaust)
qed

text \<open>The upload of one piece: two threads, and a caller that waits.\<close>

definition demo_waiting :: upload_sys where
  "demo_waiting = (let info = (fst (PseudoFdInfo_new 3 2 []))\<lparr>upload_id := ''id'', upload_fd := 7\<rparr>;
     pool = \<lparr>pool_singleton = True, instruction_list = [], thpoolman_sem = 0, is_exit = False\<rparr>
   in case ParallelMultipartUpload Some ''/f'' (pieces 10 0 1) False info pool of (ok, info, pool) \<Rightarrow>
     \<lparr>us_info = info, us_pool = pool, us_taken = [], us_sending = [], us_posting = 0, us_answers = [], us_caller = Waiting\<rparr>)"

lemma demo_waiting_reach: "upload_reach 2 demo_waiting"
proof -
  define info where "info = (fst (PseudoFdInfo_new 3 2 []))\<lparr>upload_id := ''id'', upload_fd := 7\<rparr>"
  define pool where "pool = \<lparr>pool_singleton = True, instruction_list = [], thpoolman_sem = 0, is_exit = False\<rparr>"
  define s where "s = \<lparr>us_info = info, us_pool = pool, us_taken = [], us_sending = [], us_posting = 0, us_answers = [],
    us_caller = Working\<rparr>"
  have zero: "upload_list info = []" "etag_entities info = []" "uploaded_sem info = 0" "instruct_count info = 0"
    "completed_count info = 0" "last_result info = 0"
    by (simp_all add: info_def PseudoFdInfo_new_def Let_def split: prod.split)
  have s: "upload_reach 2 s" unfolding s_def pool_def by (rule upload_reach.init [OF zero])
  obtain ok info2 pool2 where G: "ParallelMultipartUpload Some ''/f'' (pieces 10 0 1) False info pool = (ok, info2, pool2)"
    by (rule prod_cases3)
  have "upload_step 2 s (s\<lparr>us_info := info2, us_pool := pool2\<rparr>)"
    by (rule upload_step.give) (use G in \<open>simp_all add: s_def\<close>)
  with s have r: "upload_reach 2 (s\<lparr>us_info := info2, us_pool := pool2\<rparr>)" by (rule upload_reach.step)
  have "instruct_count info2 = 1"
    using G by (auto simp: ParallelMultipartUpload_def OpenUploadFd_def pieces_def info_def pool_def PseudoFdInfo_new_def Let_def
        InsertUploadPart_def IsUploading_def Instruct_def SetInstruction_def split: prod.splits)
  then have "upload_step 2 (s\<lparr>us_info := info2, us_pool := pool2\<rparr>) (s\<lparr>us_info := info2, us_pool := pool2, us_caller := Waiting\<rparr>)"
    using upload_step.wait [of "s\<lparr>us_info := info2, us_pool := pool2\<rparr>" 2] by (simp add: s_def wait_first_def)
  with r have "upload_reach 2 (s\<lparr>us_info := info2, us_pool := pool2, us_caller := Waiting\<rparr>)" by (rule upload_reach.step)
  moreover have "s\<lparr>us_info := info2, us_pool := pool2, us_caller := Waiting\<rparr> = demo_waiting"
    using G by (simp add: demo_waiting_def info_def [symmetric] pool_def [symmetric] s_def)
  ultimately show ?thesis by simp
qed

lemma demo_waiting_caller: "us_caller demo_waiting = Waiting"
  by (simp add: demo_waiting_def Let_def split: prod.split)

theorem upload_wait_ends_witness: "\<exists>s'. upload_step 2 demo_waiting s'"
  using upload_wait_ends [OF demo_waiting_reach demo_waiting_caller] by simp

subsection \<open>What the wait's result says\<close>

definition works :: "upload_sys \<Rightarrow> thparam multiset" where
  "works s = mset (queued s) + mset (map fst (us_answers s))"

text \<open>Each entity has one thread, which has its number; its etag is the one answered; each part has a thread or an answer.\<close>

definition etag_once :: "thparam multiset \<Rightarrow> bool" where
  "etag_once W = (\<forall>i. count (image_mset th_petag W) i \<le> 1)"

definition etag_numbered :: "etagpair list \<Rightarrow> thparam multiset \<Rightarrow> bool" where
  "etag_numbered ents W = (\<forall>t \<in># W. th_petag t < length ents \<and> ep_part_num (ents ! th_petag t) = th_part_num t)"

definition etag_given :: "etagpair list \<Rightarrow> (thparam \<times> string) list \<Rightarrow> bool" where
  "etag_given ents answers = (\<forall>(t, e) \<in> set answers. ep_etag (ents ! th_petag t) = e)"

definition part_works :: "etagpair list \<Rightarrow> int \<Rightarrow> thparam multiset \<Rightarrow> filepart \<Rightarrow> bool" where
  "part_works ents result W u = (\<exists>i. fp_petag u = Some i \<and> i < length ents \<and>
     (result \<noteq> 0 \<or> (\<exists>t \<in># W. th_petag t = i \<and> th_start t = fp_startpos u \<and> th_size t = fp_size u)))"

definition etag_inv :: "upload_sys \<Rightarrow> bool" where
  "etag_inv s =
     (etag_once (works s) \<and> etag_numbered (etag_entities (us_info s)) (works s) \<and>
      etag_given (etag_entities (us_info s)) (us_answers s) \<and>
      (\<forall>u \<in> set (upload_list (us_info s)). part_works (etag_entities (us_info s)) (last_result (us_info s)) (works s) u))"

lemma etag_once_less: "etag_once W \<Longrightarrow> V \<subseteq># W \<Longrightarrow> etag_once V"
  unfolding etag_once_def by (meson image_mset_subseteq_mono le_trans mset_subset_eq_count)

lemma etag_numbered_less: "etag_numbered ents W \<Longrightarrow> V \<subseteq># W \<Longrightarrow> etag_numbered ents V"
  unfolding etag_numbered_def by (meson mset_subset_eqD)

text \<open>A step that keeps the entities, and loses work only with an error.\<close>

lemma etag_inv_less:
  assumes "etag_inv s" and "works s' \<subseteq># works s" and "works s' = works s \<or> last_result (us_info s') \<noteq> 0"
    and "etag_entities (us_info s') = etag_entities (us_info s)" and "us_answers s' = us_answers s"
    and "upload_list (us_info s') = [] \<or> upload_list (us_info s') = upload_list (us_info s) \<and>
      (last_result (us_info s) \<noteq> 0 \<longrightarrow> last_result (us_info s') \<noteq> 0)"
  shows "etag_inv s'"
proof -
  have "part_works (etag_entities (us_info s)) (last_result (us_info s')) (works s') u"
    if "u \<in> set (upload_list (us_info s'))" for u
  proof -
    have "u \<in> set (upload_list (us_info s))" "last_result (us_info s) \<noteq> 0 \<longrightarrow> last_result (us_info s') \<noteq> 0"
      using that assms(6) by auto
    moreover from this have "part_works (etag_entities (us_info s)) (last_result (us_info s)) (works s) u"
      using assms(1) by (simp add: etag_inv_def)
    ultimately show ?thesis using assms(3) by (auto simp: part_works_def)
  qed
  then show ?thesis
    using assms(1,2,4,5) etag_once_less [OF _ assms(2)] etag_numbered_less [OF _ assms(2)] by (simp add: etag_inv_def)
qed

text \<open>Giving parts: new work, with new entities and parts of its own.\<close>

lemma etag_inv_give:
  assumes "etag_inv s" and "gives ts (us_info s) (us_pool s) info pool"
    and s': "s' = s\<lparr>us_info := info, us_pool := pool\<rparr>"
  shows "etag_inv s'"
proof -
  let ?ents = "etag_entities (us_info s)"
  have g: "instruction_list pool = instruction_list (us_pool s) @ ts" "etag_entities info = ?ents @ map new_entity ts"
    "map th_petag ts = [length ?ents..<length ?ents + length ts]" "last_result info = last_result (us_info s)"
    "set (upload_list info) = set (upload_list (us_info s)) \<union> new_part (physical_fd (us_info s)) ` set ts"
    using assms(2) by (simp_all add: gives_def)
  have W: "works s' = works s + mset ts" using g(1) s' by (simp add: works_def queued_def)
  have old: "etag_once (works s)" "etag_numbered ?ents (works s)" "etag_given ?ents (us_answers s)"
    "\<And>u. u \<in> set (upload_list (us_info s)) \<Longrightarrow> part_works ?ents (last_result (us_info s)) (works s) u"
    using assms(1) by (simp_all add: etag_inv_def)
  have petag: "th_petag (ts ! k) = length ?ents + k" if "k < length ts" for k
  proof -
    have "map th_petag ts ! k = [length ?ents..<length ?ents + length ts] ! k" using g(3) by simp
    then show ?thesis using that by simp
  qed
  have new: "length ?ents \<le> th_petag t \<and> th_petag t < length ?ents + length ts \<and>
      (?ents @ map new_entity ts) ! th_petag t = new_entity t" if "t \<in> set ts" for t
  proof -
    obtain k where "k < length ts" "t = ts ! k" using \<open>t \<in> set ts\<close> by (auto simp: in_set_conv_nth)
    then show ?thesis using petag by (simp add: nth_append)
  qed
  have "etag_once (works s')"
  proof -
    have "count (image_mset th_petag (works s + mset ts)) i \<le> 1" for i
    proof (cases "i < length ?ents")
      case True
      then have "i \<notin># image_mset th_petag (mset ts)" using new by fastforce
      then have "count (image_mset th_petag (mset ts)) i = 0" by (simp only: not_in_iff)
      then show ?thesis using old(1) by (simp add: etag_once_def)
    next
      case False
      then have "i \<notin># image_mset th_petag (works s)" using old(2) by (auto simp: etag_numbered_def)
      then have "count (image_mset th_petag (works s)) i = 0" by (simp only: not_in_iff)
      moreover have "distinct (map th_petag ts)" using g(3) by simp
      then have "count (mset (map th_petag ts)) i \<le> 1" by (simp add: distinct_count_atmost_1)
      ultimately show ?thesis by simp
    qed
    then show ?thesis using W by (simp add: etag_once_def)
  qed
  moreover have "etag_numbered (etag_entities info) (works s')"
    unfolding etag_numbered_def g(2) W
  proof
    fix t assume "t \<in># works s + mset ts"
    then consider "t \<in># works s" | "t \<in> set ts" by auto
    then show "th_petag t < length (?ents @ map new_entity ts) \<and>
        ep_part_num ((?ents @ map new_entity ts) ! th_petag t) = th_part_num t"
    proof cases
      case 1
      then show ?thesis using old(2) by (auto simp: etag_numbered_def nth_append)
    next
      case 2
      then show ?thesis using new [OF 2] by (simp add: new_entity_def)
    qed
  qed
  moreover have "etag_given (etag_entities info) (us_answers s)"
  proof -
    have "th_petag t < length ?ents" if "(t, e) \<in> set (us_answers s)" for t e
      using old(2) that by (force simp: etag_numbered_def works_def)
    then show ?thesis using old(3) g(2) by (auto simp: etag_given_def nth_append)
  qed
  moreover have "part_works (etag_entities info) (last_result info) (works s') u" if u: "u \<in> set (upload_list info)" for u
  proof -
    consider "u \<in> set (upload_list (us_info s))" | t where "t \<in> set ts" "u = new_part (physical_fd (us_info s)) t"
      using u g(5) by auto
    then show ?thesis
    proof cases
      case 1
      then show ?thesis using old(4) g(2,4) W by (fastforce simp: part_works_def)
    next
      case 2
      then show ?thesis using new [OF 2(1)] g(2) W by (auto simp: part_works_def new_part_def filepart_def)
    qed
  qed
  ultimately show ?thesis using s' by (simp add: etag_inv_def)
qed

text \<open>An answer: the work goes from the threads to the answers, and its entity gets the etag.\<close>

lemma etag_inv_answer:
  assumes "etag_inv s" and "t \<in> set (us_sending s)"
    and "s' = s\<lparr>us_info := finished 0 (answered t etag (us_info s)), us_sending := remove1 t (us_sending s),
      us_posting := us_posting s + 1, us_answers := us_answers s @ [(t, etag)]\<rparr>"
  shows "etag_inv s'"
proof -
  let ?ents = "etag_entities (us_info s)"
  let ?new = "?ents[th_petag t := (?ents ! th_petag t)\<lparr>ep_etag := etag\<rparr>]"
  have old: "etag_once (works s)" "etag_numbered ?ents (works s)" "etag_given ?ents (us_answers s)"
    "\<And>u. u \<in> set (upload_list (us_info s)) \<Longrightarrow> part_works ?ents (last_result (us_info s)) (works s) u"
    using assms(1) by (simp_all add: etag_inv_def)
  have W: "works s' = works s" using assms(2,3) by (simp add: works_def queued_def)
  have info: "etag_entities (us_info s') = ?new" "last_result (us_info s') = last_result (us_info s)"
    "upload_list (us_info s') = upload_list (us_info s)" "us_answers s' = us_answers s @ [(t, etag)]"
    using assms(3) by (simp_all add: finished_def answered_def)
  have t: "t \<in># works s" using assms(2) by (simp add: works_def queued_def)
  have len: "th_petag t < length ?ents" using old(2) t by (simp add: etag_numbered_def)
  have other: "th_petag t' \<noteq> th_petag t" if "(t', e) \<in> set (us_answers s)" for t' e
  proof
    assume same: "th_petag t' = th_petag t"
    have "{#t#} \<subseteq># mset (queued s)" "{#t'#} \<subseteq># mset (map fst (us_answers s))"
      using assms(2) that by (force simp: queued_def single_subset_iff simp del: mset_append mset_map)+
    then have "{#t#} + {#t'#} \<subseteq># works s" unfolding works_def by (rule subset_mset.add_mono)
    then have "image_mset th_petag ({#t#} + {#t'#}) \<subseteq># image_mset th_petag (works s)" by (rule image_mset_subseteq_mono)
    then have "count (image_mset th_petag ({#t#} + {#t'#})) (th_petag t) \<le> count (image_mset th_petag (works s)) (th_petag t)"
      by (rule mset_subset_eq_count)
    also have "\<dots> \<le> 1" using old(1) by (simp add: etag_once_def)
    finally show False using same by simp
  qed
  have "etag_numbered ?new (works s)" using old(2) len by (auto simp: etag_numbered_def nth_list_update)
  moreover have "etag_given ?new (us_answers s @ [(t, etag)])"
    using old(3) other len by (fastforce simp: etag_given_def nth_list_update)
  moreover have "part_works ?new (last_result (us_info s)) (works s) u" if "u \<in> set (upload_list (us_info s))" for u
    using old(4) [OF that] by (simp add: part_works_def)
  ultimately show ?thesis using old(1) W info by (simp add: etag_inv_def)
qed

lemma etag_inv_step:
  assumes "count_inv s" and "etag_inv s" and "upload_step n s s'"
  shows "etag_inv s'"
  using assms(3)
proof cases
  case (take t pool)
  have "instruction_list (us_pool s) = t # instruction_list pool"
    using take(3) by (auto simp: Worker_take_def Let_def split: if_splits list.splits)
  then have "works s' = works s" using take(1) by (simp add: works_def queued_def)
  then show ?thesis using take(1) by (intro etag_inv_less [OF assms(2)]) simp_all
next
  case (leave t r info)
  note pos = count_inv_pos [OF assms(1), of t]
  have info: "info = finished (last_result (us_info s)) (us_info s)" "last_result (us_info s) \<noteq> 0"
    using leave(2,3) pos(1) by (auto simp: worker_results split: if_splits)
  have "works s' \<subseteq># works s" using leave(1) by (simp add: works_def queued_def)
  then show ?thesis using leave(1) info by (intro etag_inv_less [OF assms(2)]) (simp_all add: finished_def)
next
  case (send t)
  then have "works s' = works s" by (simp add: works_def queued_def)
  then show ?thesis using send(1) by (intro etag_inv_less [OF assms(2)]) simp_all
next
  case (fail t e)
  note pos = count_inv_pos [OF assms(1), of t]
  have "us_info s' = finished e (us_info s)" using fail pos worker_results(2) [of "us_info s" t e] by simp
  moreover have "works s' \<subseteq># works s" using fail(1) by (simp add: works_def queued_def)
  ultimately show ?thesis using fail(1,3) by (intro etag_inv_less [OF assms(2)]) (simp_all add: finished_def)
next
  case (answer t etag)
  note pos = count_inv_pos [OF assms(1), of t]
  show ?thesis
    by (rule etag_inv_answer [OF assms(2) answer(2), of _ etag])
      (use answer pos worker_results(3) [of "us_info s" t etag] in simp)
next
  case post
  then have "works s' = works s" by (simp add: works_def queued_def)
  then show ?thesis using post(1) by (intro etag_inv_less [OF assms(2)]) simp_all
next
  case (start new_id ok info)
  then have "works s' = works s" by (simp add: works_def queued_def)
  then show ?thesis using start
    by (intro etag_inv_less [OF assms(2)]) (auto simp: RowInitialUploadInfo_def ResetUploadInfo_def)
next
  case (give dup_fd path mplist is_copy ok info pool)
  have "pool_singleton (us_pool s)" using assms(1) by (simp add: count_inv_def)
  from ParallelMultipartUpload_gives [OF this give(3)] obtain ts where "gives ts (us_info s) (us_pool s) info pool" by blast
  then show ?thesis by (rule etag_inv_give [OF assms(2) _ give(1)])
next
  case wait
  then have "works s' = works s" by (simp add: works_def queued_def)
  then show ?thesis using wait(1) by (intro etag_inv_less [OF assms(2)]) simp_all
next
  case (no_wait r)
  then have "works s' = works s" by (simp add: works_def queued_def)
  then show ?thesis using no_wait(1) by (intro etag_inv_less [OF assms(2)]) simp_all
next
  case (round result info)
  then have "works s' = works s" by (simp add: works_def queued_def)
  moreover have "etag_entities info = etag_entities (us_info s)" "upload_list info = upload_list (us_info s)"
    "last_result info = last_result (us_info s)"
    using round(4) by (auto simp: wait_round_def Let_def split: if_splits)
  ultimately show ?thesis using round(1) by (intro etag_inv_less [OF assms(2)]) simp_all
next
  case (forget r ok info)
  then have "works s' = works s" by (simp add: works_def queued_def)
  then show ?thesis using forget
    by (intro etag_inv_less [OF assms(2)]) (auto simp: ClearUploadInfo_def ResetUploadInfo_def)
next
  case (more r)
  then have "works s' = works s" by (simp add: works_def queued_def)
  then show ?thesis using more(1) by (intro etag_inv_less [OF assms(2)]) simp_all
qed

lemma upload_reach_etag: "upload_reach n s \<Longrightarrow> etag_inv s"
proof (induction rule: upload_reach.induct)
  case (init info)
  then show ?case
    by (simp add: etag_inv_def works_def queued_def etag_once_def etag_numbered_def etag_given_def)
next
  case (step s s')
  then show ?case using etag_inv_step upload_reach_count by blast
qed

lemma etag_loop_all:
  "\<forall>u \<in> set us. \<exists>i. fp_petag u = Some i \<Longrightarrow>
     etag_loop ents acc us = (us \<noteq> [] \<or> acc \<noteq> [], acc @ map (\<lambda>u. ents ! the (fp_petag u)) us)"
  by (induction us arbitrary: acc) auto

text \<open>
  C29: what the caller may conclude when its wait has returned.  No thread has anything left to do.  If the result is
  0, \<^verbatim>\<open>GetEtaglist\<close> gives the list to complete the upload with: an etag for each part, in their order, the one S3
  answered to the upload of exactly that area under that part number.
\<close>
theorem upload_wait_result:
  assumes "upload_reach n s" and "us_caller s = Returned r"
  shows "queued s = [] \<and> us_posting s = 0 \<and> last_result (us_info s) = r \<and>
    (r = 0 \<longrightarrow> upload_list (us_info s) \<noteq> [] \<longrightarrow> IsUploading (us_info s) \<longrightarrow>
      (\<exists>etags. GetEtaglist list0 (us_info s) = (True, etags) \<and>
        list_all2 (\<lambda>u e. \<exists>t. (t, ep_etag e) \<in> set (us_answers s) \<and> th_part_num t = ep_part_num e \<and>
          th_start t = fp_startpos u \<and> th_size t = fp_size u) (upload_list (us_info s)) etags))"
proof -
  note c = upload_reach_count [OF assms(1)]
  have idle: "queued s = []" "us_posting s = 0" "last_result (us_info s) = r"
    using c assms(2) by (auto simp: count_inv_def)
  have e: "etag_numbered (etag_entities (us_info s)) (works s)" "etag_given (etag_entities (us_info s)) (us_answers s)"
    "\<And>u. u \<in> set (upload_list (us_info s)) \<Longrightarrow> part_works (etag_entities (us_info s)) r (works s) u"
    using upload_reach_etag [OF assms(1)] idle(3) by (simp_all add: etag_inv_def)
  let ?etags = "map (\<lambda>u. etag_entities (us_info s) ! the (fp_petag u)) (upload_list (us_info s))"
  have one: "\<exists>t. (t, ep_etag (etag_entities (us_info s) ! the (fp_petag u))) \<in> set (us_answers s) \<and>
      th_part_num t = ep_part_num (etag_entities (us_info s) ! the (fp_petag u)) \<and>
      th_start t = fp_startpos u \<and> th_size t = fp_size u"
    if r0: "r = 0" and u: "u \<in> set (upload_list (us_info s))" for u
  proof -
    obtain t where t: "t \<in># works s" "fp_petag u = Some (th_petag t)" "th_start t = fp_startpos u" "th_size t = fp_size u"
      using e(3) [OF u] r0 by (auto simp: part_works_def)
    then obtain x where "(t, x) \<in> set (us_answers s)" using idle(1) by (auto simp: works_def)
    moreover from this have "ep_etag (etag_entities (us_info s) ! th_petag t) = x" using e(2) by (auto simp: etag_given_def)
    moreover have "ep_part_num (etag_entities (us_info s) ! th_petag t) = th_part_num t"
      using e(1) t(1) by (simp add: etag_numbered_def)
    ultimately show ?thesis using t(2-4) by auto
  qed
  have "GetEtaglist list0 (us_info s) = (True, ?etags)"
    if "upload_list (us_info s) \<noteq> []" "IsUploading (us_info s)"
  proof -
    have "\<forall>u \<in> set (upload_list (us_info s)). \<exists>i. fp_petag u = Some i" using e(3) by (auto simp: part_works_def)
    then show ?thesis using that by (simp add: GetEtaglist_def etag_loop_all)
  qed
  then show ?thesis using idle one by (auto simp: list_all2_map2 list_all2_same)
qed

text \<open>A run: the piece is taken, sent, answered, counted, and the wait returns.\<close>

definition demo_thread :: thparam where
  "demo_thread = \<lparr>th_path = ''/f'', th_upload_id = ''id'', th_upload_fd = 7, th_start = 0, th_size = 10, th_is_copy = False,
     th_part_num = 1, th_petag = 0\<rparr>"

definition demo_upload_info :: "string \<Rightarrow> nat \<Rightarrow> int \<Rightarrow> int \<Rightarrow> PseudoFdInfo" where
  "demo_upload_info etag sem inst cmp = \<lparr>pseudo_fd = 2, physical_fd = 3, open_flags = 2, upload_id = ''id'', upload_fd = 7,
     upload_list = [new_part 3 demo_thread], etag_entities = [\<lparr>ep_etag = etag, ep_part_num = 1\<rparr>],
     uploaded_sem = sem, instruct_count = inst, completed_count = cmp, last_result = 0\<rparr>"

definition demo_state :: "PseudoFdInfo \<Rightarrow> thparam list \<Rightarrow> thparam list \<Rightarrow> thparam list \<Rightarrow> nat \<Rightarrow> (thparam \<times> string) list \<Rightarrow> caller \<Rightarrow> upload_sys" where
  "demo_state info il taken sending posting answers c =
     \<lparr>us_info = info, us_pool = \<lparr>pool_singleton = True, instruction_list = il, thpoolman_sem = length il, is_exit = False\<rparr>,
      us_taken = taken, us_sending = sending, us_posting = posting, us_answers = answers, us_caller = c\<rparr>"

lemma demo_waiting_eq: "demo_waiting = demo_state (demo_upload_info [] 0 1 0) [demo_thread] [] [] 0 [] Waiting"
  by (simp add: demo_waiting_def demo_state_def demo_upload_info_def demo_thread_def new_part_def filepart_def PseudoFdInfo_new_def
      CreatePseudoFd_def GetUnusedMinPseudoFd_def MIN_PSEUDOFD_NUMBER_def Let_def ParallelMultipartUpload_def OpenUploadFd_def
      pieces_def InsertUploadPart_def IsUploading_def Instruct_def SetInstruction_def)

lemma demo_returned_reach:
  "upload_reach 2 (demo_state (demo_upload_info ''e1'' 0 0 0) [] [] [] 0 [(demo_thread, ''e1'')] (Returned 0))"
proof -
  note reach = upload_reach.step
  have a: "upload_reach 2 (demo_state (demo_upload_info [] 0 1 0) [demo_thread] [] [] 0 [] Waiting)"
    using demo_waiting_reach by (simp only: demo_waiting_eq)
  have "upload_step 2 (demo_state (demo_upload_info [] 0 1 0) [demo_thread] [] [] 0 [] Waiting)
      (demo_state (demo_upload_info [] 0 1 0) [] [demo_thread] [] 0 [] Waiting)"
    using upload_step.take [of "demo_state (demo_upload_info [] 0 1 0) [demo_thread] [] [] 0 [] Waiting" 2 demo_thread]
    by (simp add: demo_state_def Worker_take_def)
  note b = reach [OF a this]
  have "upload_step 2 (demo_state (demo_upload_info [] 0 1 0) [] [demo_thread] [] 0 [] Waiting)
      (demo_state (demo_upload_info [] 0 1 0) [] [] [demo_thread] 0 [] Waiting)"
    using upload_step.send [of demo_thread "demo_state (demo_upload_info [] 0 1 0) [] [demo_thread] [] 0 [] Waiting" 2]
    by (simp add: demo_state_def worker_check_def demo_upload_info_def)
  note c = reach [OF b this]
  have "upload_step 2 (demo_state (demo_upload_info [] 0 1 0) [] [] [demo_thread] 0 [] Waiting)
      (demo_state (demo_upload_info ''e1'' 0 0 1) [] [] [] 1 [(demo_thread, ''e1'')] Waiting)"
    using upload_step.answer [of demo_thread "demo_state (demo_upload_info [] 0 1 0) [] [] [demo_thread] 0 [] Waiting" 2 "''e1''"]
    by (simp add: demo_state_def worker_end_def CompleteInstruction_def demo_upload_info_def demo_thread_def)
  note d = reach [OF c this]
  have "upload_step 2 (demo_state (demo_upload_info ''e1'' 0 0 1) [] [] [] 1 [(demo_thread, ''e1'')] Waiting)
      (demo_state (demo_upload_info ''e1'' 1 0 1) [] [] [] 0 [(demo_thread, ''e1'')] Waiting)"
    using upload_step.post [of "demo_state (demo_upload_info ''e1'' 0 0 1) [] [] [] 1 [(demo_thread, ''e1'')] Waiting" 2]
    by (simp add: demo_state_def demo_upload_info_def)
  note e = reach [OF d this]
  have "upload_step 2 (demo_state (demo_upload_info ''e1'' 1 0 1) [] [] [] 0 [(demo_thread, ''e1'')] Waiting)
      (demo_state (demo_upload_info ''e1'' 0 0 0) [] [] [] 0 [(demo_thread, ''e1'')] (Returned 0))"
    using upload_step.round [of "demo_state (demo_upload_info ''e1'' 1 0 1) [] [] [] 0 [(demo_thread, ''e1'')] Waiting" "Some 0"
        "demo_upload_info ''e1'' 0 0 0" 2]
    by (simp add: demo_state_def demo_upload_info_def wait_round_def)
  from reach [OF e this] show ?thesis .
qed

theorem upload_wait_result_witness:
  "\<exists>etags. GetEtaglist [] (demo_upload_info ''e1'' 0 0 0) = (True, etags) \<and>
     list_all2 (\<lambda>u e. \<exists>t. (t, ep_etag e) \<in> {(demo_thread, ''e1'')} \<and> th_part_num t = ep_part_num e \<and>
       th_start t = fp_startpos u \<and> th_size t = fp_size u) [new_part 3 demo_thread] etags"
  using upload_wait_result [OF demo_returned_reach, of 0 "[]"]
  by (simp add: demo_state_def demo_upload_info_def IsUploading_def)

subsection \<open>Cancelling\<close>

text \<open>
  \<^verbatim>\<open>CancelAllThreads\<close> waits only when some instruction has completed and some has not.  With instructions given and
  none completed it returns at once; the counters are then reset, and the threads that go on find them at 0.
\<close>

lemma CancelAllThreads_leaves_threads:
  assumes "0 < instruct_count info" and "completed_count info = 0"
  shows "CancelAllThreads wait info = (True, info)"
    and "fst (CompleteInstruction r (snd (ClearUploadInfo wait True info))) = False"
  using assms by (simp_all add: CancelAllThreads_def cancel_first_def ClearUploadInfo_def ResetUploadInfo_def
      CompleteInstruction_def)

end
