(* ===== verification/Ordered_Map.thy ===== *)
theory Ordered_Map
  imports Prelude "HOL-Library.Product_Lexorder"
begin

section \<open>Ordered maps (\<^verbatim>\<open>std::map\<close>)\<close>

text \<open>
  A \<^verbatim>\<open>std::map\<close> is the list of its entries in the order of iteration.  The order is that of a projection \<open>f\<close> of
  the keys: the key itself (\<open>self\<close>) for names, the text without case for the headers of a request (\<^verbatim>\<open>header_nocase_cmp\<close>).
  Assigning to a key that is there keeps the old spelling of the key, as \<^verbatim>\<open>operator[]\<close> does.
\<close>

abbreviation (input) self :: "'a \<Rightarrow> 'a" where
  "self \<equiv> (\<lambda>k. k)"

type_synonym ('k, 'v) omap = "('k \<times> 'v) list"

fun om_find :: "('k \<Rightarrow> 'o) \<Rightarrow> 'k \<Rightarrow> ('k, 'v) omap \<Rightarrow> 'v option" where
  "om_find f k [] = None"
| "om_find f k ((k', v) # m) = (if f k' = f k then Some v else om_find f k m)"

fun om_set :: "('k \<Rightarrow> 'o::linorder) \<Rightarrow> 'k \<Rightarrow> 'v \<Rightarrow> ('k, 'v) omap \<Rightarrow> ('k, 'v) omap" where
  "om_set f k v [] = [(k, v)]"
| "om_set f k v ((k', v') # m) =
     (if f k < f k' then (k, v) # (k', v') # m
      else if f k = f k' then (k', v) # m
      else (k', v') # om_set f k v m)"

definition om_del :: "('k \<Rightarrow> 'o) \<Rightarrow> 'k \<Rightarrow> ('k, 'v) omap \<Rightarrow> ('k, 'v) omap" where
  "om_del f k m = filter (\<lambda>e. f (fst e) \<noteq> f k) m"

definition om_ok :: "('k \<Rightarrow> 'o::linorder) \<Rightarrow> ('k, 'v) omap \<Rightarrow> bool" where
  "om_ok f m = sorted_wrt (<) (map (\<lambda>e. f (fst e)) m)"

lemma om_ok_simps [simp]:
  "om_ok f []"
  "om_ok f ((k, v) # m) \<longleftrightarrow> (\<forall>e \<in> set m. f k < f (fst e)) \<and> om_ok f m"
  by (auto simp: om_ok_def)

lemma om_find_set [simp]: "om_find f j (om_set f k v m) = (if f j = f k then Some v else om_find f j m)"
  by (induction f k v m rule: om_set.induct) auto

lemma om_find_del [simp]: "om_find f j (om_del f k m) = (if f j = f k then None else om_find f j m)"
  by (induction m) (auto simp: om_del_def)

lemma om_find_in: "om_find f k m = Some v \<Longrightarrow> \<exists>k'. f k' = f k \<and> (k', v) \<in> set m"
  by (induction f k m rule: om_find.induct) (auto split: if_splits)

lemma om_find_none: "om_find f k m = None \<longleftrightarrow> (\<forall>e \<in> set m. f (fst e) \<noteq> f k)"
  by (induction f k m rule: om_find.induct) auto

lemma om_find_iff:
  assumes "om_ok f m" and "inj f"
  shows "om_find f k m = Some v \<longleftrightarrow> (k, v) \<in> set m"
  using assms(1)
proof (induction m)
  case (Cons e m)
  then show ?case using injD [OF assms(2)] by (cases e) force
qed simp

lemma om_set_keys: "(\<lambda>e. f (fst e)) ` set (om_set f k v m) = insert (f k) ((\<lambda>e. f (fst e)) ` set m)"
  by (induction f k v m rule: om_set.induct) auto

lemma om_set_ok [simp]: "om_ok f m \<Longrightarrow> om_ok f (om_set f k v m)"
proof (induction f k v m rule: om_set.induct)
  case (2 f k v k' v' m)
  have "\<forall>e \<in> set (om_set f k v m). f (fst e) \<in> insert (f k) ((\<lambda>e. f (fst e)) ` set m)"
    using om_set_keys [of f k v m] by blast
  with 2 show ?case by fastforce
qed simp

lemma om_ok_filter [simp]: "om_ok f m \<Longrightarrow> om_ok f (filter P m)"
  by (induction m) auto

lemma om_del_ok [simp]: "om_ok f m \<Longrightarrow> om_ok f (om_del f k m)"
  by (simp add: om_del_def)

lemma om_ok_distinct: "om_ok f m \<Longrightarrow> distinct (map (\<lambda>e. f (fst e)) m)"
  by (simp add: om_ok_def strict_sorted_iff)

lemma om_ok_distinct_keys: "om_ok f m \<Longrightarrow> distinct (map fst m)"
proof (induction m)
  case (Cons e m)
  then have "fst e \<notin> fst ` set m" by (cases e) force
  with Cons show ?case by (cases e) simp
qed simp

lemma length_om_set:
  "om_ok f m \<Longrightarrow> length (om_set f k v m) = length m + (if om_find f k m = None then 1 else 0)"
proof (induction f k v m rule: om_set.induct)
  case (2 f k v k' v' m)
  show ?case
  proof (cases "f k < f k'")
    case True
    then have "\<forall>e \<in> set m. f (fst e) \<noteq> f k" using 2(2) by force
    then have "om_find f k m = None" by (simp add: om_find_none)
    with True show ?thesis by auto
  qed (use 2 in auto)
qed simp

lemma length_om_del_le: "length (om_del f k m) \<le> length m"
  by (simp add: om_del_def)

lemma om_del_absent: "om_find f k m = None \<Longrightarrow> om_del f k m = m"
  by (induction m) (auto simp: om_del_def om_find_none)

text \<open>What a change of one entry does to a count of entries.\<close>

definition om_count :: "('v \<Rightarrow> bool) \<Rightarrow> ('k, 'v) omap \<Rightarrow> nat" where
  "om_count P m = length (filter (\<lambda>e. P (snd e)) m)"

lemma om_count_simps [simp]:
  "om_count P [] = 0" "om_count P (e # m) = (if P (snd e) then 1 else 0) + om_count P m"
  by (simp_all add: om_count_def)

lemma om_count_set:
  assumes "om_ok f m"
  shows "om_count P (om_set f k v m) + (case om_find f k m of Some u \<Rightarrow> if P u then 1 else 0 | None \<Rightarrow> 0)
         = om_count P m + (if P v then 1 else 0)"
  using assms
proof (induction f k v m rule: om_set.induct)
  case (2 f k v k' v' m)
  show ?case
  proof (cases "f k < f k'")
    case True
    then have "\<forall>e \<in> set m. f (fst e) \<noteq> f k" using 2(2) by force
    then have "om_find f k m = None" by (simp add: om_find_none)
    with True show ?thesis by auto
  qed (use 2 in \<open>auto split: option.splits\<close>)
qed simp

lemma om_count_le: "om_count P m \<le> length m"
  by (simp add: om_count_def)

lemma om_count_filter_le: "om_count P (filter Q m) \<le> om_count P m"
  by (induction m) auto

lemma om_count_del_le: "om_count P (om_del f k m) \<le> om_count P m"
  by (simp add: om_del_def om_count_filter_le)

lemma om_find_filter:
  "om_ok self m \<Longrightarrow> om_find self k (filter P m) = (case om_find self k m of Some v \<Rightarrow> if P (k, v) then Some v else None | None \<Rightarrow> None)"
proof (induction m)
  case (Cons e m)
  have "k = fst e \<Longrightarrow> om_find self k m = None" using Cons.prems by (cases e) (force simp: om_find_none)
  moreover have "om_find self k m = None \<Longrightarrow> om_find self k (filter P m) = None" by (auto simp: om_find_none)
  ultimately show ?case using Cons by (cases e) (auto split: option.splits)
qed simp

end
