(* ===== verification/S3fs_Util.thy ===== *)
theory S3fs_Util
  imports Ordered_Map String_Util
begin

section \<open>Paths, times and attributes of files (\<^verbatim>\<open>s3fs/s3fs_util.cpp\<close>)\<close>

text \<open>
  \<^verbatim>\<open>mode_t\<close>, \<^verbatim>\<open>uid_t\<close> and \<^verbatim>\<open>gid_t\<close> are 32-bit words, sizes and times integers.  \<^verbatim>\<open>dirname\<close> and \<^verbatim>\<open>basename\<close> are those of
  the C library: both ignore slashes at the end.
\<close>

type_synonym mode_t = "32 word"

definition S_IFMT :: mode_t where "S_IFMT = 0xF000"
definition S_IFDIR :: mode_t where "S_IFDIR = 0x4000"
definition S_IFREG :: mode_t where "S_IFREG = 0x8000"
definition S_IFLNK :: mode_t where "S_IFLNK = 0xA000"

definition S_ISDIR :: "mode_t \<Rightarrow> bool" where "S_ISDIR mode = (mode AND S_IFMT = S_IFDIR)"
definition S_ISREG :: "mode_t \<Rightarrow> bool" where "S_ISREG mode = (mode AND S_IFMT = S_IFREG)"
definition S_ISLNK :: "mode_t \<Rightarrow> bool" where "S_ISLNK mode = (mode AND S_IFMT = S_IFLNK)"

record timespec =
  tv_sec :: int
  tv_nsec :: int

record file_stat =
  st_mode :: mode_t
  st_nlink :: nat
  st_uid :: "32 word"
  st_gid :: "32 word"
  st_size :: int
  st_blocks :: int
  st_blksize :: int
  st_atim :: timespec
  st_mtim :: timespec
  st_ctim :: timespec

definition zero_time :: timespec where "zero_time = \<lparr>tv_sec = 0, tv_nsec = 0\<rparr>"

text \<open>A \<^verbatim>\<open>struct stat\<close> after \<^verbatim>\<open>memset(pst, 0, ..)\<close>.\<close>

definition zero_stat :: file_stat where
  "zero_stat = \<lparr>st_mode = 0, st_nlink = 0, st_uid = 0, st_gid = 0, st_size = 0, st_blocks = 0, st_blksize = 0,
     st_atim = zero_time, st_mtim = zero_time, st_ctim = zero_time\<rparr>"

definition compare_timespec :: "timespec \<Rightarrow> timespec \<Rightarrow> int" where
  "compare_timespec ts1 ts2 =
     (if tv_sec ts1 < tv_sec ts2 then - 1
      else if tv_sec ts2 < tv_sec ts1 then 1
      else if tv_nsec ts1 < tv_nsec ts2 then - 1
      else if tv_nsec ts2 < tv_nsec ts1 then 1
      else 0)"

datatype stat_time_type = ATIME | MTIME | CTIME

definition set_timespec_to_stat :: "stat_time_type \<Rightarrow> timespec \<Rightarrow> file_stat \<Rightarrow> file_stat" where
  "set_timespec_to_stat ty ts st =
     (case ty of ATIME \<Rightarrow> st\<lparr>st_atim := ts\<rparr> | MTIME \<Rightarrow> st\<lparr>st_mtim := ts\<rparr> | CTIME \<Rightarrow> st\<lparr>st_ctim := ts\<rparr>)"

definition set_stat_to_timespec :: "file_stat \<Rightarrow> stat_time_type \<Rightarrow> timespec" where
  "set_stat_to_timespec st ty = (case ty of ATIME \<Rightarrow> st_atim st | MTIME \<Rightarrow> st_mtim st | CTIME \<Rightarrow> st_ctim st)"

definition compare_stat_timespec :: "file_stat \<Rightarrow> stat_time_type \<Rightarrow> timespec \<Rightarrow> int" where
  "compare_stat_timespec st ty ts = compare_timespec (set_stat_to_timespec st ty) ts"

subsection \<open>Names\<close>

definition rstrip_slash :: "string \<Rightarrow> string" where
  "rstrip_slash s = rev (dropWhile (\<lambda>c. c = CHR ''/'') (rev s))"

definition last_comp :: "string \<Rightarrow> string" where
  "last_comp s = rev (takeWhile (\<lambda>c. c \<noteq> CHR ''/'') (rev s))"

definition upto_slash :: "string \<Rightarrow> string" where
  "upto_slash s = rev (dropWhile (\<lambda>c. c \<noteq> CHR ''/'') (rev s))"

definition mydirname :: "string \<Rightarrow> string" where
  "mydirname path =
     (let path = c_str path; s = rstrip_slash path
      in if path = [] then []
         else if s = [] then ''/''
         else if upto_slash s = [] then ''.''
         else if rstrip_slash (upto_slash s) = [] then ''/''
         else rstrip_slash (upto_slash s))"

definition mybasename :: "string \<Rightarrow> string" where
  "mybasename path =
     (let path = c_str path; s = rstrip_slash path
      in if path = [] then [] else if s = [] then ''/'' else last_comp s)"

text \<open>The name of a file in a directory, and how it is taken apart again.\<close>

definition ends_slash :: "string \<Rightarrow> bool" where
  "ends_slash s = (s \<noteq> [] \<and> last s = CHR ''/'')"

definition good_name :: "string \<Rightarrow> bool" where
  "good_name n = (n \<noteq> [] \<and> (\<forall>c \<in> set n. c \<noteq> CHR ''/'' \<and> uc c \<noteq> 0))"

definition good_dir :: "string \<Rightarrow> bool" where
  "good_dir d = (d \<noteq> [] \<and> \<not> ends_slash d \<and> (\<forall>c \<in> set d. uc c \<noteq> 0))"

lemma c_str_same: "\<forall>c \<in> set s. uc c \<noteq> 0 \<Longrightarrow> c_str s = s"
  by (simp add: c_str_def)

lemma rstrip_slash_name [simp]: "s \<noteq> [] \<Longrightarrow> last s \<noteq> CHR ''/'' \<Longrightarrow> rstrip_slash s = s"
  by (cases s rule: rev_cases) (auto simp: rstrip_slash_def)

lemma good_name_last: "good_name n \<Longrightarrow> n \<noteq> [] \<and> last n \<noteq> CHR ''/''"
  using last_in_set [of n] by (auto simp: good_name_def)

lemma takeWhile_dropWhile_at:
  "\<forall>c \<in> set xs. P c \<Longrightarrow> \<not> P s \<Longrightarrow> takeWhile P (xs @ s # r) = xs \<and> dropWhile P (xs @ s # r) = s # r"
  by (induction xs) auto

lemma name_split:
  assumes "good_name n"
  shows "last_comp (p @ CHR ''/'' # n) = n" and "upto_slash (p @ CHR ''/'' # n) = p @ ''/''"
  using assms takeWhile_dropWhile_at [of "rev n" "\<lambda>c. c \<noteq> CHR ''/''" "CHR ''/''" "rev p"]
  by (simp_all add: good_name_def last_comp_def upto_slash_def)

lemma zero_char_slash: "uc (CHR ''/'') \<noteq> 0" by simp

lemma path_no_nul:
  assumes "\<forall>c \<in> set d. uc c \<noteq> 0" and "good_name n"
  shows "c_str (d @ CHR ''/'' # n) = d @ CHR ''/'' # n"
  using assms by (intro c_str_same) (auto simp: good_name_def)

lemma dirname_basename:
  assumes "good_dir d" and "good_name n"
  shows "mydirname (d @ CHR ''/'' # n) = d" and "mybasename (d @ CHR ''/'' # n) = n"
proof -
  have d: "d \<noteq> []" "last d \<noteq> CHR ''/''" "\<forall>c \<in> set d. uc c \<noteq> 0" using assms(1) by (auto simp: good_dir_def ends_slash_def)
  have n: "n \<noteq> []" "last n \<noteq> CHR ''/''" using good_name_last [OF assms(2)] by auto
  have c: "c_str (d @ CHR ''/'' # n) = d @ CHR ''/'' # n" using d assms by (simp add: path_no_nul)
  have s: "rstrip_slash (d @ CHR ''/'' # n) = d @ CHR ''/'' # n" using n by simp
  have u: "rstrip_slash (d @ ''/'') = d" using d by (cases d rule: rev_cases) (auto simp: rstrip_slash_def)
  show "mybasename (d @ CHR ''/'' # n) = n" using c s n assms(2) by (simp add: mybasename_def name_split Let_def)
  show "mydirname (d @ CHR ''/'' # n) = d" using c s n u d assms(2) by (simp add: mydirname_def name_split Let_def)
qed

lemma dirname_root:
  assumes "good_name n"
  shows "mydirname (CHR ''/'' # n) = ''/''" and "mybasename (CHR ''/'' # n) = n"
proof -
  have n: "n \<noteq> []" "last n \<noteq> CHR ''/''" using good_name_last [OF assms(1)] by auto
  have c: "c_str (CHR ''/'' # n) = CHR ''/'' # n" using path_no_nul [of "[]" n] assms by simp
  have s: "rstrip_slash (CHR ''/'' # n) = CHR ''/'' # n" using n by simp
  have u: "rstrip_slash ''/'' = []" by (simp add: rstrip_slash_def)
  show "mybasename (CHR ''/'' # n) = n" using c s n name_split(1) [OF assms, of "[]"] by (simp add: mybasename_def Let_def)
  show "mydirname (CHR ''/'' # n) = ''/''" using c s n u name_split(2) [OF assms, of "[]"] by (simp add: mydirname_def Let_def)
qed

end
