(* ===== verification/Meta_Header.thy ===== *)
theory Meta_Header
  imports S3fs_Util
begin

section \<open>Headers of objects (\<^verbatim>\<open>s3fs/metaheader.cpp\<close>, \<^verbatim>\<open>convert_header_to_stat\<close> of \<^verbatim>\<open>s3fs/cache.cpp\<close>)\<close>

text \<open>
  The attributes of a file are headers of its object.  A header is looked up without case.  What the process
  takes from its environment is a record of parameters: the effective user and group, the option
  \<^verbatim>\<open>complement_stat\<close>, and the time \<^verbatim>\<open>strptime\<close> and \<^verbatim>\<open>timegm\<close> read from an HTTP date.
\<close>

type_synonym headers_t = "(string, string) omap"

definition nocase :: "string \<Rightarrow> string" where
  "nocase s = lower (c_str s)"

definition hd_find :: "string \<Rightarrow> headers_t \<Rightarrow> string option" where
  "hd_find k meta = om_find nocase k meta"

definition hd_set :: "string \<Rightarrow> string \<Rightarrow> headers_t \<Rightarrow> headers_t" where
  "hd_set k v meta = om_set nocase k v meta"

record process_env =
  geteuid :: "32 word"
  getegid :: "32 word"
  complement_stat :: bool
  http_date :: "string \<Rightarrow> int"

definition DEFAULT_TIMESPEC :: timespec where
  "DEFAULT_TIMESPEC = \<lparr>tv_sec = - 1, tv_nsec = 0\<rparr>"

definition cvt_string_to_time :: "string \<Rightarrow> timespec" where
  "cvt_string_to_time str =
     (let strmtime = c_str str
      in if CHR ''.'' \<in> set strmtime
         then \<lparr>tv_sec = cvt_strtoofft (takeWhile (\<lambda>c. c \<noteq> CHR ''.'') strmtime) 10,
               tv_nsec = cvt_strtoofft (tl (dropWhile (\<lambda>c. c \<noteq> CHR ''.'') strmtime)) 10\<rparr>
         else \<lparr>tv_sec = cvt_strtoofft strmtime 10, tv_nsec = 0\<rparr>)"

definition get_time :: "headers_t \<Rightarrow> string \<Rightarrow> timespec" where
  "get_time meta header = (case hd_find header meta of None \<Rightarrow> DEFAULT_TIMESPEC | Some v \<Rightarrow> cvt_string_to_time v)"

definition get_lastmodified :: "process_env \<Rightarrow> headers_t \<Rightarrow> int" where
  "get_lastmodified env meta = (case hd_find ''Last-Modified'' meta of None \<Rightarrow> - 1 | Some v \<Rightarrow> http_date env v)"

definition get_mtime :: "process_env \<Rightarrow> headers_t \<Rightarrow> bool \<Rightarrow> timespec" where
  "get_mtime env meta overcheck =
     (let t = get_time meta ''x-amz-meta-mtime''; t2 = get_time meta ''x-amz-meta-goog-reserved-file-mtime''
      in if 0 < tv_sec t then t
         else if 0 < tv_sec t2 then t2
         else if overcheck then \<lparr>tv_sec = get_lastmodified env meta, tv_nsec = 0\<rparr>
         else DEFAULT_TIMESPEC)"

definition get_ctime :: "process_env \<Rightarrow> headers_t \<Rightarrow> bool \<Rightarrow> timespec" where
  "get_ctime env meta overcheck =
     (let t = get_time meta ''x-amz-meta-ctime''
      in if 0 < tv_sec t then t
         else if overcheck then \<lparr>tv_sec = get_lastmodified env meta, tv_nsec = 0\<rparr>
         else DEFAULT_TIMESPEC)"

definition get_atime :: "process_env \<Rightarrow> headers_t \<Rightarrow> bool \<Rightarrow> timespec" where
  "get_atime env meta overcheck =
     (let t = get_time meta ''x-amz-meta-atime''
      in if 0 < tv_sec t then t
         else if overcheck then \<lparr>tv_sec = get_lastmodified env meta, tv_nsec = 0\<rparr>
         else DEFAULT_TIMESPEC)"

definition get_size :: "headers_t \<Rightarrow> int" where
  "get_size meta = (case hd_find ''Content-Length'' meta of None \<Rightarrow> 0 | Some v \<Rightarrow> cvt_strtoofft v 10)"

definition mode_of :: "string \<Rightarrow> nat \<Rightarrow> mode_t" where
  "mode_of s base = word_of_int (cvt_strtoofft s base)"

text \<open>The mode in the headers, and whether it was written by s3sync.\<close>

definition header_mode :: "headers_t \<Rightarrow> string \<Rightarrow> mode_t \<times> bool" where
  "header_mode meta strpath =
     (case hd_find ''x-amz-meta-mode'' meta of
        Some v \<Rightarrow> (mode_of v 0, False)
      | None \<Rightarrow> (case hd_find ''x-amz-meta-permissions'' meta of
            Some v \<Rightarrow> (mode_of v 0, True)
          | None \<Rightarrow> (case hd_find ''x-amz-meta-goog-reserved-posix-mode'' meta of
                Some v \<Rightarrow> (mode_of v 8, False)
              | None \<Rightarrow> (if ends_slash strpath then 0x1E8 else 0x1A0, False))))"

text \<open>The type of a file whose mode has none, from the type of the content and the name.\<close>

definition type_bits :: "process_env \<Rightarrow> headers_t \<Rightarrow> string \<Rightarrow> bool \<Rightarrow> mode_t" where
  "type_bits env meta strpath forcedir =
     (if forcedir then S_IFDIR
      else (case hd_find ''Content-Type'' meta of
          None \<Rightarrow> S_IFREG
        | Some v \<Rightarrow>
            (let strConType = takeWhile (\<lambda>c. c \<noteq> CHR '';'') v
             in if strConType = ''application/x-directory'' \<or> strConType = ''httpd/unix-directory'' then S_IFDIR
                else if ends_slash strpath
                then (if strConType = ''binary/octet-stream'' \<or> strConType = ''application/octet-stream'' then S_IFDIR
                      else if complement_stat env \<and> strConType = ''text/plain'' \<and> (get_size meta = 0 \<or> get_size meta = 1)
                      then S_IFDIR else S_IFREG)
                else S_IFREG)))"

definition get_mode :: "process_env \<Rightarrow> headers_t \<Rightarrow> string \<Rightarrow> bool \<Rightarrow> bool \<Rightarrow> mode_t" where
  "get_mode env meta strpath checkdir forcedir =
     (case header_mode meta strpath of (mode, isS3sync) \<Rightarrow>
        if mode AND S_IFMT = 0
        then (if \<not> isS3sync
              then (let mode = (if checkdir then mode OR type_bits env meta strpath forcedir else mode)
                    in if complement_stat env \<and> mode AND 0x1FF = 0
                       then mode OR (0x100 OR (if mode AND S_IFDIR = 0 then 0 else 0x40)) else mode)
              else if \<not> checkdir then mode AND NOT S_IFDIR AND NOT S_IFREG
              else mode)
        else mode)"

definition get_uid :: "process_env \<Rightarrow> headers_t \<Rightarrow> 32 word" where
  "get_uid env meta =
     (case hd_find ''x-amz-meta-uid'' meta of
        Some v \<Rightarrow> word_of_int (cvt_strtoofft v 0)
      | None \<Rightarrow> (case hd_find ''x-amz-meta-owner'' meta of
            Some v \<Rightarrow> word_of_int (cvt_strtoofft v 0)
          | None \<Rightarrow> (case hd_find ''x-amz-meta-goog-reserved-posix-uid'' meta of
                Some v \<Rightarrow> word_of_int (cvt_strtoofft v 0)
              | None \<Rightarrow> geteuid env)))"

definition get_gid :: "process_env \<Rightarrow> headers_t \<Rightarrow> 32 word" where
  "get_gid env meta =
     (case hd_find ''x-amz-meta-gid'' meta of
        Some v \<Rightarrow> word_of_int (cvt_strtoofft v 0)
      | None \<Rightarrow> (case hd_find ''x-amz-meta-group'' meta of
            Some v \<Rightarrow> word_of_int (cvt_strtoofft v 0)
          | None \<Rightarrow> (case hd_find ''x-amz-meta-goog-reserved-posix-gid'' meta of
                Some v \<Rightarrow> word_of_int (cvt_strtoofft v 0)
              | None \<Rightarrow> getegid env)))"

definition get_blocks :: "int \<Rightarrow> int" where
  "get_blocks n = n div 512 + (if n mod 512 = 0 then 0 else 1)"

definition is_need_check_obj_detail :: "headers_t \<Rightarrow> bool" where
  "is_need_check_obj_detail meta =
     (if get_size meta \<noteq> 0 then False
      else if hd_find ''x-amz-meta-mode'' meta \<noteq> None \<or> hd_find ''x-amz-meta-mtime'' meta \<noteq> None \<or>
              hd_find ''x-amz-meta-ctime'' meta \<noteq> None \<or> hd_find ''x-amz-meta-atime'' meta \<noteq> None \<or>
              hd_find ''x-amz-meta-uid'' meta \<noteq> None \<or> hd_find ''x-amz-meta-gid'' meta \<noteq> None \<or>
              hd_find ''x-amz-meta-owner'' meta \<noteq> None \<or> hd_find ''x-amz-meta-group'' meta \<noteq> None \<or>
              hd_find ''x-amz-meta-permissions'' meta \<noteq> None then False
      else (case hd_find ''Content-Type'' meta of None \<Rightarrow> False | Some v \<Rightarrow> v \<noteq> ''application/x-directory''))"

definition merge_headers :: "headers_t \<Rightarrow> headers_t \<Rightarrow> bool \<Rightarrow> headers_t \<times> bool" where
  "merge_headers base additional add_noexist =
     fold (\<lambda>(k, v) (base, added). if add_noexist \<or> hd_find k base \<noteq> None then (hd_set k v base, True) else (base, added))
       additional (base, False)"

text \<open>
  \<^verbatim>\<open>convert_header_to_stat\<close>: the number of blocks is taken from the size before the size is set, so it is 0, and the
  tests for a negative time look at the times of the cleared structure, so they never hold.
\<close>

definition clip_time :: "timespec \<Rightarrow> timespec" where
  "clip_time t = (if tv_sec t < 0 then zero_time else t)"

definition convert_header_to_stat :: "process_env \<Rightarrow> string \<Rightarrow> headers_t \<Rightarrow> bool \<Rightarrow> file_stat" where
  "convert_header_to_stat env path meta forcedir =
     (let pst = zero_stat\<lparr>st_nlink := 1, st_mode := get_mode env meta path True forcedir\<rparr>;
          pst = (if S_ISREG (st_mode pst) then pst\<lparr>st_blocks := get_blocks (st_size pst)\<rparr> else pst);
          pst = pst\<lparr>st_blksize := 4096\<rparr>;
          pst = (if tv_sec (st_mtim pst) < 0 then pst\<lparr>st_mtim := (st_mtim pst)\<lparr>tv_sec := 0\<rparr>\<rparr>
                 else set_timespec_to_stat MTIME (clip_time (get_mtime env meta True)) pst);
          pst = (if tv_sec (st_ctim pst) < 0 then pst\<lparr>st_ctim := (st_ctim pst)\<lparr>tv_sec := 0\<rparr>\<rparr>
                 else set_timespec_to_stat CTIME (clip_time (get_ctime env meta True)) pst);
          pst = (if tv_sec (st_atim pst) < 0 then pst\<lparr>st_atim := (st_atim pst)\<lparr>tv_sec := 0\<rparr>\<rparr>
                 else set_timespec_to_stat ATIME (clip_time (get_atime env meta True)) pst);
          pst = pst\<lparr>st_size := (if S_ISDIR (st_mode pst) then 4096 else get_size meta)\<rparr>
      in pst\<lparr>st_uid := get_uid env meta, st_gid := get_gid env meta\<rparr>)"

subsection \<open>The headers s3fs writes, and how it reads them\<close>

text \<open>The headers of a new directory (\<^verbatim>\<open>create_directory_object\<close>) and of a new file (\<^verbatim>\<open>s3fs_create\<close>) in \<^verbatim>\<open>s3fs.cpp\<close>.\<close>

definition str_time :: "timespec \<Rightarrow> string" where
  "str_time ts = str_timespec (nat (tv_sec ts)) (nat (tv_nsec ts))"

definition create_directory_headers ::
    "mode_t \<Rightarrow> timespec \<Rightarrow> timespec \<Rightarrow> timespec \<Rightarrow> 32 word \<Rightarrow> 32 word \<Rightarrow> string option \<Rightarrow> headers_t" where
  "create_directory_headers mode ts_atime ts_mtime ts_ctime uid gid pxattrvalue =
     (let meta = hd_set ''x-amz-meta-uid'' (to_string (unat uid)) [];
          meta = hd_set ''x-amz-meta-gid'' (to_string (unat gid)) meta;
          meta = hd_set ''x-amz-meta-mode'' (to_string (unat mode)) meta;
          meta = hd_set ''x-amz-meta-atime'' (str_time ts_atime) meta;
          meta = hd_set ''x-amz-meta-mtime'' (str_time ts_mtime) meta;
          meta = hd_set ''x-amz-meta-ctime'' (str_time ts_ctime) meta
      in (case pxattrvalue of None \<Rightarrow> meta | Some x \<Rightarrow> hd_set ''x-amz-meta-xattr'' x meta))"

definition create_file_headers :: "mode_t \<Rightarrow> timespec \<Rightarrow> 32 word \<Rightarrow> 32 word \<Rightarrow> string option \<Rightarrow> headers_t" where
  "create_file_headers mode now uid gid xattrvalue =
     (let meta = hd_set ''Content-Length'' ''0'' [];
          meta = hd_set ''x-amz-meta-uid'' (to_string (unat uid)) meta;
          meta = hd_set ''x-amz-meta-gid'' (to_string (unat gid)) meta;
          meta = hd_set ''x-amz-meta-mode'' (to_string (unat mode)) meta;
          meta = hd_set ''x-amz-meta-atime'' (str_time now) meta;
          meta = hd_set ''x-amz-meta-mtime'' (str_time now) meta;
          meta = hd_set ''x-amz-meta-ctime'' (str_time now) meta
      in (case xattrvalue of None \<Rightarrow> meta | Some x \<Rightarrow> hd_set ''x-amz-meta-xattr'' x meta))"

text \<open>
  The type of the content that a request to store an object is given (\<^verbatim>\<open>S3fsCurl::LookupMimeType\<close> in \<^verbatim>\<open>curl.cpp\<close>), over
  the table of types, whose keys are compared as those of headers are.
\<close>

definition after_dot :: "string \<Rightarrow> string" where
  "after_dot s = rev (takeWhile (\<lambda>c. c \<noteq> CHR ''.'') (rev s))"

definition before_dot :: "string \<Rightarrow> string" where
  "before_dot s = take (length s - length (after_dot s) - 1) s"

definition LookupMimeType :: "headers_t \<Rightarrow> string \<Rightarrow> string" where
  "LookupMimeType mimeTypes name =
     (if name \<noteq> [] \<and> ends_slash name then ''application/x-directory''
      else (let result = ''application/octet-stream''
            in if CHR ''.'' \<notin> set name then result
               else (case hd_find (after_dot name) mimeTypes of
                       Some v \<Rightarrow> v
                     | None \<Rightarrow>
                         if CHR ''.'' \<notin> set (before_dot name) then result
                         else (case hd_find (after_dot (before_dot name)) mimeTypes of Some v \<Rightarrow> v | None \<Rightarrow> result))))"

lemma hd_find_set [simp]: "hd_find j (hd_set k v m) = (if nocase j = nocase k then Some v else hd_find j m)"
  by (simp add: hd_find_def hd_set_def)

lemma hd_find_Nil [simp]: "hd_find j [] = None"
  by (simp add: hd_find_def)

lemma hd_find_Cons: "hd_find j ((k, v) # m) = (if nocase k = nocase j then Some v else hd_find j m)"
  by (simp add: hd_find_def)

lemma lower_append [simp]: "lower (xs @ ys) = lower xs @ lower ys"
  by (simp add: lower_def)

text \<open>Names of headers in lower case are compared as they are.\<close>

definition plain_header :: "string \<Rightarrow> bool" where
  "plain_header s = (\<forall>c \<in> set s. uc c \<noteq> 0 \<and> \<not> (65 \<le> uc c \<and> uc c \<le> 90))"

lemma nocase_plain: "plain_header s \<Longrightarrow> nocase s = s"
  by (auto simp: plain_header_def nocase_def lower_def c_str_same intro!: map_idI)

lemma nocase_names [simp]:
  "nocase ''x-amz-meta-uid'' = ''x-amz-meta-uid''" "nocase ''x-amz-meta-gid'' = ''x-amz-meta-gid''"
  "nocase ''x-amz-meta-mode'' = ''x-amz-meta-mode''" "nocase ''x-amz-meta-atime'' = ''x-amz-meta-atime''"
  "nocase ''x-amz-meta-mtime'' = ''x-amz-meta-mtime''" "nocase ''x-amz-meta-ctime'' = ''x-amz-meta-ctime''"
  "nocase ''x-amz-meta-xattr'' = ''x-amz-meta-xattr''" "nocase ''Content-Length'' = ''content-length''"
  "nocase ''Content-Type'' = ''content-type''" "nocase ''Last-Modified'' = ''last-modified''"
  by (simp_all add: nocase_plain plain_header_def) code_simp+

lemma to_string_hd: "n \<noteq> 0 \<Longrightarrow> hd (to_string n) \<noteq> CHR ''0''"
proof (induction n rule: to_string.induct)
  case (1 n)
  show ?case
  proof (cases "n < 10")
    case True
    then have "(of_char (digit n) :: nat) \<noteq> of_char (CHR ''0'')" using 1 by (simp add: of_char_digit)
    with True show ?thesis by (auto simp: to_string.simps [of n])
  next
    case False
    then have "hd (to_string n) = hd (to_string (n div 10))" by (subst to_string.simps) simp
    with 1 False show ?thesis by simp
  qed
qed

lemma digits_no_nul: "\<forall>c \<in> set s. is_digit c \<Longrightarrow> \<forall>c \<in> set s. uc c \<noteq> 0 \<and> c \<noteq> CHR ''.''"
  by (auto simp: is_digit_def)

text \<open>A number is read back in base 10, with zeros in front too, and in base 0 as well.\<close>

lemma cvt_digits:
  assumes "\<forall>c \<in> set s. is_digit c" and "s \<noteq> []" and "int (read_nat s) \<le> LLONG_MAX"
    and b: "base = 10 \<or> base = 0 \<and> (hd s \<noteq> CHR ''0'' \<or> length s = 1)"
  shows "cvt_strtoofft s base = int (read_nat s)"
proof -
  obtain c cs where s: "s = c # cs" using assms(2) by (cases s) auto
  have c: "is_digit c" using assms(1) s by simp
  have d: "digit_value c = digit_val c" "digit_val c < 10" using digit_value_is_digit [OF c] by auto
  have n: "\<not> is_space c \<and> c \<noteq> CHR ''-'' \<and> c \<noteq> CHR ''+'' \<and> uc c \<noteq> 0" by (rule digit_no_space [OF c])
  have cs: "c_str s = s" using digits_no_nul [OF assms(1)] by (simp add: c_str_same)
  have sc: "scan_digits 10 0 s = (read_nat s, [])" using scan_digits_all [OF assms(1)] by (simp add: read_nat_def)
  have "strtoll s base = Some (int (read_nat s), [])"
  proof (cases "base = 10")
    case True
    then show ?thesis using s n d sc by (simp add: strtoll_def Let_def)
  next
    case False
    then have base: "base = 0" and z: "hd s \<noteq> CHR ''0'' \<or> length s = 1" using b by auto
    show ?thesis
    proof (cases "hd s = CHR ''0''")
      case False
      then show ?thesis using base s n d sc by (simp add: strtoll_def Let_def)
    next
      case True
      then have "s = ''0''" using z s by (cases cs) auto
      moreover have "strtoll ''0'' 0 = Some (0, [])" by code_simp
      moreover have "read_nat ''0'' = 0" by code_simp
      ultimately show ?thesis using base by simp
    qed
  qed
  moreover have "LLONG_MIN \<le> int (read_nat s)" by (simp add: LLONG_MIN_def)
  ultimately show ?thesis using cs assms(3) by (simp add: cvt_strtoofft_def s3fs_strtoofft_def)
qed

lemma cvt_to_string_base0:
  assumes "int n \<le> LLONG_MAX"
  shows "cvt_strtoofft (to_string n) 0 = int n"
proof -
  have "hd (to_string n) \<noteq> CHR ''0'' \<or> length (to_string n) = 1"
    using to_string_hd [of n] by (cases "n = 0") (simp_all add: to_string.simps [of 0])
  then show ?thesis using cvt_digits [of "to_string n" 0] assms by (auto simp: to_string_digits)
qed

lemma word_to_string: "word_of_int (cvt_strtoofft (to_string (unat (w :: 32 word))) 0) = w"
proof -
  have "int (unat w) < 2 ^ 32" using unsigned_less [where w = w and 'a = int] by (simp add: unsigned_of_nat)
  then have "int (unat w) \<le> LLONG_MAX" by (simp add: LLONG_MAX_def)
  then show ?thesis by (simp add: cvt_to_string_base0)
qed

lemma read_zeros: "read_digits acc (replicate k (CHR ''0'') @ s) = read_digits (acc * 10 ^ k) s"
proof (induction k arbitrary: acc)
  case (Suc k)
  have "is_digit (CHR ''0'')" "digit_val (CHR ''0'') = 0" by code_simp+
  with Suc [of "acc * 10"] show ?case by (simp add: ac_simps)
qed simp

definition good_time :: "timespec \<Rightarrow> bool" where
  "good_time ts = (0 < tv_sec ts \<and> tv_sec ts \<le> LLONG_MAX \<and> 0 \<le> tv_nsec ts \<and> tv_nsec ts < 10 ^ 9)"

lemma time_roundtrip:
  assumes "good_time ts"
  shows "cvt_string_to_time (str_time ts) = ts"
proof -
  obtain s n where ts: "ts = \<lparr>tv_sec = int s, tv_nsec = int n\<rparr>"
    using assms that [of "nat (tv_sec ts)" "nat (tv_nsec ts)"] by (simp add: good_time_def)
  have b: "int s \<le> LLONG_MAX" "n < 10 ^ 9" using assms ts by (simp_all add: good_time_def)
  have sd: "\<forall>c \<in> set (to_string s). uc c \<noteq> 0 \<and> c \<noteq> CHR ''.''" using digits_no_nul to_string_digits by blast
  have sec: "cvt_strtoofft (to_string s) 10 = int s" using b by (simp add: cvt_to_string)
  show ?thesis
  proof (cases "n = 0")
    case True
    have "c_str (to_string s) = to_string s" using sd by (simp add: c_str_same)
    moreover have "CHR ''.'' \<notin> set (to_string s)" using sd by blast
    moreover have "str_time ts = to_string s" using True ts by (simp add: str_time_def str_timespec_def)
    ultimately show ?thesis using ts True sec by (simp add: cvt_string_to_time_def)
  next
    case False
    let ?z = "replicate (9 - length (to_string n)) (CHR ''0'') @ to_string n"
    have z: "\<forall>c \<in> set ?z. is_digit c"
    proof -
      have "is_digit (CHR ''0'')" by code_simp
      then show ?thesis using to_string_digits by auto
    qed
    have r: "read_nat ?z = n" using read_to_string [of n] by (simp add: read_nat_def read_zeros)
    have nsec: "cvt_strtoofft ?z 10 = int n"
      using cvt_digits [OF z, of 10] r b by (simp add: LLONG_MAX_def)
    have zd: "\<forall>c \<in> set ?z. uc c \<noteq> 0 \<and> c \<noteq> CHR ''.''" by (rule digits_no_nul [OF z])
    have str: "str_time ts = to_string s @ CHR ''.'' # ?z" using False ts by (simp add: str_time_def str_timespec_def)
    have "\<forall>c \<in> set (to_string s @ CHR ''.'' # ?z). uc c \<noteq> 0" using sd zd by auto
    then have c: "c_str (str_time ts) = to_string s @ CHR ''.'' # ?z" using str by (simp only: c_str_same)
    have tk: "takeWhile (\<lambda>c. c \<noteq> CHR ''.'') (to_string s @ CHR ''.'' # ?z) = to_string s \<and>
              dropWhile (\<lambda>c. c \<noteq> CHR ''.'') (to_string s @ CHR ''.'' # ?z) = CHR ''.'' # ?z"
      by (rule takeWhile_dropWhile_at) (use sd in auto)
    show ?thesis unfolding cvt_string_to_time_def Let_def c using tk sec nsec ts by simp
  qed
qed

lemma create_directory_finds:
  "hd_find ''x-amz-meta-uid'' (create_directory_headers mode a m c uid gid x) = Some (to_string (unat uid))"
  "hd_find ''x-amz-meta-gid'' (create_directory_headers mode a m c uid gid x) = Some (to_string (unat gid))"
  "hd_find ''x-amz-meta-mode'' (create_directory_headers mode a m c uid gid x) = Some (to_string (unat mode))"
  "hd_find ''x-amz-meta-atime'' (create_directory_headers mode a m c uid gid x) = Some (str_time a)"
  "hd_find ''x-amz-meta-mtime'' (create_directory_headers mode a m c uid gid x) = Some (str_time m)"
  "hd_find ''x-amz-meta-ctime'' (create_directory_headers mode a m c uid gid x) = Some (str_time c)"
  by (cases x; simp add: create_directory_headers_def)+

lemma create_file_finds:
  "hd_find ''Content-Length'' (create_file_headers mode now uid gid x) = Some ''0''"
  "hd_find ''x-amz-meta-uid'' (create_file_headers mode now uid gid x) = Some (to_string (unat uid))"
  "hd_find ''x-amz-meta-gid'' (create_file_headers mode now uid gid x) = Some (to_string (unat gid))"
  "hd_find ''x-amz-meta-mode'' (create_file_headers mode now uid gid x) = Some (to_string (unat mode))"
  "hd_find ''x-amz-meta-atime'' (create_file_headers mode now uid gid x) = Some (str_time now)"
  "hd_find ''x-amz-meta-mtime'' (create_file_headers mode now uid gid x) = Some (str_time now)"
  "hd_find ''x-amz-meta-ctime'' (create_file_headers mode now uid gid x) = Some (str_time now)"
  by (cases x; simp add: create_file_headers_def)+

text \<open>A mode as it is read: one without a type gets one, and with \<^verbatim>\<open>complement_stat\<close> permissions when it has none.\<close>

definition typed_mode :: "process_env \<Rightarrow> mode_t \<Rightarrow> mode_t \<Rightarrow> mode_t" where
  "typed_mode env mode type =
     (if mode AND S_IFMT \<noteq> 0 then mode
      else if complement_stat env \<and> (mode OR type) AND 0x1FF = 0
      then mode OR type OR (0x100 OR (if (mode OR type) AND S_IFDIR = 0 then 0 else 0x40))
      else mode OR type)"

lemma convert_attributes:
  assumes f: "hd_find ''x-amz-meta-mode'' meta = Some (to_string (unat mode))"
      "hd_find ''x-amz-meta-uid'' meta = Some (to_string (unat uid))"
      "hd_find ''x-amz-meta-gid'' meta = Some (to_string (unat gid))"
      "hd_find ''x-amz-meta-atime'' meta = Some (str_time a)" "hd_find ''x-amz-meta-mtime'' meta = Some (str_time m)"
      "hd_find ''x-amz-meta-ctime'' meta = Some (str_time c)"
    and t: "good_time a" "good_time m" "good_time c"
  shows "convert_header_to_stat env path meta forcedir =
    (let st = typed_mode env mode (type_bits env meta path forcedir) in
     \<lparr>st_mode = st, st_nlink = 1, st_uid = uid, st_gid = gid,
     st_size = (if S_ISDIR st then 4096 else get_size meta), st_blocks = 0, st_blksize = 4096,
     st_atim = a, st_mtim = m, st_ctim = c\<rparr>)"
proof -
  have md: "get_mode env meta path True forcedir = typed_mode env mode (type_bits env meta path forcedir)"
    using f(1) by (simp add: get_mode_def header_mode_def mode_of_def word_to_string typed_mode_def Let_def or.assoc)
  have pos: "0 < tv_sec a" "0 < tv_sec m" "0 < tv_sec c" using t by (simp_all add: good_time_def)
  have tm: "get_mtime env meta True = m" "get_ctime env meta True = c" "get_atime env meta True = a"
    using f(4-6) t pos by (simp_all add: get_mtime_def get_ctime_def get_atime_def get_time_def time_roundtrip)
  have cl: "clip_time m = m" "clip_time c = c" "clip_time a = a" using pos by (simp_all add: clip_time_def)
  have id: "get_uid env meta = uid" "get_gid env meta = gid" using f(2,3) by (simp_all add: get_uid_def get_gid_def word_to_string)
  have bl: "get_blocks 0 = 0" by (simp add: get_blocks_def)
  show ?thesis
    unfolding convert_header_to_stat_def Let_def
    by (simp add: md tm cl id bl zero_stat_def zero_time_def set_timespec_to_stat_def)
qed

lemma typed_mode_type:
  assumes "mode AND S_IFMT = 0"
  shows "S_ISDIR (typed_mode env mode S_IFDIR)" and "S_ISREG (typed_mode env mode S_IFREG)"
proof -
  have split: "(mode OR x) AND S_IFMT = x AND S_IFMT" for x
    using assms by (simp add: bit.conj_disj_distrib2)
  show "S_ISDIR (typed_mode env mode S_IFDIR)" "S_ISREG (typed_mode env mode S_IFREG)"
    using assms by (auto simp: typed_mode_def S_ISDIR_def S_ISREG_def split or.assoc) (simp_all add: S_IFMT_def S_IFDIR_def S_IFREG_def)
qed

text \<open>C40:
  The attributes of a new directory or file come back as they were written, for times after the epoch.  The headers
  that \<^verbatim>\<open>mkdir\<close> puts on the object, with the type of content that the request for a path that ends in a slash adds, and
  those that \<^verbatim>\<open>create\<close> puts into the cache are read by \<^verbatim>\<open>convert_header_to_stat\<close> to the same owner, group and times
  with nanoseconds, whatever the extended attributes.  A mode that carries a type comes back as it is; one without, as
  FUSE gives it to \<^verbatim>\<open>mkdir\<close>, comes back as that of a directory or of a regular file, and with \<^verbatim>\<open>complement_stat\<close>
  readable when it had no permissions.
\<close>

theorem attributes_roundtrip:
  assumes "good_time a" and "good_time m" and "good_time c" and "ends_slash path"
  shows "(let st = typed_mode env mode S_IFDIR in
      convert_header_to_stat env path (hd_set ''Content-Type'' (LookupMimeType mimes path)
        (create_directory_headers mode a m c uid gid x)) forcedir =
      \<lparr>st_mode = st, st_nlink = 1, st_uid = uid, st_gid = gid, st_size = (if S_ISDIR st then 4096 else 0),
       st_blocks = 0, st_blksize = 4096, st_atim = a, st_mtim = m, st_ctim = c\<rparr> \<and>
      (mode AND S_IFMT = 0 \<longrightarrow> S_ISDIR st))
    \<and> (let st = typed_mode env mode S_IFREG in
      convert_header_to_stat env path2 (create_file_headers mode a uid gid x) False =
      \<lparr>st_mode = st, st_nlink = 1, st_uid = uid, st_gid = gid, st_size = (if S_ISDIR st then 4096 else 0),
       st_blocks = 0, st_blksize = 4096, st_atim = a, st_mtim = a, st_ctim = a\<rparr> \<and>
      (mode AND S_IFMT = 0 \<longrightarrow> S_ISREG st))"
proof -
  let ?d = "hd_set ''Content-Type'' (LookupMimeType mimes path) (create_directory_headers mode a m c uid gid x)"
    and ?f = "create_file_headers mode a uid gid x"
  have "LookupMimeType mimes path = ''application/x-directory''"
    using assms(4) by (auto simp: LookupMimeType_def ends_slash_def)
  then have d: "get_size ?d = 0" "type_bits env ?d path forcedir = S_IFDIR"
    by (cases x; simp add: get_size_def create_directory_headers_def type_bits_def)+
  have "cvt_strtoofft ''0'' 10 = 0" by code_simp
  then have f: "get_size ?f = 0" "type_bits env ?f path2 False = S_IFREG"
    by (cases x; simp add: get_size_def create_file_finds create_file_headers_def type_bits_def)+
  have "convert_header_to_stat env path ?d forcedir = (let st = typed_mode env mode (type_bits env ?d path forcedir) in
     \<lparr>st_mode = st, st_nlink = 1, st_uid = uid, st_gid = gid,
     st_size = (if S_ISDIR st then 4096 else get_size ?d), st_blocks = 0, st_blksize = 4096,
     st_atim = a, st_mtim = m, st_ctim = c\<rparr>)"
    by (rule convert_attributes) (use assms in \<open>simp_all add: create_directory_finds\<close>)
  then show ?thesis
    using convert_attributes [OF create_file_finds(4,2,3,5,6,7) assms(1,1,1), where env = env and path = path2 and forcedir = False]
    by (simp add: d f Let_def typed_mode_type)
qed

definition demo_env :: process_env where
  "demo_env = \<lparr>geteuid = 1000, getegid = 100, complement_stat = False, http_date = (\<lambda>s. int (length s))\<rparr>"

theorem attributes_roundtrip_witness:
  "(let st = convert_header_to_stat demo_env ''/d/'' (hd_set ''Content-Type'' (LookupMimeType [] ''/d/'')
     (create_directory_headers 0x1ED \<lparr>tv_sec = 5, tv_nsec = 7\<rparr> \<lparr>tv_sec = 6, tv_nsec = 80\<rparr> \<lparr>tv_sec = 7, tv_nsec = 0\<rparr> 1 2 None))
       False
    in st_mtim st = \<lparr>tv_sec = 6, tv_nsec = 80\<rparr> \<and> st_mode st = 0x41ED)"
proof -
  have g: "good_time \<lparr>tv_sec = 5, tv_nsec = 7\<rparr>" "good_time \<lparr>tv_sec = 6, tv_nsec = 80\<rparr>" "good_time \<lparr>tv_sec = 7, tv_nsec = 0\<rparr>"
    by (simp_all add: good_time_def LLONG_MAX_def)
  have "(0x1ED :: mode_t) AND S_IFMT = 0" "ends_slash ''/d/''" by (simp_all add: S_IFMT_def ends_slash_def)
  then show ?thesis
    using attributes_roundtrip [OF g, THEN conjunct1, of "''/d/''" demo_env "0x1ED" "[]" 1 2 None False]
    by (simp add: Let_def typed_mode_def demo_env_def S_IFDIR_def)
qed

text \<open>What the conversion does not do: a file of any size has no blocks.\<close>

lemma convert_no_blocks: "st_blocks (convert_header_to_stat env path meta forcedir) = 0"
  unfolding convert_header_to_stat_def Let_def set_timespec_to_stat_def
  by (simp add: zero_stat_def zero_time_def get_blocks_def split: if_splits)

text \<open>Headers are found whatever their case.\<close>

lemma hd_find_nocase: "nocase k = nocase k' \<Longrightarrow> hd_find k meta = hd_find k' meta"
  unfolding hd_find_def by (induction meta) auto

text \<open>Merging: a header that is in the new ones wins, and without \<open>add_noexist\<close> none appears that was not there.\<close>

lemma merge_headers_fold:
  assumes "om_ok nocase add" and "\<And>k. P k \<longleftrightarrow> noexist \<or> hd_find k base \<noteq> None"
  shows "hd_find k (fst (fold (\<lambda>(k, v) (base, added). if noexist \<or> hd_find k base \<noteq> None then (hd_set k v base, True)
             else (base, added)) add (base, b))) =
         (if P k then (case hd_find k add of Some v \<Rightarrow> Some v | None \<Rightarrow> hd_find k base) else hd_find k base)"
  using assms
proof (induction add arbitrary: base b)
  case (Cons e add)
  obtain k' v where e: "e = (k', v)" by (cases e)
  have fresh: "nocase k = nocase k' \<Longrightarrow> hd_find k add = None"
    using Cons.prems(1) e by (force simp: hd_find_def om_find_none)
  have ok: "om_ok nocase add" using Cons.prems(1) e by simp
  show ?case
  proof (cases "P k'")
    case True
    then have t: "noexist \<or> hd_find k' base \<noteq> None" using Cons.prems(2) by simp
    have "P j \<longleftrightarrow> noexist \<or> hd_find j (hd_set k' v base) \<noteq> None" for j
      using Cons.prems(2) [of j] t hd_find_nocase [of j k' base] by auto
    from Cons.IH [OF ok this, of True] show ?thesis
      using t e fresh True Cons.prems(2) [of k] hd_find_nocase [of k k' base] by (auto simp: hd_find_Cons split: option.splits)
  next
    case False
    then have t: "\<not> (noexist \<or> hd_find k' base \<noteq> None)" using Cons.prems(2) by simp
    have "nocase k = nocase k' \<Longrightarrow> \<not> P k" using Cons.prems(2) [of k] t hd_find_nocase [of k k' base] by auto
    with Cons.IH [OF ok Cons.prems(2), of b] show ?thesis using t e by (auto simp: hd_find_Cons split: option.splits)
  qed
qed simp

lemma merge_headers_finds:
  assumes "om_ok nocase add"
  shows "hd_find k (fst (merge_headers base add noexist)) =
    (if noexist \<or> hd_find k base \<noteq> None then (case hd_find k add of Some v \<Rightarrow> Some v | None \<Rightarrow> hd_find k base) else None)"
  unfolding merge_headers_def
  by (subst merge_headers_fold [OF assms, where P = "\<lambda>k. noexist \<or> hd_find k base \<noteq> None"]) auto

end
