(* ===== verification/Stat_Cache.thy ===== *)
theory Stat_Cache
  imports Meta_Header
begin

section \<open>The cache of attributes (\<^verbatim>\<open>s3fs/cache.cpp\<close>)\<close>

text \<open>
  \<^verbatim>\<open>StatCache\<close> keeps the attributes of objects, the targets of symbolic links, and the names of the files that are
  created and not uploaded yet.  Entries are dropped when they are old, when the etag differs, and when the cache is
  full, but an entry whose \<open>notruncate\<close> count is positive is never dropped for age or space: until the file is uploaded
  nothing else says that it exists.  An operation takes the time of the clock as an argument.  Paths come from the
  kernel and contain no NUL.  \<open>AddStat\<close>, \<open>UpdateMetaStats\<close>, \<open>AddNoObjectCache\<close>, \<open>AddSymlink\<close> and the two \<open>Truncate\<close>
  functions return true on every path, so that only the new state is given.
\<close>

record stat_cache_entry =
  stbuf :: file_stat
  hit_count :: nat
  cache_date :: timespec
  ent_meta :: headers_t
  isforce :: bool
  noobjcache :: bool
  notruncate :: nat

record symlink_cache_entry =
  sl_link :: string
  sl_hit_count :: nat
  sl_cache_date :: timespec

record StatCache =
  stat_cache :: "(string, stat_cache_entry) omap"
  IsExpireTime :: bool
  IsExpireIntervalType :: bool
  ExpireTime :: int
  CacheSize :: nat
  IsCacheNoObject :: bool
  symlink_cache :: "(string, symlink_cache_entry) omap"
  notruncate_file_cache :: "(string, string list) omap"

definition StatCache_new :: StatCache where
  "StatCache_new = \<lparr>stat_cache = [], IsExpireTime = True, IsExpireIntervalType = False, ExpireTime = 15 * 60,
     CacheSize = 100000, IsCacheNoObject = True, symlink_cache = [], notruncate_file_cache = []\<rparr>"

definition SetCacheSize :: "nat \<Rightarrow> StatCache \<Rightarrow> nat \<times> StatCache" where
  "SetCacheSize n sc = (CacheSize sc, sc\<lparr>CacheSize := n\<rparr>)"

definition GetExpireTime :: "StatCache \<Rightarrow> int" where
  "GetExpireTime sc = (if IsExpireTime sc then ExpireTime sc else - 1)"

definition SetExpireTime :: "int \<Rightarrow> bool \<Rightarrow> StatCache \<Rightarrow> int \<times> StatCache" where
  "SetExpireTime expire is_interval sc =
     (ExpireTime sc, sc\<lparr>ExpireTime := expire, IsExpireTime := True, IsExpireIntervalType := is_interval\<rparr>)"

definition UnsetExpireTime :: "StatCache \<Rightarrow> int \<times> StatCache" where
  "UnsetExpireTime sc =
     (if IsExpireTime sc then ExpireTime sc else - 1,
      sc\<lparr>ExpireTime := 0, IsExpireTime := False, IsExpireIntervalType := False\<rparr>)"

definition SetCacheNoObject :: "bool \<Rightarrow> StatCache \<Rightarrow> bool \<times> StatCache" where
  "SetCacheNoObject flag sc = (IsCacheNoObject sc, sc\<lparr>IsCacheNoObject := flag\<rparr>)"

definition Clear_stats :: "StatCache \<Rightarrow> StatCache" where
  "Clear_stats sc = sc\<lparr>stat_cache := []\<rparr>"

definition IsExpireStatCacheTime :: "timespec \<Rightarrow> timespec \<Rightarrow> int \<Rightarrow> bool" where
  "IsExpireStatCacheTime now ts expire = (0 < compare_timespec (now\<lparr>tv_sec := tv_sec now - expire\<rparr>) ts)"

subsection \<open>The names of files that are not uploaded\<close>

definition nt_list :: "StatCache \<Rightarrow> string \<Rightarrow> string list" where
  "nt_list sc dir = (case om_find self dir (notruncate_file_cache sc) of None \<Rightarrow> [] | Some l \<Rightarrow> l)"

definition AddNotruncateCache :: "string \<Rightarrow> StatCache \<Rightarrow> StatCache" where
  "AddNotruncateCache key sc =
     (if key = [] \<or> ends_slash key then sc
      else (let parentdir = mydirname key; filename = mybasename key
            in if parentdir = [] \<or> filename = [] then sc
               else (let parentdir = parentdir @ ''/''
                     in case om_find self parentdir (notruncate_file_cache sc) of
                          None \<Rightarrow> sc\<lparr>notruncate_file_cache := om_set self parentdir [filename] (notruncate_file_cache sc)\<rparr>
                        | Some filelist \<Rightarrow>
                            if filename \<in> set filelist then sc
                            else sc\<lparr>notruncate_file_cache :=
                                   om_set self parentdir (filelist @ [filename]) (notruncate_file_cache sc)\<rparr>)))"

definition DelNotruncateCache :: "string \<Rightarrow> StatCache \<Rightarrow> StatCache" where
  "DelNotruncateCache key sc =
     (if key = [] \<or> ends_slash key then sc
      else (let parentdir = mydirname key; filename = mybasename key
            in if parentdir = [] \<or> filename = [] then sc
               else (let parentdir = parentdir @ ''/''
                     in case om_find self parentdir (notruncate_file_cache sc) of
                          None \<Rightarrow> sc
                        | Some filelist \<Rightarrow>
                            if filename \<notin> set filelist then sc
                            else if remove1 filename filelist = []
                            then sc\<lparr>notruncate_file_cache := om_del self parentdir (notruncate_file_cache sc)\<rparr>
                            else sc\<lparr>notruncate_file_cache :=
                                   om_set self parentdir (remove1 filename filelist) (notruncate_file_cache sc)\<rparr>)))"

definition GetNotruncateCache :: "string \<Rightarrow> string list \<Rightarrow> StatCache \<Rightarrow> bool \<times> string list" where
  "GetNotruncateCache parentdir names sc =
     (if parentdir = [] then (False, names)
      else (let dirpath = (if ends_slash parentdir then parentdir else parentdir @ ''/'')
            in case om_find self dirpath (notruncate_file_cache sc) of
                 None \<Rightarrow> (True, names)
               | Some filelist \<Rightarrow>
                   (True, fold (\<lambda>f l. if f \<in> set l then l else l @ [f]) filelist names)))"

subsection \<open>Dropping entries\<close>

definition drop_stat :: "string \<Rightarrow> StatCache \<Rightarrow> StatCache" where
  "drop_stat key sc =
     (case om_find self key (stat_cache sc) of
        None \<Rightarrow> sc
      | Some _ \<Rightarrow> DelNotruncateCache key (sc\<lparr>stat_cache := om_del self key (stat_cache sc)\<rparr>))"

definition DelStat :: "string \<Rightarrow> StatCache \<Rightarrow> StatCache" where
  "DelStat key sc =
     (let sc = drop_stat key sc
      in if key \<noteq> [] \<and> key \<noteq> ''/''
         then drop_stat (if ends_slash key then butlast key else key @ ''/'') sc
         else sc)"

definition DelSymlink :: "string \<Rightarrow> StatCache \<Rightarrow> StatCache" where
  "DelSymlink key sc = sc\<lparr>symlink_cache := om_del self key (symlink_cache sc)\<rparr>"

definition stat_age :: "string \<times> stat_cache_entry \<Rightarrow> int \<times> int \<times> nat" where
  "stat_age e = (tv_sec (cache_date (snd e)), tv_nsec (cache_date (snd e)), hit_count (snd e))"

fun truncate_scan ::
    "(string \<times> stat_cache_entry) list \<Rightarrow> nat \<Rightarrow> (string \<times> stat_cache_entry) list \<Rightarrow> (string \<times> stat_cache_entry) list" where
  "truncate_scan [] erase_count erase_iters = erase_iters"
| "truncate_scan (e # es) erase_count erase_iters =
     (if erase_count = 0 then erase_iters
      else (let erase_iters = (if 0 < notruncate (snd e) then erase_iters else erase_iters @ [e]);
                erase_count = (if 0 < notruncate (snd e) then erase_count - 1 else erase_count);
                erase_iters = (if erase_count < length erase_iters
                               then take erase_count (sort_key stat_age erase_iters) else erase_iters)
            in truncate_scan es erase_count erase_iters))"

definition TruncateCache :: "timespec \<Rightarrow> StatCache \<Rightarrow> StatCache" where
  "TruncateCache now sc =
     (if stat_cache sc = [] then sc
      else (let m = (if IsExpireTime sc
                     then filter (\<lambda>e. \<not> (notruncate (snd e) = 0 \<and>
                            IsExpireStatCacheTime now (cache_date (snd e)) (ExpireTime sc))) (stat_cache sc)
                     else stat_cache sc)
            in if length m < CacheSize sc then sc\<lparr>stat_cache := m\<rparr>
               else (let erase_iters = truncate_scan m (length m - CacheSize sc + 1) []
                     in sc\<lparr>stat_cache := filter (\<lambda>e. fst e \<notin> fst ` set erase_iters) m\<rparr>)))"

definition symlink_age :: "string \<times> symlink_cache_entry \<Rightarrow> int \<times> int \<times> nat" where
  "symlink_age e = (tv_sec (sl_cache_date (snd e)), tv_nsec (sl_cache_date (snd e)), sl_hit_count (snd e))"

fun symlink_scan :: "(string \<times> symlink_cache_entry) list \<Rightarrow> nat \<Rightarrow> (string \<times> symlink_cache_entry) list
    \<Rightarrow> (string \<times> symlink_cache_entry) list" where
  "symlink_scan [] erase_count erase_iters = erase_iters"
| "symlink_scan (e # es) erase_count erase_iters =
     (let erase_iters = sort_key symlink_age (erase_iters @ [e])
      in symlink_scan es erase_count (if erase_count < length erase_iters then butlast erase_iters else erase_iters))"

definition TruncateSymlink :: "timespec \<Rightarrow> StatCache \<Rightarrow> StatCache" where
  "TruncateSymlink now sc =
     (if symlink_cache sc = [] then sc
      else (let m = (if IsExpireTime sc
                     then filter (\<lambda>e. \<not> IsExpireStatCacheTime now (sl_cache_date (snd e)) (ExpireTime sc)) (symlink_cache sc)
                     else symlink_cache sc)
            in if length m < CacheSize sc then sc\<lparr>symlink_cache := m\<rparr>
               else (let erase_iters = symlink_scan m (length m - CacheSize sc + 1) []
                     in sc\<lparr>symlink_cache := filter (\<lambda>e. fst e \<notin> fst ` set erase_iters) m\<rparr>)))"

subsection \<open>Looking up\<close>

definition find_stat :: "string \<Rightarrow> bool \<Rightarrow> StatCache \<Rightarrow> (string \<times> stat_cache_entry) option" where
  "find_stat key overcheck sc =
     (let dir = (if overcheck \<and> \<not> ends_slash key then map_option (Pair (key @ ''/'')) (om_find self (key @ ''/'') (stat_cache sc))
                 else None)
      in case dir of Some r \<Rightarrow> Some r | None \<Rightarrow> map_option (Pair key) (om_find self key (stat_cache sc)))"

definition ent_etag :: "stat_cache_entry \<Rightarrow> string option" where
  "ent_etag ent = map_option snd (List.find (\<lambda>h. lower (fst h) = ''etag'') (ent_meta ent))"

definition etag_differs :: "string option \<Rightarrow> stat_cache_entry \<Rightarrow> bool" where
  "etag_differs petag ent =
     (case petag of None \<Rightarrow> False
      | Some tag \<Rightarrow> (case ent_etag ent of None \<Rightarrow> False | Some stretag \<Rightarrow> tag \<noteq> [] \<and> tag \<noteq> stretag))"

definition alive :: "timespec \<Rightarrow> StatCache \<Rightarrow> stat_cache_entry \<Rightarrow> bool" where
  "alive now sc ent =
     (0 < notruncate ent \<or> \<not> IsExpireTime sc \<or> \<not> IsExpireStatCacheTime now (cache_date ent) (ExpireTime sc))"

definition GetStat :: "timespec \<Rightarrow> string \<Rightarrow> bool \<Rightarrow> string option \<Rightarrow> StatCache
    \<Rightarrow> (file_stat \<times> headers_t \<times> bool) option \<times> StatCache" where
  "GetStat now key overcheck petag sc =
     (case find_stat key overcheck sc of
        None \<Rightarrow> (None, sc)
      | Some (strpath, ent) \<Rightarrow>
          if \<not> alive now sc ent then (None, DelStat strpath sc)
          else if noobjcache ent then (None, if IsCacheNoObject sc then sc else DelStat strpath sc)
          else if etag_differs petag ent then (None, DelStat strpath sc)
          else (Some (stbuf ent, ent_meta ent, isforce ent),
                sc\<lparr>stat_cache := om_set self strpath
                     (ent\<lparr>hit_count := hit_count ent + 1,
                          cache_date := (if IsExpireIntervalType sc then now else cache_date ent)\<rparr>) (stat_cache sc)\<rparr>))"

definition IsNoObjectCache :: "timespec \<Rightarrow> string \<Rightarrow> bool \<Rightarrow> StatCache \<Rightarrow> bool \<times> StatCache" where
  "IsNoObjectCache now key overcheck sc =
     (if \<not> IsCacheNoObject sc then (False, sc)
      else (case find_stat key overcheck sc of
              None \<Rightarrow> (False, sc)
            | Some (strpath, ent) \<Rightarrow>
                if \<not> alive now sc ent then (False, DelStat strpath sc)
                else if noobjcache ent
                then (True, sc\<lparr>stat_cache := om_set self strpath (ent\<lparr>cache_date := now\<rparr>) (stat_cache sc)\<rparr>)
                else (False, sc)))"

definition GetSymlink :: "timespec \<Rightarrow> string \<Rightarrow> StatCache \<Rightarrow> string option \<times> StatCache" where
  "GetSymlink now key sc =
     (case om_find self key (symlink_cache sc) of
        None \<Rightarrow> (None, sc)
      | Some ent \<Rightarrow>
          if \<not> IsExpireTime sc \<or> \<not> IsExpireStatCacheTime now (sl_cache_date ent) (ExpireTime sc)
          then (Some (sl_link ent),
                sc\<lparr>symlink_cache := om_set self key
                     (ent\<lparr>sl_hit_count := sl_hit_count ent + 1,
                          sl_cache_date := (if IsExpireIntervalType sc then now else sl_cache_date ent)\<rparr>) (symlink_cache sc)\<rparr>)
          else (None, DelSymlink key sc))"

subsection \<open>Adding\<close>

definition kept_header :: "string \<Rightarrow> string \<Rightarrow> headers_t \<Rightarrow> headers_t" where
  "kept_header name value meta =
     (let tag = lower name
      in if tag = ''content-type'' \<or> tag = ''content-length'' \<or> tag = ''etag'' \<or> tag = ''last-modified''
         then hd_set name value meta
         else if take 5 tag = ''x-amz'' then hd_set tag value meta
         else meta)"

definition kept_headers :: "headers_t \<Rightarrow> headers_t \<Rightarrow> headers_t" where
  "kept_headers meta base = fold (\<lambda>(name, value). kept_header name value) meta base"

text \<open>The cache with room for a key that is to be added.\<close>

definition make_room :: "timespec \<Rightarrow> string \<Rightarrow> StatCache \<Rightarrow> StatCache" where
  "make_room now key sc =
     (if om_find self key (stat_cache sc) \<noteq> None then DelStat key sc
      else if CacheSize sc < length (stat_cache sc) then TruncateCache now sc else sc)"

definition AddStat :: "process_env \<Rightarrow> timespec \<Rightarrow> string \<Rightarrow> headers_t \<Rightarrow> bool \<Rightarrow> bool \<Rightarrow> StatCache \<Rightarrow> StatCache" where
  "AddStat env now key meta forcedir no_truncate sc =
     (if \<not> no_truncate \<and> CacheSize sc < 1 then sc
      else (let sc = make_room now key sc;
                ent = \<lparr>stbuf = convert_header_to_stat env key meta forcedir, hit_count = 0, cache_date = now,
                       ent_meta = kept_headers meta [], isforce = forcedir, noobjcache = False,
                       notruncate = (if no_truncate then 1 else 0)\<rparr>;
                sc = sc\<lparr>stat_cache := om_set self key ent (stat_cache sc)\<rparr>;
                sc = (if \<not> S_ISLNK (st_mode (stbuf ent)) \<and> om_find self key (symlink_cache sc) \<noteq> None
                      then DelSymlink key sc else sc)
            in if no_truncate then AddNotruncateCache key sc else sc))"

definition UpdateMetaStats :: "process_env \<Rightarrow> timespec \<Rightarrow> string \<Rightarrow> headers_t \<Rightarrow> StatCache \<Rightarrow> StatCache" where
  "UpdateMetaStats env now key meta sc =
     (if CacheSize sc < 1 then sc
      else (case om_find self key (stat_cache sc) of
              None \<Rightarrow> sc
            | Some ent \<Rightarrow>
                sc\<lparr>stat_cache := om_set self key
                     (ent\<lparr>ent_meta := kept_headers meta (ent_meta ent), cache_date := now,
                          stbuf := (stbuf ent)\<lparr>st_mode := get_mode env meta key False False\<rparr>\<rparr>) (stat_cache sc)\<rparr>))"

definition AddNoObjectCache :: "timespec \<Rightarrow> string \<Rightarrow> StatCache \<Rightarrow> StatCache" where
  "AddNoObjectCache now key sc =
     (if \<not> IsCacheNoObject sc then sc
      else if CacheSize sc < 1 then sc
      else (let sc = make_room now key sc;
                ent = \<lparr>stbuf = zero_stat, hit_count = 0, cache_date = now, ent_meta = [], isforce = False,
                       noobjcache = True, notruncate = 0\<rparr>;
                sc = sc\<lparr>stat_cache := om_set self key ent (stat_cache sc)\<rparr>
            in if om_find self key (symlink_cache sc) \<noteq> None then DelSymlink key sc else sc))"

definition ChangeNoTruncateFlag :: "string \<Rightarrow> bool \<Rightarrow> StatCache \<Rightarrow> StatCache" where
  "ChangeNoTruncateFlag key no_truncate sc =
     (case om_find self key (stat_cache sc) of
        None \<Rightarrow> sc
      | Some ent \<Rightarrow>
          if no_truncate
          then (let sc = (if notruncate ent = 0 then AddNotruncateCache key sc else sc)
                in sc\<lparr>stat_cache := om_set self key (ent\<lparr>notruncate := notruncate ent + 1\<rparr>) (stat_cache sc)\<rparr>)
          else if 0 < notruncate ent
          then (let sc = sc\<lparr>stat_cache := om_set self key (ent\<lparr>notruncate := notruncate ent - 1\<rparr>) (stat_cache sc)\<rparr>
                in if notruncate ent - 1 = 0 then DelNotruncateCache key sc else sc)
          else sc)"

definition AddSymlink :: "timespec \<Rightarrow> string \<Rightarrow> string \<Rightarrow> StatCache \<Rightarrow> StatCache" where
  "AddSymlink now key value sc =
     (if CacheSize sc < 1 then sc
      else (let sc = (if om_find self key (symlink_cache sc) \<noteq> None then DelSymlink key sc
                      else if CacheSize sc < length (symlink_cache sc) then TruncateSymlink now sc else sc)
            in sc\<lparr>symlink_cache := om_set self key \<lparr>sl_link = value, sl_hit_count = 0, sl_cache_date = now\<rparr> (symlink_cache sc)\<rparr>))"

subsection \<open>Names of files that are not uploaded: the list and the entries agree\<close>

definition pinned :: "StatCache \<Rightarrow> string \<Rightarrow> bool" where
  "pinned sc k = (case om_find self k (stat_cache sc) of None \<Rightarrow> False | Some ent \<Rightarrow> 0 < notruncate ent)"

definition file_path :: "string \<Rightarrow> bool" where
  "file_path k = (\<exists>d n. k = d @ CHR ''/'' # n \<and> good_name n \<and> (d = [] \<or> good_dir d))"

definition good_path :: "string \<Rightarrow> bool" where
  "good_path k = (k = ''/'' \<or> file_path k \<or> (\<exists>b. k = b @ ''/'' \<and> file_path b))"

definition twin :: "string \<Rightarrow> string" where
  "twin k = (if ends_slash k then butlast k else k @ ''/'')"

definition listed :: "StatCache \<Rightarrow> bool" where
  "listed sc = (\<forall>d n. good_dir d \<longrightarrow> good_name n \<longrightarrow> (n \<in> set (nt_list sc (d @ ''/'')) \<longleftrightarrow> pinned sc (d @ CHR ''/'' # n)))"

definition sc_inv :: "StatCache \<Rightarrow> bool" where
  "sc_inv sc = (om_ok self (stat_cache sc) \<and> om_ok self (symlink_cache sc) \<and> (\<forall>dir. distinct (nt_list sc dir)) \<and> listed sc)"

lemma nt_list_eq: "notruncate_file_cache sc' = notruncate_file_cache sc \<Longrightarrow> nt_list sc' = nt_list sc"
  by (simp add: nt_list_def fun_eq_iff)

lemma file_path_cases:
  assumes "file_path k"
  obtains d n where "k = d @ CHR ''/'' # n" "good_name n" "d = [] \<or> good_dir d"
    "mydirname k = (if d = [] then ''/'' else d)" "mybasename k = n"
proof -
  obtain d n where k: "k = d @ CHR ''/'' # n" "good_name n" "d = [] \<or> good_dir d"
    using assms by (auto simp: file_path_def)
  show ?thesis using that [OF k] k dirname_basename [of d n] dirname_root [of n] by (cases "d = []") auto
qed

lemma name_eq:
  assumes "good_name n" and "good_name n'"
  shows "d @ CHR ''/'' # n = d' @ CHR ''/'' # n' \<longleftrightarrow> d = d' \<and> n = n'"
  using last_sep_unique [of d "CHR ''/''" n d' n'] assms by (auto simp: good_name_def)

lemma name_not_end: "good_name n \<Longrightarrow> \<not> ends_slash (d @ CHR ''/'' # n)"
  using good_name_last by (auto simp: ends_slash_def)

lemma file_path_not_end: "file_path k \<Longrightarrow> \<not> ends_slash k \<and> k \<noteq> []"
  using name_not_end by (auto simp: file_path_def)

lemma good_path_not_end: "good_path k \<Longrightarrow> \<not> ends_slash k \<Longrightarrow> file_path k"
  by (auto simp: good_path_def ends_slash_def)

lemma twin_cases:
  assumes "good_path k" and "k \<noteq> ''/''"
  obtains "file_path k" "twin k = k @ ''/''" | b where "file_path b" "k = b @ ''/''" "twin k = b"
proof -
  consider "file_path k" | b where "k = b @ ''/''" "file_path b" using assms by (auto simp: good_path_def)
  then show ?thesis
  proof cases
    case 1
    then show ?thesis using file_path_not_end [OF 1] that(1) by (simp add: twin_def)
  next
    case (2 b)
    then show ?thesis using that(2) [of b] by (simp add: twin_def ends_slash_def)
  qed
qed

lemma good_path_twin:
  assumes "good_path k" and "k \<noteq> ''/''"
  shows "good_path (twin k)" and "twin k \<noteq> ''/''" and "twin k \<noteq> k" and "twin (twin k) = k"
proof -
  have r: "\<not> file_path ''/''" using file_path_not_end [of "''/''"] by (auto simp: ends_slash_def)
  have "good_path (twin k) \<and> twin k \<noteq> ''/'' \<and> twin k \<noteq> k \<and> twin (twin k) = k"
  proof (cases rule: twin_cases [OF assms])
    case 1
    then show ?thesis using file_path_not_end [OF 1(1)] by (auto simp: good_path_def twin_def ends_slash_def)
  next
    case (2 b)
    then show ?thesis using file_path_not_end [OF 2(1)] r by (auto simp: good_path_def twin_def)
  qed
  then show "good_path (twin k)" "twin k \<noteq> ''/''" "twin k \<noteq> k" "twin (twin k) = k" by auto
qed

text \<open>The effect of the two changes of the list, on the names of any directory but the root.\<close>

lemma nt_list_set [simp]:
  "nt_list (sc\<lparr>notruncate_file_cache := om_set self d l (notruncate_file_cache sc)\<rparr>) dir = (if dir = d then l else nt_list sc dir)"
  "nt_list (sc\<lparr>notruncate_file_cache := om_del self d (notruncate_file_cache sc)\<rparr>) dir = (if dir = d then [] else nt_list sc dir)"
  by (simp_all add: nt_list_def)

lemma nt_list_cache [simp]:
  "nt_list (sc\<lparr>stat_cache := c\<rparr>) dir = nt_list sc dir"
  "nt_list (sc\<lparr>symlink_cache := s\<rparr>) dir = nt_list sc dir"
  by (simp_all add: nt_list_def)

lemma AddNotruncate_fields [simp]:
  "stat_cache (AddNotruncateCache k sc) = stat_cache sc" "symlink_cache (AddNotruncateCache k sc) = symlink_cache sc"
  "IsCacheNoObject (AddNotruncateCache k sc) = IsCacheNoObject sc" "CacheSize (AddNotruncateCache k sc) = CacheSize sc"
  "IsExpireTime (AddNotruncateCache k sc) = IsExpireTime sc" "ExpireTime (AddNotruncateCache k sc) = ExpireTime sc"
  "IsExpireIntervalType (AddNotruncateCache k sc) = IsExpireIntervalType sc"
  by (simp_all add: AddNotruncateCache_def Let_def split: option.split)

lemma DelNotruncate_fields [simp]:
  "stat_cache (DelNotruncateCache k sc) = stat_cache sc" "symlink_cache (DelNotruncateCache k sc) = symlink_cache sc"
  "IsCacheNoObject (DelNotruncateCache k sc) = IsCacheNoObject sc" "CacheSize (DelNotruncateCache k sc) = CacheSize sc"
  "IsExpireTime (DelNotruncateCache k sc) = IsExpireTime sc" "ExpireTime (DelNotruncateCache k sc) = ExpireTime sc"
  "IsExpireIntervalType (DelNotruncateCache k sc) = IsExpireIntervalType sc"
  by (simp_all add: DelNotruncateCache_def Let_def split: option.split)

lemma AddNotruncate_dir:
  assumes "k \<noteq> []" and "\<not> ends_slash k" and "mydirname k = d" and "d \<noteq> []" and "mybasename k = n" and "n \<noteq> []"
  shows "nt_list (AddNotruncateCache k sc) dir =
    (if dir = d @ ''/'' \<and> n \<notin> set (nt_list sc dir) then nt_list sc dir @ [n] else nt_list sc dir)"
  using assms by (auto simp: AddNotruncateCache_def Let_def nt_list_def split: option.splits)

lemma DelNotruncate_dir:
  assumes "k \<noteq> []" and "\<not> ends_slash k" and "mydirname k = d" and "d \<noteq> []" and "mybasename k = n" and "n \<noteq> []"
  shows "nt_list (DelNotruncateCache k sc) dir = (if dir = d @ ''/'' then remove1 n (nt_list sc dir) else nt_list sc dir)"
  using assms by (auto simp: DelNotruncateCache_def Let_def nt_list_def remove1_idem split: option.splits)

lemma nt_end [simp]:
  "ends_slash k \<Longrightarrow> AddNotruncateCache k sc = sc" "ends_slash k \<Longrightarrow> DelNotruncateCache k sc = sc"
  by (simp_all add: AddNotruncateCache_def DelNotruncateCache_def)

lemma AddNotruncate_in:
  assumes "good_path k" and "good_dir d" and "good_name n"
  shows "n \<in> set (nt_list (AddNotruncateCache k sc) (d @ ''/'')) \<longleftrightarrow> n \<in> set (nt_list sc (d @ ''/'')) \<or> k = d @ CHR ''/'' # n"
proof (cases "ends_slash k")
  case True
  then have "k \<noteq> d @ CHR ''/'' # n" using name_not_end [OF assms(3)] by auto
  with True show ?thesis by simp
next
  case False
  obtain d' n' where k: "k = d' @ CHR ''/'' # n'" "good_name n'" "d' = [] \<or> good_dir d'"
    "mydirname k = (if d' = [] then ''/'' else d')" "mybasename k = n'"
    by (rule file_path_cases [OF good_path_not_end [OF assms(1) False]])
  have n: "n' \<noteq> []" using k by (simp add: good_name_def)
  have root: "d' = [] \<Longrightarrow> d \<noteq> ''/''" "d \<noteq> []" using assms(2) by (auto simp: good_dir_def ends_slash_def)
  have eq: "k = d @ CHR ''/'' # n \<longleftrightarrow> d' = d \<and> n' = n" using k name_eq [OF k(2) assms(3)] by simp
  show ?thesis
    using AddNotruncate_dir [of k "mydirname k" n' sc "d @ ''/''"] k False n root eq by (auto split: if_splits)
qed

lemma DelNotruncate_in:
  assumes "good_path k" and "good_dir d" and "good_name n" and "\<forall>dir. distinct (nt_list sc dir)"
  shows "n \<in> set (nt_list (DelNotruncateCache k sc) (d @ ''/'')) \<longleftrightarrow> n \<in> set (nt_list sc (d @ ''/'')) \<and> k \<noteq> d @ CHR ''/'' # n"
proof (cases "ends_slash k")
  case True
  then have "k \<noteq> d @ CHR ''/'' # n" using name_not_end [OF assms(3)] by auto
  with True show ?thesis by simp
next
  case False
  obtain d' n' where k: "k = d' @ CHR ''/'' # n'" "good_name n'" "d' = [] \<or> good_dir d'"
    "mydirname k = (if d' = [] then ''/'' else d')" "mybasename k = n'"
    by (rule file_path_cases [OF good_path_not_end [OF assms(1) False]])
  have n: "n' \<noteq> []" using k by (simp add: good_name_def)
  have root: "d' = [] \<Longrightarrow> d \<noteq> ''/''" "d \<noteq> []" using assms(2) by (auto simp: good_dir_def ends_slash_def)
  have eq: "k = d @ CHR ''/'' # n \<longleftrightarrow> d' = d \<and> n' = n" using k name_eq [OF k(2) assms(3)] by simp
  show ?thesis
    using DelNotruncate_dir [of k "mydirname k" n' sc "d @ ''/''"] k False n root eq assms(4) by (auto split: if_splits)
qed

lemma nt_distinct:
  assumes "good_path k" and "\<forall>dir. distinct (nt_list sc dir)"
  shows "\<forall>dir. distinct (nt_list (AddNotruncateCache k sc) dir)" and "\<forall>dir. distinct (nt_list (DelNotruncateCache k sc) dir)"
proof -
  consider "ends_slash k" | d n where "\<not> ends_slash k" "k \<noteq> []" "mydirname k = d" "d \<noteq> []" "mybasename k = n" "n \<noteq> []"
    using good_path_not_end [OF assms(1)] file_path_cases by (metis append_is_Nil_conv good_name_last list.distinct(1))
  then have "(\<forall>dir. distinct (nt_list (AddNotruncateCache k sc) dir)) \<and> (\<forall>dir. distinct (nt_list (DelNotruncateCache k sc) dir))"
  proof cases
    case 2
    then show ?thesis using assms(2) AddNotruncate_dir [OF 2(2,1,3-6)] DelNotruncate_dir [OF 2(2,1,3-6)] by simp
  qed (use assms(2) in simp)
  then show "\<forall>dir. distinct (nt_list (AddNotruncateCache k sc) dir)" "\<forall>dir. distinct (nt_list (DelNotruncateCache k sc) dir)"
    by auto
qed

subsection \<open>Every operation keeps the invariant\<close>

lemma pinned_set [simp]:
  "pinned (sc\<lparr>stat_cache := om_set self k ent m\<rparr>) j = (if j = k then 0 < notruncate ent else pinned (sc\<lparr>stat_cache := m\<rparr>) j)"
  "pinned (sc\<lparr>stat_cache := om_del self k m\<rparr>) j = (j \<noteq> k \<and> pinned (sc\<lparr>stat_cache := m\<rparr>) j)"
  "pinned (sc\<lparr>symlink_cache := s\<rparr>) j = pinned sc j"
  "pinned (sc\<lparr>notruncate_file_cache := nt\<rparr>) j = pinned sc j"
  "pinned (sc\<lparr>stat_cache := stat_cache sc\<rparr>) j = pinned sc j"
  by (simp_all add: pinned_def)

lemma pinned_nt [simp]: "pinned (AddNotruncateCache k sc) = pinned sc" "pinned (DelNotruncateCache k sc) = pinned sc"
  by (simp_all add: pinned_def fun_eq_iff)

lemma sc_invI:
  assumes "om_ok self (stat_cache sc)" and "om_ok self (symlink_cache sc)" and "\<forall>dir. distinct (nt_list sc dir)"
    and "\<And>d n. good_dir d \<Longrightarrow> good_name n \<Longrightarrow> n \<in> set (nt_list sc (d @ ''/'')) \<longleftrightarrow> pinned sc (d @ CHR ''/'' # n)"
  shows "sc_inv sc"
  using assms by (simp add: sc_inv_def listed_def)

lemma sc_invD:
  assumes "sc_inv sc"
  shows "om_ok self (stat_cache sc)" and "om_ok self (symlink_cache sc)" and "\<forall>dir. distinct (nt_list sc dir)"
    and "good_dir d \<Longrightarrow> good_name n \<Longrightarrow> n \<in> set (nt_list sc (d @ ''/'')) \<longleftrightarrow> pinned sc (d @ CHR ''/'' # n)"
  using assms by (auto simp: sc_inv_def listed_def)

lemma sc_inv_symlink: "sc_inv sc \<Longrightarrow> om_ok self s \<Longrightarrow> sc_inv (sc\<lparr>symlink_cache := s\<rparr>)"
  by (rule sc_invI) (auto dest: sc_invD)

lemma DelSymlink_inv: "sc_inv sc \<Longrightarrow> sc_inv (DelSymlink k sc)"
  unfolding DelSymlink_def by (rule sc_inv_symlink) (auto dest: sc_invD)

lemma pin_to_empty:
  assumes "om_find self k (stat_cache sc) = Some ent"
  shows "0 < notruncate ent \<longleftrightarrow> pinned sc k"
  using assms by (simp add: pinned_def)

text \<open>An entry whose count keeps its sign.\<close>

lemma sc_inv_set:
  assumes "sc_inv sc" and "0 < notruncate ent \<longleftrightarrow> pinned sc k"
  shows "sc_inv (sc\<lparr>stat_cache := om_set self k ent (stat_cache sc)\<rparr>)"
  by (rule sc_invI) (use assms sc_invD [OF assms(1)] in auto)

lemma drop_stat_find: "om_find self j (stat_cache (drop_stat k sc)) = (if j = k then None else om_find self j (stat_cache sc))"
  by (simp add: drop_stat_def split: option.split)

lemma drop_stat_pinned: "pinned (drop_stat k sc) j \<longleftrightarrow> j \<noteq> k \<and> pinned sc j"
  by (simp add: pinned_def drop_stat_find)

lemma drop_stat_inv:
  assumes "sc_inv sc" and "good_path k"
  shows "sc_inv (drop_stat k sc)"
proof (cases "om_find self k (stat_cache sc)")
  case None
  then show ?thesis using assms(1) by (simp add: drop_stat_def)
next
  case (Some ent)
  let ?sc = "sc\<lparr>stat_cache := om_del self k (stat_cache sc)\<rparr>"
  note inv = sc_invD [OF assms(1)]
  have nt: "\<forall>dir. distinct (nt_list ?sc dir)" using inv by simp
  have "sc_inv (DelNotruncateCache k ?sc)"
  proof (rule sc_invI)
    show "\<forall>dir. distinct (nt_list (DelNotruncateCache k ?sc) dir)" by (rule nt_distinct(2) [OF assms(2) nt])
    fix d n assume d: "good_dir d" "good_name n"
    show "n \<in> set (nt_list (DelNotruncateCache k ?sc) (d @ ''/'')) \<longleftrightarrow> pinned (DelNotruncateCache k ?sc) (d @ CHR ''/'' # n)"
      using DelNotruncate_in [OF assms(2) d nt] inv(4) [OF d] by auto
  qed (use inv in auto)
  then show ?thesis using Some by (simp add: drop_stat_def)
qed

lemma DelStat_alt: "key \<noteq> [] \<Longrightarrow> DelStat key sc = (if key = ''/'' then drop_stat key sc else drop_stat (twin key) (drop_stat key sc))"
  by (simp add: DelStat_def twin_def Let_def)

lemma good_path_neq: "good_path k \<Longrightarrow> k \<noteq> []"
  by (auto simp: good_path_def file_path_def)

lemma DelStat_inv: "sc_inv sc \<Longrightarrow> good_path k \<Longrightarrow> sc_inv (DelStat k sc)"
  using drop_stat_inv by (auto simp: DelStat_alt good_path_neq good_path_twin)

lemma DelStat_find:
  "good_path k \<Longrightarrow> om_find self j (stat_cache (DelStat k sc)) =
     (if j = k \<or> k \<noteq> ''/'' \<and> j = twin k then None else om_find self j (stat_cache sc))"
  by (auto simp: DelStat_alt good_path_neq drop_stat_find)

lemma DelStat_pinned: "good_path k \<Longrightarrow> pinned (DelStat k sc) j \<longleftrightarrow> j \<noteq> k \<and> (k = ''/'' \<or> j \<noteq> twin k) \<and> pinned sc j"
  by (auto simp: pinned_def DelStat_find)

lemma drop_stat_fields [simp]:
  "symlink_cache (drop_stat k sc) = symlink_cache sc" "CacheSize (drop_stat k sc) = CacheSize sc"
  "IsExpireTime (drop_stat k sc) = IsExpireTime sc" "ExpireTime (drop_stat k sc) = ExpireTime sc"
  "IsExpireIntervalType (drop_stat k sc) = IsExpireIntervalType sc" "IsCacheNoObject (drop_stat k sc) = IsCacheNoObject sc"
  by (simp_all add: drop_stat_def split: option.split)

lemma DelStat_fields [simp]:
  "symlink_cache (DelStat k sc) = symlink_cache sc" "CacheSize (DelStat k sc) = CacheSize sc"
  "IsExpireTime (DelStat k sc) = IsExpireTime sc" "ExpireTime (DelStat k sc) = ExpireTime sc"
  "IsExpireIntervalType (DelStat k sc) = IsExpireIntervalType sc" "IsCacheNoObject (DelStat k sc) = IsCacheNoObject sc"
  by (simp_all add: DelStat_def Let_def)

subsection \<open>What is dropped when the cache is full\<close>

text \<open>\<open>oldest n xs r\<close>: \<open>r\<close> holds \<open>n\<close> of \<open>xs\<close>, or all when there are fewer, and none that is left is older.\<close>

definition oldest :: "('a \<Rightarrow> 'o::linorder) \<Rightarrow> nat \<Rightarrow> 'a list \<Rightarrow> 'a list \<Rightarrow> bool" where
  "oldest age n xs r =
     (set r \<subseteq> set xs \<and> distinct r \<and> length r = min n (length xs) \<and>
      (\<forall>x \<in> set r. \<forall>y \<in> set xs - set r. age x \<le> age y))"

definition trim_oldest :: "('a \<Rightarrow> 'o::linorder) \<Rightarrow> nat \<Rightarrow> 'a list \<Rightarrow> 'a list" where
  "trim_oldest age n xs = (if n < length xs then take n (sort_key age xs) else xs)"

lemma sort_key_take_drop:
  assumes "a \<in> set (take n (sort_key age xs))" and "b \<in> set (drop n (sort_key age xs))"
  shows "age a \<le> age b"
proof -
  have "sorted (map age (take n (sort_key age xs) @ drop n (sort_key age xs)))" by simp
  then have "sorted (map age (take n (sort_key age xs)) @ map age (drop n (sort_key age xs)))" by (simp only: map_append)
  then show ?thesis using assms by (auto simp only: sorted_append set_map)
qed

lemma oldest_trim:
  assumes dist: "distinct (acc @ us)" and r: "oldest age n' (trim_oldest age n acc @ us) r" and le: "n' \<le> n"
  shows "oldest age n' (acc @ us) r"
proof (cases "n < length acc")
  case False
  with r show ?thesis by (simp add: trim_oldest_def)
next
  case True
  let ?t = "take n (sort_key age acc)"
  have t: "trim_oldest age n acc = ?t" "length ?t = n" "set ?t \<subseteq> set acc" "distinct ?t"
    using True dist set_take_subset [of n "sort_key age acc"] by (auto simp: trim_oldest_def)
  have r': "set r \<subseteq> set ?t \<union> set us" "distinct r" "length r = min n' (n + length us)"
    "\<forall>x \<in> set r. \<forall>y \<in> (set ?t \<union> set us) - set r. age x \<le> age y"
    using r t by (auto simp: oldest_def)
  have late: "\<forall>a \<in> set ?t. age a \<le> age y" if "y \<in> set acc" "y \<notin> set ?t" for y
  proof -
    have "y \<in> set (sort_key age acc)" using that(1) by simp
    then have "y \<in> set ?t \<union> set (drop n (sort_key age acc))" by (simp only: set_append [symmetric] append_take_drop_id)
    then have "y \<in> set (drop n (sort_key age acc))" using that(2) by (simp only: Un_iff) blast
    then show ?thesis by (intro ballI sort_key_take_drop [of _ n age acc y])
  qed
  have "age x \<le> age y" if x: "x \<in> set r" and y: "y \<in> set (acc @ us) - set r" for x y
  proof (cases "y \<in> set ?t \<union> set us")
    case True
    then show ?thesis using r'(4) x y by blast
  next
    case False
    then have y': "y \<in> set acc" "y \<notin> set ?t" using y by auto
    show ?thesis
    proof (cases "x \<in> set ?t")
      case True
      then show ?thesis using late [OF y'] by blast
    next
      case False
      have "\<not> set ?t \<subseteq> set r"
      proof
        assume "set ?t \<subseteq> set r"
        then have "card (insert x (set ?t)) \<le> card (set r)" using x by (intro card_mono) auto
        then have "n + 1 \<le> length r" using False t(2,4) r'(2) by (simp add: distinct_card)
        then show False using r'(3) le by simp
      qed
      then obtain a where "a \<in> set ?t" "a \<notin> set r" by auto
      then have "age x \<le> age a" "age a \<le> age y" using r'(4) x late [OF y'] by auto
      then show ?thesis by simp
    qed
  qed
  moreover have "set r \<subseteq> set (acc @ us)" using r'(1) t(3) by auto
  moreover have "length r = min n' (length (acc @ us))" using r'(3) le True by simp
  ultimately show ?thesis using r'(2) by (simp add: oldest_def)
qed

lemma truncate_scan_oldest:
  assumes "distinct (acc @ filter (\<lambda>e. notruncate (snd e) = 0) es)" and "length acc \<le> n"
  shows "oldest stat_age (n - length (filter (\<lambda>e. 0 < notruncate (snd e)) es))
           (acc @ filter (\<lambda>e. notruncate (snd e) = 0) es) (truncate_scan es n acc)"
  using assms
proof (induction es arbitrary: n acc)
  case Nil
  then show ?case by (simp add: oldest_def)
next
  case (Cons e es)
  let ?us = "filter (\<lambda>e. notruncate (snd e) = 0) es" and ?p = "length (filter (\<lambda>e. 0 < notruncate (snd e)) es)"
  show ?case
  proof (cases "n = 0")
    case True
    then show ?thesis using Cons.prems by (simp add: oldest_def)
  next
    case False
    define acc' where "acc' = (if 0 < notruncate (snd e) then acc else acc @ [e])"
    define n' where "n' = (if 0 < notruncate (snd e) then n - 1 else n)"
    have step: "truncate_scan (e # es) n acc = truncate_scan es n' (trim_oldest stat_age n' acc')"
      using False by (simp add: acc'_def n'_def trim_oldest_def Let_def)
    have all: "acc @ filter (\<lambda>e. notruncate (snd e) = 0) (e # es) = acc' @ ?us" by (simp add: acc'_def)
    have num: "n - length (filter (\<lambda>e. 0 < notruncate (snd e)) (e # es)) = n' - ?p" by (simp add: n'_def)
    have d: "distinct (acc' @ ?us)" using Cons.prems(1) by (simp only: all)
    have sub: "set (trim_oldest stat_age n' acc') \<subseteq> set acc'"
      using set_take_subset [of n' "sort_key stat_age acc'"] by (auto simp: trim_oldest_def)
    have "distinct (trim_oldest stat_age n' acc')" using d by (simp add: trim_oldest_def)
    then have "distinct (trim_oldest stat_age n' acc' @ ?us)" using d sub by auto
    moreover have "length (trim_oldest stat_age n' acc') \<le> n'" by (simp add: trim_oldest_def)
    ultimately have "oldest stat_age (n' - ?p) (trim_oldest stat_age n' acc' @ ?us) (truncate_scan (e # es) n acc)"
      unfolding step by (rule Cons.IH)
    from oldest_trim [OF d this] show ?thesis by (simp only: all num)
  qed
qed

lemma symlink_scan_oldest:
  assumes "distinct (acc @ es)" and "length acc \<le> n"
  shows "oldest symlink_age n (acc @ es) (symlink_scan es n acc)"
  using assms
proof (induction es arbitrary: acc)
  case Nil
  then show ?case by (simp add: oldest_def)
next
  case (Cons e es)
  let ?s = "sort_key symlink_age (acc @ [e])"
  let ?t = "if n < length ?s then butlast ?s else ?s"
  have len: "length ?s = Suc (length acc)" by simp
  have cut: "butlast ?s = trim_oldest symlink_age n (acc @ [e])" if "n < length ?s"
  proof -
    have "n = length acc" using that len Cons.prems(2) by simp
    then show ?thesis by (simp add: trim_oldest_def butlast_conv_take)
  qed
  have d: "distinct ((acc @ [e]) @ es)" using Cons.prems(1) by auto
  have sub: "set ?t \<subseteq> set (acc @ [e])" using in_set_butlastD [of _ ?s] by auto
  have dt: "distinct ?t" using d by (auto simp: distinct_butlast)
  have "distinct (?t @ es)" using d sub dt by auto
  moreover have "length ?t \<le> n" using len Cons.prems(2) by (auto split: if_splits)
  ultimately have ih: "oldest symlink_age n (?t @ es) (symlink_scan (e # es) n acc)"
    using Cons.IH [of ?t] by (simp add: Let_def)
  show ?case
  proof (cases "n < length ?s")
    case True
    then have "?t = trim_oldest symlink_age n (acc @ [e])" using cut by simp
    with ih oldest_trim [OF d, of symlink_age n n] show ?thesis by simp
  next
    case False
    then have "set ?t = set (acc @ [e])" "length ?t = length (acc @ [e])" by auto
    with ih show ?thesis by (simp add: oldest_def)
  qed
qed

definition unpinned :: "(string, stat_cache_entry) omap \<Rightarrow> (string \<times> stat_cache_entry) list" where
  "unpinned m = filter (\<lambda>e. notruncate (snd e) = 0) m"

definition young :: "timespec \<Rightarrow> StatCache \<Rightarrow> (string, stat_cache_entry) omap" where
  "young now sc = filter (\<lambda>e. alive now sc (snd e)) (stat_cache sc)"

lemma young_alt:
  "young now sc = (if IsExpireTime sc
     then filter (\<lambda>e. \<not> (notruncate (snd e) = 0 \<and> IsExpireStatCacheTime now (cache_date (snd e)) (ExpireTime sc))) (stat_cache sc)
     else stat_cache sc)"
  by (auto simp: young_def alive_def intro!: filter_cong)

lemma length_unpinned: "length (filter (\<lambda>e. 0 < notruncate (snd e)) m) + length (unpinned m) = length m"
  using sum_length_filter_compl [of "\<lambda>e. 0 < notruncate (snd e)" m] by (simp add: unpinned_def)

lemma filter_keys:
  assumes "distinct (map fst m)" and "set r \<subseteq> set m"
  shows "filter (\<lambda>e. fst e \<notin> fst ` set r) m = filter (\<lambda>e. e \<notin> set r) m"
proof (rule filter_cong)
  fix e assume e: "e \<in> set m"
  have "inj_on fst (set m)" using assms(1) by (simp add: distinct_map)
  then show "(fst e \<notin> fst ` set r) = (e \<notin> set r)" using e assms(2) by (auto simp: inj_on_def)
qed simp

text \<open>
  What \<^verbatim>\<open>TruncateCache\<close> leaves: first the entries that are not too old; when they still fill the cache, the oldest
  of those that may be dropped go, one more than is over the size and less by the number of the pinned ones.
\<close>

lemma TruncateCache_effect:
  assumes "om_ok self (stat_cache sc)"
  obtains r where "stat_cache (TruncateCache now sc) = filter (\<lambda>e. e \<notin> set r) (young now sc)"
    and "oldest stat_age
           (if length (young now sc) < CacheSize sc then 0
            else length (young now sc) - CacheSize sc + 1 - length (filter (\<lambda>e. 0 < notruncate (snd e)) (young now sc)))
           (unpinned (young now sc)) r"
proof -
  let ?m = "young now sc" and ?n = "length (young now sc) - CacheSize sc + 1"
  have "om_ok self ?m" using assms by (simp add: young_def)
  then have dk: "distinct (map fst ?m)" by (rule om_ok_distinct_keys)
  then have dm: "distinct ?m" by (rule distinct_map [THEN iffD1, THEN conjunct1])
  have tr: "TruncateCache now sc = (if stat_cache sc = [] then sc
      else if length ?m < CacheSize sc then sc\<lparr>stat_cache := ?m\<rparr>
      else sc\<lparr>stat_cache := filter (\<lambda>e. fst e \<notin> fst ` set (truncate_scan ?m ?n [])) ?m\<rparr>)"
    by (simp add: TruncateCache_def young_alt Let_def)
  show ?thesis
  proof (cases "stat_cache sc = [] \<or> length ?m < CacheSize sc")
    case True
    then have "stat_cache (TruncateCache now sc) = filter (\<lambda>e. e \<notin> set []) ?m" by (auto simp: tr young_def)
    moreover have "oldest stat_age 0 (unpinned ?m) []" by (simp add: oldest_def)
    moreover have "stat_cache sc = [] \<Longrightarrow> oldest stat_age n (unpinned ?m) []" for n by (simp add: oldest_def young_def unpinned_def)
    ultimately show ?thesis using that [of "[]"] True by auto
  next
    case False
    let ?r = "truncate_scan ?m ?n []"
    have o: "oldest stat_age (?n - length (filter (\<lambda>e. 0 < notruncate (snd e)) ?m)) (unpinned ?m) ?r"
      using truncate_scan_oldest [of "[]" ?m ?n] dm by (simp add: unpinned_def)
    then have "set ?r \<subseteq> set ?m" by (auto simp: oldest_def unpinned_def)
    then have "stat_cache (TruncateCache now sc) = filter (\<lambda>e. e \<notin> set ?r) ?m"
      using False filter_keys [OF dk] by (simp add: tr)
    then show ?thesis using that [of ?r] o False by simp
  qed
qed

lemma TruncateCache_fields [simp]:
  "symlink_cache (TruncateCache now sc) = symlink_cache sc" "CacheSize (TruncateCache now sc) = CacheSize sc"
  "IsExpireTime (TruncateCache now sc) = IsExpireTime sc" "ExpireTime (TruncateCache now sc) = ExpireTime sc"
  "IsExpireIntervalType (TruncateCache now sc) = IsExpireIntervalType sc" "IsCacheNoObject (TruncateCache now sc) = IsCacheNoObject sc"
  "notruncate_file_cache (TruncateCache now sc) = notruncate_file_cache sc"
  by (simp_all add: TruncateCache_def Let_def)

lemma TruncateCache_keeps:
  assumes "om_ok self (stat_cache sc)"
  obtains P where "stat_cache (TruncateCache now sc) = filter P (stat_cache sc)" and "\<forall>e. 0 < notruncate (snd e) \<longrightarrow> P e"
proof -
  obtain r where r: "stat_cache (TruncateCache now sc) = filter (\<lambda>e. e \<notin> set r) (young now sc)"
      and o: "oldest stat_age
           (if length (young now sc) < CacheSize sc then 0
            else length (young now sc) - CacheSize sc + 1 - length (filter (\<lambda>e. 0 < notruncate (snd e)) (young now sc)))
           (unpinned (young now sc)) r"
    by (rule TruncateCache_effect [OF assms, where now = now])
  have "0 < notruncate (snd e) \<Longrightarrow> e \<notin> set r" for e using o by (auto simp: oldest_def unpinned_def)
  moreover have "0 < notruncate (snd e) \<Longrightarrow> alive now sc (snd e)" for e :: "string \<times> stat_cache_entry" by (simp add: alive_def)
  ultimately show ?thesis using that [of "\<lambda>e. alive now sc (snd e) \<and> e \<notin> set r"] r by (simp add: young_def)
qed

lemma TruncateCache_pinned:
  assumes "om_ok self (stat_cache sc)"
  shows "pinned (TruncateCache now sc) = pinned sc"
proof -
  obtain P where P: "stat_cache (TruncateCache now sc) = filter P (stat_cache sc)" "\<forall>e. 0 < notruncate (snd e) \<longrightarrow> P e"
    by (rule TruncateCache_keeps [OF assms, where now = now])
  show ?thesis using P(2) by (auto simp: pinned_def fun_eq_iff P(1) om_find_filter [OF assms] split: option.splits)
qed

lemma TruncateCache_pinned_entry:
  assumes "om_ok self (stat_cache sc)" and "om_find self k (stat_cache sc) = Some ent" and "0 < notruncate ent"
  shows "om_find self k (stat_cache (TruncateCache now sc)) = Some ent"
proof -
  obtain P where P: "stat_cache (TruncateCache now sc) = filter P (stat_cache sc)" "\<forall>e. 0 < notruncate (snd e) \<longrightarrow> P e"
    by (rule TruncateCache_keeps [OF assms(1), where now = now])
  show ?thesis using spec [OF P(2), of "(k, ent)"] assms by (simp add: P(1) om_find_filter [OF assms(1)])
qed

lemma TruncateCache_inv:
  assumes "sc_inv sc"
  shows "sc_inv (TruncateCache now sc)"
proof (rule sc_invI)
  note inv = sc_invD [OF assms]
  obtain P where P: "stat_cache (TruncateCache now sc) = filter P (stat_cache sc)" "\<forall>e. 0 < notruncate (snd e) \<longrightarrow> P e"
    by (rule TruncateCache_keeps [OF inv(1), where now = now])
  show "om_ok self (stat_cache (TruncateCache now sc))" using inv(1) by (simp add: P(1))
  have nt: "nt_list (TruncateCache now sc) = nt_list sc" by (rule nt_list_eq) simp
  show "\<forall>dir. distinct (nt_list (TruncateCache now sc) dir)" using inv(3) by (simp add: nt)
  fix d n assume "good_dir d" "good_name n"
  then show "n \<in> set (nt_list (TruncateCache now sc) (d @ ''/'')) \<longleftrightarrow> pinned (TruncateCache now sc) (d @ CHR ''/'' # n)"
    using inv(4) by (simp add: nt TruncateCache_pinned [OF inv(1)])
qed (use sc_invD(2) [OF assms] in simp)

lemma TruncateSymlink_inv:
  assumes "sc_inv sc"
  shows "sc_inv (TruncateSymlink now sc)"
proof -
  have eq: "TruncateSymlink now sc = sc\<lparr>symlink_cache := symlink_cache (TruncateSymlink now sc)\<rparr>"
    by (simp add: TruncateSymlink_def Let_def)
  have "om_ok self (symlink_cache (TruncateSymlink now sc))"
    using sc_invD(2) [OF assms] by (simp add: TruncateSymlink_def Let_def)
  then show ?thesis by (subst eq) (rule sc_inv_symlink [OF assms])
qed

subsection \<open>The operations keep the invariant\<close>

lemma find_statD:
  assumes "find_stat key overcheck sc = Some (p, ent)"
  shows "om_find self p (stat_cache sc) = Some ent" and "p = key \<or> \<not> ends_slash key \<and> p = twin key"
  using assms by (auto simp: find_stat_def Let_def twin_def split: option.splits if_splits)

lemma find_stat_path: "find_stat key overcheck sc = Some (p, ent) \<Longrightarrow> good_path key \<Longrightarrow> good_path p"
  using find_statD(2) [of key overcheck sc p ent] good_path_twin(1) [of key]
  by (cases "key = ''/''") (auto simp: ends_slash_def)

lemma GetStat_inv:
  assumes "sc_inv sc" and "good_path key"
  shows "sc_inv (snd (GetStat now key overcheck petag sc))"
proof (cases "find_stat key overcheck sc")
  case (Some r)
  then obtain p ent where f: "find_stat key overcheck sc = Some (p, ent)" by (cases r) auto
  have "sc_inv (DelStat p sc)" using DelStat_inv [OF assms(1) find_stat_path [OF f assms(2)]] .
  moreover have "sc_inv (sc\<lparr>stat_cache := om_set self p (ent\<lparr>hit_count := h, cache_date := c\<rparr>) (stat_cache sc)\<rparr>)" for h c
    by (rule sc_inv_set [OF assms(1)]) (use find_statD(1) [OF f] in \<open>simp add: pinned_def\<close>)
  ultimately show ?thesis using assms(1) by (simp add: GetStat_def f)
qed (use assms(1) in \<open>simp add: GetStat_def\<close>)

lemma IsNoObjectCache_inv:
  assumes "sc_inv sc" and "good_path key"
  shows "sc_inv (snd (IsNoObjectCache now key overcheck sc))"
proof (cases "find_stat key overcheck sc")
  case (Some r)
  then obtain p ent where f: "find_stat key overcheck sc = Some (p, ent)" by (cases r) auto
  have "sc_inv (DelStat p sc)" using DelStat_inv [OF assms(1) find_stat_path [OF f assms(2)]] .
  moreover have "sc_inv (sc\<lparr>stat_cache := om_set self p (ent\<lparr>cache_date := c\<rparr>) (stat_cache sc)\<rparr>)" for c
    by (rule sc_inv_set [OF assms(1)]) (use find_statD(1) [OF f] in \<open>simp add: pinned_def\<close>)
  ultimately show ?thesis using assms(1) by (simp add: IsNoObjectCache_def f)
qed (use assms(1) in \<open>simp add: IsNoObjectCache_def\<close>)

lemma GetSymlink_inv: "sc_inv sc \<Longrightarrow> sc_inv (snd (GetSymlink now key sc))"
  by (auto simp: GetSymlink_def intro!: sc_inv_symlink DelSymlink_inv dest: sc_invD split: option.split)

lemma AddSymlink_inv:
  assumes "sc_inv sc"
  shows "sc_inv (AddSymlink now key v sc)"
proof -
  have "sc_inv s \<Longrightarrow> sc_inv (s\<lparr>symlink_cache := om_set self key e (symlink_cache s)\<rparr>)" for s e
    by (rule sc_inv_symlink) (auto dest: sc_invD)
  then show ?thesis using assms DelSymlink_inv [OF assms] TruncateSymlink_inv [OF assms] by (simp add: AddSymlink_def Let_def)
qed

lemma UpdateMetaStats_inv: "sc_inv sc \<Longrightarrow> sc_inv (UpdateMetaStats env now key meta sc)"
  by (auto simp: UpdateMetaStats_def pinned_def intro!: sc_inv_set split: option.split)

lemma make_room_inv: "sc_inv sc \<Longrightarrow> good_path key \<Longrightarrow> sc_inv (make_room now key sc)"
  by (simp add: make_room_def DelStat_inv TruncateCache_inv)

lemma make_room_free:
  assumes "sc_inv sc" and "good_path key"
  shows "om_find self key (stat_cache (make_room now key sc)) = None"
proof -
  have "om_find self key (stat_cache sc) = None \<Longrightarrow> om_find self key (stat_cache (TruncateCache now sc)) = None"
  proof -
    assume n: "om_find self key (stat_cache sc) = None"
    obtain P where P: "stat_cache (TruncateCache now sc) = filter P (stat_cache sc)" "\<forall>e. 0 < notruncate (snd e) \<longrightarrow> P e"
      by (rule TruncateCache_keeps [OF sc_invD(1) [OF assms(1)], where now = now])
    show "om_find self key (stat_cache (TruncateCache now sc)) = None"
      using n by (simp add: P(1) om_find_filter [OF sc_invD(1) [OF assms(1)]])
  qed
  then show ?thesis using assms(2) by (auto simp: make_room_def DelStat_find)
qed

lemma sc_inv_pin:
  assumes "sc_inv sc" and "good_path k" and "0 < notruncate ent"
  shows "sc_inv (AddNotruncateCache k (sc\<lparr>stat_cache := om_set self k ent (stat_cache sc)\<rparr>))" (is "sc_inv (AddNotruncateCache k ?sc)")
proof (rule sc_invI)
  note inv = sc_invD [OF assms(1)]
  show "\<forall>dir. distinct (nt_list (AddNotruncateCache k ?sc) dir)" by (rule nt_distinct(1) [OF assms(2)]) (use inv(3) in simp)
  fix d n assume d: "good_dir d" "good_name n"
  show "n \<in> set (nt_list (AddNotruncateCache k ?sc) (d @ ''/'')) \<longleftrightarrow> pinned (AddNotruncateCache k ?sc) (d @ CHR ''/'' # n)"
    using AddNotruncate_in [OF assms(2) d] inv(4) [OF d] assms(3) by auto
qed (use sc_invD [OF assms(1)] in auto)

lemma AddNotruncate_cache_commute:
  "AddNotruncateCache k (sc\<lparr>stat_cache := c\<rparr>) = (AddNotruncateCache k sc)\<lparr>stat_cache := c\<rparr>"
  by (auto simp: AddNotruncateCache_def Let_def split: option.split)

lemma sc_inv_unpin:
  assumes "sc_inv sc" and "good_path k" and "notruncate ent = 0"
  shows "sc_inv (DelNotruncateCache k (sc\<lparr>stat_cache := om_set self k ent (stat_cache sc)\<rparr>))" (is "sc_inv (DelNotruncateCache k ?sc)")
proof (rule sc_invI)
  note inv = sc_invD [OF assms(1)]
  have nt: "\<forall>dir. distinct (nt_list ?sc dir)" using inv(3) by simp
  show "\<forall>dir. distinct (nt_list (DelNotruncateCache k ?sc) dir)" by (rule nt_distinct(2) [OF assms(2) nt])
  fix d n assume d: "good_dir d" "good_name n"
  show "n \<in> set (nt_list (DelNotruncateCache k ?sc) (d @ ''/'')) \<longleftrightarrow> pinned (DelNotruncateCache k ?sc) (d @ CHR ''/'' # n)"
    using DelNotruncate_in [OF assms(2) d nt] inv(4) [OF d] assms(3) by auto
qed (use sc_invD [OF assms(1)] in auto)

lemma ChangeNoTruncateFlag_inv:
  assumes "sc_inv sc" and "good_path k"
  shows "sc_inv (ChangeNoTruncateFlag k b sc)"
proof (cases "om_find self k (stat_cache sc)")
  case (Some ent)
  have p: "pinned sc k \<longleftrightarrow> 0 < notruncate ent" using Some by (simp add: pinned_def)
  have "sc_inv (sc\<lparr>stat_cache := om_set self k (ent\<lparr>notruncate := c\<rparr>) (stat_cache sc)\<rparr>)" if "0 < c \<longleftrightarrow> 0 < notruncate ent" for c
    by (rule sc_inv_set [OF assms(1)]) (use that p in simp)
  moreover have "sc_inv ((AddNotruncateCache k sc)\<lparr>stat_cache := om_set self k (ent\<lparr>notruncate := Suc c\<rparr>) (stat_cache sc)\<rparr>)" for c
    using sc_inv_pin [OF assms, of "ent\<lparr>notruncate := Suc c\<rparr>"] by (simp add: AddNotruncate_cache_commute)
  moreover have "sc_inv (DelNotruncateCache k (sc\<lparr>stat_cache := om_set self k (ent\<lparr>notruncate := 0\<rparr>) (stat_cache sc)\<rparr>))"
    by (rule sc_inv_unpin [OF assms]) simp
  ultimately show ?thesis using Some assms(1) by (auto simp: ChangeNoTruncateFlag_def Let_def)
qed (use assms(1) in \<open>simp add: ChangeNoTruncateFlag_def\<close>)

lemma AddNoObjectCache_inv:
  assumes "sc_inv sc" and "good_path key"
  shows "sc_inv (AddNoObjectCache now key sc)"
proof -
  let ?sc = "make_room now key sc"
  have "sc_inv (?sc\<lparr>stat_cache := om_set self key ent (stat_cache ?sc)\<rparr>)" if "notruncate ent = 0" for ent
    by (rule sc_inv_set [OF make_room_inv [OF assms]]) (simp add: that pinned_def make_room_free [OF assms])
  then show ?thesis using assms(1) by (simp add: AddNoObjectCache_def Let_def DelSymlink_inv)
qed

lemma DelSymlink_AddNotruncate: "AddNotruncateCache k (DelSymlink j sc) = DelSymlink j (AddNotruncateCache k sc)"
  by (auto simp: AddNotruncateCache_def DelSymlink_def Let_def split: option.split)

lemma AddStat_inv:
  assumes "sc_inv sc" and "good_path key"
  shows "sc_inv (AddStat env now key meta forcedir no_truncate sc)"
proof -
  let ?sc = "make_room now key sc"
  note inv = make_room_inv [OF assms, of now]
  have "sc_inv (?sc\<lparr>stat_cache := om_set self key ent (stat_cache ?sc)\<rparr>)" if "notruncate ent = 0" for ent
    by (rule sc_inv_set [OF inv]) (simp add: that pinned_def make_room_free [OF assms])
  moreover have "sc_inv (AddNotruncateCache key (?sc\<lparr>stat_cache := om_set self key ent (stat_cache ?sc)\<rparr>))"
    if "notruncate ent = 1" for ent
    by (rule sc_inv_pin [OF inv assms(2)]) (simp add: that)
  ultimately show ?thesis
    using assms(1) by (simp add: AddStat_def Let_def DelSymlink_inv DelSymlink_AddNotruncate)
qed

subsection \<open>Sequences of operations\<close>

datatype sc_op = Get string bool "string option" | NoObject string bool | Add string headers_t bool bool
  | Update string headers_t | AddNo string | Flag string bool | Del string
  | GetLink string | AddLink string string | DelLink string

fun op_key :: "sc_op \<Rightarrow> string" where
  "op_key (Get k _ _) = k" | "op_key (NoObject k _) = k" | "op_key (Add k _ _ _) = k" | "op_key (Update k _) = k"
| "op_key (AddNo k) = k" | "op_key (Flag k _) = k" | "op_key (Del k) = k" | "op_key (GetLink k) = k"
| "op_key (AddLink k _) = k" | "op_key (DelLink k) = k"

fun run_op :: "process_env \<Rightarrow> timespec \<times> sc_op \<Rightarrow> StatCache \<Rightarrow> StatCache" where
  "run_op env (now, Get k overcheck petag) sc = snd (GetStat now k overcheck petag sc)"
| "run_op env (now, NoObject k overcheck) sc = snd (IsNoObjectCache now k overcheck sc)"
| "run_op env (now, Add k meta forcedir no_truncate) sc = AddStat env now k meta forcedir no_truncate sc"
| "run_op env (now, Update k meta) sc = UpdateMetaStats env now k meta sc"
| "run_op env (now, AddNo k) sc = AddNoObjectCache now k sc"
| "run_op env (now, Flag k b) sc = ChangeNoTruncateFlag k b sc"
| "run_op env (now, Del k) sc = DelStat k sc"
| "run_op env (now, GetLink k) sc = snd (GetSymlink now k sc)"
| "run_op env (now, AddLink k v) sc = AddSymlink now k v sc"
| "run_op env (now, DelLink k) sc = DelSymlink k sc"

definition run_ops :: "process_env \<Rightarrow> (timespec \<times> sc_op) list \<Rightarrow> StatCache \<Rightarrow> StatCache" where
  "run_ops env ops sc = fold (run_op env) ops sc"

lemma run_op_inv: "sc_inv sc \<Longrightarrow> good_path (op_key (snd op)) \<Longrightarrow> sc_inv (run_op env op sc)"
  by (cases op; cases "snd op")
    (auto simp: GetStat_inv IsNoObjectCache_inv AddStat_inv UpdateMetaStats_inv AddNoObjectCache_inv
      ChangeNoTruncateFlag_inv DelStat_inv GetSymlink_inv AddSymlink_inv DelSymlink_inv)

lemma run_ops_inv:
  "sc_inv sc \<Longrightarrow> \<forall>op \<in> set ops. good_path (op_key (snd op)) \<Longrightarrow> sc_inv (run_ops env ops sc)"
  by (induction ops arbitrary: sc) (auto simp: run_ops_def run_op_inv)

text \<open>A cache with nothing in it, whatever its options are.\<close>

definition empty_cache :: "StatCache \<Rightarrow> bool" where
  "empty_cache sc = (stat_cache sc = [] \<and> symlink_cache sc = [] \<and> notruncate_file_cache sc = [])"

lemma StatCache_new_empty: "empty_cache StatCache_new"
  by (simp add: empty_cache_def StatCache_new_def)

lemma empty_cache_inv: "empty_cache sc \<Longrightarrow> sc_inv sc"
  by (rule sc_invI) (auto simp: empty_cache_def nt_list_def pinned_def)

text \<open>No operation adds a name under \<^verbatim>\<open>/\<close>, where the listing of the root directory looks.\<close>

lemma nt_root:
  "nt_list (AddNotruncateCache k sc) ''/'' = nt_list sc ''/''" "nt_list (DelNotruncateCache k sc) ''/'' = nt_list sc ''/''"
  by (auto simp: AddNotruncateCache_def DelNotruncateCache_def nt_list_def Let_def split: option.split)

lemma nt_root_del: "nt_list (DelStat k sc) ''/'' = nt_list sc ''/''"
  by (simp add: DelStat_def Let_def drop_stat_def nt_root split: option.split)

lemma nt_root_room: "nt_list (make_room now k sc) ''/'' = nt_list sc ''/''"
  using nt_list_eq [of "TruncateCache now sc" sc] by (simp add: make_room_def nt_root_del)

lemma nt_root_op: "nt_list (run_op env op sc) ''/'' = nt_list sc ''/''"
proof -
  have link: "nt_list (DelSymlink k sc) ''/'' = nt_list sc ''/''" for k sc by (simp add: DelSymlink_def)
  show ?thesis
    by (cases op; cases "snd op")
      (auto simp: GetStat_def IsNoObjectCache_def AddStat_def UpdateMetaStats_def AddNoObjectCache_def ChangeNoTruncateFlag_def
        GetSymlink_def AddSymlink_def TruncateSymlink_def Let_def nt_root nt_root_del nt_root_room link split: option.split)
qed

lemma nt_root_ops: "nt_list (run_ops env ops sc) ''/'' = nt_list sc ''/''"
  by (induction ops arbitrary: sc) (simp_all add: run_ops_def nt_root_op)

text \<open>An operation on another path leaves a pinned entry as it is, and makes no entry.\<close>

definition away :: "string \<Rightarrow> string \<Rightarrow> bool" where
  "away key k = (key \<noteq> k \<and> key \<noteq> twin k)"

definition keeps :: "string \<Rightarrow> StatCache \<Rightarrow> StatCache \<Rightarrow> bool" where
  "keeps k sc sc' =
     ((om_find self k (stat_cache sc) = None \<longrightarrow> om_find self k (stat_cache sc') = None) \<and>
      (\<forall>ent. om_find self k (stat_cache sc) = Some ent \<longrightarrow> 0 < notruncate ent \<longrightarrow> om_find self k (stat_cache sc') = Some ent))"

lemma keeps_same: "om_find self k (stat_cache sc') = om_find self k (stat_cache sc) \<Longrightarrow> keeps k sc sc'"
  by (simp add: keeps_def)

lemma keeps_trans: "keeps k sc sc' \<Longrightarrow> keeps k sc' sc'' \<Longrightarrow> keeps k sc sc''"
  by (auto simp: keeps_def)

lemma away_twin:
  assumes "good_path key" and "key \<noteq> ''/''" and "good_path k" and "k \<noteq> ''/''" and "away key k"
  shows "away (twin key) k" and "away key (twin k)"
  using assms good_path_twin [OF assms(1,2)] good_path_twin [OF assms(3,4)] by (auto simp: away_def)

lemma DelStat_same:
  assumes "good_path p" and "good_path k" and "k \<noteq> ''/''" and "away p k"
  shows "om_find self k (stat_cache (DelStat p sc)) = om_find self k (stat_cache sc)"
  using assms good_path_twin [OF assms(2,3)] good_path_twin [OF assms(1)] by (auto simp: DelStat_find away_def)

lemma find_stat_away:
  assumes "find_stat key overcheck sc = Some (p, ent)" and "good_path key" and "good_path k" and "k \<noteq> ''/''" and "away key k"
  shows "good_path p" and "away p k"
proof -
  show "good_path p" by (rule find_stat_path [OF assms(1,2)])
  have "key \<noteq> ''/'' \<Longrightarrow> away (twin key) k" by (rule away_twin(1) [OF assms(2) _ assms(3-5)])
  then show "away p k" using find_statD(2) [OF assms(1)] assms(5) by (cases "key = ''/''") (auto simp: ends_slash_def)
qed

lemma make_room_keeps:
  assumes "sc_inv sc" and "good_path key" and "good_path k" and "k \<noteq> ''/''" and "away key k"
  shows "keeps k sc (make_room now key sc)"
proof -
  note ok = sc_invD(1) [OF assms(1)]
  have "keeps k sc (TruncateCache now sc)"
  proof -
    obtain P where P: "stat_cache (TruncateCache now sc) = filter P (stat_cache sc)" "\<forall>e. 0 < notruncate (snd e) \<longrightarrow> P e"
      by (rule TruncateCache_keeps [OF ok, where now = now])
    then show ?thesis by (auto simp: keeps_def P(1) om_find_filter [OF ok])
  qed
  moreover have "keeps k sc (DelStat key sc)" by (rule keeps_same) (rule DelStat_same [OF assms(2-5)])
  moreover have "keeps k sc sc" by (simp add: keeps_same)
  ultimately show ?thesis by (simp add: make_room_def)
qed

lemma run_op_keeps:
  assumes "sc_inv sc" and "good_path (op_key (snd op))" and "good_path k" and "k \<noteq> ''/''" and "away (op_key (snd op)) k"
  shows "keeps k sc (run_op env op sc)"
proof -
  obtain now o' where op: "op = (now, o')" by (cases op)
  note room = make_room_keeps [OF assms, of now]
  have nk: "k \<noteq> op_key o'" using assms(5) op by (auto simp: away_def)
  have del: "keeps k sc (DelStat (op_key o') sc)" using DelStat_same assms op by (intro keeps_same) simp
  have found: "om_find self k (stat_cache (DelStat p sc)) = om_find self k (stat_cache sc) \<and> k \<noteq> p"
    if "find_stat (op_key o') oc sc = Some (p, ent)" for oc p ent
    using find_stat_away [OF that] DelStat_same assms op by (auto simp: away_def)
  show ?thesis
  proof (cases o')
    case (Get k' oc petag)
    then show ?thesis using found [of oc] op by (auto simp: GetStat_def intro!: keeps_same split: option.split)
  next
    case (NoObject k' oc)
    then show ?thesis using found [of oc] op by (auto simp: IsNoObjectCache_def intro!: keeps_same split: option.split)
  next
    case (Add k' meta fd nt)
    then show ?thesis using room nk op by (auto simp: AddStat_def Let_def DelSymlink_def keeps_def)
  next
    case (Update k' meta)
    then show ?thesis using nk op by (auto simp: UpdateMetaStats_def intro!: keeps_same split: option.split)
  next
    case (AddNo k')
    then show ?thesis using room nk op by (auto simp: AddNoObjectCache_def Let_def DelSymlink_def keeps_def)
  next
    case (Flag k' b)
    then show ?thesis using nk op by (auto simp: ChangeNoTruncateFlag_def Let_def intro!: keeps_same split: option.split)
  next
    case (Del k')
    then show ?thesis using del op by simp
  next
    case (GetLink k')
    then show ?thesis using op by (auto simp: GetSymlink_def DelSymlink_def intro!: keeps_same split: option.split)
  next
    case (AddLink k' v)
    then show ?thesis using op
      by (auto simp: AddSymlink_def Let_def DelSymlink_def TruncateSymlink_def intro!: keeps_same)
  next
    case (DelLink k')
    then show ?thesis using op by (auto simp: DelSymlink_def intro!: keeps_same)
  qed
qed

lemma run_ops_keeps:
  assumes "sc_inv sc" and "good_path k" and "k \<noteq> ''/''"
    and "\<forall>op \<in> set ops. good_path (op_key (snd op)) \<and> away (op_key (snd op)) k"
  shows "keeps k sc (run_ops env ops sc)"
  using assms(1,4)
proof (induction ops arbitrary: sc)
  case Nil
  then show ?case by (simp add: run_ops_def keeps_def)
next
  case (Cons op ops)
  have "keeps k sc (run_op env op sc)" using run_op_keeps [OF Cons.prems(1) _ assms(2,3)] Cons.prems(2) by simp
  moreover have "sc_inv (run_op env op sc)" using Cons.prems by (simp add: run_op_inv)
  then have "keeps k (run_op env op sc) (run_ops env ops (run_op env op sc))" using Cons by simp
  ultimately show ?case using keeps_trans by (auto simp: run_ops_def)
qed

text \<open>The list of a directory: the names given, and those of the pinned entries.\<close>

lemma fold_add_names: "set (fold (\<lambda>f l. if f \<in> set l then l else l @ [f]) fs names) = set names \<union> set fs"
  by (induction fs arbitrary: names) auto

lemma GetNotruncateCache_names:
  assumes "sc_inv sc" and "good_dir d" and "good_name n"
  shows "fst (GetNotruncateCache d names sc)"
    and "n \<in> set (snd (GetNotruncateCache d names sc)) \<longleftrightarrow> n \<in> set names \<or> pinned sc (d @ CHR ''/'' # n)"
proof -
  have d: "d \<noteq> []" "\<not> ends_slash d" using assms(2) by (auto simp: good_dir_def)
  have "set (snd (GetNotruncateCache d names sc)) = set names \<union> set (nt_list sc (d @ ''/''))"
    using d by (simp add: GetNotruncateCache_def nt_list_def fold_add_names split: option.split)
  then show "n \<in> set (snd (GetNotruncateCache d names sc)) \<longleftrightarrow> n \<in> set names \<or> pinned sc (d @ CHR ''/'' # n)"
    using sc_invD(4) [OF assms] by simp
  show "fst (GetNotruncateCache d names sc)" using d by (simp add: GetNotruncateCache_def split: option.split)
qed

subsection \<open>A new file is seen until it is uploaded\<close>

lemma AddNotruncate_no_change: "om_find self j (stat_cache (AddNotruncateCache k sc)) = om_find self j (stat_cache sc)"
  by simp

lemma AddStat_find:
  assumes "no_truncate \<or> 0 < CacheSize sc"
  shows "om_find self j (stat_cache (AddStat env now key meta forcedir no_truncate sc)) =
    (if j = key then Some \<lparr>stbuf = convert_header_to_stat env key meta forcedir, hit_count = 0, cache_date = now,
       ent_meta = kept_headers meta [], isforce = forcedir, noobjcache = False, notruncate = (if no_truncate then 1 else 0)\<rparr>
     else om_find self j (stat_cache (make_room now key sc)))"
  using assms by (auto simp: AddStat_def Let_def DelSymlink_def)

lemma GetStat_hit:
  assumes "om_find self k (stat_cache sc) = Some ent" and "overcheck \<and> \<not> ends_slash k \<longrightarrow> om_find self (k @ ''/'') (stat_cache sc) = None"
    and "alive now sc ent" and "\<not> noobjcache ent"
  shows "fst (GetStat now k overcheck None sc) = Some (stbuf ent, ent_meta ent, isforce ent)"
proof -
  have "find_stat k overcheck sc = Some (k, ent)" using assms(1,2) by (auto simp: find_stat_def Let_def)
  then show ?thesis using assms(3,4) by (simp add: GetStat_def etag_differs_def)
qed

text \<open>C31:
  A file that is created is seen until something says otherwise.  Take a cache with any options after any operations on
  paths, add the entry of a new file \<open>d/n\<close> with the flag that it is not uploaded, and run any further operations on
  other paths, which may fill the cache, empty it by age or list it.  At any later time a lookup of the file gives the
  attributes and headers it was created with; a lookup that also tries \<^verbatim>\<open>d/n/\<close> does when that path had no entry
  before.  The directory \<open>d\<close> lists the name beside the names it is given, unless it is the root directory (empty
  \<open>d\<close>), whose list never gets a name added.
\<close>

theorem created_file_stays:
  assumes empty: "empty_cache sc0" and d: "d = [] \<or> good_dir d" and n: "good_name n"
    and before: "\<forall>op \<in> set ops0. good_path (op_key (snd op))"
    and no_dir: "overcheck \<longrightarrow> om_find self (d @ CHR ''/'' # n @ ''/'') (stat_cache (run_ops env ops0 sc0)) = None"
    and after: "\<forall>op \<in> set ops. good_path (op_key (snd op)) \<and> away (op_key (snd op)) (d @ CHR ''/'' # n)"
    and sc: "sc = run_ops env ops (AddStat env now (d @ CHR ''/'' # n) meta forcedir True (run_ops env ops0 sc0))"
  shows "fst (GetStat later (d @ CHR ''/'' # n) overcheck None sc) =
      Some (convert_header_to_stat env (d @ CHR ''/'' # n) meta forcedir, kept_headers meta [], forcedir)
    \<and> (if d = [] then GetNotruncateCache ''/'' names sc = (True, names)
       else n \<in> set (snd (GetNotruncateCache d names sc)))"
proof -
  let ?k = "d @ CHR ''/'' # n" and ?sc0 = "run_ops env ops0 sc0"
  let ?sc1 = "AddStat env now ?k meta forcedir True ?sc0"
  have "file_path ?k" unfolding file_path_def using d n by blast
  then have "good_path ?k" by (simp add: good_path_def)
  moreover have "?k \<noteq> ''/''" using n by (cases d) (simp_all add: good_name_def)
  ultimately have k: "good_path ?k" "?k \<noteq> ''/''" by auto
  have ne: "\<not> ends_slash ?k" by (rule name_not_end [OF n])
  have tw: "twin ?k = ?k @ ''/''" using ne by (simp add: twin_def)
  have gt: "good_path (?k @ ''/'')" "?k @ ''/'' \<noteq> ''/''" "twin (?k @ ''/'') = ?k"
    using good_path_twin [OF k] unfolding tw by blast+
  have i0: "sc_inv ?sc0" by (rule run_ops_inv [OF empty_cache_inv [OF empty] before])
  have i1: "sc_inv ?sc1" by (rule AddStat_inv [OF i0 k(1)])
  have i2: "sc_inv sc" unfolding sc by (rule run_ops_inv [OF i1]) (use after in blast)
  have f1: "om_find self ?k (stat_cache ?sc1) = Some \<lparr>stbuf = convert_header_to_stat env ?k meta forcedir, hit_count = 0,
      cache_date = now, ent_meta = kept_headers meta [], isforce = forcedir, noobjcache = False, notruncate = 1\<rparr>"
    by (simp add: AddStat_find)
  have f2: "om_find self ?k (stat_cache sc) = Some \<lparr>stbuf = convert_header_to_stat env ?k meta forcedir, hit_count = 0,
      cache_date = now, ent_meta = kept_headers meta [], isforce = forcedir, noobjcache = False, notruncate = 1\<rparr>"
    using run_ops_keeps [OF i1 k after] f1 by (simp add: keeps_def sc)
  have n2: "om_find self (?k @ ''/'') (stat_cache sc) = None" if overcheck
  proof -
    have nd: "om_find self (?k @ ''/'') (stat_cache ?sc0) = None" using no_dir that by simp
    obtain P where P: "stat_cache (TruncateCache now ?sc0) = filter P (stat_cache ?sc0)" "\<forall>e. 0 < notruncate (snd e) \<longrightarrow> P e"
      by (rule TruncateCache_keeps [OF sc_invD(1) [OF i0], where now = now])
    have "om_find self (?k @ ''/'') (stat_cache (make_room now ?k ?sc0)) = None"
      using nd k by (auto simp: make_room_def DelStat_find P(1) om_find_filter [OF sc_invD(1) [OF i0]])
    then have "om_find self (?k @ ''/'') (stat_cache ?sc1) = None" by (simp add: AddStat_find)
    moreover have "\<forall>op \<in> set ops. good_path (op_key (snd op)) \<and> away (op_key (snd op)) (?k @ ''/'')"
      using after gt(3) tw by (auto simp: away_def)
    ultimately show ?thesis using run_ops_keeps [OF i1 gt(1,2)] by (simp add: keeps_def sc)
  qed
  have "fst (GetStat later ?k overcheck None sc) = Some (convert_header_to_stat env ?k meta forcedir, kept_headers meta [], forcedir)"
    using GetStat_hit [OF f2] n2 by (simp add: alive_def)
  moreover have "pinned sc ?k" by (simp add: pinned_def f2)
  moreover have "nt_list sc ''/'' = []"
  proof -
    have "nt_list ?sc1 ''/'' = nt_list ?sc0 ''/''" using nt_root_op [of env "(now, Add ?k meta forcedir True)"] by simp
    moreover have "nt_list sc0 ''/'' = []" using empty by (simp add: empty_cache_def nt_list_def)
    ultimately show ?thesis by (simp add: sc nt_root_ops)
  qed
  then have "GetNotruncateCache ''/'' names sc = (True, names)"
    by (auto simp: GetNotruncateCache_def nt_list_def ends_slash_def split: option.splits)
  ultimately show ?thesis using GetNotruncateCache_names(2) [OF i2 _ n] d by auto
qed

theorem created_file_stays_witness:
  "''f'' \<in> set (snd (GetNotruncateCache ''/d'' [''g'']
     (run_ops demo_env [(\<lparr>tv_sec = 9999, tv_nsec = 0\<rparr>, Add ''/d/h'' [] False False)]
       (AddStat demo_env zero_time ''/d/f'' [] False True (run_ops demo_env [] StatCache_new))))) \<and>
   fst (GetStat \<lparr>tv_sec = 99999, tv_nsec = 0\<rparr> ''/f'' True None
     (run_ops demo_env [(\<lparr>tv_sec = 9999, tv_nsec = 0\<rparr>, Add ''/d/h'' [] False False)]
       (AddStat demo_env zero_time ''/f'' [] False True (run_ops demo_env [] (StatCache_new\<lparr>CacheSize := 0\<rparr>))))) \<noteq> None"
proof -
  have n: "good_name ''f''" "good_name ''h''" "good_name ''d''" and d: "good_dir ''/d''"
    by (simp_all add: good_name_def good_dir_def ends_slash_def)
  have h: "good_path ''/d/h''" unfolding good_path_def file_path_def
    by (intro disjI2 disjI1 exI [of _ "''/d''"] exI [of _ "''h''"]) (use n d in simp)
  have e: "empty_cache (StatCache_new\<lparr>CacheSize := 0\<rparr>)" by (simp add: empty_cache_def StatCache_new_def)
  have "away ''/d/h'' ''/d/f''" "away ''/d/h'' ''/f''" by (simp_all add: away_def twin_def ends_slash_def)
  then show ?thesis
    using created_file_stays [OF StatCache_new_empty disjI2 [OF d] n(1), of "[]" True demo_env
        "[(\<lparr>tv_sec = 9999, tv_nsec = 0\<rparr>, Add ''/d/h'' [] False False)]" _ zero_time "[]" False zero_time "[''g'']"]
      created_file_stays [OF e disjI1 [OF refl] n(1), of "[]" True demo_env
        "[(\<lparr>tv_sec = 9999, tv_nsec = 0\<rparr>, Add ''/d/h'' [] False False)]" _ zero_time "[]" False
        "\<lparr>tv_sec = 99999, tv_nsec = 0\<rparr>" "[''g'']"] h
    by (simp add: run_ops_def StatCache_new_def)
qed

text \<open>
  The name of a new file in the root directory is kept under \<^verbatim>\<open>//\<close>, where the listing of the root does not look.
\<close>

lemma root_file_not_listed:
  "nt_list (AddNotruncateCache ''/f'' StatCache_new) ''//'' = [''f'']"
  "GetNotruncateCache ''/'' [] (AddNotruncateCache ''/f'' StatCache_new) = (True, [])"
proof -
  have "good_name ''f''" by (simp add: good_name_def)
  from dirname_root [OF this] show "nt_list (AddNotruncateCache ''/f'' StatCache_new) ''//'' = [''f'']"
      "GetNotruncateCache ''/'' [] (AddNotruncateCache ''/f'' StatCache_new) = (True, [])"
    by (simp_all add: AddNotruncateCache_def GetNotruncateCache_def nt_list_def ends_slash_def StatCache_new_def Let_def)
qed

subsection \<open>A full cache drops what is oldest\<close>

lemma oldest_rest: "oldest age n xs r \<Longrightarrow> distinct xs \<Longrightarrow> length (filter (\<lambda>e. e \<notin> set r) xs) = length xs - min n (length xs)"
proof -
  assume o: "oldest age n xs r" and d: "distinct xs"
  have "length (filter (\<lambda>e. e \<in> set r) xs) = card (set xs \<inter> set r)" using d by (subst distinct_card [symmetric]) (auto simp: Int_def)
  also have "set xs \<inter> set r = set r" using o by (auto simp: oldest_def)
  also have "card (set r) = min n (length xs)" using o by (simp add: oldest_def distinct_card)
  finally show ?thesis using sum_length_filter_compl [of "\<lambda>e. e \<in> set r" xs] by simp
qed

text \<open>C32:
  What leaves the cache when there is no room: entries that may be dropped and are too old; and of the others that may
  be dropped, when all entries that are left fill the cache, exactly so many that fewer than the size of the cache are
  left, and none that is dropped is younger, by time and then by the number of hits, than one that stays.  Pinned
  entries are on top of the size.
\<close>

theorem TruncateCache_drops_oldest:
  assumes "sc_inv sc"
  shows "(\<forall>e \<in> set (stat_cache (TruncateCache now sc)). e \<in> set (young now sc))
    \<and> (\<forall>e \<in> set (young now sc) - set (stat_cache (TruncateCache now sc)). notruncate (snd e) = 0 \<and>
         (\<forall>e' \<in> set (unpinned (stat_cache (TruncateCache now sc))). stat_age e \<le> stat_age e'))
    \<and> length (unpinned (stat_cache (TruncateCache now sc))) =
        (if length (young now sc) < CacheSize sc then length (unpinned (young now sc))
         else min (length (unpinned (young now sc))) (CacheSize sc - 1))"
proof -
  let ?m = "young now sc" and ?c = "stat_cache (TruncateCache now sc)" and ?p = "length (filter (\<lambda>e. 0 < notruncate (snd e)) (young now sc))"
  let ?n = "if length ?m < CacheSize sc then 0 else length ?m - CacheSize sc + 1 - ?p"
  note ok = sc_invD(1) [OF assms]
  obtain r where r: "?c = filter (\<lambda>e. e \<notin> set r) ?m" and o: "oldest stat_age ?n (unpinned ?m) r"
    by (rule TruncateCache_effect [OF ok, where now = now])
  have "om_ok self ?m" using ok by (simp add: young_def)
  then have dm: "distinct ?m" using om_ok_distinct_keys distinct_map by blast
  then have du: "distinct (unpinned ?m)" by (simp add: unpinned_def)
  have uc: "unpinned ?c = filter (\<lambda>e. e \<notin> set r) (unpinned ?m)" by (simp add: r unpinned_def conj_commute)
  have len: "length (unpinned ?c) = length (unpinned ?m) - min ?n (length (unpinned ?m))"
    unfolding uc by (rule oldest_rest [OF o du])
  have tot: "?p + length (unpinned ?m) = length ?m" by (rule length_unpinned)
  have "length (unpinned ?c) = (if length ?m < CacheSize sc then length (unpinned ?m)
         else min (length (unpinned ?m)) (CacheSize sc - 1))"
    unfolding len using tot by (simp add: min_def) linarith
  moreover have "\<forall>e \<in> set ?c. e \<in> set ?m" by (simp add: r)
  moreover have "notruncate (snd e) = 0 \<and> (\<forall>e' \<in> set (unpinned ?c). stat_age e \<le> stat_age e')" if e: "e \<in> set ?m - set ?c" for e
  proof -
    have "e \<in> set r" using e by (simp add: r)
    then have "e \<in> set (unpinned ?m)" using o by (auto simp: oldest_def)
    moreover have "\<forall>e' \<in> set (unpinned ?c). e' \<in> set (unpinned ?m) - set r" by (simp add: uc)
    ultimately show ?thesis using o \<open>e \<in> set r\<close> by (auto simp: oldest_def unpinned_def)
  qed
  ultimately show ?thesis by blast
qed

theorem TruncateCache_drops_oldest_witness:
  "length (unpinned (young zero_time (run_ops demo_env [(zero_time, Add ''/g'' [] False False)] (StatCache_new\<lparr>CacheSize := 1\<rparr>)))) = 1
   \<and> unpinned (stat_cache (TruncateCache zero_time
         (run_ops demo_env [(zero_time, Add ''/g'' [] False False)] (StatCache_new\<lparr>CacheSize := 1\<rparr>)))) = []"
  (is "length (unpinned (young _ ?sc)) = 1 \<and> _")
proof -
  have new: "sc_inv (StatCache_new\<lparr>CacheSize := 1\<rparr>)"
    by (rule sc_invI) (auto simp: StatCache_new_def nt_list_def pinned_def)
  have "file_path ''/g''" unfolding file_path_def
    by (intro exI [of _ "[]"] exI [of _ "''g''"]) (simp add: good_name_def)
  then have i: "sc_inv ?sc" by (intro run_ops_inv [OF new]) (simp add: good_path_def)
  obtain e where e: "stat_cache ?sc = [(''/g'', e)]" "notruncate e = 0" "cache_date e = zero_time"
    by (simp add: run_ops_def StatCache_new_def AddStat_def make_room_def Let_def)
  have c: "CacheSize ?sc = 1" "ExpireTime ?sc = 900"
    by (simp_all add: run_ops_def StatCache_new_def AddStat_def make_room_def Let_def)
  have y: "young zero_time ?sc = [(''/g'', e)]"
    using e c by (simp add: young_def alive_def IsExpireStatCacheTime_def compare_timespec_def zero_time_def)
  then have u: "length (unpinned (young zero_time ?sc)) = 1" using e by (simp add: unpinned_def)
  from TruncateCache_drops_oldest [OF i, of zero_time] u y c show ?thesis by simp
qed

end
