(* ===== verification/Spec2Isabelle.thy ===== *)
theory Spec2Isabelle
  imports Accessor Config Pool_Resize Registration Multipart Global_Servers Fd_Stat Fd_Threads Stat_Cache
begin

text \<open>
  A verification library for JYCache, a hybrid cache in front of an object store: a fork of s3fs-fuse with a local
  cache (\<^verbatim>\<open>src/local_cache\<close>) and a distributed one (\<^verbatim>\<open>src/global_cache\<close>).

  The program.  A FUSE file system (\<^verbatim>\<open>src/s3fs\<close>) keeps for every open file an entity with the list of the pages
  it has loaded and changed.  With the hybrid cache on, reads and writes go to
  \<^verbatim>\<open>HybridCacheAccessor4S3fs\<close>: a write fills the write cache, a read takes what the write cache has, then what
  the read cache has, and asks the data adaptor for the rest; a flush sends the file to the adaptor, in parts when
  it is large, and frees the write cache.  Both caches keep byte ranges of files in the pages of one page cache
  over CacheLib.  The data adaptor is S3 itself or the global one: it writes the chunks of a file to replicated
  write cache servers and a record to etcd, reads through the read cache servers, and moves files to the base
  adaptor (S3 or a file system) later.  Without the hybrid cache, the s3fs code decides by the page list and the
  list of untreated areas what to load, upload, copy and keep.

  The theories, in the order of the code they model.
  \<^item> \<open>Prelude\<close> and \<open>Effects\<close>: bytes, buffers, numbers and texts; the total-correctness rules for the state monad.
  \<^item> \<open>Page_Memory\<close>, \<open>Page_Scan\<close>, \<open>Page_Read\<close>, \<open>Page_Cache\<close> (\<^verbatim>\<open>local_cache/page_cache.cpp\<close>): the memory of a page,
    with its bitmap; the loop that finds runs of valid bytes 64 bits at a time, equal to a plain scan; the page
    operations over a parameter for CacheLib, whose documented laws are \<open>cachelib_laws\<close>.
  \<^item> \<open>Local_Config\<close>, \<open>Config\<close>, \<open>Local_Keys\<close>, \<open>Throttle\<close> (\<^verbatim>\<open>config.cpp\<close>, \<^verbatim>\<open>common.cpp\<close>, \<^verbatim>\<open>throttle.cpp\<close>): configuration
    structures, their file and its round trip, the names of pages, the rate limits over printed numbers of six digits.
  \<^item> \<open>Paged_IO\<close>, \<open>Write_Cache\<close>, \<open>Read_Cache\<close> (\<^verbatim>\<open>write_cache.cpp\<close>, \<^verbatim>\<open>read_cache.cpp\<close>): the loops over the pages of a
    byte range, once, over the locale \<open>page_store\<close>; every operation of the two caches.
  \<^item> \<open>Accessor\<close>, \<open>Pool_Resize\<close> (\<^verbatim>\<open>s3fs/hybridcache_accessor_4_s3fs.cpp\<close>): the file operations over both caches and the
    adaptor; the arithmetic of moving memory between the pools, on 64-bit words.
  \<^item> \<open>Global_Chunks\<close>, \<open>Global_State\<close>, \<open>Registration\<close>, \<open>Read_Client\<close>, \<open>Repl_Client\<close>, \<open>Global_Adaptor\<close>, \<open>Multipart\<close>
    (\<^verbatim>\<open>src/global_cache\<close>, the clients): chunks and servers, the RPC client with its registrations, the metadata, the
    read path, the replicated write path, the adaptor with upload, download, flush, deletion and garbage collection.
  \<^item> \<open>File_Adaptor\<close>, \<open>Write_Servers\<close>, \<open>Global_Servers\<close> (\<^verbatim>\<open>src/global_cache\<close>, the servers): the file system adaptor over a
    parameter for the system calls, the RocksDB and disk engines, the handlers, the S3 adaptor.
  \<^item> \<open>Fd_Page\<close>, \<open>Fd_Query\<close>, \<open>Fd_Multipart\<close>, \<open>Fd_Stat\<close> (\<^verbatim>\<open>s3fs/fdcache_page.cpp\<close>): the page list, its queries, the plan of
    a mixed multipart upload, its file and the comparison with the holes of the cache file.
  \<^item> \<open>String_Util\<close> (\<^verbatim>\<open>s3fs/string_util.cpp\<close>), \<open>Untreated\<close> (\<^verbatim>\<open>s3fs/fdcache_untreated.cpp\<close>): conversions and encodings; the
    areas written and not yet uploaded.
  \<^item> \<open>Fd_Info\<close>, \<open>Fd_Extract\<close>, \<open>Fd_Boundary\<close> (\<^verbatim>\<open>s3fs/fdcache_fdinfo.cpp\<close>, \<^verbatim>\<open>fdcache_pseudofd.cpp\<close>): open files, the parts
    they upload, and which areas become parts.  \<open>Fd_Threads\<close> (\<^verbatim>\<open>threadpoolman.cpp\<close>): the upload threads as a step relation, with reachability, invariants and the end of the wait.
  \<^item> \<open>Ordered_Map\<close>, \<open>S3fs_Util\<close>, \<open>Meta_Header\<close>, \<open>Stat_Cache\<close> (\<^verbatim>\<open>s3fs_util.cpp\<close>, \<^verbatim>\<open>metaheader.cpp\<close>, \<^verbatim>\<open>cache.cpp\<close>): maps in
    the order of their keys, names and times, the attributes in the headers of an object, and the cache of attributes,
    links and names of files not yet uploaded; every operation of the cache keeps an invariant, and a sequence of
    operations is a list.

  State and operations.  A class is a record of its members, a method a function from its arguments and the object
  to its result and the object; a loop is a recursive function with the variables of the loop.  Where a loop or a
  retry may not end the definition is a \<open>partial_function\<close> in the option monad: \<open>None\<close> is a call that does not
  return, and the theorems show that it does.  The global cache uses the state monad.  Statuses are integers, as in
  the code.  Integers are natural numbers or integers where the code cannot reach the bound of its type, and words
  where it does (\<open>Pool_Resize\<close>, \<open>Write_Servers\<close>, \<open>Page_Scan\<close>).

  What the lemmas show.  For each class there is a well-formedness predicate that its operations keep (\<open>pc_inv\<close>,
  \<open>wc_inv\<close>, \<open>acc_inv\<close>, \<open>page_list_ok\<close>, \<open>untreated_ok\<close>, \<open>upload_ok\<close>, \<open>sc_inv\<close>) and an abstraction of its state: the bytes of a
  page or a file that are cached, the bytes a reader sees, the flags of every byte, the set of untreated bytes.  The
  operations are shown to act on the abstraction as their callers expect.  Theorems that compose components:
  a read after a write through both caches, a flush that uploads what a reader sees, an upload and a download
  through the replicated servers, an upload in parts that equals one upload, a flush of an entity that splits the
  file exactly.  Where the code does not do what its caller expects there is a theorem that says what it does.

  Parameters and hypotheses.  CacheLib, folly, brpc, etcd, jsoncpp, RocksDB, the AWS client, OpenSSL's digests,
  \<^verbatim>\<open>std::hash\<close> and the system calls are not in the repository: they are arguments of the definitions, and the
  hypotheses on them state their documented behaviour; so are the conversions of doubles to text and back, which are
  near and not exact.  Every theorem with hypotheses is applied to a concrete
  instance after it.

  Threads.  Operations of one object run one after the other, futures where they are created; locks, atomics and
  flow limiters have no effect in such a run and are left out, but for the locks of the accessor and the page
  locks, whose state is kept.

  Not modelled, and why: the FUSE entry points (\<^verbatim>\<open>s3fs.cpp\<close>, \<^verbatim>\<open>s3fs_lib.cpp\<close>) but for the headers of new files and
  directories, curl requests and their answers (\<^verbatim>\<open>curl*.cpp\<close>, \<^verbatim>\<open>mpu_util.cpp\<close>, \<^verbatim>\<open>s3fs_xml.cpp\<close>) and credentials
  (\<^verbatim>\<open>s3fs_cred.cpp\<close>, the \<^verbatim>\<open>*_auth.cpp\<close>): calls of libfuse, libcurl, libxml and the crypto libraries; the manager of the
  open entities (\<^verbatim>\<open>fdcache.cpp\<close>) and the entity (\<^verbatim>\<open>fdcache_entity.cpp\<close>) but for the parts named above, which move bytes
  between descriptors of the system; listings of objects (\<^verbatim>\<open>s3objlist.cpp\<close>), added headers, logging and options; the
  adaptors that only call curl or an entity (\<^verbatim>\<open>hybridcache_s3_data_adaptor.cpp\<close>, \<^verbatim>\<open>hybridcache_disk_data_adaptor.cpp\<close>);
  the interception libraries (\<^verbatim>\<open>src/intercept\<close>, \<^verbatim>\<open>src/hadoop_posix\<close>), which forward system calls over shared memory and
  JNI; the main programs, the tests and the Python scheduler.
\<close>

end
